(* ===== verification/KV_Prelude.thy ===== *)
theory KV_Prelude
  imports Main "HOL-Library.Word" "HOL-Library.Multiset" "HOL-Library.Sublist"
begin

unbundle bit_operations_syntax

text \<open>
  Shared ground of the KianV development: the names of the machine integer types the C sources
  use, little-endian loads and stores on a byte-addressed memory, page rounding, and the
  generic facts about words, lists and loops that more than one component needs.  The
  collections \<open>word_arith\<close> and \<open>kdefs\<close> are filled by the component theories.
\<close>

section \<open>Types and collections\<close>

type_synonym u8 = "8 word"
type_synonym u16 = "16 word"
type_synonym u32 = "32 word"
type_synonym u64 = "64 word"

text \<open>A byte-addressed memory of a 32-bit machine.\<close>
type_synonym memory = "u32 \<Rightarrow> u8"

named_theorems word_arith "conversions from word operations to natural numbers"
named_theorems kdefs "definitions of the model that a proof unfolds as a group"

section \<open>Words\<close>

lemma and_not_mask_slice:
  "x AND NOT (mask n) = push_bit n (drop_bit n (x :: 'a::len word))"
  by (rule bit_word_eqI) (auto simp: bit_simps)

lemma unat_and_not_mask:
  "unat ((x :: 'a::len word) AND NOT (mask n)) = unat x div 2 ^ n * 2 ^ n"
proof -
  have "unat x div 2 ^ n * 2 ^ n \<le> unat x" by simp
  moreover have "unat x < 2 ^ LENGTH('a)" by simp
  ultimately have "unat x div 2 ^ n * 2 ^ n < 2 ^ LENGTH('a)" by linarith
  then have t: "take_bit LENGTH('a) (push_bit n (drop_bit n (unat x))) = unat x div 2 ^ n * 2 ^ n"
    by (simp add: push_bit_eq_mult drop_bit_eq_div take_bit_nat_eq_self)
  have self: "take_bit LENGTH('a) (unat x) = unat x"
    by (simp add: take_bit_nat_eq_self)
  show ?thesis
    by (simp only: and_not_mask_slice unsigned_push_bit_eq unsigned_drop_bit_eq t self
        take_bit_drop_bit [symmetric])
qed

lemma unat_and_mask: "unat ((x :: 'a::len word) AND mask n) = unat x mod 2 ^ n"
  by (metis take_bit_eq_mask unsigned_take_bit_eq take_bit_eq_mod)

lemma unat_drop_bit_div: "unat (drop_bit n (x :: 'a::len word)) = unat x div 2 ^ n"
proof -
  have self: "take_bit LENGTH('a) (unat x) = unat x"
    by (simp add: take_bit_nat_eq_self)
  show ?thesis
    by (simp only: unsigned_drop_bit_eq take_bit_drop_bit [symmetric])
      (simp add: self drop_bit_eq_div)
qed

lemma unat_mod_le: "x \<le> (y :: 'a::len word) \<longleftrightarrow> unat x \<le> unat y"
  by (simp add: word_le_nat_alt)

lemma unat_less_32: "unat (x :: u32) < 4294967296"
  using unsigned_less [of x] by simp

lemma unat_add_32: "unat ((a :: u32) + b) = (unat a + unat b) mod 4294967296"
  by (simp add: unat_word_ariths)

lemma unat_sub_32: "unat ((a :: u32) - b) = (unat a + (4294967296 - unat b)) mod 4294967296"
proof -
  have "unat (a - b) = nat ((int (unat a) - int (unat b)) mod 4294967296)"
    by (simp add: unat_word_ariths uint_word_ariths flip: nat_uint_eq)
  also have "int (unat a) - int (unat b) + 4294967296
      = int (unat a + (4294967296 - unat b))"
    using unat_less_32 [of b] by (simp add: of_nat_diff)
  then have "(int (unat a) - int (unat b)) mod 4294967296
      = int (unat a + (4294967296 - unat b)) mod 4294967296"
    by (metis mod_add_self2)
  finally show ?thesis by (simp add: nat_mod_distrib del: of_nat_add of_nat_diff)
qed

lemma unat_sub_le: "b \<le> a \<Longrightarrow> unat ((a :: u32) - b) = unat a - unat b"
  by (simp add: unat_sub word_le_nat_alt)

lemma unat_sub_if: "unat ((a :: u32) - b) =
    (if unat b \<le> unat a then unat a - unat b else unat a + 4294967296 - unat b)"
  using unat_less_32 [of a] unat_less_32 [of b] unat_sub_32 [of a b]
  by (auto simp: word_le_nat_alt mod_if split: if_splits)

lemma word_eq_unat: "(x :: 'a::len word) = y \<longleftrightarrow> unat x = unat y"
  by (simp add: unsigned_word_eqI word_unat_eq_iff)

lemma unat_of_nat_32: "n < 4294967296 \<Longrightarrow> unat (of_nat n :: u32) = n"
  by (simp add: unsigned_of_nat take_bit_nat_eq_self)

lemmas u32_nat [word_arith] = word_le_nat_alt word_less_nat_alt unat_add_32 unat_sub_if word_eq_unat

lemma sint_32: "sint (x :: u32) = (if uint x < 2147483648 then uint x else uint x - 4294967296)"
proof -
  have u: "uint x < 4294967296" "0 \<le> uint x" using uint_bounded [of x] by simp_all
  have "sint x = (uint x + 2147483648) mod 4294967296 - 2147483648"
    by (simp add: sint_uint signed_take_bit_eq_take_bit_shift take_bit_eq_mod)
  moreover have "(uint x + 2147483648) mod 4294967296 = uint x - 2147483648" if "\<not> uint x < 2147483648"
    using that u mod_pos_pos_trivial [of "uint x - 2147483648" 4294967296] mod_add_self2 [of "uint x - 2147483648" 4294967296] by (simp add: add.commute)
  ultimately show ?thesis using u by (auto simp: mod_pos_pos_trivial)
qed

section \<open>Little-endian words in a byte memory\<close>

text \<open>\<open>*(uint32*)a\<close> and \<open>*(uint32*)a = v\<close> on the little-endian RV32 core.\<close>

definition load32 :: "memory \<Rightarrow> u32 \<Rightarrow> u32" where
  "load32 m a = ucast (m a) OR push_bit 8 (ucast (m (a + 1)))
     OR push_bit 16 (ucast (m (a + 2))) OR push_bit 24 (ucast (m (a + 3)))"

definition store32 :: "memory \<Rightarrow> u32 \<Rightarrow> u32 \<Rightarrow> memory" where
  "store32 m a v = m(a := ucast v, a + 1 := ucast (drop_bit 8 v),
     a + 2 := ucast (drop_bit 16 v), a + 3 := ucast (drop_bit 24 v))"

lemma word_cat4:
  "ucast (ucast v :: u8) OR push_bit 8 (ucast (ucast (drop_bit 8 v) :: u8))
     OR push_bit 16 (ucast (ucast (drop_bit 16 v) :: u8))
     OR push_bit 24 (ucast (ucast (drop_bit 24 v) :: u8)) = (v :: u32)" (is "?l = v")
proof (rule bit_word_eqI)
  fix n assume "n < LENGTH(32)"
  then consider "n < 8" | "8 \<le> n \<and> n < 16" | "16 \<le> n \<and> n < 24" | "24 \<le> n \<and> n < 32"
    by force
  then show "bit ?l n = bit v n"
    by cases (auto simp: bit_simps)
qed

lemma load32_store32_same [simp]: "load32 (store32 m a v) a = v"
proof -
  have "a + 1 \<noteq> a" "a + 2 \<noteq> a" "a + 3 \<noteq> a" "a + 2 \<noteq> a + 1" "a + 3 \<noteq> a + 1" "a + 3 \<noteq> a + 2"
    by simp_all
  then show ?thesis by (simp add: load32_def store32_def word_cat4)
qed

lemma load32_cong:
  "m a = m' a \<Longrightarrow> m (a + 1) = m' (a + 1) \<Longrightarrow> m (a + 2) = m' (a + 2) \<Longrightarrow> m (a + 3) = m' (a + 3)
   \<Longrightarrow> load32 m a = load32 m' a"
  by (simp add: load32_def)

lemma store32_other:
  "4 \<le> unat (b - a) \<Longrightarrow> store32 m a v b = m b"
  by (auto simp: store32_def)

lemma add_small_diff: "(a :: u32) + k - b = a - b + k"
  by simp

lemma load32_store32_other:
  assumes "4 \<le> unat (b - a)" and "4 \<le> unat (a - b)"
  shows "load32 (store32 m a v) b = load32 m b"
proof -
  have lt: "unat (b - a) \<le> 4294967292"
    using assms unat_less_32 [of "b - a"] by (auto simp: unat_sub_if split: if_splits)
  have st: "4 \<le> unat (b + k - a)" if "unat k < 4" for k
  proof -
    have "unat (b - a + k) = unat (b - a) + unat k"
      using lt that by (simp add: unat_add_32)
    then show ?thesis using assms(1) by (simp add: add_small_diff)
  qed
  from st [of 0] st [of 1] st [of 2] st [of 3] show ?thesis
    by (intro load32_cong store32_other) simp_all
qed

section \<open>Pages\<close>

text \<open>\<open>PGSIZE\<close>, \<open>PGROUNDUP\<close> and \<open>PGROUNDDOWN\<close> of kernel/riscv.h, on 32-bit addresses.\<close>

abbreviation PGSIZE :: u32 where "PGSIZE \<equiv> 4096"

definition PGROUNDUP :: "u32 \<Rightarrow> u32" where
  "PGROUNDUP sz = (sz + PGSIZE - 1) AND NOT (PGSIZE - 1)"

definition PGROUNDDOWN :: "u32 \<Rightarrow> u32" where
  "PGROUNDDOWN a = a AND NOT (PGSIZE - 1)"

lemma pgmask: "(PGSIZE - 1 :: u32) = mask 12"
  by (simp add: mask_eq_exp_minus_1)

lemma unat_PGROUNDDOWN: "unat (PGROUNDDOWN a) = unat a div 4096 * 4096"
  by (simp only: PGROUNDDOWN_def pgmask unat_and_not_mask) simp

lemma unat_PGROUNDUP:
  assumes "unat sz \<le> 4294963200"
  shows "unat (PGROUNDUP sz) = (unat sz + 4095) div 4096 * 4096"
proof -
  have "sz + PGSIZE - 1 = sz + 4095" by simp
  moreover have "unat (sz + 4095) = unat sz + 4095"
    using assms by (simp add: unat_add_32)
  ultimately show ?thesis
    by (simp only: PGROUNDUP_def pgmask unat_and_not_mask) simp
qed

lemma PGROUNDDOWN_le: "PGROUNDDOWN a \<le> a"
  by (simp add: word_le_nat_alt unat_PGROUNDDOWN)

lemma page_offset_less: "unat (a - PGROUNDDOWN a) < 4096"
proof -
  have "unat (a - PGROUNDDOWN a) = unat a - unat a div 4096 * 4096"
    by (simp add: unat_sub_le PGROUNDDOWN_le unat_PGROUNDDOWN)
  also have "\<dots> = unat a mod 4096" by (simp add: minus_div_mult_eq_mod)
  finally show ?thesis by simp
qed

section \<open>Lists\<close>

text \<open>The suffix of a C string: everything up to, not including, the first NUL.\<close>

definition cstr :: "u8 list \<Rightarrow> u8 list" where
  "cstr xs = takeWhile (\<lambda>c. c \<noteq> 0) xs"

lemma distinct_set_remove1_eq: "distinct xs \<Longrightarrow> set (remove1 x xs) = set xs - {x}"
  by simp

section \<open>Invariants of transition systems\<close>

text \<open>The shape every reachability argument of the development has: a predicate that holds
  initially and that every step keeps holds in all reachable states.\<close>

locale invariant_system =
  fixes init :: "'s \<Rightarrow> bool" and step :: "'s \<Rightarrow> 's \<Rightarrow> bool" and inv :: "'s \<Rightarrow> bool"
  assumes inv_init: "init s \<Longrightarrow> inv s"
    and inv_step: "inv s \<Longrightarrow> step s t \<Longrightarrow> inv t"
begin

lemma inv_steps: "step\<^sup>*\<^sup>* s t \<Longrightarrow> inv s \<Longrightarrow> inv t"
  by (induction rule: rtranclp_induct) (auto intro: inv_step)

lemma reach_inv: "init s \<Longrightarrow> step\<^sup>*\<^sup>* s t \<Longrightarrow> inv t"
  by (blast intro: inv_steps inv_init)

end

end
