(* ===== verification/KV_String.thy ===== *)
theory KV_String
  imports KV_Prelude
begin

text \<open>
  The byte and string routines of the xv6 port: kernel/string.c and the user-level copies in
  user/ulib.c.  Every routine works on the byte memory; a pointer is its 32-bit address, and
  pointer arithmetic wraps as it does on the machine.  A C loop that counts down is a primitive
  recursion on the remaining count, with the pointers advanced the way the source advances them;
  the loops that only stop at a NUL byte are partial functions, since a memory without a NUL
  would keep them running.
\<close>

section \<open>Model\<close>

subsection \<open>kernel/string.c\<close>

primrec memset_loop :: "nat \<Rightarrow> u32 \<Rightarrow> u8 \<Rightarrow> memory \<Rightarrow> memory" where
  "memset_loop 0 d c m = m"
| "memset_loop (Suc k) d c m = memset_loop k (d + 1) c (m(d := c))"

definition memset :: "u32 \<Rightarrow> u32 \<Rightarrow> u32 \<Rightarrow> memory \<Rightarrow> memory" where
  "memset dst c n m = memset_loop (unat n) dst (ucast c) m"

primrec memcmp_loop :: "nat \<Rightarrow> u32 \<Rightarrow> u32 \<Rightarrow> memory \<Rightarrow> int" where
  "memcmp_loop 0 s1 s2 m = 0"
| "memcmp_loop (Suc k) s1 s2 m =
     (if m s1 \<noteq> m s2 then uint (m s1) - uint (m s2)
      else memcmp_loop k (s1 + 1) (s2 + 1) m)"

definition memcmp :: "u32 \<Rightarrow> u32 \<Rightarrow> u32 \<Rightarrow> memory \<Rightarrow> int" where
  "memcmp v1 v2 n m = memcmp_loop (unat n) v1 v2 m"

text \<open>\<open>while(n-- > 0) *d++ = *s++\<close>\<close>
primrec copy_up :: "nat \<Rightarrow> u32 \<Rightarrow> u32 \<Rightarrow> memory \<Rightarrow> memory" where
  "copy_up 0 d s m = m"
| "copy_up (Suc k) d s m = copy_up k (d + 1) (s + 1) (m(d := m s))"

text \<open>\<open>while(n-- > 0) *--d = *--s\<close>, started at the end pointers\<close>
primrec copy_down :: "nat \<Rightarrow> u32 \<Rightarrow> u32 \<Rightarrow> memory \<Rightarrow> memory" where
  "copy_down 0 d s m = m"
| "copy_down (Suc k) d s m = copy_down k (d - 1) (s - 1) (m(d - 1 := m (s - 1)))"

definition memmove :: "u32 \<Rightarrow> u32 \<Rightarrow> u32 \<Rightarrow> memory \<Rightarrow> memory" where
  "memmove dst src n m =
     (if n = 0 then m
      else if src < dst \<and> src + n > dst then copy_down (unat n) (dst + n) (src + n) m
      else copy_up (unat n) dst src m)"

definition memcpy :: "u32 \<Rightarrow> u32 \<Rightarrow> u32 \<Rightarrow> memory \<Rightarrow> memory" where
  "memcpy dst src n m = memmove dst src n m"

primrec strncmp_loop :: "nat \<Rightarrow> u32 \<Rightarrow> u32 \<Rightarrow> memory \<Rightarrow> int" where
  "strncmp_loop 0 p q m = 0"
| "strncmp_loop (Suc n) p q m =
     (if m p \<noteq> 0 \<and> m p = m q then strncmp_loop n (p + 1) (q + 1) m
      else uint (m p) - uint (m q))"

definition strncmp :: "u32 \<Rightarrow> u32 \<Rightarrow> u32 \<Rightarrow> memory \<Rightarrow> int" where
  "strncmp p q n m = strncmp_loop (unat n) p q m"

text \<open>\<open>while(n-- > 0) *s++ = 0\<close>\<close>
primrec zero_fill :: "nat \<Rightarrow> u32 \<Rightarrow> memory \<Rightarrow> memory" where
  "zero_fill 0 s m = m"
| "zero_fill (Suc n) s m = zero_fill n (s + 1) (m(s := 0))"

text \<open>\<open>while(n-- > 0 && (*s++ = *t++) != 0)\<close>, then the zero fill of what is left\<close>
primrec strncpy_loop :: "nat \<Rightarrow> u32 \<Rightarrow> u32 \<Rightarrow> memory \<Rightarrow> memory" where
  "strncpy_loop 0 s t m = m"
| "strncpy_loop (Suc n) s t m =
     (if m t \<noteq> 0 then strncpy_loop n (s + 1) (t + 1) (m(s := m t))
      else zero_fill n (s + 1) (m(s := m t)))"

definition strncpy :: "u32 \<Rightarrow> u32 \<Rightarrow> int \<Rightarrow> memory \<Rightarrow> memory" where
  "strncpy s t n m = strncpy_loop (nat n) s t m"

text \<open>\<open>while(--n > 0 && (*s++ = *t++) != 0)\<close>, then \<open>*s = 0\<close>: the argument is the number of
  bytes the loop may still copy, and a copied NUL leaves \<open>s\<close> one past it.\<close>
primrec safestrcpy_loop :: "nat \<Rightarrow> u32 \<Rightarrow> u32 \<Rightarrow> memory \<Rightarrow> memory" where
  "safestrcpy_loop 0 s t m = m(s := 0)"
| "safestrcpy_loop (Suc n) s t m =
     (if m t \<noteq> 0 then safestrcpy_loop n (s + 1) (t + 1) (m(s := m t))
      else (m(s := m t))(s + 1 := 0))"

definition safestrcpy :: "u32 \<Rightarrow> u32 \<Rightarrow> int \<Rightarrow> memory \<Rightarrow> memory" where
  "safestrcpy s t n m = (if n \<le> 0 then m else safestrcpy_loop (nat (n - 1)) s t m)"

partial_function (option) strlen_loop :: "memory \<Rightarrow> u32 \<Rightarrow> nat \<Rightarrow> nat option" where
  "strlen_loop m s n = (if m (s + of_nat n) = 0 then Some n else strlen_loop m s (Suc n))"

definition strlen :: "memory \<Rightarrow> u32 \<Rightarrow> nat option" where
  "strlen m s = strlen_loop m s 0"

subsection \<open>user/ulib.c\<close>

partial_function (option) strcpy :: "u32 \<Rightarrow> u32 \<Rightarrow> memory \<Rightarrow> memory option" where
  "strcpy s t m = (if m t = 0 then Some (m(s := m t)) else strcpy (s + 1) (t + 1) (m(s := m t)))"

partial_function (option) strcmp :: "u32 \<Rightarrow> u32 \<Rightarrow> memory \<Rightarrow> int option" where
  "strcmp p q m =
     (if m p \<noteq> 0 \<and> m p = m q then strcmp (p + 1) (q + 1) m
      else Some (uint (m p) - uint (m q)))"

text \<open>\<open>strchr\<close> returns a pointer, or 0 when the NUL is reached first.\<close>
partial_function (option) strchr :: "u32 \<Rightarrow> u8 \<Rightarrow> memory \<Rightarrow> u32 option" where
  "strchr s c m =
     (if m s = 0 then Some 0 else if m s = c then Some s else strchr (s + 1) c m)"

text \<open>\<open>n\<close> is a C int: the arithmetic is done at 32 bits.\<close>
partial_function (option) atoi_loop :: "u32 \<Rightarrow> u32 \<Rightarrow> memory \<Rightarrow> u32 option" where
  "atoi_loop n s m =
     (if 48 \<le> m s \<and> m s \<le> 57 then atoi_loop (n * 10 + ucast (m s) - 48) (s + 1) m else Some n)"

definition atoi :: "u32 \<Rightarrow> memory \<Rightarrow> u32 option" where
  "atoi s m = atoi_loop 0 s m"

text \<open>The user-level \<open>memmove\<close> takes a signed count and chooses the direction by the
  pointers alone.\<close>
definition umemmove :: "u32 \<Rightarrow> u32 \<Rightarrow> int \<Rightarrow> memory \<Rightarrow> memory" where
  "umemmove vdst vsrc n m =
     (if vsrc > vdst then copy_up (nat n) vdst vsrc m
      else copy_down (nat n) (vdst + word_of_int n) (vsrc + word_of_int n) m)"

section \<open>Lemmas\<close>

text \<open>The value of a cell after a block move, as one expression.\<close>

definition moved :: "nat \<Rightarrow> u32 \<Rightarrow> u32 \<Rightarrow> memory \<Rightarrow> memory" where
  "moved n d s m = (\<lambda>a. if unat (a - d) < n then m (s + (a - d)) else m a)"

lemma unat_neg_one_32: "unat (- 1 :: u32) = 4294967295"
  by (simp add: unsigned_minus_1_eq_mask mask_eq_exp_minus_1)

lemma unat_minus_one_32: "(x :: u32) \<noteq> 0 \<Longrightarrow> unat (x - 1) = unat x - 1"
  using unat_gt_0 [of x] by (simp add: unat_sub_le word_le_nat_alt)

lemma unat_diff_step:
  assumes "(a :: u32) \<noteq> d" shows "unat (a - (d + 1)) = unat (a - d) - 1" "0 < unat (a - d)"
proof -
  have nz: "a - d \<noteq> 0" using assms by simp
  have "a - (d + 1) = a - d - 1" by simp
  with nz show "unat (a - (d + 1)) = unat (a - d) - 1" by (metis unat_minus_one_32)
  from nz show "0 < unat (a - d)" by (metis unat_gt_0)
qed

lemma memset_loop_apply:
  "k \<le> 4294967296 \<Longrightarrow> memset_loop k d c m a = (if unat (a - d) < k then c else m a)"
proof (induction k arbitrary: d m)
  case (Suc k)
  show ?case
  proof (cases "a = d")
    case True
    have "\<not> unat (a - (d + 1)) < k" using Suc.prems True by (simp add: unat_neg_one_32)
    then show ?thesis using Suc True by simp
  next
    case False
    then show ?thesis using Suc unat_diff_step [OF False] by auto
  qed
qed simp

lemma memset_apply:
  "memset dst c n m a = (if unat (a - dst) < unat n then ucast c else m a)"
  unfolding memset_def by (rule memset_loop_apply) (use unat_less_32 [of n] in simp)

lemma copy_up_moved:
  assumes "k \<le> 4294967296" and "\<And>j. 0 < j \<Longrightarrow> j < k \<Longrightarrow> s + of_nat j \<noteq> d"
  shows "copy_up k d s m = moved k d s m"
  using assms
proof (induction k arbitrary: d s m)
  case 0
  then show ?case by (simp add: moved_def fun_eq_iff)
next
  case (Suc k)
  have IH: "copy_up k (d + 1) (s + 1) (m(d := m s)) = moved k (d + 1) (s + 1) (m(d := m s))"
    using Suc.prems(2) by (intro Suc.IH) (use Suc.prems(1) in \<open>auto simp: algebra_simps\<close>)
  show ?case
  proof
    fix a
    show "copy_up (Suc k) d s m a = moved (Suc k) d s m a"
    proof (cases "a = d")
      case True
      have "\<not> unat (a - (d + 1)) < k" using Suc.prems(1) True by (simp add: unat_neg_one_32)
      then show ?thesis using IH True by (simp add: moved_def)
    next
      case False
      let ?j = "unat (a - d)"
      have "s + 1 + (a - (d + 1)) = s + of_nat ?j" by (simp add: algebra_simps)
      moreover have "s + of_nat ?j \<noteq> d" if "?j < Suc k"
        using Suc.prems(2) [of ?j] unat_diff_step(2) [OF False] that by simp
      ultimately show ?thesis
        using IH False unat_diff_step [OF False] by (auto simp: moved_def algebra_simps)
    qed
  qed
qed

lemma copy_down_moved:
  assumes "k \<le> 4294967296" and "\<And>j. 0 < j \<Longrightarrow> j < k \<Longrightarrow> s - of_nat j \<noteq> d"
  shows "copy_down k d s m = moved k (d - of_nat k) (s - of_nat k) m"
  using assms
proof (induction k arbitrary: d s m)
  case 0
  then show ?case by (simp add: moved_def fun_eq_iff)
next
  case (Suc k)
  have IH: "copy_down k (d - 1) (s - 1) (m(d - 1 := m (s - 1)))
      = moved k (d - 1 - of_nat k) (s - 1 - of_nat k) (m(d - 1 := m (s - 1)))"
    using Suc.prems(2) by (intro Suc.IH) (use Suc.prems(1) in \<open>auto simp: algebra_simps\<close>)
  define d0 s0 where "d0 = d - 1 - of_nat k" and "s0 = s - 1 - of_nat k"
  have b: "d - of_nat (Suc k) = d0" "s - of_nat (Suc k) = s0" "d - 1 = d0 + of_nat k"
    "s - 1 = s0 + of_nat k"
    by (simp_all add: d0_def s0_def)
  have uk: "unat (of_nat k :: u32) = k" using Suc.prems(1) by (intro unat_of_nat_32) simp
  have IH': "copy_down (Suc k) d s m = moved k d0 s0 (m(d0 + of_nat k := m (s0 + of_nat k)))"
    using IH unfolding copy_down.simps b(3,4) by simp
  show ?case
  proof
    fix a
    have dest: "a = d0 + of_nat k \<longleftrightarrow> unat (a - d0) = k"
    proof -
      have "a = d0 + of_nat k \<longleftrightarrow> a - d0 = of_nat k" by (auto simp: algebra_simps)
      also have "\<dots> \<longleftrightarrow> unat (a - d0) = k" unfolding word_eq_unat uk ..
      finally show ?thesis .
    qed
    have "s0 + (a - d0) \<noteq> d0 + of_nat k" if lt: "unat (a - d0) < k"
    proof
      assume eq: "s0 + (a - d0) = d0 + of_nat k"
      have "(of_nat (k - unat (a - d0)) :: u32) = of_nat k - (a - d0)"
        using lt by (simp add: of_nat_diff)
      then have "s - of_nat (k - unat (a - d0)) = s - of_nat k + (a - d0)" by simp
      also have "\<dots> = s0 + (a - d0) + 1" by (simp add: s0_def)
      also have "\<dots> = d" using eq by (simp add: d0_def)
      finally show False
        using Suc.prems(2) [of "k - unat (a - d0)"] lt by (simp add: less_Suc_eq_le)
    qed
    then show "copy_down (Suc k) d s m a = moved (Suc k) (d - of_nat (Suc k)) (s - of_nat (Suc k)) m a"
      unfolding IH' b(1) b(2) using dest
      by (cases "unat (a - d0)" k rule: linorder_cases) (simp_all add: moved_def)
  qed
qed

lemma word_of_nat_unat_add:
  "unat (a :: u32) + n < 4294967296 \<Longrightarrow> unat (a + of_nat n) = unat a + n"
  by (simp add: unat_add_32 unat_of_nat_32)

lemma word_of_nat_unat_sub:
  "n \<le> unat (a :: u32) \<Longrightarrow> unat (a - of_nat n) = unat a - n"
  using unat_less_32 [of a] by (simp add: unat_sub_if unat_of_nat_32)

lemma copy_up_forward:
  assumes "unat s + n < 4294967296" "unat d + n < 4294967296" "d \<le> s \<or> unat s + n \<le> unat d"
  shows "copy_up n d s m = moved n d s m"
proof (rule copy_up_moved)
  fix j :: nat assume j: "0 < j" "j < n"
  then have "unat (s + of_nat j) = unat s + j" using assms(1) by (intro word_of_nat_unat_add) simp
  then show "s + of_nat j \<noteq> d" using assms(3) j by (auto simp: word_le_nat_alt)
qed (use assms(1) in simp)

lemma copy_down_backward:
  assumes "unat s + n < 4294967296" "unat d + n < 4294967296" "s \<le> d"
  shows "copy_down n (d + of_nat n) (s + of_nat n) m = moved n d s m"
proof -
  have "copy_down n (d + of_nat n) (s + of_nat n) m
      = moved n (d + of_nat n - of_nat n) (s + of_nat n - of_nat n) m"
  proof (rule copy_down_moved)
    fix j :: nat assume j: "0 < j" "j < n"
    have s: "unat (s + of_nat n) = unat s + n" and d: "unat (d + of_nat n) = unat d + n"
      using assms(1,2) by (auto intro: word_of_nat_unat_add)
    have "unat (s + of_nat n - of_nat j) = unat s + n - j"
      using j s word_of_nat_unat_sub [of j "s + of_nat n"] by simp
    then have "unat (s + of_nat n - of_nat j) < unat (d + of_nat n)"
      using assms(3) j d by (simp add: word_le_nat_alt)
    then show "s + of_nat n - of_nat j \<noteq> d + of_nat n" by (metis less_irrefl)
  qed (use assms(1) in simp)
  then show ?thesis by simp
qed

text \<open>The value \<open>strncmp\<close> decides: agreement up to the first NUL or the bound.\<close>

lemma strncmp_loop_zero:
  "strncmp_loop n p q m = 0 \<longleftrightarrow>
     (\<forall>j < n. (\<forall>i < j. m (p + of_nat i) \<noteq> 0) \<longrightarrow> m (p + of_nat j) = m (q + of_nat j))"
proof (induction n arbitrary: p q)
  case (Suc n)
  have shift: "(\<forall>j < Suc n. P j) \<longleftrightarrow> P 0 \<and> (\<forall>j < n. P (Suc j))" for P
    by (auto simp: less_Suc_eq_0_disj)
  show ?case
  proof (cases "m p \<noteq> 0 \<and> m p = m q")
    case True
    have "(\<forall>i < Suc j. m (p + of_nat i) \<noteq> 0) \<longleftrightarrow> (\<forall>i < j. m (p + 1 + of_nat i) \<noteq> 0)" for j
      using True shift [where P = "\<lambda>i. m (p + of_nat i) \<noteq> 0"] by (auto simp: add.assoc less_Suc_eq_0_disj)
    then show ?thesis using True Suc by (auto simp: shift add.assoc)
  next
    case False
    then have "m p = m q \<Longrightarrow> m p = 0" by blast
    with False show ?thesis by (auto simp: shift word_uint_eq_iff)
  qed
qed simp

lemma strlen_loop_found:
  assumes "m (s + of_nat k) = 0" and "\<And>j. n \<le> j \<Longrightarrow> j < k \<Longrightarrow> m (s + of_nat j) \<noteq> 0" and "n \<le> k"
  shows "strlen_loop m s n = Some k"
  using assms
proof (induction "k - n" arbitrary: n)
  case 0
  then show ?case by (simp add: strlen_loop.simps)
next
  case (Suc x)
  then have "strlen_loop m s (Suc n) = Some k" by simp
  moreover have "m (s + of_nat n) \<noteq> 0" using Suc by simp
  ultimately show ?case by (simp add: strlen_loop.simps [of m s n])
qed

lemma strlen_found:
  "m (s + of_nat k) = 0 \<Longrightarrow> (\<And>j. j < k \<Longrightarrow> m (s + of_nat j) \<noteq> 0) \<Longrightarrow> strlen m s = Some k"
  unfolding strlen_def by (rule strlen_loop_found) auto

text \<open>\<open>safestrcpy\<close>, by induction on the bytes the loop may still copy.\<close>

lemma safestrcpy_loop_spec:
  assumes "Suc n < 4294967296"
    and "\<And>i j. i \<le> n \<Longrightarrow> j \<le> n \<Longrightarrow> s + of_nat i \<noteq> t + of_nat j"
  shows "\<exists>k \<le> n. safestrcpy_loop n s t m (s + of_nat k) = 0
      \<and> (\<forall>j < k. safestrcpy_loop n s t m (s + of_nat j) = m (t + of_nat j) \<and> m (t + of_nat j) \<noteq> 0)
      \<and> (k < n \<longrightarrow> m (t + of_nat k) = 0)
      \<and> (\<forall>a. n < unat (a - s) \<longrightarrow> safestrcpy_loop n s t m a = m a)"
  using assms
proof (induction n arbitrary: s t m)
  case 0
  then show ?case by (intro exI [of _ 0]) (auto simp: unat_gt_0)
next
  case (Suc n)
  have far: "a \<noteq> s" "a \<noteq> s + 1" "n < unat (a - (s + 1))" if "Suc n < unat (a - s)" for a
  proof -
    show ne: "a \<noteq> s" using that by auto
    show "a \<noteq> s + 1" using that by auto
    show "n < unat (a - (s + 1))" using that unat_diff_step(1) [OF ne] by simp
  qed
  show ?case
  proof (cases "m t = 0")
    case True
    then show ?thesis
      using far by (intro exI [of _ 0]) auto
  next
    case False
    let ?m = "m(s := m t)"
    have dis: "s + 1 + of_nat i \<noteq> t + 1 + of_nat j" if "i \<le> n" "j \<le> n" for i j
      using Suc.prems(2) [of "Suc i" "Suc j"] that by (simp add: algebra_simps)
    obtain k where k: "k \<le> n" "safestrcpy_loop n (s + 1) (t + 1) ?m (s + 1 + of_nat k) = 0"
      "\<forall>j < k. safestrcpy_loop n (s + 1) (t + 1) ?m (s + 1 + of_nat j) = ?m (t + 1 + of_nat j)
         \<and> ?m (t + 1 + of_nat j) \<noteq> 0"
      "k < n \<longrightarrow> ?m (t + 1 + of_nat k) = 0"
      "\<forall>a. n < unat (a - (s + 1)) \<longrightarrow> safestrcpy_loop n (s + 1) (t + 1) ?m a = ?m a"
      using Suc.IH [OF Suc_lessD [OF Suc.prems(1)] dis, of ?m] by blast
    have t: "?m (t + 1 + of_nat j) = m (t + of_nat (Suc j))" if "j \<le> n" for j
      using Suc.prems(2) [of 0 "Suc j"] that by (auto simp: algebra_simps)
    have s: "safestrcpy_loop n (s + 1) (t + 1) ?m s = m t"
      using k(5) [rule_format, of s] Suc.prems(1) by (simp add: unat_neg_one_32)
    have all: "safestrcpy_loop (Suc n) s t m = safestrcpy_loop n (s + 1) (t + 1) ?m"
      using False by simp
    show ?thesis
      unfolding all
    proof (intro exI [of _ "Suc k"] conjI allI impI)
      fix j assume "j < Suc k"
      then show "safestrcpy_loop n (s + 1) (t + 1) ?m (s + of_nat j) = m (t + of_nat j)"
        "m (t + of_nat j) \<noteq> 0"
        using k(1,3) s t False by (cases j; force simp: algebra_simps)+
    next
      fix a assume "Suc n < unat (a - s)"
      then show "safestrcpy_loop n (s + 1) (t + 1) ?m a = m a" using k(5) far by simp
    qed (use k(1,2,4) t in \<open>auto simp: algebra_simps\<close>)
  qed
qed

section \<open>Properties\<close>

text \<open>(C35) For blocks that do not wrap around the address space, \<open>memmove\<close> leaves in the
  destination exactly the bytes the source held before the call, and every other byte as it was,
  however the two blocks overlap.\<close>

theorem memmove_correct:
  assumes "unat src + unat n < 2 ^ 32" and "unat dst + unat n < 2 ^ 32"
  shows "memmove dst src n m =
    (\<lambda>a. if unat (a - dst) < unat n then m (src + (a - dst)) else m a)"
proof -
  have up: "unat (src + n) = unat src + unat n" using assms by (simp add: unat_add_32)
  have "memmove dst src n m = moved (unat n) dst src m"
  proof (cases "src < dst \<and> dst < src + n")
    case True
    then show ?thesis
      using assms copy_down_backward [of src "unat n" dst m]
      by (auto simp: memmove_def)
  next
    case False
    then have "dst \<le> src \<or> unat src + unat n \<le> unat dst"
      using up by (auto simp: word_le_nat_alt word_less_nat_alt)
    then have "copy_up (unat n) dst src m = moved (unat n) dst src m"
      using assms by (intro copy_up_forward) auto
    with False show ?thesis by (auto simp: memmove_def moved_def)
  qed
  then show ?thesis by (simp add: moved_def)
qed

theorem memmove_correct_witness:
  "unat (16 :: u32) + unat (4 :: u32) < 2 ^ 32 \<and> unat (18 :: u32) + unat (4 :: u32) < 2 ^ 32 \<and>
   memmove 18 16 4 (\<lambda>a. ucast a) 21 = 19"
proof -
  have h: "unat (16 :: u32) + unat (4 :: u32) < 2 ^ 32" "unat (18 :: u32) + unat (4 :: u32) < 2 ^ 32"
    by simp_all
  show ?thesis using h by (simp only: memmove_correct [OF h]) simp
qed

text \<open>The user-level \<open>memmove\<close> of ulib.c, which decides the direction by comparing the
  pointers only and takes a signed count, moves the same bytes as the kernel's.\<close>

theorem umemmove_eq_memmove:
  assumes "0 \<le> n" and "int (unat src) + n < 4294967296" and "int (unat dst) + n < 4294967296"
  shows "umemmove dst src n m = memmove dst src (word_of_int n) m"
proof -
  have w: "(word_of_int n :: u32) = of_nat (nat n)" using assms(1) by simp
  have un: "unat (word_of_int n :: u32) = nat n"
    unfolding w using assms by (intro unat_of_nat_32) linarith
  have lim: "unat src + nat n < 4294967296" "unat dst + nat n < 4294967296"
    using assms by linarith+
  have "umemmove dst src n m = moved (nat n) dst src m"
  proof (cases "dst < src")
    case True
    then show ?thesis using lim by (simp add: umemmove_def copy_up_forward less_imp_le)
  next
    case False
    then have "src \<le> dst" by simp
    with False show ?thesis using lim by (simp only: umemmove_def w copy_down_backward if_False)
  qed
  moreover have "memmove dst src (word_of_int n) m = moved (nat n) dst src m"
    using memmove_correct [of src "word_of_int n" dst m] lim by (simp add: un moved_def)
  ultimately show ?thesis by simp
qed

theorem umemmove_eq_memmove_witness:
  "(0 :: int) \<le> 3 \<and> umemmove 9 8 3 (\<lambda>a. ucast a) = memmove 9 8 (word_of_int 3) (\<lambda>a. ucast a)"
  using umemmove_eq_memmove [of 3 8 9 "\<lambda>a. ucast a"] by simp

text \<open>\<open>safestrcpy\<close> with a positive bound always leaves a NUL inside the first \<open>n\<close> bytes of
  the destination; the bytes before it are the source's non-NUL bytes, the copy stops early only
  at the source's NUL, and nothing outside the \<open>n\<close>-byte destination changes.\<close>

theorem safestrcpy_terminates_string:
  assumes "0 < n" and "n < 2 ^ 32"
    and "\<And>i j. i < nat n \<Longrightarrow> j < nat n \<Longrightarrow> s + of_nat i \<noteq> t + of_nat j"
  shows "\<exists>k < nat n. safestrcpy s t n m (s + of_nat k) = 0
      \<and> (\<forall>j < k. safestrcpy s t n m (s + of_nat j) = m (t + of_nat j) \<and> m (t + of_nat j) \<noteq> 0)
      \<and> (Suc k < nat n \<longrightarrow> m (t + of_nat k) = 0)
      \<and> (\<forall>a. nat n \<le> unat (a - s) \<longrightarrow> safestrcpy s t n m a = m a)"
proof -
  obtain k where n: "nat n = Suc k" and k: "nat (n - 1) = k"
    using assms(1) by (cases "nat n") (auto simp: nat_diff_distrib')
  have lim: "Suc k < 4294967296" using n assms(1,2) by simp
  have dis: "s + of_nat i \<noteq> t + of_nat j" if "i \<le> k" "j \<le> k" for i j
    using assms(3) that n by simp
  have "safestrcpy s t n m = safestrcpy_loop k s t m"
    using assms(1) k by (simp add: safestrcpy_def)
  then show ?thesis
    using safestrcpy_loop_spec [OF lim dis, where m = m] unfolding n Suc_le_eq less_Suc_eq_le Suc_less_eq
    by simp
qed

theorem safestrcpy_terminates_string_witness:
  "\<exists>k < nat 2. safestrcpy 100 200 2 (\<lambda>a. 65) (100 + of_nat k) = 0
      \<and> (\<forall>j < k. safestrcpy 100 200 2 (\<lambda>a. 65) (100 + of_nat j) = 65 \<and> (65 :: u8) \<noteq> 0)
      \<and> (Suc k < nat 2 \<longrightarrow> (65 :: u8) = 0)
      \<and> (\<forall>a. nat 2 \<le> unat (a - 100) \<longrightarrow> safestrcpy 100 200 2 (\<lambda>a. 65) a = 65)"
proof -
  have "(100 :: u32) + of_nat i \<noteq> 200 + of_nat j" if "i < nat 2" "j < nat 2" for i j
  proof -
    have "i = 0 \<or> i = 1" "j = 0 \<or> j = 1" using that by auto
    then show ?thesis by auto
  qed
  then show ?thesis using safestrcpy_terminates_string [of 2 100 200 "\<lambda>a. 65"] by auto
qed

text \<open>\<open>strncmp\<close> (and with it \<open>namecmp\<close> on directory entries) returns 0 exactly when the two
  strings agree at every position below the bound that no earlier NUL of the first one cuts off.\<close>

theorem strncmp_zero_iff:
  "strncmp p q n m = 0 \<longleftrightarrow>
     (\<forall>j < unat n. (\<forall>i < j. m (p + of_nat i) \<noteq> 0) \<longrightarrow> m (p + of_nat j) = m (q + of_nat j))"
  unfolding strncmp_def by (rule strncmp_loop_zero)

theorem strncmp_zero_iff_witness:
  "strncmp 0 16 2 (\<lambda>a. if a = 1 \<or> a = 17 then 0 else 97) = 0"
proof -
  let ?m = "\<lambda>a :: u32. if a = 1 \<or> a = 17 then 0 else 97 :: u8"
  have "?m (0 + of_nat j) = ?m (16 + of_nat j)" if "j < unat (2 :: u32)" for j
  proof -
    have "j = 0 \<or> j = 1" using that by auto
    then show ?thesis by auto
  qed
  then show ?thesis using strncmp_zero_iff [of 0 16 2 ?m] by blast
qed

end
