(* ===== verification/KV_State.thy ===== *)
theory KV_State
  imports KV_String
begin

text \<open>
  The state of the xv6 kernel and the small state monad its C functions are written in.

  One record \<open>kstate\<close> holds the global variables of all the kernel's files: the structures are
  those of kernel/*.h.  A C pointer into a global table (\<open>struct proc *\<close>, \<open>struct buf *\<close>,
  \<open>struct inode *\<close>, \<open>struct file *\<close>) is the index of the entry, and a null pointer is
  \<open>None\<close>; page addresses are 32-bit words into the byte memory \<open>mem\<close>.

  A kernel function of result type \<open>'a\<close> is a value of \<open>'a K\<close>: run on a state it returns
  (\<open>Ok\<close>), panics with the message of the source's \<open>panic\<close> call (\<open>Panic\<close>), or gives
  the processor to the scheduler by \<open>swtch\<close> (\<open>Switch\<close>), in which case the process stays in the
  state the function left it in; a loop that never ends is \<open>Diverge\<close>.

  Spin locks appear as the set of locks that the running hart holds: \<open>acquire\<close> of a held lock and
  \<open>release\<close> of one that is not held panic as in kernel/spinlock.c.  Waiting for another hart is not a
  step of the function itself; theory \<open>KV_Spinlock\<close> models the lock words, the per-hart counters and
  the interleaving of several harts, and shows that these two operations are what the code does.
\<close>

section \<open>Constants of param.h, memlayout.h, riscv.h and fs.h\<close>

abbreviation NPROC :: nat where "NPROC \<equiv> 64"
abbreviation NOFILE :: nat where "NOFILE \<equiv> 16"
abbreviation NFILE :: nat where "NFILE \<equiv> 100"
abbreviation NINODE :: nat where "NINODE \<equiv> 50"
abbreviation NDEV :: nat where "NDEV \<equiv> 10"
abbreviation ROOTDEV :: u32 where "ROOTDEV \<equiv> 1"
abbreviation MAXARG :: nat where "MAXARG \<equiv> 32"
abbreviation MAXOPBLOCKS :: nat where "MAXOPBLOCKS \<equiv> 10"
abbreviation LOGBLOCKS :: nat where "LOGBLOCKS \<equiv> 30"
abbreviation NBUF :: nat where "NBUF \<equiv> 30"
abbreviation MAXPATH :: nat where "MAXPATH \<equiv> 128"
abbreviation KERNBASE :: u32 where "KERNBASE \<equiv> 0x80000000"
abbreviation PHYSTOP :: u32 where "PHYSTOP \<equiv> 0x80800000"
abbreviation MAXVA :: u32 where "MAXVA \<equiv> 0xFFFFFFFF"
abbreviation TRAMPOLINE :: u32 where "TRAMPOLINE \<equiv> 0xFFFFF000"
abbreviation TRAPFRAME :: u32 where "TRAPFRAME \<equiv> 0xFFFFE000"
abbreviation BSIZE :: nat where "BSIZE \<equiv> 512"

definition KSTACK :: "nat \<Rightarrow> u32" where
  "KSTACK p = TRAMPOLINE - (of_nat p + 1) * 2 * PGSIZE"

lemma trampoline_layout:
  "TRAMPOLINE = MAXVA - PGSIZE + 1" "TRAPFRAME = TRAMPOLINE - PGSIZE"
  "PHYSTOP = KERNBASE + 1024 * 1024 * 8"
  by simp_all

section \<open>Structures\<close>

text \<open>Addresses the linker fixes (kernel.ld, trampoline.S).\<close>
record linkmap =
  sym_end :: u32
  sym_etext :: u32
  sym_trampoline :: u32
  sym_uservec :: u32
  sym_userret :: u32
  sym_usertrap :: u32
  sym_forkret :: u32
  sym_kernelvec :: u32

text \<open>The spin locks of the kernel, and the sleep locks (each guarded by a spin lock).\<close>
datatype sleeplk = SL_buf nat | SL_inode nat

datatype lock = LK_kmem | LK_pid | LK_wait | LK_proc nat | LK_bcache | LK_log | LK_itable
  | LK_ftable | LK_pipe u32 | LK_cons | LK_tx | LK_pr | LK_ticks | LK_sd | LK_sleep sleeplk

text \<open>What \<open>sleep\<close> and \<open>wakeup\<close> use as a channel: the address of one of these objects.\<close>
datatype chan = CH_log | CH_sleep sleeplk | CH_proc nat | CH_pread u32 | CH_pwrite u32
  | CH_ticks | CH_cons | CH_tx

record sleeplock =
  sl_locked :: bool
  sl_pid :: u32

datatype procstate = UNUSED | USED | SLEEPING | RUNNABLE | RUNNING | ZOMBIE

record kcontext =
  ctx_ra :: u32
  ctx_sp :: u32
  ctx_s :: "u32 list"

record proc =
  p_state :: procstate
  p_chan :: "chan option"
  p_killed :: bool
  p_xstate :: u32
  p_pid :: u32
  p_parent :: "nat option"
  p_kstack :: u32
  p_sz :: u32
  p_pagetable :: u32
  p_trapframe :: u32
  p_context :: kcontext
  p_ofile :: "nat option list"
  p_cwd :: "nat option"
  p_name :: "u8 list"

record buf =
  b_valid :: bool
  b_dev :: u32
  b_blockno :: u32
  b_lock :: sleeplock
  b_refcnt :: u32
  b_prev :: nat
  b_next :: nat
  b_data :: "u8 list"

record log =
  l_start :: u32
  l_outstanding :: int
  l_committing :: bool
  l_dev :: u32
  lh_n :: nat
  lh_block :: "u32 list"

record superblock =
  sb_magic :: u32
  sb_size :: u32
  sb_nblocks :: u32
  sb_ninodes :: u32
  sb_nlog :: u32
  sb_logstart :: u32
  sb_inodestart :: u32
  sb_bmapstart :: u32

record inode =
  i_dev :: u32
  i_inum :: u32
  i_ref :: int
  i_lock :: sleeplock
  i_valid :: bool
  i_type :: u16
  i_major :: u16
  i_minor :: u16
  i_nlink :: u16
  i_size :: u32
  i_addrs :: "u32 list"

datatype fdtype = FD_NONE | FD_PIPE | FD_INODE | FD_DEVICE

record kfile =
  f_type :: fdtype
  f_ref :: int
  f_readable :: bool
  f_writable :: bool
  f_pipe :: u32
  f_ip :: "nat option"
  f_off :: u32
  f_major :: u16

record pipe =
  pi_data :: "u8 list"
  pi_nread :: u32
  pi_nwrite :: u32
  pi_readopen :: bool
  pi_writeopen :: bool

text \<open>The input buffer of kernel/console.c.\<close>
record cons =
  c_buf :: "u8 list"
  c_r :: u32
  c_w :: u32
  c_e :: u32

record kstate =
  mem :: memory
  link :: linkmap
  held :: "lock set"
  cur :: "nat option"
  freelist :: u32
  kernel_pagetable :: u32
  procs :: "proc list"
  initproc :: "nat option"
  nextpid :: u32
  bufs :: "buf list"
  disk :: "u32 \<Rightarrow> u8 list"
  wtrace :: "(u32 \<times> u8 list) list"
  klog :: log
  sb :: superblock
  inodes :: "inode list"
  files :: "kfile list"
  pipes :: "u32 \<Rightarrow> pipe"
  kcons :: cons
  uart_out :: "u8 list"
  tx_busy :: bool
  ticks :: u32

section \<open>The kernel monad\<close>

datatype 'a outcome = Ok 'a kstate | Panic string kstate | Switch kstate | Diverge

type_synonym 'a K = "kstate \<Rightarrow> 'a outcome"

definition kret :: "'a \<Rightarrow> 'a K" where
  "kret x = (\<lambda>s. Ok x s)"

definition kbind :: "'a K \<Rightarrow> ('a \<Rightarrow> 'b K) \<Rightarrow> 'b K" where
  "kbind f g = (\<lambda>s. case f s of Ok x t \<Rightarrow> g x t | Panic e t \<Rightarrow> Panic e t | Switch t \<Rightarrow> Switch t | Diverge \<Rightarrow> Diverge)"

definition kpanic :: "string \<Rightarrow> 'a K" where
  "kpanic e = (\<lambda>s. Panic e s)"

text \<open>A loop of the source that never ends.\<close>
definition kdiverge :: "'a K" where
  "kdiverge = (\<lambda>s. Diverge)"

definition kget :: "(kstate \<Rightarrow> 'a) \<Rightarrow> 'a K" where
  "kget f = (\<lambda>s. Ok (f s) s)"

definition kmod :: "(kstate \<Rightarrow> kstate) \<Rightarrow> unit K" where
  "kmod f = (\<lambda>s. Ok () (f s))"

definition kwhen :: "bool \<Rightarrow> unit K \<Rightarrow> unit K" where
  "kwhen b m = (if b then m else kret ())"

text \<open>Statements in sequence.\<close>
primrec kdo :: "unit K list \<Rightarrow> unit K" where
  "kdo [] = kret ()"
| "kdo (m # ms) = kbind m (\<lambda>_. kdo ms)"

text \<open>\<open>for\<close> over the entries of a table, and the same loop left early with a result.\<close>
primrec kfor :: "'a list \<Rightarrow> ('a \<Rightarrow> unit K) \<Rightarrow> unit K" where
  "kfor [] f = kret ()"
| "kfor (x # xs) f = kbind (f x) (\<lambda>_. kfor xs f)"

primrec ksearch :: "'a list \<Rightarrow> ('a \<Rightarrow> 'b option K) \<Rightarrow> 'b option K" where
  "ksearch [] f = kret None"
| "ksearch (x # xs) f = kbind (f x) (\<lambda>r. case r of Some y \<Rightarrow> kret (Some y) | None \<Rightarrow> ksearch xs f)"

lemma kret_run [simp]: "kret x s = Ok x s"
  by (simp add: kret_def)

lemma kbind_run [simp]:
  "kbind f g s = (case f s of Ok x t \<Rightarrow> g x t | Panic e t \<Rightarrow> Panic e t | Switch t \<Rightarrow> Switch t | Diverge \<Rightarrow> Diverge)"
  by (simp add: kbind_def)

lemma kpanic_run [simp]: "kpanic e s = Panic e s"
  by (simp add: kpanic_def)

lemma kdiverge_run [simp]: "kdiverge s = Diverge"
  by (simp add: kdiverge_def)

lemma kget_run [simp]: "kget f s = Ok (f s) s"
  by (simp add: kget_def)

lemma kmod_run [simp]: "kmod f s = Ok () (f s)"
  by (simp add: kmod_def)

lemma kwhen_run [simp]: "kwhen b m s = (if b then m s else Ok () s)"
  by (simp add: kwhen_def)

lemma kbind_ok_iff: "kbind f g s = Ok y t \<longleftrightarrow> (\<exists>x u. f s = Ok x u \<and> g x u = Ok y t)"
  by (simp split: outcome.splits)

section \<open>Locks of the running hart\<close>

definition holding :: "lock \<Rightarrow> bool K" where
  "holding lk = kget (\<lambda>s. lk \<in> held s)"

definition acquire :: "lock \<Rightarrow> unit K" where
  "acquire lk =
     kbind (holding lk) (\<lambda>h.
     if h then kpanic ''acquire''
     else kmod (\<lambda>s. s\<lparr>held := insert lk (held s)\<rparr>))"

definition release :: "lock \<Rightarrow> unit K" where
  "release lk =
     kbind (holding lk) (\<lambda>h.
     if \<not> h then kpanic ''release''
     else kmod (\<lambda>s. s\<lparr>held := held s - {lk}\<rparr>))"

lemma acquire_run [simp]:
  "acquire lk s = (if lk \<in> held s then Panic ''acquire'' s else Ok () (s\<lparr>held := insert lk (held s)\<rparr>))"
  by (simp add: acquire_def holding_def)

lemma release_run [simp]:
  "release lk s = (if lk \<notin> held s then Panic ''release'' s else Ok () (s\<lparr>held := held s - {lk}\<rparr>))"
  by (simp add: release_def holding_def)

text \<open>A critical section as one step: what lies between \<open>acquire\<close> and \<open>release\<close> runs with the
  lock added to the held set.\<close>

lemma held_update_absorb [simp]:
  "held s - {lk} = H \<Longrightarrow> lk \<in> held s \<Longrightarrow> s\<lparr>held := insert lk H\<rparr> = s"
  by (cases s) auto

section \<open>Processes: the parts other components use\<close>

definition myproc :: "nat option K" where
  "myproc = kget cur"

definition upd_proc :: "nat \<Rightarrow> (proc \<Rightarrow> proc) \<Rightarrow> kstate \<Rightarrow> kstate" where
  "upd_proc i f s = s\<lparr>procs := (procs s)[i := f (procs s ! i)]\<rparr>"

text \<open>\<open>sched\<close>: the checks, then the switch to the scheduler.  On this hart \<open>mycpu()->noff\<close> is the
  number of spin locks held, and interrupts are off whenever one is held.\<close>
definition sched :: "unit K" where
  "sched = (\<lambda>s. case cur s of
       None \<Rightarrow> Panic ''null proc'' s
     | Some p \<Rightarrow>
         if LK_proc p \<notin> held s then Panic ''sched p->lock'' s
         else if card (held s) \<noteq> 1 then Panic ''sched locks'' s
         else if p_state (procs s ! p) = RUNNING then Panic ''sched RUNNING'' s
         else Switch s)"

text \<open>The first half of \<open>sleep\<close>, up to \<open>sched()\<close>; the second half, after the process has been
  scheduled again, is \<open>sleep_resume\<close>.\<close>
definition sleep :: "chan \<Rightarrow> lock \<Rightarrow> unit K" where
  "sleep ch lk =
     kbind myproc (\<lambda>me. case me of
       None \<Rightarrow> kpanic ''null proc''
     | Some p \<Rightarrow> kdo [
         acquire (LK_proc p),
         release lk,
         kmod (upd_proc p (\<lambda>q. q\<lparr>p_chan := Some ch\<rparr>)),
         kmod (upd_proc p (\<lambda>q. q\<lparr>p_state := SLEEPING\<rparr>)),
         sched])"

definition sleep_resume :: "lock \<Rightarrow> unit K" where
  "sleep_resume lk =
     kbind myproc (\<lambda>me. case me of
       None \<Rightarrow> kpanic ''null proc''
     | Some p \<Rightarrow> kdo [
         kmod (upd_proc p (\<lambda>q. q\<lparr>p_chan := None\<rparr>)),
         release (LK_proc p),
         acquire lk])"

text \<open>The loop body of \<open>wakeup\<close>, for the table entry \<open>i\<close>, and the loop.\<close>
definition wakeup_one :: "chan \<Rightarrow> nat \<Rightarrow> unit K" where
  "wakeup_one ch i =
     kbind myproc (\<lambda>me.
     kwhen (me \<noteq> Some i) (kdo [
       acquire (LK_proc i),
       kbind (kget (\<lambda>s. procs s ! i)) (\<lambda>p.
         kwhen (p_state p = SLEEPING \<and> p_chan p = Some ch)
           (kmod (upd_proc i (\<lambda>q. q\<lparr>p_state := RUNNABLE\<rparr>)))),
       release (LK_proc i)]))"

definition wakeup :: "chan \<Rightarrow> unit K" where
  "wakeup ch = kfor [0..<NPROC] (wakeup_one ch)"

definition killed :: "nat \<Rightarrow> bool K" where
  "killed p =
     kbind (acquire (LK_proc p)) (\<lambda>_.
     kbind (kget (\<lambda>s. p_killed (procs s ! p))) (\<lambda>k.
     kbind (release (LK_proc p)) (\<lambda>_.
     kret k)))"

definition setkilled :: "nat \<Rightarrow> unit K" where
  "setkilled p = kdo [
     acquire (LK_proc p),
     kmod (upd_proc p (\<lambda>q. q\<lparr>p_killed := True\<rparr>)),
     release (LK_proc p)]"

subsection \<open>The effect of a wakeup\<close>

definition woken :: "chan \<Rightarrow> nat option \<Rightarrow> nat \<Rightarrow> proc \<Rightarrow> proc" where
  "woken ch me i p =
     (if me \<noteq> Some i \<and> p_state p = SLEEPING \<and> p_chan p = Some ch then p\<lparr>p_state := RUNNABLE\<rparr> else p)"

definition wake_all :: "chan \<Rightarrow> nat option \<Rightarrow> proc list \<Rightarrow> proc list" where
  "wake_all ch me ps = map2 (woken ch me) [0..<length ps] ps"

lemma length_wake_all [simp]: "length (wake_all ch me ps) = length ps"
  by (simp add: wake_all_def)

lemma wake_all_nth: "i < length ps \<Longrightarrow> wake_all ch me ps ! i = woken ch me i (ps ! i)"
  by (simp add: wake_all_def)

definition no_proc_lock :: "kstate \<Rightarrow> bool" where
  "no_proc_lock s \<longleftrightarrow> (\<forall>i. LK_proc i \<notin> held s)"

lemma wakeup_loop:
  assumes "no_proc_lock s" "n \<le> length (procs s)"
  shows "kfor [k..<n] (wakeup_one ch) s
     = Ok () (s\<lparr>procs := map2 (\<lambda>i p. if k \<le> i \<and> i < n then woken ch (cur s) i p else p)
         [0..<length (procs s)] (procs s)\<rparr>)"
  using assms
proof (induction "n - k" arbitrary: k s)
  case 0
  have "map2 (\<lambda>i p. if k \<le> i \<and> i < n then woken ch (cur s) i p else p)
         [0..<length (procs s)] (procs s) = procs s"
    using 0 by (auto intro!: nth_equalityI)
  then show ?case using 0 by simp
next
  case (Suc d)
  then have kn: "k < n" by simp
  define s' where "s' = s\<lparr>procs := (procs s)[k := woken ch (cur s) k (procs s ! k)]\<rparr>"
  have step: "wakeup_one ch k s = Ok () s'"
    using Suc.prems by (auto simp: wakeup_one_def s'_def myproc_def no_proc_lock_def woken_def upd_proc_def)
  have up: "[k..<n] = k # [Suc k..<n]" using kn by (rule upt_conv_Cons)
  have rest: "kfor [Suc k..<n] (wakeup_one ch) s' = Ok () (s'\<lparr>procs :=
      map2 (\<lambda>i p. if Suc k \<le> i \<and> i < n then woken ch (cur s') i p else p)
         [0..<length (procs s')] (procs s')\<rparr>)"
    by (rule Suc.hyps(1)) (use Suc.hyps(2) Suc.prems in \<open>auto simp: s'_def no_proc_lock_def\<close>)
  have "map2 (\<lambda>i p. if Suc k \<le> i \<and> i < n then woken ch (cur s') i p else p)
         [0..<length (procs s')] (procs s')
      = map2 (\<lambda>i p. if k \<le> i \<and> i < n then woken ch (cur s) i p else p)
         [0..<length (procs s)] (procs s)"
    using kn Suc.prems(2)
    by (intro nth_equalityI) (auto simp: s'_def nth_list_update)
  with rest show ?case
    by (simp add: up step) (simp add: s'_def)
qed

lemma wakeup_run:
  assumes "no_proc_lock s" "length (procs s) = NPROC"
  shows "wakeup ch s = Ok () (s\<lparr>procs := wake_all ch (cur s) (procs s)\<rparr>)"
proof -
  have "map2 (\<lambda>i p. if 0 \<le> i \<and> i < NPROC then woken ch (cur s) i p else p)
         [0..<length (procs s)] (procs s) = wake_all ch (cur s) (procs s)"
    using assms(2) by (intro nth_equalityI) (auto simp: wake_all_def)
  then show ?thesis
    unfolding wakeup_def using wakeup_loop [OF assms(1), of NPROC 0 ch] assms(2) by simp
qed

section \<open>Parts of the state that a computation leaves alone\<close>

named_theorems preserves_intros "computations that leave a part of the state alone"

definition preserves :: "(kstate \<Rightarrow> 'b) \<Rightarrow> 'a K \<Rightarrow> bool" where
  "preserves g m \<longleftrightarrow> (\<forall>s x t. m s = Ok x t \<longrightarrow> g t = g s)"

lemma preservesD: "preserves g m \<Longrightarrow> m s = Ok x t \<Longrightarrow> g t = g s"
  by (simp add: preserves_def)

lemma preserves_kmod: "(\<And>s. g (f s) = g s) \<Longrightarrow> preserves g (kmod f)"
  by (simp add: preserves_def)

lemma preserves_basic [preserves_intros]:
  "preserves g (kret x)" "preserves g (kget h)" "preserves g (kpanic e)" "preserves g kdiverge" "preserves g sched"
  by (auto simp: preserves_def sched_def split: option.splits if_splits)

lemma preserves_kbind [preserves_intros]: "preserves g m \<Longrightarrow> (\<And>x. preserves g (f x)) \<Longrightarrow> preserves g (kbind m f)"
  unfolding preserves_def kbind_ok_iff by metis

lemma preserves_if [preserves_intros]:
  "(b \<Longrightarrow> preserves g m) \<Longrightarrow> (\<not> b \<Longrightarrow> preserves g n) \<Longrightarrow> preserves g (if b then m else n)"
  by simp

lemma preserves_kwhen [preserves_intros]: "preserves g m \<Longrightarrow> preserves g (kwhen b m)"
  by (simp add: kwhen_def preserves_basic)

lemma preserves_kdo [preserves_intros]:
  "preserves g (kdo [])" "preserves g m \<Longrightarrow> preserves g (kdo ms) \<Longrightarrow> preserves g (kdo (m # ms))"
  by (auto intro: preserves_intros)

lemma preserves_kfor [preserves_intros]: "(\<And>x. preserves g (f x)) \<Longrightarrow> preserves g (kfor xs f)"
  by (induction xs) (auto intro: preserves_intros)

lemma preserves_option [preserves_intros]:
  "preserves g m \<Longrightarrow> (\<And>x. preserves g (f x)) \<Longrightarrow> preserves g (case r of None \<Rightarrow> m | Some x \<Rightarrow> f x)"
  by (cases r) auto

lemma preserves_ksearch [preserves_intros]: "(\<And>x. preserves g (f x)) \<Longrightarrow> preserves g (ksearch xs f)"
  by (induction xs) (auto intro!: preserves_intros)

lemma preserves_locks:
  assumes "\<And>s h. g (s\<lparr>held := h\<rparr>) = g s"
  shows "preserves g (acquire lk)" "preserves g (release lk)"
  using assms by (auto simp: preserves_def split: if_splits)

lemma preserves_wakeup:
  assumes "\<And>s h. g (s\<lparr>held := h\<rparr>) = g s" "\<And>s q. g (s\<lparr>procs := q\<rparr>) = g s"
  shows "preserves g (wakeup ch)"
  unfolding wakeup_def wakeup_one_def myproc_def
  by (intro preserves_intros preserves_locks [OF assms(1)] preserves_kmod) (simp add: upd_proc_def assms(2))

section \<open>A concrete state\<close>

text \<open>All tables empty, nothing locked, and link-time addresses of the right order of magnitude;
  the concrete instances of the properties start from it.\<close>

definition blank_kstate :: kstate where
  "blank_kstate = \<lparr>mem = (\<lambda>_. 0),
     link = \<lparr>sym_end = 0x80050000, sym_etext = 0x80020000, sym_trampoline = 0x8001F000,
       sym_uservec = 0x8001F000, sym_userret = 0x8001F100, sym_usertrap = 0x80003000,
       sym_forkret = 0x80002000, sym_kernelvec = 0x80004000\<rparr>,
     held = {}, cur = None, freelist = 0, kernel_pagetable = 0, procs = [], initproc = None,
     nextpid = 1, bufs = [], disk = (\<lambda>_. []), wtrace = [],
     klog = \<lparr>l_start = 0, l_outstanding = 0, l_committing = False, l_dev = 0, lh_n = 0, lh_block = []\<rparr>,
     sb = \<lparr>sb_magic = 0, sb_size = 0, sb_nblocks = 0, sb_ninodes = 0, sb_nlog = 0, sb_logstart = 0,
       sb_inodestart = 0, sb_bmapstart = 0\<rparr>,
     inodes = [], files = [],
     pipes = (\<lambda>_. \<lparr>pi_data = [], pi_nread = 0, pi_nwrite = 0, pi_readopen = False, pi_writeopen = False\<rparr>),
     kcons = \<lparr>c_buf = [], c_r = 0, c_w = 0, c_e = 0\<rparr>, uart_out = [], tx_busy = False, ticks = 0\<rparr>"

end
