(* ===== verification/KV_Spinlock.thy ===== *)
theory KV_Spinlock
  imports KV_State
begin

text \<open>
  kernel/spinlock.c in full: the lock word and owner field of a spin lock, the per-hart interrupt
  enable bit and the \<open>noff\<close>/\<open>intena\<close> pair of \<open>struct cpu\<close>.  Two views are given.  The sequential
  one runs \<open>push_off\<close>, \<open>pop_off\<close>, \<open>acquire\<close> and \<open>release\<close> of one hart as functions.  The
  concurrent one cuts \<open>acquire\<close> and \<open>release\<close> at their atomic memory accesses (the swap on the
  lock word, the writes of the owner field) and lets the harts interleave arbitrarily.  The lemmas
  show mutual exclusion, that \<open>noff\<close> counts the locks of a hart, and that the held-set operations
  of \<open>KV_State\<close> are what the uncontended code does.
\<close>

section \<open>Model\<close>

record spinlock =
  lk_locked :: bool
  lk_cpu :: "nat option"

record hart =
  h_noff :: int
  h_intena :: bool
  h_sie :: bool

record smp =
  locks :: "lock \<Rightarrow> spinlock"
  harts :: "nat \<Rightarrow> hart"

text \<open>A lock operation returns, panics, or keeps spinning on a word another hart has set.\<close>
datatype lres = LOk smp | LPanic string | LSpin smp

definition upd_lock :: "lock \<Rightarrow> (spinlock \<Rightarrow> spinlock) \<Rightarrow> smp \<Rightarrow> smp" where
  "upd_lock lk f s = s\<lparr>locks := (locks s)(lk := f (locks s lk))\<rparr>"

definition upd_hart :: "nat \<Rightarrow> (hart \<Rightarrow> hart) \<Rightarrow> smp \<Rightarrow> smp" where
  "upd_hart c f s = s\<lparr>harts := (harts s)(c := f (harts s c))\<rparr>"

definition intr_on :: "nat \<Rightarrow> smp \<Rightarrow> smp" where
  "intr_on c s = upd_hart c (\<lambda>h. h\<lparr>h_sie := True\<rparr>) s"

definition intr_off :: "nat \<Rightarrow> smp \<Rightarrow> smp" where
  "intr_off c s = upd_hart c (\<lambda>h. h\<lparr>h_sie := False\<rparr>) s"

definition intr_get :: "nat \<Rightarrow> smp \<Rightarrow> bool" where
  "intr_get c s = h_sie (harts s c)"

definition initlock :: "lock \<Rightarrow> smp \<Rightarrow> smp" where
  "initlock lk s = upd_lock lk (\<lambda>_. \<lparr>lk_locked = False, lk_cpu = None\<rparr>) s"

definition push_off :: "nat \<Rightarrow> smp \<Rightarrow> smp" where
  "push_off c s =
     (let old = intr_get c s; s = intr_off c s;
          s = (if h_noff (harts s c) = 0 then upd_hart c (\<lambda>h. h\<lparr>h_intena := old\<rparr>) s else s)
      in upd_hart c (\<lambda>h. h\<lparr>h_noff := h_noff h + 1\<rparr>) s)"

definition pop_off :: "nat \<Rightarrow> smp \<Rightarrow> lres" where
  "pop_off c s =
     (if intr_get c s then LPanic ''pop_off - interruptible''
      else if h_noff (harts s c) < 1 then LPanic ''pop_off''
      else let s = upd_hart c (\<lambda>h. h\<lparr>h_noff := h_noff h - 1\<rparr>) s
           in if h_noff (harts s c) = 0 \<and> h_intena (harts s c) then LOk (intr_on c s) else LOk s)"

definition holding_smp :: "nat \<Rightarrow> lock \<Rightarrow> smp \<Rightarrow> bool" where
  "holding_smp c lk s \<longleftrightarrow> lk_locked (locks s lk) \<and> lk_cpu (locks s lk) = Some c"

text \<open>\<open>acquire\<close> of hart \<open>c\<close>: a set lock word leaves the hart in the swap loop.\<close>
definition acquire_smp :: "nat \<Rightarrow> lock \<Rightarrow> smp \<Rightarrow> lres" where
  "acquire_smp c lk s =
     (let s = push_off c s in
      if holding_smp c lk s then LPanic ''acquire''
      else if lk_locked (locks s lk) then LSpin s
      else LOk (upd_lock lk (\<lambda>l. l\<lparr>lk_cpu := Some c\<rparr>) (upd_lock lk (\<lambda>l. l\<lparr>lk_locked := True\<rparr>) s)))"

definition release_smp :: "nat \<Rightarrow> lock \<Rightarrow> smp \<Rightarrow> lres" where
  "release_smp c lk s =
     (if \<not> holding_smp c lk s then LPanic ''release''
      else pop_off c (upd_lock lk (\<lambda>l. l\<lparr>lk_locked := False\<rparr>)
             (upd_lock lk (\<lambda>l. l\<lparr>lk_cpu := None\<rparr>) s)))"

subsection \<open>Interleaving of harts\<close>

text \<open>Where a hart stands inside \<open>acquire\<close> or \<open>release\<close>: spinning on the swap, between the
  successful swap and \<open>lk->cpu = mycpu()\<close>, or between \<open>lk->cpu = 0\<close> and the release of the word.  \<open>Mine\<close> is a hart between the
  \<open>push_off\<close> and the \<open>pop_off\<close> of \<open>myproc\<close>.\<close>
datatype lpc = Run | Spin lock | Own lock | Drop lock | Mine

record smpc =
  smp_of :: smp
  pcs :: "nat \<Rightarrow> lpc"

text \<open>Besides, a hart calls \<open>myproc\<close>, and outside every critical section it may turn its interrupts on (\<open>scheduler\<close>, \<open>usertrap\<close>) and
  off.\<close>
inductive lock_step :: "smpc \<Rightarrow> smpc \<Rightarrow> bool" where
  acq_start: "pcs s c = Run \<Longrightarrow> \<not> holding_smp c lk (smp_of s) \<Longrightarrow>
     lock_step s (s\<lparr>smp_of := push_off c (smp_of s), pcs := (pcs s)(c := Spin lk)\<rparr>)"
| acq_swap_busy: "pcs s c = Spin lk \<Longrightarrow> lk_locked (locks (smp_of s) lk) \<Longrightarrow> lock_step s s"
| acq_swap: "pcs s c = Spin lk \<Longrightarrow> \<not> lk_locked (locks (smp_of s) lk) \<Longrightarrow>
     lock_step s (s\<lparr>smp_of := upd_lock lk (\<lambda>l. l\<lparr>lk_locked := True\<rparr>) (smp_of s),
       pcs := (pcs s)(c := Own lk)\<rparr>)"
| acq_record: "pcs s c = Own lk \<Longrightarrow>
     lock_step s (s\<lparr>smp_of := upd_lock lk (\<lambda>l. l\<lparr>lk_cpu := Some c\<rparr>) (smp_of s),
       pcs := (pcs s)(c := Run)\<rparr>)"
| rel_start: "pcs s c = Run \<Longrightarrow> holding_smp c lk (smp_of s) \<Longrightarrow>
     lock_step s (s\<lparr>smp_of := upd_lock lk (\<lambda>l. l\<lparr>lk_cpu := None\<rparr>) (smp_of s),
       pcs := (pcs s)(c := Drop lk)\<rparr>)"
| rel_word: "pcs s c = Drop lk \<Longrightarrow>
     pop_off c (upd_lock lk (\<lambda>l. l\<lparr>lk_locked := False\<rparr>) (smp_of s)) = LOk t \<Longrightarrow>
     lock_step s (s\<lparr>smp_of := t, pcs := (pcs s)(c := Run)\<rparr>)"
| my_push: "pcs s c = Run \<Longrightarrow>
     lock_step s (s\<lparr>smp_of := push_off c (smp_of s), pcs := (pcs s)(c := Mine)\<rparr>)"
| my_pop: "pcs s c = Mine \<Longrightarrow> pop_off c (smp_of s) = LOk t \<Longrightarrow>
     lock_step s (s\<lparr>smp_of := t, pcs := (pcs s)(c := Run)\<rparr>)"
| irq_on: "pcs s c = Run \<Longrightarrow> h_noff (harts (smp_of s) c) = 0 \<Longrightarrow> lock_step s (s\<lparr>smp_of := intr_on c (smp_of s)\<rparr>)"
| irq_off: "pcs s c = Run \<Longrightarrow> lock_step s (s\<lparr>smp_of := intr_off c (smp_of s)\<rparr>)"

definition lock_init :: "smpc \<Rightarrow> bool" where
  "lock_init s \<longleftrightarrow> (\<forall>lk. locks (smp_of s) lk = \<lparr>lk_locked = False, lk_cpu = None\<rparr>)
     \<and> (\<forall>c. pcs s c = Run \<and> h_noff (harts (smp_of s) c) = 0)"

text \<open>A hart owns a lock from its successful swap until the word is cleared.\<close>
definition owns :: "smpc \<Rightarrow> nat \<Rightarrow> lock \<Rightarrow> bool" where
  "owns s c lk \<longleftrightarrow> pcs s c = Own lk \<or> pcs s c = Drop lk \<or> lk_cpu (locks (smp_of s) lk) = Some c"

definition spins :: "smpc \<Rightarrow> nat \<Rightarrow> nat" where
  "spins s c = (case pcs s c of Spin _ \<Rightarrow> 1 | Mine \<Rightarrow> 1 | _ \<Rightarrow> 0)"

section \<open>Invariant\<close>

definition lock_inv :: "smpc \<Rightarrow> bool" where
  "lock_inv s \<longleftrightarrow>
     (\<forall>c lk. owns s c lk \<longrightarrow> lk_locked (locks (smp_of s) lk))
   \<and> (\<forall>c d lk. owns s c lk \<longrightarrow> owns s d lk \<longrightarrow> c = d)
   \<and> (\<forall>c lk. pcs s c = Own lk \<or> pcs s c = Drop lk \<longrightarrow> lk_cpu (locks (smp_of s) lk) = None)
   \<and> (\<forall>c. finite {lk. owns s c lk})
   \<and> (\<forall>c. h_noff (harts (smp_of s) c) = int (card {lk. owns s c lk} + spins s c))
   \<and> (\<forall>c. 0 < h_noff (harts (smp_of s) c) \<longrightarrow> \<not> h_sie (harts (smp_of s) c))"

lemmas lock_defs [kdefs] = upd_lock_def upd_hart_def intr_on_def intr_off_def intr_get_def
  holding_smp_def initlock_def

lemma push_off_harts:
  "harts (push_off c s) d = (if d = c then
     \<lparr>h_noff = h_noff (harts s c) + 1,
      h_intena = (if h_noff (harts s c) = 0 then h_sie (harts s c) else h_intena (harts s c)),
      h_sie = False\<rparr> else harts s d)"
  by (simp add: push_off_def lock_defs Let_def)

lemma push_off_locks [simp]: "locks (push_off c s) = locks s"
  by (simp add: push_off_def lock_defs Let_def)

lemma pop_off_ok:
  "pop_off c s = LOk t \<longleftrightarrow> \<not> h_sie (harts s c) \<and> 1 \<le> h_noff (harts s c)
     \<and> t = s\<lparr>harts := (harts s)(c := (harts s c)\<lparr>h_noff := h_noff (harts s c) - 1,
          h_sie := (h_noff (harts s c) = 1 \<and> h_intena (harts s c))\<rparr>)\<rparr>"
  by (cases "harts s c") (auto simp: pop_off_def lock_defs Let_def)

lemma lock_inv_init: "lock_init s \<Longrightarrow> lock_inv s"
  by (simp add: lock_init_def lock_inv_def owns_def spins_def)

lemma pop_off_owned:
  assumes "lock_inv s" and "owns s c lk"
  shows "\<not> h_sie (harts (smp_of s) c)" and "1 \<le> h_noff (harts (smp_of s) c)"
proof -
  have "finite {lk. owns s c lk}" using assms(1) by (simp add: lock_inv_def)
  then have "0 < card {lk. owns s c lk}" using assms(2) by (auto simp: card_gt_0_iff)
  moreover have "h_noff (harts (smp_of s) c) = int (card {lk. owns s c lk} + spins s c)"
    using assms(1) by (simp add: lock_inv_def)
  ultimately show "1 \<le> h_noff (harts (smp_of s) c)" by linarith
  then show "\<not> h_sie (harts (smp_of s) c)" using assms(1) by (simp add: lock_inv_def)
qed

text \<open>A step that leaves ownership as it is keeps the invariant when the counters agree.\<close>

lemma lock_inv_same:
  assumes "lock_inv s" and "owns t = owns s"
    and "\<And>lk. lk_locked (locks (smp_of t) lk) = lk_locked (locks (smp_of s) lk)"
    and "\<And>c lk. pcs t c = Own lk \<or> pcs t c = Drop lk \<Longrightarrow> lk_cpu (locks (smp_of t) lk) = None"
    and "\<And>c. h_noff (harts (smp_of t) c) - int (spins t c) = h_noff (harts (smp_of s) c) - int (spins s c)"
    and "\<And>c. 0 < h_noff (harts (smp_of t) c) \<Longrightarrow> \<not> h_sie (harts (smp_of t) c)"
  shows "lock_inv t"
proof -
  have "h_noff (harts (smp_of t) c) = int (card {lk. owns s c lk} + spins t c)" for c
    using assms(5) [of c] assms(1) by (simp add: lock_inv_def)
  then show ?thesis using assms(1-4,6) by (simp add: lock_inv_def)
qed

lemma lock_step_inv:
  assumes inv: "lock_inv s" and step: "lock_step s t"
  shows "lock_inv t"
  using step
proof cases
  case (acq_start c lk)
  have "owns t = owns s"
    using acq_start by (auto simp: owns_def fun_eq_iff)
  then show ?thesis
    using inv acq_start
    by (intro lock_inv_same [OF inv]) (auto simp: lock_inv_def push_off_harts spins_def split: if_splits)
next
  case (acq_swap c lk)
  have free: "\<not> owns s d lk" for d using inv acq_swap by (auto simp: lock_inv_def)
  then have none: "lk_cpu (locks (smp_of s) lk) = None"
    by (cases "lk_cpu (locks (smp_of s) lk)") (auto simp: owns_def)
  have ow: "owns t d l \<longleftrightarrow> owns s d l \<or> (d = c \<and> l = lk)" for d l
    using acq_swap none by (auto simp: owns_def lock_defs)
  have set: "{l. owns t d l} = (if d = c then insert lk {l. owns s d l} else {l. owns s d l})" for d
    by (auto simp: ow)
  have card: "card {l. owns t d l} = card {l. owns s d l} + (if d = c then 1 else 0)" for d
    using inv free by (simp add: set lock_inv_def)
  have sp: "spins t d + (if d = c then 1 else 0) = spins s d" for d
    using acq_swap by (simp add: spins_def)
  have t: "pcs t = (pcs s)(c := Own lk)" "harts (smp_of t) = harts (smp_of s)"
    "locks (smp_of t) = (locks (smp_of s))(lk := (locks (smp_of s) lk)\<lparr>lk_locked := True\<rparr>)"
    using acq_swap by (simp_all add: lock_defs)
  have noff: "h_noff (harts (smp_of t) d) = int (card {l. owns t d l} + spins t d)" for d
    using inv sp [of d] unfolding lock_inv_def card t by auto
  show ?thesis
    unfolding lock_inv_def
  proof (intro conjI allI impI)
    fix d show "h_noff (harts (smp_of t) d) = int (card {l. owns t d l} + spins t d)" by (rule noff)
  qed (use inv acq_swap(2) free none in \<open>auto simp: lock_inv_def ow set t split: if_splits\<close>)
next
  case (acq_record c lk)
  have only: "owns s d lk \<longleftrightarrow> d = c" for d
    using inv acq_record by (auto simp: lock_inv_def owns_def)
  have t: "pcs t = (pcs s)(c := Run)" "harts (smp_of t) = harts (smp_of s)"
    "locks (smp_of t) = (locks (smp_of s))(lk := (locks (smp_of s) lk)\<lparr>lk_cpu := Some c\<rparr>)"
    using acq_record by (simp_all add: lock_defs)
  have same: "owns t = owns s"
    using only acq_record(2) by (auto simp: owns_def fun_eq_iff t)
  have "lk_cpu (locks (smp_of t) l) = None" if "pcs t d = Own l \<or> pcs t d = Drop l" for d l
    using that only [of d] inv by (auto simp: t lock_inv_def owns_def split: if_splits)
  then show ?thesis
    using inv acq_record(2) by (intro lock_inv_same [OF inv same]) (auto simp: lock_inv_def t spins_def)
next
  case (rel_start c lk)
  have only: "owns s d lk \<longleftrightarrow> d = c" for d
    using inv rel_start by (auto simp: lock_inv_def owns_def lock_defs)
  have t: "pcs t = (pcs s)(c := Drop lk)" "harts (smp_of t) = harts (smp_of s)"
    "locks (smp_of t) = (locks (smp_of s))(lk := (locks (smp_of s) lk)\<lparr>lk_cpu := None\<rparr>)"
    using rel_start by (simp_all add: lock_defs)
  have same: "owns t = owns s"
    using only rel_start(2,3) by (auto simp: owns_def fun_eq_iff t lock_defs)
  have "lk_cpu (locks (smp_of t) l) = None" if "pcs t d = Own l \<or> pcs t d = Drop l" for d l
    using that only [of d] inv by (auto simp: t lock_inv_def owns_def split: if_splits)
  then show ?thesis
    using inv rel_start(2) by (intro lock_inv_same [OF inv same]) (auto simp: lock_inv_def t spins_def)
next
  case (rel_word c lk u)
  have only: "owns s d lk \<longleftrightarrow> d = c" for d
    using inv rel_word by (auto simp: lock_inv_def owns_def)
  have none: "lk_cpu (locks (smp_of s) lk) = None"
    using inv rel_word by (auto simp: lock_inv_def)
  have ow: "owns t d l \<longleftrightarrow> owns s d l \<and> \<not> (d = c \<and> l = lk)" for d l
    using rel_word none by (auto simp: owns_def pop_off_ok lock_defs split: if_splits)
  have set: "{l. owns t d l} = (if d = c then {l. owns s d l} - {lk} else {l. owns s d l})" for d
    by (auto simp: ow)
  have fin: "finite {l. owns s d l}" for d using inv by (simp add: lock_inv_def)
  have card: "card {l. owns s d l} = card {l. owns t d l} + (if d = c then 1 else 0)" for d
    using fin only [of c] card_Suc_Diff1 [of "{l. owns s c l}" lk] by (simp add: set)
  have t: "pcs t = (pcs s)(c := Run)"
    "locks (smp_of t) = (locks (smp_of s))(lk := (locks (smp_of s) lk)\<lparr>lk_locked := False\<rparr>)"
    "harts (smp_of t) = (harts (smp_of s))(c := (harts (smp_of s) c)\<lparr>
       h_noff := h_noff (harts (smp_of s) c) - 1,
       h_sie := (h_noff (harts (smp_of s) c) = 1 \<and> h_intena (harts (smp_of s) c))\<rparr>)"
    using rel_word by (simp_all add: pop_off_ok lock_defs)
  have noff: "h_noff (harts (smp_of t) d) = int (card {l. owns t d l} + spins t d)" for d
    using inv rel_word(2) unfolding lock_inv_def card t(3) by (auto simp: spins_def t)
  show ?thesis
    unfolding lock_inv_def
  proof (intro conjI allI impI)
    fix d show "h_noff (harts (smp_of t) d) = int (card {l. owns t d l} + spins t d)" by (rule noff)
  qed (use inv rel_word(2) none only in \<open>auto simp: lock_inv_def ow set t split: if_splits\<close>)
next
  case (my_push c)
  have "owns t = owns s" using my_push by (auto simp: owns_def fun_eq_iff)
  then show ?thesis
    using inv my_push
    by (intro lock_inv_same [OF inv]) (auto simp: lock_inv_def push_off_harts spins_def split: if_splits)
next
  case (my_pop c u)
  have "owns t = owns s" using my_pop by (auto simp: owns_def fun_eq_iff pop_off_ok)
  then show ?thesis
    using inv my_pop by (intro lock_inv_same [OF inv]) (auto simp: lock_inv_def pop_off_ok spins_def card_gt_0_iff split: if_splits)
next
  case (irq_on c)
  have "owns t = owns s" using irq_on by (auto simp: owns_def fun_eq_iff lock_defs)
  then show ?thesis
    using inv irq_on by (intro lock_inv_same [OF inv]) (auto simp: lock_inv_def lock_defs spins_def card_gt_0_iff split: if_splits)
next
  case (irq_off c)
  have "owns t = owns s" using irq_off by (auto simp: owns_def fun_eq_iff lock_defs)
  then show ?thesis
    using inv irq_off by (intro lock_inv_same [OF inv]) (auto simp: lock_inv_def lock_defs spins_def split: if_splits)
qed (use inv in simp)

interpretation spin: invariant_system lock_init lock_step lock_inv
  by unfold_locales (auto intro: lock_inv_init lock_step_inv)

text \<open>Undisturbed, the steps of a hart compose to \<open>acquire\<close> and \<open>release\<close>.\<close>

lemma acquire_smp_steps:
  assumes "pcs s c = Run" "acquire_smp c lk (smp_of s) = LOk t"
  shows "lock_step\<^sup>*\<^sup>* s (s\<lparr>smp_of := t\<rparr>)"
proof -
  let ?p = "push_off c (smp_of s)"
  let ?a = "s\<lparr>smp_of := ?p, pcs := (pcs s)(c := Spin lk)\<rparr>"
  let ?b = "s\<lparr>smp_of := upd_lock lk (\<lambda>l. l\<lparr>lk_locked := True\<rparr>) ?p, pcs := (pcs s)(c := Own lk)\<rparr>"
  have h: "\<not> holding_smp c lk ?p" "\<not> lk_locked (locks ?p lk)"
    "t = upd_lock lk (\<lambda>l. l\<lparr>lk_cpu := Some c\<rparr>) (upd_lock lk (\<lambda>l. l\<lparr>lk_locked := True\<rparr>) ?p)"
    using assms(2) by (auto simp: acquire_smp_def Let_def split: if_splits)
  have "lock_step s ?a"
    using h(1) assms(1) by (intro lock_step.acq_start) (simp_all add: lock_defs)
  moreover have "lock_step ?a ?b"
    using lock_step.acq_swap [of ?a c lk] h(2) by simp
  moreover have "lock_step ?b (s\<lparr>smp_of := t\<rparr>)"
    using lock_step.acq_record [of ?b c lk] assms(1) h(3) by (simp add: fun_upd_idem)
  ultimately show ?thesis by (meson converse_rtranclp_into_rtranclp rtranclp.rtrancl_refl)
qed

lemma release_smp_steps:
  assumes "pcs s c = Run" "release_smp c lk (smp_of s) = LOk t"
  shows "lock_step\<^sup>*\<^sup>* s (s\<lparr>smp_of := t\<rparr>)"
proof -
  let ?a = "s\<lparr>smp_of := upd_lock lk (\<lambda>l. l\<lparr>lk_cpu := None\<rparr>) (smp_of s), pcs := (pcs s)(c := Drop lk)\<rparr>"
  have h: "holding_smp c lk (smp_of s)"
    "pop_off c (upd_lock lk (\<lambda>l. l\<lparr>lk_locked := False\<rparr>) (smp_of ?a)) = LOk t"
    using assms(2) by (auto simp: release_smp_def split: if_splits)
  have "lock_step s ?a" by (rule lock_step.rel_start [OF assms(1) h(1)])
  moreover have "lock_step ?a (s\<lparr>smp_of := t\<rparr>)"
    using lock_step.rel_word [OF _ h(2)] assms(1) by (simp add: fun_upd_idem)
  ultimately show ?thesis by (meson converse_rtranclp_into_rtranclp rtranclp.rtrancl_refl)
qed

section \<open>Properties\<close>

text \<open>(C6) Mutual exclusion: in every state that any number of harts can reach by interleaving
  the memory accesses of \<open>acquire\<close> and \<open>release\<close>, a lock has at most one owner, counting a hart as
  owner from its successful swap on the lock word until that word is cleared.\<close>

theorem spinlock_mutual_exclusion:
  assumes "lock_init s" and "lock_step\<^sup>*\<^sup>* s t" and "owns t c lk" and "owns t d lk"
  shows "c = d"
  using spin.reach_inv [OF assms(1,2)] assms(3,4) by (auto simp: lock_inv_def)

definition spin_init_example :: smpc where
  "spin_init_example = \<lparr>smp_of = \<lparr>locks = (\<lambda>_. \<lparr>lk_locked = False, lk_cpu = None\<rparr>),
     harts = (\<lambda>_. \<lparr>h_noff = 0, h_intena = False, h_sie = True\<rparr>)\<rparr>, pcs = (\<lambda>_. Run)\<rparr>"

lemma spin_example_run:
  "\<exists>t. lock_step\<^sup>*\<^sup>* spin_init_example t \<and> owns t 1 LK_kmem \<and> pcs t 1 = Own LK_kmem"
proof -
  let ?a = "spin_init_example\<lparr>smp_of := push_off 1 (smp_of spin_init_example),
    pcs := (pcs spin_init_example)(1 := Spin LK_kmem)\<rparr>"
  have "lock_step spin_init_example ?a"
    by (rule lock_step.acq_start) (simp_all add: spin_init_example_def lock_defs)
  moreover have "lock_step ?a (?a\<lparr>smp_of := upd_lock LK_kmem (\<lambda>l. l\<lparr>lk_locked := True\<rparr>) (smp_of ?a),
       pcs := (pcs ?a)(1 := Own LK_kmem)\<rparr>)"
    by (rule lock_step.acq_swap) (simp_all add: spin_init_example_def)
  ultimately have "lock_step\<^sup>*\<^sup>* spin_init_example
      (?a\<lparr>smp_of := upd_lock LK_kmem (\<lambda>l. l\<lparr>lk_locked := True\<rparr>) (smp_of ?a),
       pcs := (pcs ?a)(1 := Own LK_kmem)\<rparr>)"
    by (meson rtranclp.rtrancl_refl rtranclp.rtrancl_into_rtrancl)
  then show ?thesis by (intro exI conjI) (assumption, simp_all add: owns_def)
qed

theorem spinlock_mutual_exclusion_witness:
  "\<exists>t. lock_init spin_init_example \<and> lock_step\<^sup>*\<^sup>* spin_init_example t \<and> owns t 1 LK_kmem
     \<and> (\<forall>d. owns t d LK_kmem \<longrightarrow> 1 = d)"
proof -
  have "lock_init spin_init_example" by (simp add: lock_init_def spin_init_example_def)
  then show ?thesis using spin_example_run spinlock_mutual_exclusion by blast
qed

text \<open>(C7) In every reachable state a hart's \<open>noff\<close> is the number of spin locks it owns, plus one
  while it spins or runs \<open>myproc\<close>, and its interrupts are off as long as \<open>noff\<close> is positive: already while it spins for its first
  lock, and until the last lock is released.  So the test \<open>mycpu()->noff != 1\<close> in \<open>sched\<close> is a test for exactly one lock.\<close>

theorem noff_counts_locks:
  assumes "lock_init s" and "lock_step\<^sup>*\<^sup>* s t"
  shows "h_noff (harts (smp_of t) c) = int (card {lk. owns t c lk} + spins t c)
    \<and> finite {lk. owns t c lk}
    \<and> (0 < h_noff (harts (smp_of t) c) \<longrightarrow> \<not> h_sie (harts (smp_of t) c))"
proof -
  have "lock_inv t" using spin.reach_inv assms by blast
  then show ?thesis by (simp add: lock_inv_def)
qed

text \<open>A hart that spins for its first lock, and a hart that owns one.\<close>
theorem noff_counts_locks_witness:
  "(\<exists>t. lock_step\<^sup>*\<^sup>* spin_init_example t \<and> pcs t 1 = Spin LK_kmem \<and> \<not> owns t 1 LK_kmem \<and> \<not> h_sie (harts (smp_of t) 1))
   \<and> (\<exists>t. lock_step\<^sup>*\<^sup>* spin_init_example t \<and> owns t 1 LK_kmem \<and> \<not> h_sie (harts (smp_of t) 1))"
proof
  have i: "lock_init spin_init_example" by (simp add: lock_init_def spin_init_example_def)
  let ?a = "spin_init_example\<lparr>smp_of := push_off 1 (smp_of spin_init_example), pcs := (pcs spin_init_example)(1 := Spin LK_kmem)\<rparr>"
  have "lock_step spin_init_example ?a" by (rule lock_step.acq_start) (simp_all add: spin_init_example_def lock_defs)
  then have a: "lock_step\<^sup>*\<^sup>* spin_init_example ?a" by simp
  show "\<exists>t. lock_step\<^sup>*\<^sup>* spin_init_example t \<and> pcs t 1 = Spin LK_kmem \<and> \<not> owns t 1 LK_kmem \<and> \<not> h_sie (harts (smp_of t) 1)"
    using a noff_counts_locks [OF i a, of 1] by (intro exI [of _ ?a]) (simp add: owns_def spins_def spin_init_example_def)
  obtain t where t: "lock_step\<^sup>*\<^sup>* spin_init_example t" "owns t 1 LK_kmem" using spin_example_run by blast
  have "0 < card {lk. owns t 1 lk}" using noff_counts_locks [OF i t(1), of 1] t(2) by (auto simp: card_gt_0_iff)
  then show "\<exists>t. lock_step\<^sup>*\<^sup>* spin_init_example t \<and> owns t 1 LK_kmem \<and> \<not> h_sie (harts (smp_of t) 1)"
    using noff_counts_locks [OF i t(1), of 1] t by auto
qed

definition held_by :: "nat \<Rightarrow> smp \<Rightarrow> lock set" where
  "held_by c s = {lk. holding_smp c lk s}"

definition counted :: "nat \<Rightarrow> smp \<Rightarrow> bool" where
  "counted c s \<longleftrightarrow> 0 \<le> h_noff (harts s c) \<and> (\<forall>lk. holding_smp c lk s \<longrightarrow> 1 \<le> h_noff (harts s c) \<and> \<not> h_sie (harts s c))"

text \<open>(C8) The held-set \<open>acquire\<close> and \<open>release\<close> that the other components call are what the
  code of spinlock.c does on one hart: with \<open>held\<close> the set of locks whose word is set and whose owner
  field names the hart, a lock word that is free or the hart's own gives the same result, panic
  for panic and set for set.\<close>

theorem spinlock_refines_held_set:
  assumes "held k = held_by c s" and "counted c s"
    and "lk_locked (locks s lk) \<Longrightarrow> lk_cpu (locks s lk) = Some c"
  shows "(case acquire lk k of
       Ok _ k' \<Rightarrow> \<exists>t. acquire_smp c lk s = LOk t \<and> held k' = held_by c t \<and> counted c t
     | Panic e _ \<Rightarrow> acquire_smp c lk s = LPanic e
     | _ \<Rightarrow> False)
    \<and> (case release lk k of
       Ok _ k' \<Rightarrow> \<exists>t. release_smp c lk s = LOk t \<and> held k' = held_by c t
     | Panic e _ \<Rightarrow> release_smp c lk s = LPanic e
     | _ \<Rightarrow> False)"
proof -
  have "case acquire lk k of
       Ok _ k' \<Rightarrow> \<exists>t. acquire_smp c lk s = LOk t \<and> held k' = held_by c t \<and> counted c t
     | Panic e _ \<Rightarrow> acquire_smp c lk s = LPanic e
     | _ \<Rightarrow> False"
    using assms by (auto simp: acquire_smp_def held_by_def lock_defs Let_def counted_def push_off_harts)
  moreover have "case release lk k of
       Ok _ k' \<Rightarrow> \<exists>t. release_smp c lk s = LOk t \<and> held k' = held_by c t
     | Panic e _ \<Rightarrow> release_smp c lk s = LPanic e
     | _ \<Rightarrow> False"
    using assms by (auto simp: release_smp_def held_by_def pop_off_ok lock_defs counted_def split: if_splits)
  ultimately show ?thesis by blast
qed

theorem spinlock_refines_held_set_witness:
  "\<exists>t. acquire_smp 0 LK_kmem (smp_of spin_init_example) = LOk t \<and> held_by 0 t = {LK_kmem}"
proof -
  let ?s = "smp_of spin_init_example"
  have h: "held blank_kstate = held_by 0 ?s" "counted 0 ?s"
    "lk_locked (locks ?s LK_kmem) \<Longrightarrow> lk_cpu (locks ?s LK_kmem) = Some 0"
    by (auto simp: blank_kstate_def held_by_def spin_init_example_def counted_def lock_defs)
  have e: "held blank_kstate = {}" by (simp add: blank_kstate_def)
  show ?thesis using spinlock_refines_held_set [OF h] by (auto simp: e)
qed

end
