(* ===== verification/KV_Kalloc.thy ===== *)
theory KV_Kalloc
  imports KV_State
begin

text \<open>
  The physical page allocator, kernel/kalloc.c.  The free list is kept where the code keeps it: the
  first word of a free page holds the address of the next one, and \<open>kmem.freelist\<close> the address of
  the first.  The abstraction \<open>free_pages\<close> reads that chain as a list; the locale \<open>page_allocator\<close>
  is the contract the virtual memory code relies on, and the allocator is shown to be an instance of it.
\<close>

section \<open>Model\<close>

definition kfree :: "u32 \<Rightarrow> unit K" where
  "kfree pa =
     kbind (kget (\<lambda>s. sym_end (link s))) (\<lambda>end_addr.
     if pa mod PGSIZE \<noteq> 0 \<or> pa < end_addr \<or> PHYSTOP \<le> pa then kpanic ''kfree''
     else kdo [
       kmod (\<lambda>s. s\<lparr>mem := memset pa 1 PGSIZE (mem s)\<rparr>),
       acquire LK_kmem,
       kmod (\<lambda>s. s\<lparr>mem := store32 (mem s) pa (freelist s)\<rparr>),
       kmod (\<lambda>s. s\<lparr>freelist := pa\<rparr>),
       release LK_kmem])"

definition kalloc :: "u32 K" where
  "kalloc =
     kbind (acquire LK_kmem) (\<lambda>_.
     kbind (kget freelist) (\<lambda>r.
     kbind (kwhen (r \<noteq> 0) (kmod (\<lambda>s. s\<lparr>freelist := load32 (mem s) r\<rparr>))) (\<lambda>_.
     kbind (release LK_kmem) (\<lambda>_.
     kbind (kwhen (r \<noteq> 0) (kmod (\<lambda>s. s\<lparr>mem := memset r 5 PGSIZE (mem s)\<rparr>))) (\<lambda>_.
     kret r)))))"

text \<open>The loop of \<open>freerange\<close>; \<open>p\<close> is a \<open>char *\<close>, whose arithmetic does not wrap in C.\<close>
function freerange_loop :: "nat \<Rightarrow> nat \<Rightarrow> unit K" where
  "freerange_loop p pa_end =
     (if p + 4096 \<le> pa_end
      then kbind (kfree (of_nat p)) (\<lambda>_. freerange_loop (p + 4096) pa_end)
      else kret ())"
  by pat_completeness auto
termination
  by (relation "measure (\<lambda>(p, e). e - p)") auto

declare freerange_loop.simps [simp del]

definition freerange :: "u32 \<Rightarrow> u32 \<Rightarrow> unit K" where
  "freerange pa_start pa_end = freerange_loop (unat (PGROUNDUP pa_start)) (unat pa_end)"

text \<open>\<open>initlock\<close> makes \<open>kmem.lock\<close> a free lock, which it is in a state that does not hold it.\<close>
definition kinit :: "unit K" where
  "kinit = kbind (kget (\<lambda>s. sym_end (link s))) (\<lambda>e. freerange e PHYSTOP)"

section \<open>The free list as a list of pages\<close>

definition page_ok :: "u32 \<Rightarrow> u32 \<Rightarrow> bool" where
  "page_ok e p \<longleftrightarrow> unat p mod 4096 = 0 \<and> e \<le> p \<and> p < PHYSTOP \<and> p \<noteq> 0"

primrec chain :: "memory \<Rightarrow> u32 \<Rightarrow> u32 list \<Rightarrow> bool" where
  "chain m r [] \<longleftrightarrow> r = 0"
| "chain m r (p # ps) \<longleftrightarrow> r = p \<and> p \<noteq> 0 \<and> chain m (load32 m p) ps"

definition free_pages :: "kstate \<Rightarrow> u32 list \<Rightarrow> bool" where
  "free_pages s ps \<longleftrightarrow> chain (mem s) (freelist s) ps \<and> distinct ps
     \<and> (\<forall>p \<in> set ps. page_ok (sym_end (link s)) p) \<and> LK_kmem \<notin> held s"

text \<open>\<open>t\<close> is \<open>s\<close> up to the contents of the page \<open>p\<close> and the free list head.\<close>
definition only_page :: "u32 \<Rightarrow> kstate \<Rightarrow> kstate \<Rightarrow> bool" where
  "only_page p s t \<longleftrightarrow> (\<exists>m f. t = s\<lparr>mem := m, freelist := f\<rparr>
     \<and> (\<forall>a. 4096 \<le> unat (a - p) \<longrightarrow> m a = mem s a))"

subsection \<open>Lemmas\<close>

lemma page_disjoint:
  assumes "unat (p :: u32) mod 4096 = 0" "unat (q :: u32) mod 4096 = 0" "p \<noteq> q" "unat k < 4096"
  shows "4096 \<le> unat (q + k - p)"
proof -
  obtain a b where ab: "unat p = 4096 * a" "unat q = 4096 * b"
    using assms(1,2) by (auto simp: mod_eq_0_iff_dvd dvd_def)
  have lim: "a < 1048576" "b < 1048576"
    using unat_less_32 [of p] unat_less_32 [of q] ab by simp_all
  have ne: "a \<noteq> b" using assms(3) ab by (metis word_eq_unat)
  have "unat (q + k) = 4096 * b + unat k"
    using lim ab assms(4) by (simp add: unat_add_32)
  then show ?thesis
    using ab lim ne assms(4) by (auto simp: unat_sub_if)
qed

lemma chain_cong:
  assumes "\<And>p. p \<in> set ps \<Longrightarrow> load32 m' p = load32 m p"
  shows "chain m' r ps = chain m r ps"
  using assms by (induction ps arbitrary: r) auto

lemma load32_outside:
  assumes "unat p mod 4096 = 0" "unat q mod 4096 = 0" "p \<noteq> q"
    and "\<And>a. 4096 \<le> unat (a - p) \<Longrightarrow> m' a = m a"
  shows "load32 m' q = load32 m q"
  using page_disjoint [OF assms(1-3), of 0] page_disjoint [OF assms(1-3), of 1]
    page_disjoint [OF assms(1-3), of 2] page_disjoint [OF assms(1-3), of 3]
  by (intro load32_cong assms(4)) simp_all

lemma chain_outside:
  assumes "unat p mod 4096 = 0" "p \<notin> set ps" "\<forall>q \<in> set ps. unat q mod 4096 = 0"
    and "\<And>a. 4096 \<le> unat (a - p) \<Longrightarrow> m' a = m a"
  shows "chain m' r ps = chain m r ps"
  by (rule chain_cong, rule load32_outside [OF assms(1) _ _ assms(4)]) (use assms(2,3) in auto)

lemma memset_page_outside: "4096 \<le> unat (a - p) \<Longrightarrow> memset p c PGSIZE m a = m a"
  by (simp add: memset_apply)

lemma page_mod_zero: "pa mod PGSIZE \<noteq> 0 \<longleftrightarrow> unat pa mod 4096 \<noteq> 0"
  by (simp add: word_eq_unat unat_mod)

lemma kalloc_empty: "free_pages s [] \<Longrightarrow> kalloc s = Ok 0 s"
  by (simp add: free_pages_def kalloc_def)

lemma kalloc_cons:
  assumes "free_pages s (p # ps)"
  shows "\<exists>t. kalloc s = Ok p t \<and> free_pages t ps \<and> only_page p s t \<and> p \<noteq> 0
    \<and> (\<forall>a. unat (a - p) < 4096 \<longrightarrow> mem t a = 5)"
proof -
  let ?t = "s\<lparr>mem := memset p 5 PGSIZE (mem s), freelist := load32 (mem s) p\<rparr>"
  have "kalloc s = Ok p ?t"
    using assms by (auto simp: free_pages_def kalloc_def)
  moreover have "chain (mem ?t) (freelist ?t) ps"
    using assms chain_outside [of p ps "memset p 5 PGSIZE (mem s)" "mem s"]
    by (auto simp: free_pages_def page_ok_def memset_page_outside)
  moreover have "only_page p s ?t"
    unfolding only_page_def by (intro exI conjI) (auto simp: memset_page_outside)
  ultimately show ?thesis
    using assms by (auto simp: free_pages_def memset_apply)
qed

lemma kfree_ok:
  assumes "free_pages s ps" and "page_ok (sym_end (link s)) p" and "p \<notin> set ps"
  shows "\<exists>t. kfree p s = Ok () t \<and> free_pages t (p # ps) \<and> only_page p s t"
proof -
  let ?m = "store32 (memset p 1 PGSIZE (mem s)) p (freelist s)"
  let ?t = "s\<lparr>mem := ?m, freelist := p\<rparr>"
  have out: "?m a = mem s a" if "4096 \<le> unat (a - p)" for a
    using that by (simp add: store32_other memset_page_outside)
  have "kfree p s = Ok () ?t"
    using assms by (auto simp: free_pages_def kfree_def page_ok_def page_mod_zero)
  moreover have "chain ?m (freelist s) ps"
    using assms out chain_outside [of p ps ?m "mem s"] by (auto simp: free_pages_def page_ok_def)
  moreover have "only_page p s ?t"
    unfolding only_page_def using out by (intro exI conjI) auto
  ultimately show ?thesis
    using assms by (auto simp: free_pages_def page_ok_def)
qed

lemma kfree_bad:
  "\<not> page_ok (sym_end (link s)) p \<Longrightarrow> p \<noteq> 0 \<or> sym_end (link s) \<noteq> 0 \<Longrightarrow> kfree p s = Panic ''kfree'' s"
  by (auto simp: kfree_def page_ok_def page_mod_zero not_le not_less word_gt_0)

section \<open>The contract of a page allocator\<close>

locale page_allocator =
  fixes alloc :: "u32 K" and dealloc :: "u32 \<Rightarrow> unit K" and pages :: "kstate \<Rightarrow> u32 list \<Rightarrow> bool"
  assumes alloc_none: "pages s [] \<Longrightarrow> alloc s = Ok 0 s"
    and alloc_some: "pages s (p # ps) \<Longrightarrow>
      \<exists>t. alloc s = Ok p t \<and> pages t ps \<and> only_page p s t \<and> p \<noteq> 0"
    and dealloc_ok: "pages s ps \<Longrightarrow> page_ok (sym_end (link s)) p \<Longrightarrow> p \<notin> set ps \<Longrightarrow>
      \<exists>t. dealloc p s = Ok () t \<and> pages t (p # ps) \<and> only_page p s t"
    and pages_ok: "pages s ps \<Longrightarrow> distinct ps \<and> (\<forall>p \<in> set ps. page_ok (sym_end (link s)) p)"
begin

lemma alloc_total: "pages s ps \<Longrightarrow> \<exists>r t. alloc s = Ok r t"
  by (cases ps) (auto dest: alloc_none alloc_some)

text \<open>Two allocations never return the same page, and giving a page back restores the pool.\<close>

lemma alloc_twice_distinct:
  assumes "pages s ps" "alloc s = Ok p t" "alloc t = Ok q u" "p \<noteq> 0" "q \<noteq> 0"
  shows "p \<noteq> q"
proof (cases ps)
  case Nil
  then show ?thesis using assms alloc_none by fastforce
next
  case (Cons a as)
  with assms alloc_some [of s a as] have t: "pages t as" "p = a" by auto
  show ?thesis
  proof (cases as)
    case Nil
    then show ?thesis using assms t alloc_none by fastforce
  next
    case (Cons b bs)
    with assms t alloc_some [of t b bs] have "q = b" by auto
    then show ?thesis using pages_ok [OF assms(1)] \<open>ps = a # as\<close> Cons t by auto
  qed
qed

lemma alloc_dealloc:
  assumes "pages s (p # ps)"
  shows "\<exists>t u. alloc s = Ok p t \<and> dealloc p t = Ok () u \<and> pages u (p # ps)"
proof -
  obtain t where t: "alloc s = Ok p t" "pages t ps" "only_page p s t"
    using alloc_some [OF assms] by auto
  have "page_ok (sym_end (link t)) p" "p \<notin> set ps"
    using pages_ok [OF assms] t(3) by (auto simp: only_page_def)
  with t dealloc_ok show ?thesis by blast
qed

end

interpretation kmem: page_allocator kalloc kfree free_pages
  by unfold_locales
    (blast intro: kalloc_empty dest: kalloc_cons kfree_ok, blast dest: kalloc_cons,
     blast dest: kfree_ok, auto simp: free_pages_def)

subsection \<open>Initialisation\<close>

text \<open>The pages \<open>freerange\<close> visits, in the order it visits them.\<close>

function range_pages :: "nat \<Rightarrow> nat \<Rightarrow> u32 list" where
  "range_pages p e = (if p + 4096 \<le> e then of_nat p # range_pages (p + 4096) e else [])"
  by pat_completeness auto
termination
  by (relation "measure (\<lambda>(p, e). e - p)") auto

declare range_pages.simps [simp del]

lemma set_range_pages:
  assumes "e < 4294967296" "p mod 4096 = 0"
  shows "set (range_pages p e) = {q. p \<le> unat q \<and> unat q + 4096 \<le> e \<and> unat q mod 4096 = 0}"
  using assms
proof (induction p e rule: range_pages.induct)
  case (1 p e)
  show ?case
  proof (cases "p + 4096 \<le> e")
    case True
    have p: "unat (of_nat p :: u32) = p" using True 1 by (intro unat_of_nat_32) simp
    have gap: "p + 4096 \<le> n" if "p \<le> n" "n \<noteq> p" "n mod 4096 = 0" for n
      using that 1(3) by (auto simp: mod_eq_0_iff_dvd dvd_def)
    have "{q. p \<le> unat q \<and> unat q + 4096 \<le> e \<and> unat q mod 4096 = 0}
        = insert (of_nat p) {q :: u32. p + 4096 \<le> unat q \<and> unat q + 4096 \<le> e \<and> unat q mod 4096 = 0}"
      using True p gap 1(3) by (auto simp: word_eq_unat)
    then show ?thesis
      using True 1 by (simp add: range_pages.simps [of p e])
  next
    case False
    then show ?thesis by (auto simp: range_pages.simps [of p e])
  qed
qed

lemma distinct_range_pages:
  "e < 4294967296 \<Longrightarrow> p mod 4096 = 0 \<Longrightarrow> distinct (range_pages p e)"
proof (induction p e rule: range_pages.induct)
  case (1 p e)
  show ?case
  proof (cases "p + 4096 \<le> e")
    case True
    have "unat (of_nat p :: u32) = p" using True 1 by (intro unat_of_nat_32) simp
    moreover have "set (range_pages (p + 4096) e)
        = {q. p + 4096 \<le> unat q \<and> unat q + 4096 \<le> e \<and> unat q mod 4096 = 0}"
      using 1 by (intro set_range_pages) auto
    ultimately show ?thesis using True 1 by (simp add: range_pages.simps [of p e])
  next
    case False
    then show ?thesis by (simp add: range_pages.simps [of p e])
  qed
qed

lemma freerange_loop_frees:
  assumes "free_pages s ps" "p mod 4096 = 0" "unat (sym_end (link s)) \<le> p" "0 < p" "e \<le> unat PHYSTOP"
    "set ps \<inter> set (range_pages p e) = {}"
  shows "\<exists>t. freerange_loop p e s = Ok () t \<and> free_pages t (rev (range_pages p e) @ ps)"
  using assms
proof (induction p e arbitrary: s ps rule: freerange_loop.induct)
  case (1 p e)
  show ?case
  proof (cases "p + 4096 \<le> e")
    case True
    have p: "unat (of_nat p :: u32) = p" using True 1(6) by (intro unat_of_nat_32) simp
    have ok: "page_ok (sym_end (link s)) (of_nat p)"
      using True 1 p by (auto simp: page_ok_def word_le_nat_alt word_less_nat_alt word_eq_unat)
    have notin: "of_nat p \<notin> set ps" using True 1(7) by (simp add: range_pages.simps [of p e])
    obtain t where t: "kfree (of_nat p) s = Ok () t" "free_pages t (of_nat p # ps)"
      "only_page (of_nat p) s t"
      using kfree_ok [OF 1(2) ok notin] by blast
    have dis: "set (of_nat p # ps) \<inter> set (range_pages (p + 4096) e) = {}"
      using 1(7) distinct_range_pages [of e p] 1(3,6) True by (auto simp: range_pages.simps [of p e])
    have "link t = link s" using t(3) by (auto simp: only_page_def)
    then obtain u where "freerange_loop (p + 4096) e t = Ok () u"
      "free_pages u (rev (range_pages (p + 4096) e) @ of_nat p # ps)"
      using 1(1) [OF True t(2) _ _ _ _ dis] 1(3-6) by auto
    with True t(1) show ?thesis
      by (simp add: freerange_loop.simps [of p e] range_pages.simps [of p e])
  next
    case False
    then show ?thesis
      using 1(2) by (simp add: freerange_loop.simps [of p e] range_pages.simps [of p e])
  qed
qed

section \<open>Properties\<close>

text \<open>(C1) \<open>kinit\<close> on an empty free list puts every whole page between the end of the kernel image and
  \<open>PHYSTOP\<close> on the free list exactly once, and nothing else: the list is well formed, free of
  duplicates, and its elements are exactly those pages.\<close>

theorem kinit_frees_all_pages:
  assumes "freelist s = 0" and "LK_kmem \<notin> held s"
    and "0 < unat (sym_end (link s))" and "unat (sym_end (link s)) \<le> unat PHYSTOP"
  shows "\<exists>t ps. kinit s = Ok () t \<and> free_pages t ps \<and>
    set ps = {p. unat (PGROUNDUP (sym_end (link s))) \<le> unat p \<and> unat p + 4096 \<le> unat PHYSTOP
      \<and> unat p mod 4096 = 0}"
proof -
  let ?e = "sym_end (link s)"
  have up: "unat (PGROUNDUP ?e) = (unat ?e + 4095) div 4096 * 4096"
    using assms(4) by (intro unat_PGROUNDUP) simp
  have al: "unat (PGROUNDUP ?e) mod 4096 = 0" "unat ?e \<le> unat (PGROUNDUP ?e)" "0 < unat (PGROUNDUP ?e)"
    unfolding up using assms(3) by simp_all
  have "free_pages s []" using assms by (simp add: free_pages_def)
  then obtain t where "freerange_loop (unat (PGROUNDUP ?e)) (unat PHYSTOP) s = Ok () t"
    "free_pages t (rev (range_pages (unat (PGROUNDUP ?e)) (unat PHYSTOP)) @ [])"
    using freerange_loop_frees [of s "[]" "unat (PGROUNDUP ?e)" "unat PHYSTOP"] al by auto
  moreover have "set (range_pages (unat (PGROUNDUP ?e)) (unat PHYSTOP)) = {p. unat (PGROUNDUP ?e) \<le> unat p
      \<and> unat p + 4096 \<le> unat PHYSTOP \<and> unat p mod 4096 = 0}"
    using al(1) by (intro set_range_pages) simp_all
  ultimately show ?thesis by (auto simp: kinit_def freerange_def)
qed

theorem kinit_frees_all_pages_witness:
  "\<exists>t ps. kinit blank_kstate = Ok () t \<and> free_pages t ps \<and>
    set ps = {p. unat (PGROUNDUP 0x80050000) \<le> unat p \<and> unat p + 4096 \<le> unat PHYSTOP
      \<and> unat p mod 4096 = 0}"
  using kinit_frees_all_pages [of blank_kstate] by (simp add: blank_kstate_def)

text \<open>From a well formed free list \<open>kalloc\<close> always returns: 0 and no change when the list is
  empty, and otherwise the first page, which leaves the list, is filled with the junk byte 5 and
  is the only memory that changes.\<close>

theorem kalloc_spec:
  assumes "free_pages s ps"
  shows "case ps of
      [] \<Rightarrow> kalloc s = Ok 0 s
    | p # qs \<Rightarrow> \<exists>t. kalloc s = Ok p t \<and> free_pages t qs \<and> only_page p s t \<and> p \<notin> set qs
        \<and> page_ok (sym_end (link s)) p \<and> (\<forall>a. unat (a - p) < 4096 \<longrightarrow> mem t a = 5)"
proof (cases ps)
  case Nil
  then show ?thesis using assms kalloc_empty by simp
next
  case (Cons p qs)
  then show ?thesis using assms kalloc_cons [of s p qs] kmem.pages_ok [OF assms] by auto
qed

lemma free_pages_example:
  "free_pages (blank_kstate\<lparr>freelist := 0x80051000\<rparr>) [0x80051000]"
  by (simp add: free_pages_def page_ok_def blank_kstate_def load32_def)

theorem kalloc_spec_witness:
  "\<exists>t. kalloc (blank_kstate\<lparr>freelist := 0x80051000\<rparr>) = Ok 0x80051000 t \<and> free_pages t []"
  using kalloc_spec [OF free_pages_example] by auto

text \<open>(C2) \<open>kfree\<close> panics on an address that is not a page of the managed range; on a page of the
  range that is not on the list it returns, the page becomes the head of the list, and no memory outside
  that page changes; the next \<open>kalloc\<close> hands the same page out again.\<close>

theorem kfree_spec:
  assumes "free_pages s ps" and "p \<notin> set ps" and "p \<noteq> 0"
  shows "if page_ok (sym_end (link s)) p
    then \<exists>t. kfree p s = Ok () t \<and> free_pages t (p # ps) \<and> only_page p s t \<and> (\<exists>u. kalloc t = Ok p u)
    else kfree p s = Panic ''kfree'' s"
  using kfree_ok [OF assms(1) _ assms(2)] kfree_bad [of s p] assms(3) kalloc_cons by fastforce

theorem kfree_spec_witness:
  "(\<exists>t. kfree 0x80052000 (blank_kstate\<lparr>freelist := 0x80051000\<rparr>) = Ok () t
      \<and> free_pages t [0x80052000, 0x80051000] \<and> (\<exists>u. kalloc t = Ok 0x80052000 u))"
  using kfree_spec [OF free_pages_example, where p = "0x80052000"]
  by (auto simp: page_ok_def blank_kstate_def)

end
