(* ===== verification/KV_Vm.thy ===== *)
theory KV_Vm
  imports KV_Kalloc
begin

text \<open>
  Virtual memory of the xv6 kernel (kernel/vm.c and the macros of kernel/riscv.h): the Sv32 page
  tables as they lie in memory, with every function of the file.  A pointer to a page table or to a
  page table entry is its address; the null pointer is 0.

  The functions that copy between kernel and user take or return the bytes of the kernel's buffer,
  because the kernel's own objects are records of the state and not bytes of \<open>mem\<close>.
  The recursion of \<open>freewalk\<close> is bounded by a depth argument; two levels are what a Sv32 table has.
\<close>

section \<open>Page table entries\<close>

abbreviation PTE_V :: u32 where "PTE_V \<equiv> 1"
abbreviation PTE_R :: u32 where "PTE_R \<equiv> 2"
abbreviation PTE_W :: u32 where "PTE_W \<equiv> 4"
abbreviation PTE_X :: u32 where "PTE_X \<equiv> 8"
abbreviation PTE_U :: u32 where "PTE_U \<equiv> 16"

definition PA2PTE :: "u32 \<Rightarrow> u32" where
  "PA2PTE pa = push_bit 10 (drop_bit 12 pa)"

definition PTE2PA :: "u32 \<Rightarrow> u32" where
  "PTE2PA pte = push_bit 12 (drop_bit 10 pte)"

definition PTE_FLAGS :: "u32 \<Rightarrow> u32" where
  "PTE_FLAGS pte = pte AND 0x3FF"

definition PX :: "nat \<Rightarrow> u32 \<Rightarrow> u32" where
  "PX level va = drop_bit (12 + 10 * level) va AND 0x3FF"

definition MAKE_SATP :: "u32 \<Rightarrow> u32" where
  "MAKE_SATP pagetable = 0x80000000 OR drop_bit 12 pagetable"

section \<open>The functions of vm.c\<close>

definition kmem_upd :: "(memory \<Rightarrow> memory) \<Rightarrow> unit K" where
  "kmem_upd f = kmod (\<lambda>s. s\<lparr>mem := f (mem s)\<rparr>)"

definition kload :: "u32 \<Rightarrow> u32 K" where
  "kload a = kget (\<lambda>s. load32 (mem s) a)"

definition kstore :: "u32 \<Rightarrow> u32 \<Rightarrow> unit K" where
  "kstore a v = kmem_upd (\<lambda>m. store32 m a v)"

lemma kmem_upd_run [simp]: "kmem_upd f s = Ok () (s\<lparr>mem := f (mem s)\<rparr>)"
  by (simp add: kmem_upd_def)

lemma kload_run [simp]: "kload a s = Ok (load32 (mem s) a) s"
  by (simp add: kload_def)

lemma kstore_run [simp]: "kstore a v s = Ok () (s\<lparr>mem := store32 (mem s) a v\<rparr>)"
  by (simp add: kstore_def)

text \<open>The loop over the levels of \<open>walk\<close>, from \<open>level\<close> down to 0.\<close>
primrec walk_levels :: "nat \<Rightarrow> u32 \<Rightarrow> u32 \<Rightarrow> bool \<Rightarrow> u32 K" where
  "walk_levels 0 pagetable va alloc = kret (pagetable + 4 * PX 0 va)"
| "walk_levels (Suc level) pagetable va alloc =
     (let pte = pagetable + 4 * PX (Suc level) va in
      kbind (kload pte) (\<lambda>v.
      if v AND PTE_V \<noteq> 0 then walk_levels level (PTE2PA v) va alloc
      else if \<not> alloc then kret 0
      else kbind kalloc (\<lambda>page.
        if page = 0 then kret 0
        else kbind (kmem_upd (memset page 0 PGSIZE)) (\<lambda>_.
             kbind (kstore pte (PA2PTE page OR PTE_V)) (\<lambda>_.
             walk_levels level page va alloc)))))"

definition walk :: "u32 \<Rightarrow> u32 \<Rightarrow> bool \<Rightarrow> u32 K" where
  "walk pagetable va alloc =
     (if va \<ge> MAXVA then kpanic ''walk'' else walk_levels 1 pagetable va alloc)"

definition walkaddr :: "u32 \<Rightarrow> u32 \<Rightarrow> u32 K" where
  "walkaddr pagetable va =
     (if va \<ge> MAXVA then kret 0
      else kbind (walk pagetable va False) (\<lambda>pte.
        if pte = 0 then kret 0
        else kbind (kload pte) (\<lambda>v.
          if v AND PTE_V = 0 then kret 0
          else if v AND PTE_U = 0 then kret 0
          else kret (PTE2PA v))))"

text \<open>The \<open>for(;;)\<close> of \<open>mappages\<close>: it returns 0 or -1 and stops at \<open>last\<close>.  The first
  argument bounds the iterations; \<open>mappages\<close> passes the number of pages.\<close>
primrec mappages_loop :: "nat \<Rightarrow> u32 \<Rightarrow> u32 \<Rightarrow> u32 \<Rightarrow> u32 \<Rightarrow> u32 \<Rightarrow> int K" where
  "mappages_loop 0 pagetable a lasta pa perm = kdiverge"
| "mappages_loop (Suc n) pagetable a lasta pa perm =
     kbind (walk pagetable a True) (\<lambda>pte.
     if pte = 0 then kret (-1)
     else kbind (kload pte) (\<lambda>v.
       if v AND PTE_V \<noteq> 0 then kpanic ''mappages: remap''
       else kbind (kstore pte (PA2PTE pa OR perm OR PTE_V)) (\<lambda>_.
         if a = lasta then kret 0
         else mappages_loop n pagetable (a + PGSIZE) lasta (pa + PGSIZE) perm)))"

definition mappages :: "u32 \<Rightarrow> u32 \<Rightarrow> u32 \<Rightarrow> u32 \<Rightarrow> u32 \<Rightarrow> int K" where
  "mappages pagetable va sz pa perm =
     (if va mod PGSIZE \<noteq> 0 then kpanic ''mappages: va not aligned''
      else if sz mod PGSIZE \<noteq> 0 then kpanic ''mappages: size not aligned''
      else if sz = 0 then kpanic ''mappages: size''
      else mappages_loop (unat sz div 4096) pagetable va (va + sz - PGSIZE) pa perm)"

definition kvmmap :: "u32 \<Rightarrow> u32 \<Rightarrow> u32 \<Rightarrow> u32 \<Rightarrow> u32 \<Rightarrow> unit K" where
  "kvmmap kpgtbl va pa sz perm =
     kbind (mappages kpgtbl va sz pa perm) (\<lambda>r. kwhen (r \<noteq> 0) (kpanic ''kvmmap''))"

definition proc_mapstacks :: "u32 \<Rightarrow> unit K" where
  "proc_mapstacks kpgtbl = kfor [0..<NPROC] (\<lambda>i.
     kbind kalloc (\<lambda>pa.
     if pa = 0 then kpanic ''kalloc''
     else kvmmap kpgtbl (KSTACK i) pa PGSIZE (PTE_R OR PTE_W)))"

abbreviation UART0 :: u32 where "UART0 \<equiv> 0x10000000"
abbreviation PLIC :: u32 where "PLIC \<equiv> 0x0c000000"

definition kvmmake :: "u32 K" where
  "kvmmake =
     kbind kalloc (\<lambda>kpgtbl.
     kbind (kget link) (\<lambda>l.
     kbind (kdo [
       kmem_upd (memset kpgtbl 0 PGSIZE),
       kvmmap kpgtbl UART0 UART0 PGSIZE (PTE_R OR PTE_W),
       kvmmap kpgtbl 0x10500000 0x10500000 PGSIZE (PTE_R OR PTE_W),
       kvmmap kpgtbl PLIC PLIC 0x4000000 (PTE_R OR PTE_W),
       kvmmap kpgtbl KERNBASE KERNBASE (sym_etext l - KERNBASE) (PTE_R OR PTE_X),
       kvmmap kpgtbl (sym_etext l) (sym_etext l) (PHYSTOP - sym_etext l) (PTE_R OR PTE_W),
       kvmmap kpgtbl TRAMPOLINE (sym_trampoline l) PGSIZE (PTE_R OR PTE_X),
       proc_mapstacks kpgtbl]) (\<lambda>_.
     kret kpgtbl)))"

definition kvminit :: "unit K" where
  "kvminit = kbind kvmmake (\<lambda>pt. kmod (\<lambda>s. s\<lparr>kernel_pagetable := pt\<rparr>))"

definition uvmcreate :: "u32 K" where
  "uvmcreate =
     kbind kalloc (\<lambda>pagetable.
     if pagetable = 0 then kret 0
     else kbind (kmem_upd (memset pagetable 0 PGSIZE)) (\<lambda>_. kret pagetable))"

text \<open>The body of the loop of \<open>uvmunmap\<close> for the page at \<open>va\<close>, and the loop over page numbers.\<close>
definition uvmunmap_page :: "u32 \<Rightarrow> u32 \<Rightarrow> bool \<Rightarrow> unit K" where
  "uvmunmap_page pagetable va do_free =
     kbind (walk pagetable va False) (\<lambda>pte.
     if pte = 0 then kret ()
     else kbind (kload pte) (\<lambda>v.
       if v AND PTE_V = 0 then kret ()
       else kdo [
         kwhen do_free (kfree (PTE2PA v)),
         kstore pte 0]))"

function uvmunmap_loop :: "u32 \<Rightarrow> u32 \<Rightarrow> u32 \<Rightarrow> bool \<Rightarrow> unit K" where
  "uvmunmap_loop pagetable a e do_free =
     (if a < e
      then kbind (uvmunmap_page pagetable (push_bit 12 a) do_free) (\<lambda>_.
           uvmunmap_loop pagetable (a + 1) e do_free)
      else kret ())"
  by pat_completeness auto
termination
proof (relation "measure (\<lambda>(_, a, e, _). unat (e - a))", simp)
  fix pt a e :: u32 and f
  assume ae: "a < e"
  then have "a + 1 \<le> e" by (rule inc_le)
  moreover have "unat (a + 1) = unat a + 1"
    using ae unat_less_32 [of e] by (simp add: unat_add_32 word_less_nat_alt)
  ultimately show "((pt, a + 1, e, f), pt, a, e, f) \<in> measure (\<lambda>(_, a, e, _). unat (e - a))"
    using ae by (simp add: unat_sub_if word_less_nat_alt word_le_nat_alt)
qed

declare uvmunmap_loop.simps [simp del]

definition uvmunmap :: "u32 \<Rightarrow> u32 \<Rightarrow> u32 \<Rightarrow> bool \<Rightarrow> unit K" where
  "uvmunmap pagetable va npages do_free =
     (if va mod PGSIZE \<noteq> 0 then kpanic ''uvmunmap: not aligned''
      else uvmunmap_loop pagetable (drop_bit 12 va) (drop_bit 12 va + npages) do_free)"

definition uvmdealloc :: "u32 \<Rightarrow> u32 \<Rightarrow> u32 \<Rightarrow> u32 K" where
  "uvmdealloc pagetable oldsz newsz =
     (if newsz \<ge> oldsz then kret oldsz
      else kbind
        (kwhen (PGROUNDUP newsz < PGROUNDUP oldsz)
          (uvmunmap pagetable (PGROUNDUP newsz) ((PGROUNDUP oldsz - PGROUNDUP newsz) div PGSIZE) True))
        (\<lambda>_. kret newsz))"

text \<open>The loop of \<open>uvmalloc\<close>, \<open>oldsz\<close> being already rounded; \<open>a += PGSIZE\<close> wraps at the top of
  the address space, where the loop starts over at page 0.\<close>
primrec uvmalloc_loop :: "nat \<Rightarrow> u32 \<Rightarrow> u32 \<Rightarrow> u32 \<Rightarrow> u32 \<Rightarrow> u32 \<Rightarrow> u32 K" where
  "uvmalloc_loop 0 pagetable a oldsz newsz xperm = kdiverge"
| "uvmalloc_loop (Suc n) pagetable a oldsz newsz xperm =
     (if a < newsz
      then kbind kalloc (\<lambda>page.
        if page = 0 then kbind (uvmdealloc pagetable a oldsz) (\<lambda>_. kret 0)
        else kbind (kmem_upd (memset page 0 PGSIZE)) (\<lambda>_.
             kbind (mappages pagetable a PGSIZE page (PTE_R OR PTE_U OR xperm)) (\<lambda>r.
             if r \<noteq> 0
             then kbind (kfree page) (\<lambda>_. kbind (uvmdealloc pagetable a oldsz) (\<lambda>_. kret 0))
             else uvmalloc_loop n pagetable (a + PGSIZE) oldsz newsz xperm)))
      else kret newsz)"

text \<open>Enough iterations for any loop that visits each page of the address space once.\<close>
definition PAGES :: nat where "PAGES = 1048577"

definition uvmalloc :: "u32 \<Rightarrow> u32 \<Rightarrow> u32 \<Rightarrow> u32 \<Rightarrow> u32 K" where
  "uvmalloc pagetable oldsz newsz xperm =
     (if newsz < oldsz then kret oldsz
      else uvmalloc_loop PAGES pagetable (PGROUNDUP oldsz) (PGROUNDUP oldsz) newsz xperm)"

primrec freewalk :: "nat \<Rightarrow> u32 \<Rightarrow> unit K" where
  "freewalk 0 pagetable = kdiverge"
| "freewalk (Suc depth) pagetable =
     kbind (kfor [0..<1024] (\<lambda>i.
       kbind (kload (pagetable + 4 * of_nat i)) (\<lambda>pte.
       if pte AND PTE_V \<noteq> 0 \<and> pte AND (PTE_R OR PTE_W OR PTE_X) = 0
       then kbind (freewalk depth (PTE2PA pte)) (\<lambda>_. kstore (pagetable + 4 * of_nat i) 0)
       else if pte AND PTE_V \<noteq> 0 then kpanic ''freewalk: leaf''
       else kret ()))) (\<lambda>_.
     kfree pagetable)"

definition uvmfree :: "u32 \<Rightarrow> u32 \<Rightarrow> unit K" where
  "uvmfree pagetable sz =
     kbind (kwhen (sz > 0) (uvmunmap pagetable 0 (PGROUNDUP sz div PGSIZE) True)) (\<lambda>_.
     freewalk 2 pagetable)"

text \<open>The loop of \<open>uvmcopy\<close>; its error exit unmaps what was copied.\<close>
primrec uvmcopy_loop :: "nat \<Rightarrow> u32 \<Rightarrow> u32 \<Rightarrow> u32 \<Rightarrow> u32 \<Rightarrow> int K" where
  "uvmcopy_loop 0 old new i sz = kdiverge"
| "uvmcopy_loop (Suc n) old new i sz =
     (if i < sz
      then kbind (walk old i False) (\<lambda>pte.
        if pte = 0 then uvmcopy_loop n old new (i + PGSIZE) sz
        else kbind (kload pte) (\<lambda>v.
          if v AND PTE_V = 0 then uvmcopy_loop n old new (i + PGSIZE) sz
          else
            let err = kbind (uvmunmap new 0 (i div PGSIZE) True) (\<lambda>_. kret (-1)) in
            kbind kalloc (\<lambda>page.
            if page = 0 then err
            else kbind (kmem_upd (memmove page (PTE2PA v) PGSIZE)) (\<lambda>_.
                 kbind (mappages new i PGSIZE page (PTE_FLAGS v)) (\<lambda>r.
                 if r \<noteq> 0 then kbind (kfree page) (\<lambda>_. err)
                 else uvmcopy_loop n old new (i + PGSIZE) sz)))))
      else kret 0)"

definition uvmcopy :: "u32 \<Rightarrow> u32 \<Rightarrow> u32 \<Rightarrow> int K" where
  "uvmcopy old new sz = uvmcopy_loop PAGES old new 0 sz"

definition uvmclear :: "u32 \<Rightarrow> u32 \<Rightarrow> unit K" where
  "uvmclear pagetable va =
     kbind (walk pagetable va False) (\<lambda>pte.
     if pte = 0 then kpanic ''uvmclear''
     else kbind (kload pte) (\<lambda>v. kstore pte (v AND NOT PTE_U)))"

definition ismapped :: "u32 \<Rightarrow> u32 \<Rightarrow> bool K" where
  "ismapped pagetable va =
     kbind (walk pagetable va False) (\<lambda>pte.
     if pte = 0 then kret False
     else kbind (kload pte) (\<lambda>v. kret (v AND PTE_V \<noteq> 0)))"

text \<open>A null \<open>myproc()\<close> or a null page table entry that is dereferenced traps in the kernel
  (\<open>kerneltrap\<close>).\<close>
definition vmfault :: "u32 \<Rightarrow> u32 \<Rightarrow> u32 K" where
  "vmfault pagetable va =
     kbind (kget (\<lambda>s. map_option (\<lambda>i. procs s ! i) (cur s))) (\<lambda>me. case me of
       None \<Rightarrow> kpanic ''kerneltrap''
     | Some p \<Rightarrow>
       if va \<ge> p_sz p then kret 0
       else let va = PGROUNDDOWN va in
         kbind (ismapped pagetable va) (\<lambda>b.
         if b then kret 0
         else kbind kalloc (\<lambda>page.
           if page = 0 then kret 0
           else kbind (kmem_upd (memset page 0 PGSIZE)) (\<lambda>_.
                kbind (mappages (p_pagetable p) va PGSIZE page (PTE_W OR PTE_U OR PTE_R)) (\<lambda>r.
                if r \<noteq> 0 then kbind (kfree page) (\<lambda>_. kret 0)
                else kret page)))))"

subsection \<open>Copying between kernel and user\<close>

primrec write_bytes :: "u32 \<Rightarrow> u8 list \<Rightarrow> memory \<Rightarrow> memory" where
  "write_bytes a [] m = m"
| "write_bytes a (b # bs) m = write_bytes (a + 1) bs (m(a := b))"

definition read_bytes :: "memory \<Rightarrow> u32 \<Rightarrow> nat \<Rightarrow> u8 list" where
  "read_bytes m a n = map (\<lambda>i. m (a + of_nat i)) [0..<n]"

text \<open>What is left of the current page, at most \<open>len\<close>.\<close>
definition chunk :: "u32 \<Rightarrow> nat \<Rightarrow> nat" where
  "chunk va len = min (4096 - unat (va - PGROUNDDOWN va)) len"

lemma chunk_pos [simp]: "0 < len \<Longrightarrow> 0 < chunk va len"
  using page_offset_less [of va] by (simp add: chunk_def)

lemma chunk_le [simp]: "chunk va len \<le> len"
  by (simp add: chunk_def)

text \<open>The page behind a user address, faulted in when it is lazily allocated: the shared start of
  the loop bodies of \<open>copyout\<close> and \<open>copyin\<close>.\<close>
definition user_page :: "u32 \<Rightarrow> u32 \<Rightarrow> u32 K" where
  "user_page pagetable va0 =
     kbind (walkaddr pagetable va0) (\<lambda>pa0.
     if pa0 = 0 then vmfault pagetable va0 else kret pa0)"

function copyout :: "u32 \<Rightarrow> u32 \<Rightarrow> u8 list \<Rightarrow> int K" where
  "copyout pagetable dstva src =
     (if src = [] then kret 0
      else let va0 = PGROUNDDOWN dstva in
        if va0 \<ge> MAXVA then kret (-1)
        else kbind (user_page pagetable va0) (\<lambda>pa0.
          if pa0 = 0 then kret (-1)
          else kbind (walk pagetable va0 False) (\<lambda>pte.
            if pte = 0 then kpanic ''kerneltrap''
            else kbind (kload pte) (\<lambda>v.
              if v AND PTE_W = 0 then kret (-1)
              else let n = chunk dstva (length src) in
                kbind (kmem_upd (write_bytes (pa0 + (dstva - va0)) (take n src))) (\<lambda>_.
                copyout pagetable (va0 + PGSIZE) (drop n src))))))"
  by pat_completeness auto
termination
  by (relation "measure (\<lambda>(_, _, src). length src)") auto

declare copyout.simps [simp del]

text \<open>The status, and the bytes that reached the kernel's buffer.\<close>
function copyin :: "u32 \<Rightarrow> u32 \<Rightarrow> nat \<Rightarrow> (int \<times> u8 list) K" where
  "copyin pagetable srcva len =
     (if len = 0 then kret (0, [])
      else let va0 = PGROUNDDOWN srcva in
        kbind (user_page pagetable va0) (\<lambda>pa0.
        if pa0 = 0 then kret (-1, [])
        else let n = chunk srcva len in
          kbind (kget (\<lambda>s. read_bytes (mem s) (pa0 + (srcva - va0)) n)) (\<lambda>bs.
          kbind (copyin pagetable (va0 + PGSIZE) (len - n)) (\<lambda>(r, cs).
          kret (r, bs @ cs)))))"
  by pat_completeness auto
termination
  by (relation "measure (\<lambda>(_, _, len). len)") auto

declare copyin.simps [simp del]

text \<open>\<open>copyinstr\<close> stops at the first NUL, which it stores as well.\<close>
function copyinstr :: "u32 \<Rightarrow> u32 \<Rightarrow> nat \<Rightarrow> (int \<times> u8 list) K" where
  "copyinstr pagetable srcva mx =
     (if mx = 0 then kret (-1, [])
      else let va0 = PGROUNDDOWN srcva in
        kbind (walkaddr pagetable va0) (\<lambda>pa0.
        if pa0 = 0 then kret (-1, [])
        else let n = chunk srcva mx in
          kbind (kget (\<lambda>s. read_bytes (mem s) (pa0 + (srcva - va0)) n)) (\<lambda>bs.
          if 0 \<in> set bs then kret (0, cstr bs @ [0])
          else kbind (copyinstr pagetable (va0 + PGSIZE) (mx - n)) (\<lambda>(r, cs).
               kret (r, bs @ cs)))))"
  by pat_completeness auto
termination
  by (relation "measure (\<lambda>(_, _, mx). mx)") auto

declare copyinstr.simps [simp del]


section \<open>What the functions of this file may change\<close>

text \<open>The memory and the free list head are all that differs.\<close>
definition mem_only :: "kstate \<Rightarrow> kstate \<Rightarrow> bool" where
  "mem_only s t \<longleftrightarrow> s\<lparr>mem := mem t, freelist := freelist t\<rparr> = t"

lemma mem_only_refl [simp]: "mem_only s s"
  by (simp add: mem_only_def)

lemma mem_only_upd [simp]: "mem_only s (s\<lparr>mem := m, freelist := f\<rparr>)" "mem_only s (s\<lparr>mem := m\<rparr>)"
  "mem_only s (s\<lparr>freelist := f, mem := m\<rparr>)"
  by (simp_all add: mem_only_def)

lemma mem_only_trans: "mem_only s t \<Longrightarrow> mem_only t u \<Longrightarrow> mem_only s u"
proof -
  assume a: "mem_only s t" "mem_only t u"
  have "s\<lparr>mem := mem u, freelist := freelist u\<rparr>
      = s\<lparr>mem := mem t, freelist := freelist t\<rparr>\<lparr>mem := mem u, freelist := freelist u\<rparr>" by simp
  also have "\<dots> = t\<lparr>mem := mem u, freelist := freelist u\<rparr>" using a(1) unfolding mem_only_def by simp
  also have "\<dots> = u" using a(2) unfolding mem_only_def by simp
  finally show ?thesis unfolding mem_only_def .
qed

lemma mem_only_fields:
  assumes "mem_only s t"
  shows "link t = link s" "procs t = procs s" "cur t = cur s" "held t = held s" "pipes t = pipes s"
    "files t = files s" "inodes t = inodes s" "bufs t = bufs s" "klog t = klog s" "disk t = disk s"
    "wtrace t = wtrace s" "sb t = sb s" "initproc t = initproc s" "nextpid t = nextpid s" "kcons t = kcons s"
proof -
  obtain m f where t: "t = s\<lparr>mem := m, freelist := f\<rparr>" using assms unfolding mem_only_def by metis
  show "link t = link s" "procs t = procs s" "cur t = cur s" "held t = held s" "pipes t = pipes s"
    "files t = files s" "inodes t = inodes s" "bufs t = bufs s" "klog t = klog s" "disk t = disk s"
    "wtrace t = wtrace s" "sb t = sb s" "initproc t = initproc s" "nextpid t = nextpid s" "kcons t = kcons s"
    unfolding t by simp_all
qed

named_theorems mem_safe_intros "computations that change the memory and the free list only"

definition mem_safe :: "'a K \<Rightarrow> bool" where
  "mem_safe m \<longleftrightarrow> (\<forall>s x t. m s = Ok x t \<longrightarrow> mem_only s t)"

lemma mem_safeD: "mem_safe m \<Longrightarrow> m s = Ok x t \<Longrightarrow> mem_only s t"
  by (simp add: mem_safe_def)

lemma mem_safe_basic [mem_safe_intros]:
  "mem_safe (kret x)" "mem_safe (kget g)" "mem_safe (kpanic e)" "mem_safe kdiverge"
  "mem_safe (kmem_upd h)" "mem_safe (kload a)" "mem_safe (kstore a v)"
  by (auto simp: mem_safe_def)

lemma mem_safe_kbind [mem_safe_intros]: "mem_safe m \<Longrightarrow> (\<And>x. mem_safe (f x)) \<Longrightarrow> mem_safe (kbind m f)"
  unfolding mem_safe_def kbind_ok_iff by (blast intro: mem_only_trans)

lemma mem_safe_if [mem_safe_intros]: "mem_safe m \<Longrightarrow> mem_safe n \<Longrightarrow> mem_safe (if b then m else n)"
  by simp

lemma mem_safe_kwhen [mem_safe_intros]: "mem_safe m \<Longrightarrow> mem_safe (kwhen b m)"
  by (simp add: kwhen_def mem_safe_basic)

lemma mem_safe_kdo [mem_safe_intros]:
  "mem_safe (kdo [])" "mem_safe m \<Longrightarrow> mem_safe (kdo ms) \<Longrightarrow> mem_safe (kdo (m # ms))"
  by (auto intro: mem_safe_intros)

lemma mem_safe_kfor [mem_safe_intros]: "(\<And>x. mem_safe (f x)) \<Longrightarrow> mem_safe (kfor xs f)"
  by (induction xs) (auto intro: mem_safe_intros)

lemma mem_safe_kalloc [mem_safe_intros]: "mem_safe kalloc" "mem_safe (kfree p)"
  by (auto simp: mem_safe_def kalloc_def kfree_def split: if_splits)

lemma mem_safe_walk [mem_safe_intros]: "mem_safe (walk pt va alloc)"
proof -
  have "mem_safe (walk_levels l pt va alloc)" for l
    by (induction l arbitrary: pt) (auto simp: Let_def intro!: mem_safe_intros)
  then show ?thesis unfolding walk_def by (intro mem_safe_intros)
qed

lemma mem_safe_mappages [mem_safe_intros]: "mem_safe (mappages pt va sz pa perm)"
proof -
  have "mem_safe (mappages_loop n pt a l pa perm)" for n a l pa
    by (induction n arbitrary: a pa) (auto intro!: mem_safe_intros)
  then show ?thesis by (simp add: mappages_def mem_safe_intros)
qed

lemma mem_safe_uvmunmap [mem_safe_intros]: "mem_safe (uvmunmap pt va n f)"
proof -
  have "mem_safe (uvmunmap_loop pt a e f)" for a e
  proof (induction pt a e f rule: uvmunmap_loop.induct)
    case (1 pt a e f)
    then show ?case
      unfolding uvmunmap_loop.simps [of pt a] uvmunmap_page_def by (auto intro!: mem_safe_intros)
  qed
  then show ?thesis by (simp add: uvmunmap_def mem_safe_intros)
qed

lemma mem_safe_uvm [mem_safe_intros]:
  "mem_safe uvmcreate" "mem_safe (uvmdealloc pt o' n)" "mem_safe (uvmclear pt va)" "mem_safe (ismapped pt va)"
  "mem_safe (walkaddr pt va)" "mem_safe (kvmmap pt va pa sz perm)"
  unfolding uvmcreate_def uvmdealloc_def uvmclear_def ismapped_def walkaddr_def kvmmap_def
  by (auto intro!: mem_safe_intros)

lemma mem_safe_uvmalloc [mem_safe_intros]: "mem_safe (uvmalloc pt o' n xp)"
proof -
  have "mem_safe (uvmalloc_loop k pt a o' n xp)" for k a o'
    by (induction k arbitrary: a) (auto intro!: mem_safe_intros)
  then show ?thesis by (simp add: uvmalloc_def mem_safe_intros)
qed

lemma mem_safe_freewalk [mem_safe_intros]: "mem_safe (freewalk d pt)"
  by (induction d arbitrary: pt) (auto intro!: mem_safe_intros)

lemma mem_safe_uvmfree [mem_safe_intros]: "mem_safe (uvmfree pt sz)"
  unfolding uvmfree_def by (auto intro!: mem_safe_intros)

lemma mem_safe_uvmcopy [mem_safe_intros]: "mem_safe (uvmcopy old new sz)"
proof -
  have "mem_safe (uvmcopy_loop k old new i sz)" for k i
    by (induction k arbitrary: i) (auto simp: Let_def intro!: mem_safe_intros)
  then show ?thesis by (simp add: uvmcopy_def)
qed

lemma mem_safe_vmfault [mem_safe_intros]: "mem_safe (vmfault pt va)"
  unfolding vmfault_def by (auto simp: Let_def split: option.split intro!: mem_safe_intros)

lemma mem_safe_user_page [mem_safe_intros]: "mem_safe (user_page pt va)"
  unfolding user_page_def by (intro mem_safe_intros)

lemma mem_safe_copyout [mem_safe_intros]: "mem_safe (copyout pt va src)"
proof (induction "length src" arbitrary: va src rule: less_induct)
  case less
  then have "src \<noteq> [] \<Longrightarrow> mem_safe (copyout pt va' (drop (chunk va (length src)) src))" for va'
    by simp
  then show ?case
    unfolding copyout.simps [of pt va src] by (auto simp: Let_def intro!: mem_safe_intros)
qed

lemma mem_safe_copyin [mem_safe_intros]: "mem_safe (copyin pt va n)"
proof (induction n arbitrary: va rule: less_induct)
  case (less n)
  then have "0 < n \<Longrightarrow> mem_safe (copyin pt va' (n - chunk va n))" for va' by simp
  then show ?case
    unfolding copyin.simps [of pt va n] by (auto simp: Let_def split: prod.split intro!: mem_safe_intros)
qed

lemma mem_safe_copyinstr [mem_safe_intros]: "mem_safe (copyinstr pt va n)"
proof (induction n arbitrary: va rule: less_induct)
  case (less n)
  then have "0 < n \<Longrightarrow> mem_safe (copyinstr pt va' (n - chunk va n))" for va' by simp
  then show ?case
    unfolding copyinstr.simps [of pt va n] by (auto simp: Let_def split: prod.split intro!: mem_safe_intros)
qed

end
