(* ===== verification/KV_PageTable.thy ===== *)
theory KV_PageTable
  imports KV_Vm
begin

text \<open>
  What the page table functions of kernel/vm.c do, stated over an abstract address space: \<open>pte_at m pt va\<close>
  is the leaf entry that the Sv32 walk finds for \<open>va\<close> (0 when there is none).  A well formed table has
  its second-level tables in distinct pages of the managed range, none of which is on the free list.
\<close>

section \<open>Entries and indices\<close>

lemma unat_PX: "unat (PX l va) = unat va div 2 ^ (12 + 10 * l) mod 1024"
proof -
  have "(0x3FF :: u32) = mask 10" by (simp add: mask_eq_exp_minus_1)
  then show ?thesis
    by (simp only: PX_def unat_and_mask unat_drop_bit_div) simp
qed

lemma PX_less [simp]: "unat (PX l va) < 1024"
  by (simp add: unat_PX)

lemma split_1024: "(a :: nat) = b \<longleftrightarrow> a div 1024 = b div 1024 \<and> a mod 1024 = b mod 1024"
  by (metis div_mult_mod_eq)

lemma PX_page: "PX 1 va = PX 1 vb \<and> PX 0 va = PX 0 vb \<longleftrightarrow> PGROUNDDOWN va = PGROUNDDOWN vb"
proof -
  have top: "unat (PX 1 x) = unat x div 4096 div 1024" for x
  proof -
    have "unat x div 4194304 < 1024" using unat_less_32 [of x] by simp
    then show ?thesis by (simp add: unat_PX div_mult2_eq [symmetric])
  qed
  have bot: "unat (PX 0 x) = unat x div 4096 mod 1024" for x
    by (simp add: unat_PX)
  have "PX 1 va = PX 1 vb \<and> PX 0 va = PX 0 vb \<longleftrightarrow> unat va div 4096 = unat vb div 4096"
    unfolding word_eq_unat top bot by (rule split_1024 [symmetric])
  then show ?thesis
    by (simp add: word_eq_unat unat_PGROUNDDOWN)
qed

lemma PTE2PA_aligned [simp]: "unat (PTE2PA v) mod 4096 = 0"
proof -
  have "PTE2PA v AND mask 12 = 0"
    by (rule bit_word_eqI) (auto simp: PTE2PA_def bit_simps)
  then have "unat (PTE2PA v AND mask 12) = 0" by simp
  then show ?thesis by (simp only: unat_and_mask) simp
qed

lemma aligned_div_mult: "n mod 4096 = 0 \<Longrightarrow> n div 4096 * 4096 = (n :: nat)"
  by (metis add.right_neutral div_mult_mod_eq)

lemma aligned_slice: "unat (p :: u32) mod 4096 = 0 \<Longrightarrow> push_bit 12 (drop_bit 12 p) = p"
  using unat_and_not_mask [of p 12]
  by (simp add: and_not_mask_slice [symmetric] word_eq_unat aligned_div_mult)

lemma PTE2PA_PA2PTE:
  assumes "unat p mod 4096 = 0" "f AND NOT 0x3FF = 0"
  shows "PTE2PA (PA2PTE p OR f) = p"
proof -
  have "drop_bit 10 f = 0"
  proof (rule bit_word_eqI)
    fix n assume "n < LENGTH(32)"
    have "(NOT (0x3FF :: u32)) = NOT (mask 10)" by (simp add: mask_eq_exp_minus_1)
    with assms(2) have "f AND NOT (mask 10) = 0" by simp
    then have "\<not> bit (f AND NOT (mask 10)) (10 + n)" by simp
    then show "bit (drop_bit 10 f) n = bit (0 :: u32) n"
      using bit_imp_le_length [of f "10 + n"] by (auto simp: bit_simps)
  qed
  then have "PTE2PA (PA2PTE p OR f) = push_bit 12 (drop_bit 10 (push_bit 10 (drop_bit 12 p)))"
    by (simp add: PTE2PA_def PA2PTE_def drop_bit_or)
  also have "\<dots> = push_bit 12 (drop_bit 12 p)"
    by (rule bit_word_eqI) (auto simp: bit_simps)
  finally show ?thesis using assms(1) by (simp add: aligned_slice)
qed

lemma PTE2PA_dir [simp]: "unat p mod 4096 = 0 \<Longrightarrow> PTE2PA (PA2PTE p OR PTE_V) = p"
  by (rule PTE2PA_PA2PTE) simp_all

lemma or_valid [simp]: "(x OR 1) AND (1 :: u32) \<noteq> 0"
proof -
  have "bit ((x OR 1) AND (1 :: u32)) 0" by (simp add: bit_simps)
  then show ?thesis by force
qed

lemma PA2PTE_low: "PA2PTE p AND mask 10 = 0"
  by (rule bit_word_eqI) (auto simp: PA2PTE_def bit_simps)

lemma dir_flags: "(PA2PTE p OR PTE_V) AND (PTE_R OR PTE_W OR PTE_X) = 0"
proof -
  have "PA2PTE p AND 14 = (PA2PTE p AND mask 10) AND 14"
    by (simp add: and.assoc mask_eq_exp_minus_1)
  then show ?thesis by (simp add: PA2PTE_low and.commute [of _ "14"] bit.conj_disj_distrib)
qed

section \<open>Tables in memory\<close>

definition slot :: "u32 \<Rightarrow> u32 \<Rightarrow> u32" where
  "slot p k = p + 4 * k"

definition off_page :: "u32 \<Rightarrow> memory \<Rightarrow> memory \<Rightarrow> bool" where
  "off_page p m m' \<longleftrightarrow> (\<forall>a. 4096 \<le> unat (a - p) \<longrightarrow> m' a = m a)"

lemma off_page_refl [simp]: "off_page p m m"
  by (simp add: off_page_def)

lemma unat_4k: "unat k < 1024 \<Longrightarrow> unat (4 * k :: u32) = 4 * unat k"
  by (simp add: unat_word_ariths)

lemma unat_4k_add: "unat k < 1024 \<Longrightarrow> unat j < 4 \<Longrightarrow> unat (4 * k + j :: u32) < 4096"
  by (simp add: unat_add_32 unat_4k)

lemma slot_outside:
  assumes "unat p mod 4096 = 0" "unat q mod 4096 = 0" "p \<noteq> q" "unat k < 1024" "off_page p m m'"
  shows "load32 m' (slot q k) = load32 m (slot q k)"
proof -
  have "m' (slot q k + j) = m (slot q k + j)" if "unat j < 4" for j
    using page_disjoint [OF assms(1-3) unat_4k_add [OF assms(4) that]] assms(5)
    by (simp add: off_page_def slot_def add.assoc)
  from this [of 0] this [of 1] this [of 2] this [of 3] show ?thesis
    by (intro load32_cong) simp_all
qed

lemma slot_store_other:
  assumes "unat k < 1024" "unat j < 1024" "k \<noteq> j"
  shows "load32 (store32 m (slot p k) v) (slot p j) = load32 m (slot p j)"
proof (rule load32_store32_other)
  have ne: "unat k \<noteq> unat j" using assms(3) by (simp add: word_eq_unat)
  have "slot p j - slot p k = 4 * j - 4 * k" "slot p k - slot p j = 4 * k - 4 * j"
    by (simp_all add: slot_def)
  then show "4 \<le> unat (slot p j - slot p k)" "4 \<le> unat (slot p k - slot p j)"
    using ne assms(1,2) by (auto simp: unat_sub_if unat_4k)
qed

lemma off_page_store:
  assumes "unat k < 1024"
  shows "off_page p m (store32 m (slot p k) v)"
  unfolding off_page_def
proof (intro allI impI)
  fix a assume a: "4096 \<le> unat (a - p)"
  have "unat (a - p - 4 * k) = unat (a - p) - 4 * unat k"
    using a assms by (subst unat_sub_if) (simp add: unat_4k)
  moreover have eq: "a - slot p k = a - p - 4 * k" by (simp add: slot_def)
  ultimately have "4 \<le> unat (a - slot p k)" unfolding eq using a assms by simp
  then show "store32 m (slot p k) v a = m a" by (rule store32_other)
qed

lemma slot_zero_page:
  assumes "unat k < 1024"
  shows "load32 (memset p 0 PGSIZE m) (slot p k) = 0"
proof -
  have "memset p 0 PGSIZE m (slot p k + j) = 0" if "unat j < 4" for j
    using unat_4k_add [OF assms that] by (simp add: memset_apply slot_def add.assoc)
  from this [of 0] this [of 1] this [of 2] this [of 3] show ?thesis
    by (simp add: load32_def)
qed

lemma off_page_memset [simp]: "off_page p m (memset p c PGSIZE m)"
  by (simp add: off_page_def memset_apply)

lemma off_page_trans: "off_page p m m' \<Longrightarrow> off_page p m' m'' \<Longrightarrow> off_page p m m''"
  by (simp add: off_page_def)

section \<open>The address space of a table\<close>

definition pde_at :: "memory \<Rightarrow> u32 \<Rightarrow> u32 \<Rightarrow> u32" where
  "pde_at m pt va = load32 m (slot pt (PX 1 va))"

definition pte_addr :: "memory \<Rightarrow> u32 \<Rightarrow> u32 \<Rightarrow> u32" where
  "pte_addr m pt va = (if pde_at m pt va AND PTE_V \<noteq> 0 then slot (PTE2PA (pde_at m pt va)) (PX 0 va) else 0)"

definition pte_at :: "memory \<Rightarrow> u32 \<Rightarrow> u32 \<Rightarrow> u32" where
  "pte_at m pt va = (if pde_at m pt va AND PTE_V \<noteq> 0 then load32 m (pte_addr m pt va) else 0)"

definition tables :: "memory \<Rightarrow> u32 \<Rightarrow> u32 set" where
  "tables m pt = insert pt {PTE2PA (pde_at m pt va) | va. pde_at m pt va AND PTE_V \<noteq> 0}"

definition pt_ok :: "u32 \<Rightarrow> memory \<Rightarrow> u32 \<Rightarrow> bool" where
  "pt_ok e m pt \<longleftrightarrow> (\<forall>p \<in> tables m pt. page_ok e p)
     \<and> (\<forall>va. pde_at m pt va AND PTE_V \<noteq> 0 \<longrightarrow> PTE2PA (pde_at m pt va) \<noteq> pt
          \<and> pde_at m pt va AND (PTE_R OR PTE_W OR PTE_X) = 0)
     \<and> (\<forall>va vb. pde_at m pt va AND PTE_V \<noteq> 0 \<and> pde_at m pt vb AND PTE_V \<noteq> 0
          \<and> PTE2PA (pde_at m pt va) = PTE2PA (pde_at m pt vb) \<longrightarrow> PX 1 va = PX 1 vb)"

text \<open>A page table beside the free list \<open>ps\<close>.\<close>
definition vm_ok :: "kstate \<Rightarrow> u32 \<Rightarrow> u32 list \<Rightarrow> bool" where
  "vm_ok s pt ps \<longleftrightarrow> free_pages s ps \<and> pt_ok (sym_end (link s)) (mem s) pt \<and> tables (mem s) pt \<inter> set ps = {}"

lemma walk_lookup: "va < MAXVA \<Longrightarrow> walk pt va False s = Ok (pte_addr (mem s) pt va) s"
  by (simp add: walk_def pte_addr_def pde_at_def slot_def Let_def not_le)

lemma page_ok_aligned: "page_ok e p \<Longrightarrow> unat p mod 4096 = 0"
  by (simp add: page_ok_def)

lemma page_ok_slot_ne0:
  assumes "page_ok e p" "unat k < 1024"
  shows "slot p k \<noteq> 0"
proof -
  have "unat p < unat PHYSTOP" using assms(1) by (simp add: page_ok_def word_less_nat_alt)
  then have "unat (slot p k) = unat p + 4 * unat k"
    using assms(2) by (simp add: slot_def unat_add_32 unat_4k)
  moreover have "0 < unat p" using assms(1) by (simp add: page_ok_def unat_gt_0)
  ultimately show ?thesis by force
qed

lemma pt_okD:
  assumes "pt_ok e m pt" "pde_at m pt va AND PTE_V \<noteq> 0"
  shows "page_ok e (PTE2PA (pde_at m pt va))" "PTE2PA (pde_at m pt va) \<noteq> pt"
    "page_ok e pt" "PTE2PA (pde_at m pt va) \<in> tables m pt"
    "pde_at m pt va AND (PTE_R OR PTE_W OR PTE_X) = 0"
  using assms by (auto simp: pt_ok_def tables_def)

lemma pt_ok_inj:
  "pt_ok e m pt \<Longrightarrow> pde_at m pt va AND PTE_V \<noteq> 0 \<Longrightarrow> pde_at m pt vb AND PTE_V \<noteq> 0
    \<Longrightarrow> PTE2PA (pde_at m pt va) = PTE2PA (pde_at m pt vb) \<Longrightarrow> PX 1 va = PX 1 vb"
  unfolding pt_ok_def by blast

lemma pt_ok_root: "pt_ok e m pt \<Longrightarrow> page_ok e pt"
  by (simp add: pt_ok_def tables_def)

lemma pt_tables [simp]: "pt \<in> tables m pt"
  by (simp add: tables_def)

lemma pte_addr_ne0: "pt_ok e m pt \<Longrightarrow> pte_addr m pt va = 0 \<longleftrightarrow> pde_at m pt va AND PTE_V = 0"
  using page_ok_slot_ne0 [OF pt_okD(1), of e m pt va "PX 0 va"] by (auto simp: pte_addr_def)


lemma pde_at_cong: "PX 1 va = PX 1 vb \<Longrightarrow> pde_at m pt va = pde_at m pt vb"
  by (simp add: pde_at_def)

lemma pt_ok_same_pde:
  assumes "\<And>vb. pde_at m' pt vb = pde_at m pt vb"
  shows "tables m' pt = tables m pt" "pt_ok e m' pt = pt_ok e m pt"
  using assms by (simp_all add: pt_ok_def tables_def)

text \<open>Writing a leaf entry.\<close>

lemma leaf_store:
  fixes w :: u32
  assumes ok: "pt_ok e m pt" and v: "pde_at m pt va AND PTE_V \<noteq> 0"
  defines "m' \<equiv> store32 m (pte_addr m pt va) w"
  shows "off_page (PTE2PA (pde_at m pt va)) m m'" and "pde_at m' pt vb = pde_at m pt vb"
    and "pte_at m' pt vb = (if PGROUNDDOWN vb = PGROUNDDOWN va then w else pte_at m pt vb)"
proof -
  let ?q = "PTE2PA (pde_at m pt va)"
  have m': "m' = store32 m (slot ?q (PX 0 va)) w" using v by (simp add: m'_def pte_addr_def)
  show off: "off_page ?q m m'" unfolding m' by (rule off_page_store) simp
  have al: "unat pt mod 4096 = 0" using pt_okD(3) [OF ok v] by (rule page_ok_aligned)
  have pde: "pde_at m' pt vb = pde_at m pt vb" for vb
    unfolding pde_at_def using slot_outside [OF _ al _ _ off] pt_okD(2) [OF ok v] by simp
  show "pde_at m' pt vb = pde_at m pt vb" by (rule pde)
  show "pte_at m' pt vb = (if PGROUNDDOWN vb = PGROUNDDOWN va then w else pte_at m pt vb)"
  proof (cases "pde_at m pt vb AND PTE_V = 0")
    case True
    then have "PX 1 vb \<noteq> PX 1 va" using v pde_at_cong by metis
    then have "PGROUNDDOWN vb \<noteq> PGROUNDDOWN va" using PX_page by blast
    then show ?thesis using True by (simp add: pte_at_def pde)
  next
    case vb: False
    let ?r = "PTE2PA (pde_at m pt vb)"
    have pte: "pte_at m' pt vb = load32 m' (slot ?r (PX 0 vb))"
      "pte_at m pt vb = load32 m (slot ?r (PX 0 vb))"
      using vb by (simp_all add: pte_at_def pte_addr_def pde)
    show ?thesis
    proof (cases "PX 1 vb = PX 1 va")
      case True
      then have r: "?r = ?q" using pde_at_cong by metis
      show ?thesis
      proof (cases "PX 0 vb = PX 0 va")
        case same: True
        have "load32 m' (slot ?q (PX 0 va)) = w" by (simp add: m')
        then show ?thesis using True same PX_page [of vb va] by (simp add: pte r)
      next
        case False
        then have "load32 m' (slot ?q (PX 0 vb)) = load32 m (slot ?q (PX 0 vb))"
          unfolding m' by (intro slot_store_other) auto
        then show ?thesis using True False PX_page [of vb va] by (simp add: pte r)
      qed
    next
      case False
      then have "?r \<noteq> ?q" using pt_ok_inj [OF ok vb v] by blast
      then have "load32 m' (slot ?r (PX 0 vb)) = load32 m (slot ?r (PX 0 vb))"
        using slot_outside [OF PTE2PA_aligned PTE2PA_aligned _ PX_less off] by metis
      moreover have "PGROUNDDOWN vb \<noteq> PGROUNDDOWN va" using False PX_page by blast
      ultimately show ?thesis by (simp add: pte)
    qed
  qed
qed

lemma free_pages_off_page:
  assumes "free_pages s ps" "off_page p (mem s) m'" "unat p mod 4096 = 0" "p \<notin> set ps"
  shows "free_pages (s\<lparr>mem := m'\<rparr>) ps"
proof -
  have "chain m' (freelist s) ps = chain (mem s) (freelist s) ps"
    by (rule chain_outside [OF assms(3,4)])
      (use assms(1,2) in \<open>auto simp: free_pages_def page_ok_def off_page_def\<close>)
  with assms(1) show ?thesis by (simp add: free_pages_def)
qed

lemma vm_ok_leaf_store:
  fixes w :: u32
  assumes ok: "vm_ok s pt ps" and v: "pde_at (mem s) pt va AND PTE_V \<noteq> 0"
  defines "t \<equiv> s\<lparr>mem := store32 (mem s) (pte_addr (mem s) pt va) w\<rparr>"
  shows "vm_ok t pt ps"
    and "pte_at (mem t) pt vb = (if PGROUNDDOWN vb = PGROUNDDOWN va then w else pte_at (mem s) pt vb)"
proof -
  have pt: "pt_ok (sym_end (link s)) (mem s) pt" using ok by (simp add: vm_ok_def)
  note L = leaf_store [OF pt v]
  have "PTE2PA (pde_at (mem s) pt va) \<notin> set ps"
    using ok pt_okD(4) [OF pt v] by (auto simp: vm_ok_def)
  then have "free_pages t ps"
    unfolding t_def using ok L(1) by (intro free_pages_off_page) (auto simp: vm_ok_def)
  then show "vm_ok t pt ps"
    using ok pt_ok_same_pde [OF L(2)] by (simp add: vm_ok_def t_def)
  show "pte_at (mem t) pt vb = (if PGROUNDDOWN vb = PGROUNDDOWN va then w else pte_at (mem s) pt vb)"
    using L(3) by (simp add: t_def)
qed

text \<open>Hanging a fresh second-level table into the root.\<close>

lemma new_table:
  assumes ok: "pt_ok e m pt" and p: "page_ok e p" "p \<notin> tables m pt" and v: "pde_at m pt va AND PTE_V = 0"
    and off: "off_page p m m1" and zero: "\<And>k. unat k < 1024 \<Longrightarrow> load32 m1 (slot p k) = 0"
  defines "m' \<equiv> store32 m1 (slot pt (PX 1 va)) (PA2PTE p OR PTE_V)"
  shows "pde_at m' pt vb = (if PX 1 vb = PX 1 va then PA2PTE p OR PTE_V else pde_at m pt vb)"
    and "pte_at m' pt vb = pte_at m pt vb" and "tables m' pt = insert p (tables m pt)" and "pt_ok e m' pt"
proof -
  have al: "unat pt mod 4096 = 0" "unat p mod 4096 = 0"
    using pt_ok_root [OF ok] p(1) by (auto simp: page_ok_def)
  have ne: "p \<noteq> pt" using p(2) by auto
  have off': "off_page pt m1 m'" unfolding m'_def by (rule off_page_store) simp
  have pde: "pde_at m' pt vb = (if PX 1 vb = PX 1 va then PA2PTE p OR PTE_V else pde_at m pt vb)" for vb
    using slot_outside [OF al(2,1) ne _ off] slot_store_other [of "PX 1 va" "PX 1 vb"]
    by (simp add: pde_at_def m'_def)
  show "pde_at m' pt vb = (if PX 1 vb = PX 1 va then PA2PTE p OR PTE_V else pde_at m pt vb)" by (rule pde)
  have old: "load32 m' (slot q k) = load32 m (slot q k)"
    if "page_ok e q" "q \<noteq> pt" "q \<noteq> p" "unat k < 1024" for q k
    using slot_outside [OF al(1) _ _ _ off'] slot_outside [OF al(2) _ _ _ off] that
    by (simp add: page_ok_aligned)
  show "pte_at m' pt vb = pte_at m pt vb"
  proof (cases "PX 1 vb = PX 1 va")
    case True
    then have "pte_at m pt vb = 0" using v pde_at_cong by (metis pte_at_def)
    moreover have "pte_at m' pt vb = 0"
      using True al ne slot_outside [OF al(1) al(2) _ _ off', of "PX 0 vb"] zero
      by (simp add: pte_at_def pte_addr_def pde)
    ultimately show ?thesis by simp
  next
    case False
    have "load32 m' (slot (PTE2PA (pde_at m pt vb)) (PX 0 vb)) = load32 m (slot (PTE2PA (pde_at m pt vb)) (PX 0 vb))"
      if "pde_at m pt vb AND PTE_V \<noteq> 0"
      using pt_okD [OF ok that] p(2) by (intro old) auto
    then show ?thesis using False by (simp add: pte_at_def pte_addr_def pde)
  qed
  have none: "PX 1 vb \<noteq> PX 1 va" if "pde_at m pt vb AND PTE_V \<noteq> 0" for vb
    using that v pde_at_cong by metis
  show T: "tables m' pt = insert p (tables m pt)"
    unfolding tables_def using al none by (auto simp: pde)
  show "pt_ok e m' pt"
    unfolding pt_ok_def T
  proof (intro conjI allI impI ballI)
    fix q assume "q \<in> insert p (tables m pt)"
    then show "page_ok e q" using ok p by (auto simp: pt_ok_def)
  next
    fix vb assume "pde_at m' pt vb AND PTE_V \<noteq> 0"
    then show "PTE2PA (pde_at m' pt vb) \<noteq> pt"
      using al ne pt_okD(2) [OF ok, of vb] by (auto simp: pde split: if_splits)
  next
    fix vb assume "pde_at m' pt vb AND PTE_V \<noteq> 0"
    then show "pde_at m' pt vb AND (PTE_R OR PTE_W OR PTE_X) = 0"
      using dir_flags pt_okD(5) [OF ok, of vb] by (auto simp: pde split: if_splits)
  next
    fix vb vc assume "pde_at m' pt vb AND PTE_V \<noteq> 0 \<and> pde_at m' pt vc AND PTE_V \<noteq> 0
          \<and> PTE2PA (pde_at m' pt vb) = PTE2PA (pde_at m' pt vc)"
    then show "PX 1 vb = PX 1 vc"
      using al p(2) pt_ok_inj [OF ok, of vb vc] pt_okD(4) [OF ok, of vb] pt_okD(4) [OF ok, of vc]
      by (auto simp: pde split: if_splits)
  qed
qed


section \<open>Walking and mapping\<close>

definition mem_frame :: "u32 set \<Rightarrow> memory \<Rightarrow> memory \<Rightarrow> bool" where
  "mem_frame P m m' \<longleftrightarrow> (\<forall>a. (\<forall>p \<in> P. 4096 \<le> unat (a - p)) \<longrightarrow> m' a = m a)"

lemma mem_frame_refl [simp]: "mem_frame P m m"
  by (simp add: mem_frame_def)

lemma mem_frame_trans:
  assumes "mem_frame P m m'" "mem_frame Q m' m''" "P \<subseteq> R" "Q \<subseteq> R"
  shows "mem_frame R m m''"
  unfolding mem_frame_def
proof (intro allI impI)
  fix a assume "\<forall>p \<in> R. 4096 \<le> unat (a - p)"
  then have "\<forall>p \<in> P. 4096 \<le> unat (a - p)" "\<forall>p \<in> Q. 4096 \<le> unat (a - p)" using assms(3,4) by blast+
  then show "m'' a = m a" using assms(1,2) by (simp add: mem_frame_def)
qed

lemma mem_frame_off_page: "off_page p m m' \<Longrightarrow> mem_frame {p} m m'"
  by (simp add: mem_frame_def off_page_def)

text \<open>From \<open>s\<close> with free list \<open>ps\<close> to \<open>t\<close> with free list \<open>qs\<close>, the pages taken from the list all became
  tables of \<open>pt\<close>, and no other memory changed.\<close>
definition vm_ext :: "u32 \<Rightarrow> kstate \<Rightarrow> u32 list \<Rightarrow> kstate \<Rightarrow> u32 list \<Rightarrow> bool" where
  "vm_ext pt s ps t qs \<longleftrightarrow> vm_ok t pt qs \<and> mem_only s t
     \<and> (\<exists>zs. ps = zs @ qs \<and> tables (mem t) pt = tables (mem s) pt \<union> set zs)
     \<and> mem_frame (tables (mem s) pt \<union> set ps) (mem s) (mem t)"

lemma vm_ext_refl: "vm_ok s pt ps \<Longrightarrow> vm_ext pt s ps s ps"
  by (simp add: vm_ext_def mem_frame_def)

lemma vm_ext_trans:
  assumes "vm_ext pt s ps t qs" "vm_ext pt t qs u rs"
  shows "vm_ext pt s ps u rs"
proof -
  obtain zs where zs: "ps = zs @ qs" "tables (mem t) pt = tables (mem s) pt \<union> set zs"
    using assms(1) by (auto simp: vm_ext_def)
  obtain ys where ys: "qs = ys @ rs" "tables (mem u) pt = tables (mem t) pt \<union> set ys"
    using assms(2) by (auto simp: vm_ext_def)
  have "mem_frame (tables (mem s) pt \<union> set ps) (mem s) (mem u)"
    using assms zs ys by (auto simp: vm_ext_def mem_frame_def)
  moreover have "mem_only s u"
    using assms mem_only_trans by (auto simp: vm_ext_def)
  moreover have "ps = (zs @ ys) @ rs" "tables (mem u) pt = tables (mem s) pt \<union> set (zs @ ys)"
    using zs ys by auto
  ultimately show ?thesis using assms(2) unfolding vm_ext_def by blast
qed

lemma vm_ext_link: "vm_ext pt s ps t qs \<Longrightarrow> link t = link s \<and> procs t = procs s \<and> cur t = cur s \<and> held t = held s"
  using mem_only_fields by (auto simp: vm_ext_def)

lemma walk_alloc:
  assumes ok: "vm_ok s pt ps" and va: "va < MAXVA"
  shows "(walk pt va True s = Ok 0 s \<and> ps = [] \<and> pde_at (mem s) pt va AND PTE_V = 0) \<or>
    (\<exists>t qs. walk pt va True s = Ok (pte_addr (mem t) pt va) t \<and> pde_at (mem t) pt va AND PTE_V \<noteq> 0
       \<and> vm_ext pt s ps t qs \<and> (\<forall>vb. pte_at (mem t) pt vb = pte_at (mem s) pt vb))"
proof (cases "pde_at (mem s) pt va AND PTE_V = 0")
  case False
  then have "walk pt va True s = Ok (pte_addr (mem s) pt va) s"
    using va by (simp add: walk_def pte_addr_def pde_at_def slot_def Let_def not_le)
  then show ?thesis using False vm_ext_refl [OF ok] by blast
next
  case v: True
  show ?thesis
  proof (cases ps)
    case Nil
    then have "kalloc s = Ok 0 s" using ok kalloc_empty by (simp add: vm_ok_def)
    then show ?thesis
      using v va Nil by (simp add: walk_def pde_at_def slot_def Let_def not_le)
  next
    case (Cons p qs)
    let ?e = "sym_end (link s)"
    have fp: "free_pages s (p # qs)" and pt: "pt_ok ?e (mem s) pt" using ok Cons by (auto simp: vm_ok_def)
    obtain s1 where s1: "kalloc s = Ok p s1" "free_pages s1 qs" "only_page p s s1" "p \<noteq> 0"
      using kalloc_cons [OF fp] by blast
    then obtain m f where m: "s1 = s\<lparr>mem := m, freelist := f\<rparr>" "off_page p (mem s) m"
      by (auto simp: only_page_def off_page_def)
    let ?m1 = "memset p 0 PGSIZE m"
    let ?t = "s1\<lparr>mem := store32 ?m1 (slot pt (PX 1 va)) (PA2PTE p OR PTE_V)\<rparr>"
    have p: "page_ok ?e p" "p \<notin> tables (mem s) pt" "p \<notin> set qs"
      using ok Cons fp by (auto simp: vm_ok_def free_pages_def)
    have al: "unat p mod 4096 = 0" "unat pt mod 4096 = 0"
      using p(1) pt_ok_root [OF pt] by (auto simp: page_ok_def)
    have off: "off_page p (mem s) ?m1" using m(2) off_page_memset off_page_trans by blast
    note N = new_table [OF pt p(1,2) v off slot_zero_page]
    have f1: "free_pages (s1\<lparr>mem := ?m1\<rparr>) qs"
      by (rule free_pages_off_page [OF s1(2)]) (use m al p in auto)
    have pn: "pt \<notin> set qs" using ok Cons by (auto simp: vm_ok_def disjoint_iff)
    have "free_pages (s1\<lparr>mem := ?m1\<rparr>\<lparr>mem := mem ?t\<rparr>) qs"
      by (rule free_pages_off_page [OF f1 _ al(2) pn]) (simp add: off_page_store)
    then have f2: "free_pages ?t qs" by simp
    have vm: "vm_ok ?t pt qs"
      using f2 N(3,4) ok Cons p m by (auto simp: vm_ok_def)
    have "mem_frame (tables (mem s) pt \<union> set ps) (mem s) (mem ?t)"
      using off off_page_store [of "PX 1 va" pt ?m1] Cons
      by (auto simp: mem_frame_def off_page_def)
    then have ext: "vm_ext pt s ps ?t qs"
      using vm N(3) Cons m unfolding vm_ext_def by (intro conjI exI [of _ "[p]"]) auto
    have pde: "pde_at (mem ?t) pt va = PA2PTE p OR PTE_V" using N(1) by simp
    then have "pte_addr (mem ?t) pt va = slot p (PX 0 va)" using al by (simp add: pte_addr_def)
    then have "walk pt va True s = Ok (pte_addr (mem ?t) pt va) ?t"
      using v va s1 m by (simp add: walk_def pde_at_def slot_def Let_def not_le)
    then show ?thesis using ext pde N(2) by (intro disjI2 exI [of _ ?t] exI [of _ qs]) simp
  qed
qed


lemma vm_ext_leaf_store:
  fixes w :: u32
  assumes ok: "vm_ok s pt ps" and v: "pde_at (mem s) pt va AND PTE_V \<noteq> 0"
  shows "vm_ext pt s ps (s\<lparr>mem := store32 (mem s) (pte_addr (mem s) pt va) w\<rparr>) ps"
proof -
  have pt: "pt_ok (sym_end (link s)) (mem s) pt" using ok by (simp add: vm_ok_def)
  note L = leaf_store [OF pt v, of w]
  have "mem_frame (tables (mem s) pt \<union> set ps) (mem s) (store32 (mem s) (pte_addr (mem s) pt va) w)"
    using L(1) pt_okD(4) [OF pt v] by (auto simp: mem_frame_def off_page_def)
  then show ?thesis
    using vm_ok_leaf_store(1) [OF ok v] pt_ok_same_pde(1) [OF L(2)] by (simp add: vm_ext_def)
qed

text \<open>The address space in which \<open>k\<close> pages from \<open>a\<close> on are mapped to consecutive frames.\<close>
definition map_range :: "u32 \<Rightarrow> nat \<Rightarrow> u32 \<Rightarrow> u32 \<Rightarrow> (u32 \<Rightarrow> u32) \<Rightarrow> u32 \<Rightarrow> u32" where
  "map_range a k pa perm f vb =
     (if unat a \<le> unat vb \<and> unat vb < unat a + 4096 * k
      then PA2PTE (pa + (PGROUNDDOWN vb - a)) OR perm OR PTE_V else f vb)"

lemma map_range_0 [simp]: "map_range a 0 pa perm f = f"
  by (rule ext) (auto simp: map_range_def)

lemma page_range:
  assumes "unat (a :: u32) mod 4096 = 0"
  shows "PGROUNDDOWN vb = a \<longleftrightarrow> unat a \<le> unat vb \<and> unat vb < unat a + 4096"
proof -
  obtain k where k: "unat a = 4096 * k" using assms by (auto simp: mod_eq_0_iff_dvd dvd_def)
  have "PGROUNDDOWN vb = a \<longleftrightarrow> unat vb div 4096 * 4096 = 4096 * k"
    by (simp add: word_eq_unat unat_PGROUNDDOWN k)
  also have "\<dots> \<longleftrightarrow> unat a \<le> unat vb \<and> unat vb < unat a + 4096"
    unfolding k by auto
  finally show ?thesis .
qed

lemma map_range_1:
  assumes "unat a mod 4096 = 0"
  shows "map_range a 1 pa perm f vb = (if PGROUNDDOWN vb = a then PA2PTE pa OR perm OR PTE_V else f vb)"
  using page_range [OF assms, of vb] by (auto simp: map_range_def)

lemma map_range_Suc:
  assumes "unat a mod 4096 = 0" "unat a + 4096 < 4294967296"
  shows "map_range (a + PGSIZE) k (pa + PGSIZE) perm (map_range a 1 pa perm f) = map_range a (Suc k) pa perm f"
proof
  fix vb
  have a: "unat (a + PGSIZE) = unat a + 4096" using assms(2) by (simp add: unat_add_32)
  have pp: "pa + PGSIZE + (PGROUNDDOWN vb - (a + PGSIZE)) = pa + (PGROUNDDOWN vb - a)" by simp
  show "map_range (a + PGSIZE) k (pa + PGSIZE) perm (map_range a 1 pa perm f) vb = map_range a (Suc k) pa perm f vb"
    unfolding map_range_1 [OF assms(1)] page_range [OF assms(1)]
    unfolding map_range_def a pp using page_range [OF assms(1), of vb] by auto
qed

lemma aligned_less_MAXVA: "unat a mod 4096 = 0 \<Longrightarrow> a < MAXVA"
proof -
  assume al: "unat a mod 4096 = 0"
  have "unat a \<noteq> 4294967295" using al by auto
  then show ?thesis using unat_less_32 [of a] by (simp add: word_less_nat_alt)
qed


lemma map_one:
  assumes ok: "vm_ok s pt ps" and al: "unat a mod 4096 = 0" and free: "pte_at (mem s) pt a AND PTE_V = 0"
  shows "(walk pt a True s = Ok 0 s \<and> ps = []) \<or>
    (\<exists>x t u qs. walk pt a True s = Ok x t \<and> x \<noteq> 0 \<and> load32 (mem t) x AND PTE_V = 0
       \<and> u = t\<lparr>mem := store32 (mem t) x (PA2PTE pa OR perm OR PTE_V)\<rparr>
       \<and> vm_ext pt s ps u qs \<and> pte_at (mem u) pt = map_range a 1 pa perm (pte_at (mem s) pt))"
proof (cases "walk pt a True s = Ok 0 s \<and> ps = []")
  case False
  then obtain t qs where t: "walk pt a True s = Ok (pte_addr (mem t) pt a) t"
    "pde_at (mem t) pt a AND PTE_V \<noteq> 0" "vm_ext pt s ps t qs"
    "\<And>vb. pte_at (mem t) pt vb = pte_at (mem s) pt vb"
    using walk_alloc [OF ok aligned_less_MAXVA [OF al]] by blast
  define u where "u = t\<lparr>mem := store32 (mem t) (pte_addr (mem t) pt a) (PA2PTE pa OR perm OR PTE_V)\<rparr>"
  have tok: "vm_ok t pt qs" using t(3) by (simp add: vm_ext_def)
  have ne: "pte_addr (mem t) pt a \<noteq> 0"
    using tok t(2) pte_addr_ne0 [of "sym_end (link t)"] by (auto simp: vm_ok_def)
  have "load32 (mem t) (pte_addr (mem t) pt a) AND PTE_V = 0"
    using free t(2) t(4) [of a] by (simp add: pte_at_def)
  moreover have "vm_ext pt s ps u qs"
    unfolding u_def using vm_ext_trans [OF t(3) vm_ext_leaf_store [OF tok t(2)]] .
  moreover have "PGROUNDDOWN a = a" using page_range [OF al, of a] by simp
  then have "pte_at (mem u) pt = map_range a 1 pa perm (pte_at (mem s) pt)"
    unfolding u_def using vm_ok_leaf_store(2) [OF tok t(2)] t(4)
    by (intro ext) (simp add: map_range_1 [OF al] del: One_nat_def)
  ultimately show ?thesis using t(1) ne u_def by blast
qed simp

lemma mappages_loop_step:
  assumes "walk pt a True s = Ok x t" "x \<noteq> 0" "load32 (mem t) x AND PTE_V = 0"
    "u = t\<lparr>mem := store32 (mem t) x (PA2PTE pa OR perm OR PTE_V)\<rparr>"
  shows "mappages_loop (Suc n) pt a lasta pa perm s =
    (if a = lasta then Ok 0 u else mappages_loop n pt (a + PGSIZE) lasta (pa + PGSIZE) perm u)"
  using assms by simp

text \<open>One free page that is not the last: no memory for its table, or the loop goes on behind it.\<close>

lemma mappages_loop_next:
  assumes ok: "vm_ok s pt ps" and al: "unat a mod 4096 = 0" and free: "pte_at (mem s) pt a AND PTE_V = 0"
    and lim: "unat a + 4096 < 4294967296" "unat a + 4096 * Suc n < 4294967296" and la: "lasta = a + of_nat (4096 * Suc n)"
  shows "(mappages_loop (Suc (Suc n)) pt a lasta pa perm s = Ok (-1) s \<and> ps = []) \<or>
    (\<exists>u qs. vm_ext pt s ps u qs \<and> pte_at (mem u) pt = map_range a 1 pa perm (pte_at (mem s) pt)
       \<and> mappages_loop (Suc (Suc n)) pt a lasta pa perm s = mappages_loop (Suc n) pt (a + PGSIZE) lasta (pa + PGSIZE) perm u
       \<and> unat (a + PGSIZE) = unat a + 4096 \<and> unat (a + PGSIZE) mod 4096 = 0 \<and> lasta = (a + PGSIZE) + of_nat (4096 * n)
       \<and> (\<forall>vb. unat a + 4096 \<le> unat vb \<longrightarrow> pte_at (mem u) pt vb = pte_at (mem s) pt vb))"
  using map_one [OF ok al free, of pa perm]
proof (elim disjE exE conjE)
  fix x t u qs
  assume w: "walk pt a True s = Ok x t" "x \<noteq> 0" "load32 (mem t) x AND PTE_V = 0"
    "u = t\<lparr>mem := store32 (mem t) x (PA2PTE pa OR perm OR PTE_V)\<rparr>"
    and e: "vm_ext pt s ps u qs" "pte_at (mem u) pt = map_range a 1 pa perm (pte_at (mem s) pt)"
  have a': "unat (a + PGSIZE) = unat a + 4096" using lim(1) by (simp add: unat_add_32)
  have "unat (of_nat (4096 * Suc n) :: u32) = 4096 * Suc n" using lim(2) by (intro unat_of_nat_32) simp
  then have "(of_nat (4096 * Suc n) :: u32) \<noteq> 0"
    by (metis mult_is_0 nat.distinct(1) unat_0 zero_neq_numeral)
  then have "a \<noteq> lasta" unfolding la by (metis add_cancel_right_right)
  then have "mappages_loop (Suc (Suc n)) pt a lasta pa perm s = mappages_loop (Suc n) pt (a + PGSIZE) lasta (pa + PGSIZE) perm u"
    using mappages_loop_step [OF w, of "Suc n" lasta] by (simp del: mappages_loop.simps)
  moreover have "pte_at (mem u) pt vb = pte_at (mem s) pt vb" if "unat a + 4096 \<le> unat vb" for vb
    using that page_range [OF al, of vb] by (simp add: e(2) map_range_def)
  ultimately show ?thesis using e a' al la by auto
qed simp

lemma mappages_loop_spec:
  assumes "vm_ok s pt ps" "unat a mod 4096 = 0" "unat a + 4096 * Suc n \<le> 4294967296"
    and "lasta = a + of_nat (4096 * n)"
    and "\<And>vb. unat a \<le> unat vb \<Longrightarrow> unat vb < unat a + 4096 * Suc n \<Longrightarrow> pte_at (mem s) pt vb AND PTE_V = 0"
  shows "\<exists>t qs k. vm_ext pt s ps t qs \<and> pte_at (mem t) pt = map_range a k pa perm (pte_at (mem s) pt)
     \<and> (mappages_loop (Suc n) pt a lasta pa perm s = Ok 0 t \<and> k = Suc n
        \<or> mappages_loop (Suc n) pt a lasta pa perm s = Ok (-1) t \<and> qs = [] \<and> k \<le> n)"
  using assms
proof (induction n arbitrary: s ps a pa)
  case (0 s ps a pa)
  have free: "pte_at (mem s) pt a AND PTE_V = 0" using 0 by simp
  from map_one [OF 0(1,2) free, of pa perm] show ?case
  proof (elim disjE exE conjE)
    assume "walk pt a True s = Ok 0 s" "ps = []"
    then show ?thesis using vm_ext_refl [OF 0(1)] by (intro exI [of _ s] exI [of _ ps] exI [of _ 0]) simp
  next
    fix x t u qs
    assume w: "walk pt a True s = Ok x t" "x \<noteq> 0" "load32 (mem t) x AND PTE_V = 0"
      "u = t\<lparr>mem := store32 (mem t) x (PA2PTE pa OR perm OR PTE_V)\<rparr>"
      and e: "vm_ext pt s ps u qs" "pte_at (mem u) pt = map_range a 1 pa perm (pte_at (mem s) pt)"
    then show ?thesis
      using mappages_loop_step [OF w] 0(4) by (intro exI [of _ u] exI [of _ qs] exI [of _ 1]) simp
  qed
next
  case (Suc n s ps a pa)
  have free: "pte_at (mem s) pt a AND PTE_V = 0" using Suc.prems(5) by simp
  have lim: "unat a + 4096 < 4294967296" "unat a + 4096 * Suc n < 4294967296" using Suc.prems(3) by simp_all
  from mappages_loop_next [OF Suc.prems(1,2) free lim Suc.prems(4), of pa perm] show ?case
  proof (elim disjE exE conjE)
    assume "mappages_loop (Suc (Suc n)) pt a lasta pa perm s = Ok (-1) s" "ps = []"
    then show ?thesis using vm_ext_refl [OF Suc.prems(1)]
      by (intro exI [of _ s] exI [of _ ps] exI [of _ 0]) (simp del: mappages_loop.simps)
  next
    fix u qs
    assume e: "vm_ext pt s ps u qs" "pte_at (mem u) pt = map_range a 1 pa perm (pte_at (mem s) pt)"
      and step: "mappages_loop (Suc (Suc n)) pt a lasta pa perm s = mappages_loop (Suc n) pt (a + PGSIZE) lasta (pa + PGSIZE) perm u"
      and a': "unat (a + PGSIZE) = unat a + 4096" "unat (a + PGSIZE) mod 4096 = 0" "lasta = (a + PGSIZE) + of_nat (4096 * n)"
      and rest: "\<forall>vb. unat a + 4096 \<le> unat vb \<longrightarrow> pte_at (mem u) pt vb = pte_at (mem s) pt vb"
    have "vm_ok u pt qs" using e(1) by (simp add: vm_ext_def)
    moreover have "pte_at (mem u) pt vb AND PTE_V = 0"
      if "unat (a + PGSIZE) \<le> unat vb" "unat vb < unat (a + PGSIZE) + 4096 * Suc n" for vb
      using Suc.prems(5) [of vb] that a'(1) rest by simp
    ultimately obtain t' qs' k where r: "vm_ext pt u qs t' qs'"
      "pte_at (mem t') pt = map_range (a + PGSIZE) k (pa + PGSIZE) perm (pte_at (mem u) pt)"
      "mappages_loop (Suc n) pt (a + PGSIZE) lasta (pa + PGSIZE) perm u = Ok 0 t' \<and> k = Suc n
        \<or> mappages_loop (Suc n) pt (a + PGSIZE) lasta (pa + PGSIZE) perm u = Ok (-1) t' \<and> qs' = [] \<and> k \<le> n"
      using Suc.IH [of u qs "a + PGSIZE" "pa + PGSIZE"] Suc.prems(3) a' by auto
    have "pte_at (mem t') pt = map_range a (Suc k) pa perm (pte_at (mem s) pt)"
      using r(2) e(2) map_range_Suc [OF Suc.prems(2) lim(1)] by simp
    then show ?thesis
      using vm_ext_trans [OF e(1) r(1)] r(3) unfolding step
      by (intro exI [of _ t'] exI [of _ qs'] exI [of _ "Suc k"]) auto
  qed
qed

text \<open>A page of the range that is mapped already: the pages before it are mapped, then the loop panics.\<close>

lemma mappages_loop_remap:
  assumes "vm_ok s pt ps" "unat a mod 4096 = 0" "unat a + 4096 * Suc n \<le> 4294967296"
    and "lasta = a + of_nat (4096 * n)" "m \<le> n"
    and "\<And>vb. unat a \<le> unat vb \<Longrightarrow> unat vb < unat a + 4096 * m \<Longrightarrow> pte_at (mem s) pt vb AND PTE_V = 0"
    and "pte_at (mem s) pt (a + of_nat (4096 * m)) AND PTE_V \<noteq> 0"
  shows "\<exists>t qs k. vm_ext pt s ps t qs \<and> pte_at (mem t) pt = map_range a k pa perm (pte_at (mem s) pt)
     \<and> (mappages_loop (Suc n) pt a lasta pa perm s = Panic ''mappages: remap'' t \<and> k = m
        \<or> mappages_loop (Suc n) pt a lasta pa perm s = Ok (-1) t \<and> qs = [] \<and> k < m)"
  using assms
proof (induction m arbitrary: n s ps a pa)
  case (0 n s ps a pa)
  have v: "pte_at (mem s) pt a AND PTE_V \<noteq> 0" using 0(7) by simp
  then have d: "pde_at (mem s) pt a AND PTE_V \<noteq> 0" by (auto simp: pte_at_def)
  then have w: "walk pt a True s = Ok (pte_addr (mem s) pt a) s"
    using aligned_less_MAXVA [OF 0(2)] by (simp add: walk_def pte_addr_def pde_at_def slot_def Let_def not_le)
  have ne: "pte_addr (mem s) pt a \<noteq> 0" using 0(1) d pte_addr_ne0 [of "sym_end (link s)"] by (auto simp: vm_ok_def)
  have "mappages_loop (Suc n) pt a lasta pa perm s = Panic ''mappages: remap'' s" using w ne v d by (simp add: pte_at_def)
  then show ?case using vm_ext_refl [OF 0(1)] by (intro exI [of _ s] exI [of _ ps] exI [of _ 0]) simp
next
  case (Suc m n s ps a pa)
  obtain n' where n: "n = Suc n'" using Suc.prems(5) by (cases n) auto
  have free: "pte_at (mem s) pt a AND PTE_V = 0" using Suc.prems(6) by simp
  have lim: "unat a + 4096 < 4294967296" "unat a + 4096 * Suc n' < 4294967296" using Suc.prems(3) n by simp_all
  from mappages_loop_next [OF Suc.prems(1,2) free lim Suc.prems(4) [unfolded n], of pa perm] show ?case
  proof (elim disjE exE conjE)
    assume "mappages_loop (Suc (Suc n')) pt a lasta pa perm s = Ok (-1) s" "ps = []"
    then show ?thesis using vm_ext_refl [OF Suc.prems(1)] n
      by (intro exI [of _ s] exI [of _ ps] exI [of _ 0]) (simp del: mappages_loop.simps)
  next
    fix u qs
    assume e: "vm_ext pt s ps u qs" "pte_at (mem u) pt = map_range a 1 pa perm (pte_at (mem s) pt)"
      and step: "mappages_loop (Suc (Suc n')) pt a lasta pa perm s = mappages_loop (Suc n') pt (a + PGSIZE) lasta (pa + PGSIZE) perm u"
      and a': "unat (a + PGSIZE) = unat a + 4096" "unat (a + PGSIZE) mod 4096 = 0" "lasta = (a + PGSIZE) + of_nat (4096 * n')"
      and rest: "\<forall>vb. unat a + 4096 \<le> unat vb \<longrightarrow> pte_at (mem u) pt vb = pte_at (mem s) pt vb"
    have "vm_ok u pt qs" using e(1) by (simp add: vm_ext_def)
    moreover have "pte_at (mem u) pt vb AND PTE_V = 0"
      if "unat (a + PGSIZE) \<le> unat vb" "unat vb < unat (a + PGSIZE) + 4096 * m" for vb
      using Suc.prems(6) [of vb] that a'(1) rest by simp
    moreover have "pte_at (mem u) pt ((a + PGSIZE) + of_nat (4096 * m)) AND PTE_V \<noteq> 0"
    proof -
      have "unat (of_nat (4096 * Suc m) :: u32) = 4096 * Suc m" using Suc.prems(3,5) by (intro unat_of_nat_32) simp
      then have "unat (a + of_nat (4096 * Suc m)) = unat a + 4096 * Suc m" using Suc.prems(3,5) unfolding unat_add_32 by simp
      then have "pte_at (mem u) pt (a + of_nat (4096 * Suc m)) AND PTE_V \<noteq> 0" using rest Suc.prems(7) by simp
      then show ?thesis by (simp add: add.assoc)
    qed
    ultimately obtain t' qs' k where r: "vm_ext pt u qs t' qs'"
      "pte_at (mem t') pt = map_range (a + PGSIZE) k (pa + PGSIZE) perm (pte_at (mem u) pt)"
      "mappages_loop (Suc n') pt (a + PGSIZE) lasta (pa + PGSIZE) perm u = Panic ''mappages: remap'' t' \<and> k = m
        \<or> mappages_loop (Suc n') pt (a + PGSIZE) lasta (pa + PGSIZE) perm u = Ok (-1) t' \<and> qs' = [] \<and> k < m"
      using Suc.IH [of u qs "a + PGSIZE" n' "pa + PGSIZE"] Suc.prems(3,5) a' n by auto
    have "pte_at (mem t') pt = map_range a (Suc k) pa perm (pte_at (mem s) pt)"
      using r(2) e(2) map_range_Suc [OF Suc.prems(2) lim(1)] by simp
    then show ?thesis
      using vm_ext_trans [OF e(1) r(1)] r(3) unfolding n step
      by (intro exI [of _ t'] exI [of _ qs'] exI [of _ "Suc k"]) auto
  qed
qed

lemma mappages_aligned:
  assumes "unat va mod 4096 = 0" "unat sz = 4096 * Suc n"
  shows "mappages pt va sz pa perm = mappages_loop (Suc n) pt va (va + of_nat (4096 * n)) pa perm"
proof -
  have "unat (of_nat (4096 * Suc n) :: u32) = 4096 * Suc n"
    using assms(2) unat_less_32 [of sz] by (intro unat_of_nat_32) simp
  then have "sz = of_nat (4096 * Suc n)" using assms(2) by (simp only: word_eq_unat)
  then have eq: "va + sz - PGSIZE = va + of_nat (4096 * n)" by simp
  have "sz \<noteq> 0" using assms(2) by auto
  then have "mappages pt va sz pa perm = mappages_loop (unat sz div 4096) pt va (va + sz - PGSIZE) pa perm"
    using page_mod_zero [of va] page_mod_zero [of sz] assms by (simp add: mappages_def)
  moreover have "unat sz div 4096 = Suc n" using assms(2) by simp
  ultimately show ?thesis by (simp only: eq)
qed

section \<open>Unmapping\<close>

text \<open>A page outside the tables can be written without changing the address space.\<close>

lemma vspace_off_page:
  assumes ok: "pt_ok e m pt" and off: "off_page p m m'" and p: "unat p mod 4096 = 0" "p \<notin> tables m pt"
  shows "pde_at m' pt va = pde_at m pt va" "pte_at m' pt va = pte_at m pt va"
    "tables m' pt = tables m pt" "pt_ok e m' pt"
proof -
  have eq: "load32 m' (slot q k) = load32 m (slot q k)" if "q \<in> tables m pt" "unat k < 1024" for q k
  proof -
    have "page_ok e q" using ok that(1) by (simp add: pt_ok_def)
    moreover have "p \<noteq> q" using that(1) p(2) by blast
    ultimately show ?thesis by (intro slot_outside [OF p(1) page_ok_aligned _ that(2) off])
  qed
  show pde: "pde_at m' pt va = pde_at m pt va" for va
    unfolding pde_at_def using eq by simp
  show "pte_at m' pt va = pte_at m pt va"
    using pt_okD(4) [OF ok, of va] eq by (auto simp: pte_at_def pte_addr_def pde)
  show "tables m' pt = tables m pt" "pt_ok e m' pt"
    using pt_ok_same_pde [OF pde] ok by auto
qed

definition unmap_range :: "nat \<Rightarrow> nat \<Rightarrow> (u32 \<Rightarrow> u32) \<Rightarrow> u32 \<Rightarrow> u32" where
  "unmap_range a k f vb = (if a \<le> unat vb div 4096 \<and> unat vb div 4096 < a + k \<and> f vb AND PTE_V \<noteq> 0 then 0 else f vb)"

text \<open>The frames of the valid leaves in a range of page numbers.\<close>
definition frames :: "nat \<Rightarrow> nat \<Rightarrow> (u32 \<Rightarrow> u32) \<Rightarrow> u32 set" where
  "frames a k f = {PTE2PA (f vb) | vb. a \<le> unat vb div 4096 \<and> unat vb div 4096 < a + k \<and> f vb AND PTE_V \<noteq> 0}"

text \<open>The leaves of the range refer to distinct pages of the allocator that are neither free nor tables.\<close>
definition owns_frames :: "kstate \<Rightarrow> u32 \<Rightarrow> u32 list \<Rightarrow> nat \<Rightarrow> nat \<Rightarrow> bool" where
  "owns_frames s pt ps a k \<longleftrightarrow>
     (\<forall>p \<in> frames a k (pte_at (mem s) pt). page_ok (sym_end (link s)) p \<and> p \<notin> tables (mem s) pt \<and> p \<notin> set ps)
     \<and> (\<forall>vb vc. a \<le> unat vb div 4096 \<and> unat vb div 4096 < a + k \<and> a \<le> unat vc div 4096 \<and> unat vc div 4096 < a + k
          \<and> pte_at (mem s) pt vb AND PTE_V \<noteq> 0 \<and> pte_at (mem s) pt vc AND PTE_V \<noteq> 0
          \<and> PTE2PA (pte_at (mem s) pt vb) = PTE2PA (pte_at (mem s) pt vc)
          \<longrightarrow> unat vb div 4096 = unat vc div 4096)"


lemma owns_framesD:
  assumes "owns_frames s pt ps a k" "p \<in> frames a k (pte_at (mem s) pt)"
  shows "page_ok (sym_end (link s)) p" "p \<notin> tables (mem s) pt" "p \<notin> set ps"
  using assms unfolding owns_frames_def by blast+

lemma owns_frames_inj:
  assumes "owns_frames s pt ps a k"
    and "a \<le> unat vb div 4096" "unat vb div 4096 < a + k" "a \<le> unat vc div 4096" "unat vc div 4096 < a + k"
    and "pte_at (mem s) pt vb AND PTE_V \<noteq> 0" "pte_at (mem s) pt vc AND PTE_V \<noteq> 0"
    and "PTE2PA (pte_at (mem s) pt vb) = PTE2PA (pte_at (mem s) pt vc)"
  shows "unat vb div 4096 = unat vc div 4096"
  using assms unfolding owns_frames_def by blast

lemma pte_at_page: "unat vb div 4096 = unat va div 4096 \<Longrightarrow> pte_at m pt vb = pte_at m pt va"
  using PX_page [of vb va]
  by (simp add: pte_at_def pte_addr_def pde_at_def word_eq_unat [of "PGROUNDDOWN vb"] unat_PGROUNDDOWN)

lemma unat_page_va: "unat (a :: u32) < 1048576 \<Longrightarrow> unat (push_bit 12 a :: u32) = 4096 * unat a"
  by (simp add: push_bit_eq_mult unat_word_ariths)

lemma unmap_range_1_store:
  assumes "unat va = 4096 * a" "f va AND PTE_V \<noteq> 0" "\<And>vb. unat vb div 4096 = a \<Longrightarrow> f vb = f va"
  shows "unmap_range a 1 f vb = (if PGROUNDDOWN vb = PGROUNDDOWN va then 0 else f vb)"
proof -
  have "PGROUNDDOWN vb = PGROUNDDOWN va \<longleftrightarrow> unat vb div 4096 = a"
    using assms(1) by (simp add: word_eq_unat unat_PGROUNDDOWN)
  then show ?thesis using assms(2,3) by (auto simp: unmap_range_def)
qed

lemma uvmunmap_page_spec:
  assumes ok: "vm_ok s pt ps" and a: "unat a < 1048576"
    and own: "do_free \<Longrightarrow> owns_frames s pt ps (unat a) 1"
  shows "\<exists>t zs. uvmunmap_page pt (push_bit 12 a) do_free s = Ok () t \<and> vm_ok t pt (zs @ ps) \<and> mem_only s t
    \<and> tables (mem t) pt = tables (mem s) pt
    \<and> pte_at (mem t) pt = unmap_range (unat a) 1 (pte_at (mem s) pt)
    \<and> set zs = (if do_free then frames (unat a) 1 (pte_at (mem s) pt) else {})
    \<and> mem_frame (tables (mem s) pt \<union> set zs) (mem s) (mem t)"
proof -
  let ?va = "push_bit 12 a :: u32"
  let ?f = "pte_at (mem s) pt"
  have va: "unat ?va = 4096 * unat a" using a by (rule unat_page_va)
  then have mv: "?va < MAXVA" by (intro aligned_less_MAXVA) simp
  have pt: "pt_ok (sym_end (link s)) (mem s) pt" using ok by (simp add: vm_ok_def)
  have same: "?f vb = ?f ?va" if "unat vb div 4096 = unat a" for vb
    using that va by (intro pte_at_page) simp
  show ?thesis
  proof (cases "?f ?va AND PTE_V = 0")
    case True
    have "uvmunmap_page pt ?va do_free s = Ok () s"
      using True walk_lookup [OF mv, of pt s] pte_addr_ne0 [OF pt, of ?va]
      by (auto simp: uvmunmap_page_def pte_at_def)
    moreover have "unmap_range (unat a) 1 ?f = ?f"
      using same True by (intro ext) (auto simp: unmap_range_def)
    moreover have "frames (unat a) 1 ?f = {}" using same True by (auto simp: frames_def)
    ultimately show ?thesis
      using ok by (intro exI [of _ s] exI [of _ "[]"]) (simp add: mem_frame_def)
  next
    case False
    then have pde: "pde_at (mem s) pt ?va AND PTE_V \<noteq> 0" by (auto simp: pte_at_def)
    have ne: "pte_addr (mem s) pt ?va \<noteq> 0" using pte_addr_ne0 [OF pt] pde by simp
    have ld: "load32 (mem s) (pte_addr (mem s) pt ?va) = ?f ?va" using pde by (simp add: pte_at_def)
    define p where "p = PTE2PA (?f ?va)"
    have "p \<in> frames (unat a) 1 ?f"
      unfolding frames_def p_def using False va by (intro CollectI exI [of _ ?va]) simp
    moreover have "q = p" if "q \<in> frames (unat a) 1 ?f" for q
    proof -
      obtain vb where "q = PTE2PA (?f vb)" "unat vb div 4096 = unat a"
        using \<open>q \<in> frames (unat a) 1 ?f\<close> by (auto simp: frames_def)
      with same [of vb] show ?thesis by (simp only: p_def)
    qed
    ultimately have fr: "frames (unat a) 1 ?f = {p}" by blast
    have "\<exists>u zs. (if do_free then kfree p s else Ok () s) = Ok () u \<and> set zs = (if do_free then {p} else {})
      \<and> free_pages u (zs @ ps) \<and> mem_only s u \<and> (if do_free then off_page p (mem s) (mem u) else mem u = mem s)"
    proof (cases do_free)
      case True
      then have "page_ok (sym_end (link s)) p" "p \<notin> set ps"
        using owns_framesD [OF own] fr by auto
      then obtain u where "kfree p s = Ok () u" "free_pages u (p # ps)" "only_page p s u"
        using kfree_ok [of s ps p] ok by (auto simp: vm_ok_def)
      then show ?thesis using True
        by (intro exI [of _ u] exI [of _ "[p]"]) (auto simp: only_page_def off_page_def)
    next
      case False
      then show ?thesis using ok by (intro exI [of _ s] exI [of _ "[]"]) (simp add: vm_ok_def)
    qed
    then obtain u zs where u: "(if do_free then kfree p s else Ok () s) = Ok () u"
      "set zs = (if do_free then {p} else {})" "free_pages u (zs @ ps)" "mem_only s u"
      "if do_free then off_page p (mem s) (mem u) else mem u = mem s" by blast
    have pn: "do_free \<Longrightarrow> p \<notin> tables (mem s) pt"
      using owns_framesD(2) [OF own] fr by blast
    have al: "unat p mod 4096 = 0" by (simp add: p_def)
    have lk: "link u = link s" using mem_only_fields(1) [OF u(4)] .
    have V: "pde_at (mem u) pt vb = pde_at (mem s) pt vb" "pte_at (mem u) pt vb = ?f vb"
      "tables (mem u) pt = tables (mem s) pt" "pt_ok (sym_end (link u)) (mem u) pt" for vb
    proof -
      have c: "do_free \<and> off_page p (mem s) (mem u) \<or> mem u = mem s" using u(5) by (auto split: if_splits)
      note F = vspace_off_page [OF pt _ al pn, of "mem u"]
      show "pde_at (mem u) pt vb = pde_at (mem s) pt vb" using c F(1) by metis
      show "pte_at (mem u) pt vb = ?f vb" using c F(2) by metis
      show "tables (mem u) pt = tables (mem s) pt" using c F(3) by metis
      show "pt_ok (sym_end (link u)) (mem u) pt" unfolding lk using c F(4) pt by metis
    qed
    have uok: "vm_ok u pt (zs @ ps)"
      using u(2,3) V(3,4) ok pn by (auto simp: vm_ok_def split: if_splits)
    have addr: "pte_addr (mem u) pt ?va = pte_addr (mem s) pt ?va" by (simp add: pte_addr_def V)
    have pdu: "pde_at (mem u) pt ?va AND PTE_V \<noteq> 0" using pde by (simp add: V)
    let ?t = "u\<lparr>mem := store32 (mem u) (pte_addr (mem u) pt ?va) 0\<rparr>"
    note E = vm_ext_leaf_store [OF uok pdu, of 0]
    have "uvmunmap_page pt ?va do_free s = Ok () ?t"
      using walk_lookup [OF mv, of pt s] ne ld False u(1) addr
      by (simp add: uvmunmap_page_def p_def split: if_splits)
    moreover have "pte_at (mem ?t) pt = unmap_range (unat a) 1 ?f"
      using vm_ok_leaf_store(2) [OF uok pdu, of 0] unmap_range_1_store [where f = ?f, OF va False same]
      by (intro ext) (simp only: V kstate.simps)
    moreover have "mem_only s ?t" using u(4) mem_only_trans mem_only_upd(2) by blast
    moreover have "mem_frame (tables (mem s) pt \<union> set zs) (mem s) (mem ?t)"
    proof -
      have "off_page (PTE2PA (pde_at (mem u) pt ?va)) (mem u) (mem ?t)"
        using leaf_store(1) [OF V(4) pdu] by simp
      then show ?thesis
        using u(2,5) pt_okD(4) [OF V(4) pdu] V(3) by (auto simp: mem_frame_def off_page_def split: if_splits)
    qed
    ultimately show ?thesis
      using E u(2) fr V(3) by (intro exI [of _ ?t] exI [of _ zs]) (auto simp: vm_ext_def)
  qed
qed


lemma unmap_range_split: "unmap_range (Suc a) k (unmap_range a 1 f) = unmap_range a (Suc k) f"
  by (rule ext) (auto simp: unmap_range_def)

lemma frames_cong:
  assumes "\<And>vb. a \<le> unat vb div 4096 \<Longrightarrow> unat vb div 4096 < a + k \<Longrightarrow> f vb = g vb"
  shows "frames a k f = frames a k g"
proof -
  have "(a \<le> unat vb div 4096 \<and> unat vb div 4096 < a + k \<and> f vb AND PTE_V \<noteq> 0 \<and> q = PTE2PA (f vb)) \<longleftrightarrow>
      (a \<le> unat vb div 4096 \<and> unat vb div 4096 < a + k \<and> g vb AND PTE_V \<noteq> 0 \<and> q = PTE2PA (g vb))" for q vb
    using assms [of vb] by auto
  then show ?thesis unfolding frames_def by blast
qed

lemma unmap_range_beyond: "a < unat vb div 4096 \<Longrightarrow> unmap_range a 1 f vb = f vb"
  by (simp add: unmap_range_def)

lemma frames_split: "frames a (Suc k) f = frames a 1 f \<union> frames (Suc a) k f"
proof -
  have "a \<le> n \<and> n < a + Suc k \<longleftrightarrow> a \<le> n \<and> n < a + 1 \<or> Suc a \<le> n \<and> n < Suc a + k" for n
    by auto
  then show ?thesis unfolding frames_def by blast
qed

lemma frames_0 [simp]: "frames a 0 f = {}"
  by (auto simp: frames_def)

lemma owns_frames_head: "owns_frames s pt ps a (Suc k) \<Longrightarrow> owns_frames s pt ps a 1"
  unfolding owns_frames_def frames_split [of a k] by auto

text \<open>After the first page of a range is unmapped and freed, the rest of the range is still owned.\<close>

lemma owns_frames_tail:
  assumes own: "owns_frames s pt ps a (Suc k)" and T: "tables (mem t) pt = tables (mem s) pt"
    and lk: "link t = link s" and P: "pte_at (mem t) pt = unmap_range a 1 (pte_at (mem s) pt)"
    and zs: "set zs = frames a 1 (pte_at (mem s) pt)"
  shows "owns_frames t pt (zs @ ps) (Suc a) k"
proof -
  let ?f = "pte_at (mem s) pt"
  have eq: "pte_at (mem t) pt vb = ?f vb" if "Suc a \<le> unat vb div 4096" for vb
    unfolding P using that by (intro unmap_range_beyond) simp
  have fr: "frames (Suc a) k (pte_at (mem t) pt) = frames (Suc a) k ?f"
    by (rule frames_cong) (rule eq)
  have "p \<notin> set zs" if "p \<in> frames (Suc a) k ?f" for p
  proof
    assume "p \<in> set zs"
    then obtain vb where vb: "p = PTE2PA (?f vb)" "unat vb div 4096 = a" "?f vb AND PTE_V \<noteq> 0"
      unfolding zs frames_def by auto
    obtain vc where vc: "p = PTE2PA (?f vc)" "Suc a \<le> unat vc div 4096" "unat vc div 4096 < Suc a + k"
      "?f vc AND PTE_V \<noteq> 0" using \<open>p \<in> frames (Suc a) k ?f\<close> unfolding frames_def by blast
    have "unat vb div 4096 = unat vc div 4096"
      by (rule owns_frames_inj [OF own]) (use vb vc in auto)
    then show False using vb vc by simp
  qed
  then have "\<forall>p \<in> frames (Suc a) k (pte_at (mem t) pt).
      page_ok (sym_end (link t)) p \<and> p \<notin> tables (mem t) pt \<and> p \<notin> set (zs @ ps)"
    using owns_framesD [OF own] unfolding fr T lk frames_split [of a k] by auto
  moreover have "unat vb div 4096 = unat vc div 4096"
    if "Suc a \<le> unat vb div 4096" "unat vb div 4096 < Suc a + k" "Suc a \<le> unat vc div 4096"
      "unat vc div 4096 < Suc a + k" "pte_at (mem t) pt vb AND PTE_V \<noteq> 0" "pte_at (mem t) pt vc AND PTE_V \<noteq> 0"
      "PTE2PA (pte_at (mem t) pt vb) = PTE2PA (pte_at (mem t) pt vc)" for vb vc
    by (rule owns_frames_inj [OF own]) (use that eq [of vb] eq [of vc] in auto)
  ultimately show ?thesis unfolding owns_frames_def [of t] by blast
qed

lemma uvmunmap_loop_spec:
  assumes "vm_ok s pt ps" "unat a + k \<le> 1048576" "unat e = unat a + k"
    and "do_free \<Longrightarrow> owns_frames s pt ps (unat a) k"
  shows "\<exists>t zs. uvmunmap_loop pt a e do_free s = Ok () t \<and> vm_ok t pt (zs @ ps) \<and> mem_only s t
    \<and> tables (mem t) pt = tables (mem s) pt
    \<and> pte_at (mem t) pt = unmap_range (unat a) k (pte_at (mem s) pt)
    \<and> set zs = (if do_free then frames (unat a) k (pte_at (mem s) pt) else {})
    \<and> mem_frame (tables (mem s) pt \<union> set zs) (mem s) (mem t)"
  using assms
proof (induction k arbitrary: s ps a)
  case 0
  then have "uvmunmap_loop pt a e do_free s = Ok () s"
    by (simp add: uvmunmap_loop.simps [of pt a] word_less_nat_alt)
  moreover have "unmap_range (unat a) 0 f = f" for f by (rule ext) (auto simp: unmap_range_def)
  ultimately show ?case using 0 by (intro exI [of _ s] exI [of _ "[]"]) (simp add: mem_frame_def)
next
  case (Suc k)
  let ?f = "pte_at (mem s) pt"
  have a: "unat a < 1048576" "a < e" using Suc.prems by (auto simp: word_less_nat_alt)
  have own1: "do_free \<Longrightarrow> owns_frames s pt ps (unat a) 1" using Suc.prems(4) owns_frames_head by blast
  obtain t zs where t: "uvmunmap_page pt (push_bit 12 a) do_free s = Ok () t" "vm_ok t pt (zs @ ps)" "mem_only s t"
    "tables (mem t) pt = tables (mem s) pt" "pte_at (mem t) pt = unmap_range (unat a) 1 ?f"
    "set zs = (if do_free then frames (unat a) 1 ?f else {})"
    "mem_frame (tables (mem s) pt \<union> set zs) (mem s) (mem t)"
    using uvmunmap_page_spec [OF Suc.prems(1) a(1) own1] by blast
  have a1: "unat (a + 1) = Suc (unat a)" using a(1) by (simp add: unat_add_32)
  have own: "do_free \<Longrightarrow> owns_frames t pt (zs @ ps) (unat (a + 1)) k"
    unfolding a1 using Suc.prems(4) t(4,5,6) mem_only_fields(1) [OF t(3)] by (intro owns_frames_tail) auto
  obtain u ys where u: "uvmunmap_loop pt (a + 1) e do_free t = Ok () u" "vm_ok u pt (ys @ zs @ ps)" "mem_only t u"
    "tables (mem u) pt = tables (mem t) pt" "pte_at (mem u) pt = unmap_range (Suc (unat a)) k (pte_at (mem t) pt)"
    "set ys = (if do_free then frames (Suc (unat a)) k (pte_at (mem t) pt) else {})"
    "mem_frame (tables (mem t) pt \<union> set ys) (mem t) (mem u)"
    using Suc.IH [OF t(2) _ _ own] Suc.prems(2,3) unfolding a1 by auto
  have "frames (Suc (unat a)) k (pte_at (mem t) pt) = frames (Suc (unat a)) k ?f"
    unfolding t(5) by (intro frames_cong unmap_range_beyond) simp
  then have fr: "set (ys @ zs) = (if do_free then frames (unat a) (Suc k) ?f else {})"
    using u(6) t(6) frames_split [of "unat a" k ?f] by auto
  have "uvmunmap_loop pt a e do_free s = Ok () u"
    using a(2) t(1) u(1) by (simp add: uvmunmap_loop.simps [of pt a])
  moreover have "mem_frame (tables (mem s) pt \<union> set (ys @ zs)) (mem s) (mem u)"
    using u(7) t(4) by (intro mem_frame_trans [OF t(7)]) auto
  moreover have "pte_at (mem u) pt = unmap_range (unat a) (Suc k) ?f"
    using u(5) t(5) unmap_range_split by simp
  moreover have "mem_only s u" using mem_only_trans t(3) u(3) by blast
  ultimately show ?case
    using u(2,4) t(4) fr by (intro exI [of _ u] exI [of _ "ys @ zs"]) simp
qed


lemma uvmunmap_range:
  assumes "vm_ok s pt ps" "unat va = 4096 * a" "a + unat npages \<le> 1048576"
    and "do_free \<Longrightarrow> owns_frames s pt ps a (unat npages)"
  shows "\<exists>t zs. uvmunmap pt va npages do_free s = Ok () t \<and> vm_ok t pt (zs @ ps) \<and> mem_only s t
    \<and> tables (mem t) pt = tables (mem s) pt
    \<and> pte_at (mem t) pt = unmap_range a (unat npages) (pte_at (mem s) pt)
    \<and> set zs = (if do_free then frames a (unat npages) (pte_at (mem s) pt) else {})
    \<and> mem_frame (tables (mem s) pt \<union> set zs) (mem s) (mem t)"
proof -
  have va: "unat (drop_bit 12 va) = a" using assms(2) by (simp add: unat_drop_bit_div)
  have e: "unat (drop_bit 12 va + npages) = a + unat npages"
    using assms(3) va by (simp add: unat_add_32)
  have "va mod PGSIZE = 0" using page_mod_zero [of va] assms(2) by simp
  then have "uvmunmap pt va npages do_free = uvmunmap_loop pt (drop_bit 12 va) (drop_bit 12 va + npages) do_free"
    by (simp add: uvmunmap_def)
  then show ?thesis
    using uvmunmap_loop_spec [OF assms(1), where a = "drop_bit 12 va" and k = "unat npages"
      and e = "drop_bit 12 va + npages" and do_free = do_free] assms(3,4) unfolding va e by (simp only:)
qed

section \<open>Freeing a table\<close>

lemma kfor_skip: "(\<And>i. i \<in> set xs \<Longrightarrow> f i s = Ok () s) \<Longrightarrow> kfor xs f s = Ok () s"
  by (induction xs) auto

lemma drop_table:
  assumes ok: "pt_ok e m pt" and v: "pde_at m pt va AND PTE_V \<noteq> 0"
    and off: "off_page (PTE2PA (pde_at m pt va)) m m1"
  defines "m' \<equiv> store32 m1 (slot pt (PX 1 va)) 0"
  shows "pde_at m' pt vb = (if PX 1 vb = PX 1 va then 0 else pde_at m pt vb)"
    and "pte_at m' pt vb = (if PX 1 vb = PX 1 va then 0 else pte_at m pt vb)"
    and "tables m' pt = tables m pt - {PTE2PA (pde_at m pt va)}" and "pt_ok e m' pt"
proof -
  let ?c = "PTE2PA (pde_at m pt va)"
  have al: "unat pt mod 4096 = 0" using pt_okD(3) [OF ok v] by (rule page_ok_aligned)
  have ne: "?c \<noteq> pt" using pt_okD(2) [OF ok v] .
  have off': "off_page pt m1 m'" unfolding m'_def by (rule off_page_store) simp
  show pde: "pde_at m' pt vb = (if PX 1 vb = PX 1 va then 0 else pde_at m pt vb)" for vb
    using slot_outside [OF PTE2PA_aligned al ne PX_less off, of 1 vb]
      slot_store_other [of "PX 1 va" "PX 1 vb" m1 pt 0]
    by (simp add: pde_at_def m'_def)
  have rest: "PTE2PA (pde_at m pt vb) \<noteq> ?c" if "PX 1 vb \<noteq> PX 1 va" "pde_at m pt vb AND PTE_V \<noteq> 0" for vb
    using that pt_ok_inj [OF ok that(2) v] by blast
  show "pte_at m' pt vb = (if PX 1 vb = PX 1 va then 0 else pte_at m pt vb)"
  proof (cases "PX 1 vb = PX 1 va \<or> pde_at m pt vb AND PTE_V = 0")
    case True
    then show ?thesis by (auto simp: pte_at_def pde)
  next
    case False
    let ?q = "PTE2PA (pde_at m pt vb)"
    have q: "?q \<noteq> ?c" "?q \<noteq> pt" using False rest pt_okD(2) [OF ok] by auto
    have "load32 m' (slot ?q (PX 0 vb)) = load32 m1 (slot ?q (PX 0 vb))"
      using slot_outside [OF al PTE2PA_aligned _ PX_less off'] q(2) by metis
    also have "\<dots> = load32 m (slot ?q (PX 0 vb))"
      using slot_outside [OF PTE2PA_aligned PTE2PA_aligned _ PX_less off] q(1) by metis
    finally show ?thesis using False by (simp add: pte_at_def pte_addr_def pde)
  qed
  have val: "pde_at m' pt vb AND PTE_V \<noteq> 0 \<longleftrightarrow> PX 1 vb \<noteq> PX 1 va \<and> pde_at m pt vb AND PTE_V \<noteq> 0" for vb
    by (simp add: pde)
  have c_cong: "PTE2PA (pde_at m pt vb) = ?c" if "PX 1 vb = PX 1 va" for vb
    using pde_at_cong [OF that] by simp
  have sub: "tables m' pt \<subseteq> tables m pt - {?c}"
    unfolding tables_def using val pde rest ne by auto
  moreover have "tables m pt - {?c} \<subseteq> tables m' pt"
  proof
    fix q assume q: "q \<in> tables m pt - {?c}"
    show "q \<in> tables m' pt"
    proof (cases "q = pt")
      case False
      then obtain vb where vb: "q = PTE2PA (pde_at m pt vb)" "pde_at m pt vb AND PTE_V \<noteq> 0"
        using q unfolding tables_def by blast
      then have "PX 1 vb \<noteq> PX 1 va" using q c_cong by blast
      then have "pde_at m' pt vb = pde_at m pt vb" using pde [of vb] by simp
      then show ?thesis using vb unfolding tables_def by (intro insertI2 CollectI exI [of _ vb]) simp
    qed simp
  qed
  ultimately show T: "tables m' pt = tables m pt - {?c}" by blast
  show "pt_ok e m' pt"
    unfolding pt_ok_def T
  proof (intro conjI allI impI ballI)
    show "page_ok e q" if "q \<in> tables m pt - {?c}" for q using ok that by (simp add: pt_ok_def)
    show "PTE2PA (pde_at m' pt vb) \<noteq> pt" "pde_at m' pt vb AND (PTE_R OR PTE_W OR PTE_X) = 0"
      if "pde_at m' pt vb AND PTE_V \<noteq> 0" for vb
      using that pt_okD(2,5) [OF ok, of vb] val [of vb] pde [of vb] by auto
    show "PX 1 vb = PX 1 vc" if "pde_at m' pt vb AND PTE_V \<noteq> 0 \<and> pde_at m' pt vc AND PTE_V \<noteq> 0
          \<and> PTE2PA (pde_at m' pt vb) = PTE2PA (pde_at m' pt vc)" for vb vc
      using that pt_ok_inj [OF ok, of vb vc] val [of vb] val [of vc] pde [of vb] pde [of vc] by auto
  qed
qed

lemma PX1_index: "i < 1024 \<Longrightarrow> PX 1 (push_bit 22 (of_nat i)) = of_nat i"
proof -
  assume i: "i < 1024"
  then have n: "unat (of_nat i :: u32) = i" by (intro unat_of_nat_32) simp
  have "unat (push_bit 22 (of_nat i) :: u32) = 4194304 * i"
    using i n by (simp add: push_bit_eq_mult unat_word_ariths)
  then have "unat (PX 1 (push_bit 22 (of_nat i))) = i"
    using i by (simp add: unat_PX)
  then show ?thesis using n by (simp only: word_eq_unat)
qed

lemma unat_index: "i < 1024 \<Longrightarrow> unat (of_nat i :: u32) = i"
  by (intro unat_of_nat_32) simp

lemma freewalk_empty:
  assumes "\<And>k. unat k < 1024 \<Longrightarrow> load32 (mem s) (slot c k) AND PTE_V = 0"
  shows "freewalk 1 c s = kfree c s"
proof -
  have "load32 (mem s) (c + 4 * of_nat i) AND PTE_V = 0" if "i < 1024" for i
    using assms [of "of_nat i"] unat_index [OF that] that by (simp add: slot_def)
  then have "kfor [0..<1024] (\<lambda>i.
       kbind (kload (c + 4 * of_nat i)) (\<lambda>pte.
       if pte AND PTE_V \<noteq> 0 \<and> pte AND (PTE_R OR PTE_W OR PTE_X) = 0
       then kbind (freewalk 0 (PTE2PA pte)) (\<lambda>_. kstore (c + 4 * of_nat i) 0)
       else if pte AND PTE_V \<noteq> 0 then kpanic ''freewalk: leaf''
       else kret ())) s = Ok () s"
    by (intro kfor_skip) simp
  then show ?thesis by (simp only: One_nat_def freewalk.simps kbind_run outcome.simps)
qed

text \<open>The body of the loop over the root table, when the second-level tables hold no leaf.\<close>

definition freewalk_root :: "u32 \<Rightarrow> nat \<Rightarrow> unit K" where
  "freewalk_root pt i = kbind (kload (pt + 4 * of_nat i)) (\<lambda>pte.
       if pte AND PTE_V \<noteq> 0 \<and> pte AND (PTE_R OR PTE_W OR PTE_X) = 0
       then kbind (freewalk 1 (PTE2PA pte)) (\<lambda>_. kstore (pt + 4 * of_nat i) 0)
       else if pte AND PTE_V \<noteq> 0 then kpanic ''freewalk: leaf''
       else kret ())"

lemma freewalk_2: "freewalk 2 pt = kbind (kfor [0..<1024] (freewalk_root pt)) (\<lambda>_. kfree pt)"
  unfolding numeral_2_eq_2 One_nat_def freewalk.simps(2) [of "Suc 0"] freewalk_root_def by (rule refl)

lemma child_empty:
  assumes ok: "pt_ok e m pt" and v: "pde_at m pt va AND PTE_V \<noteq> 0"
    and none: "\<And>vb. pte_at m pt vb AND PTE_V = 0" and k: "unat k < 1024"
  shows "load32 m (slot (PTE2PA (pde_at m pt va)) k) AND PTE_V = 0"
proof -
  define vb :: u32 where "vb = of_nat (unat va div 4194304 * 4194304 + unat k * 4096)"
  have "unat va div 4194304 * 4194304 \<le> unat va" by simp
  then have "unat va div 4194304 < 1024" using unat_less_32 [of va] by simp
  then have n: "unat vb = unat va div 4194304 * 4194304 + unat k * 4096"
    unfolding vb_def using k by (intro unat_of_nat_32) simp
  have "PX 1 vb = PX 1 va" using k by (simp add: word_eq_unat unat_PX n)
  moreover have "PX 0 vb = k" using k by (simp add: word_eq_unat unat_PX n)
  ultimately show ?thesis
    using none [of vb] v pde_at_cong [of vb va m pt] by (simp add: pte_at_def pte_addr_def)
qed

lemma freewalk_root_spec:
  assumes ok: "vm_ok s pt ps" and none: "\<And>vb. pte_at (mem s) pt vb AND PTE_V = 0" and i: "i < 1024"
  shows "\<exists>t zs. freewalk_root pt i s = Ok () t \<and> vm_ok t pt (zs @ ps) \<and> mem_only s t
     \<and> (\<forall>vb. pte_at (mem t) pt vb AND PTE_V = 0)
     \<and> tables (mem s) pt = tables (mem t) pt \<union> set zs
     \<and> (\<forall>k. unat k < 1024 \<longrightarrow> load32 (mem t) (slot pt k) AND PTE_V \<noteq> 0 \<longrightarrow>
          load32 (mem s) (slot pt k) AND PTE_V \<noteq> 0 \<and> unat k \<noteq> i)
     \<and> mem_frame (tables (mem s) pt) (mem s) (mem t)"
proof -
  define va :: u32 where "va = push_bit 22 (of_nat i)"
  have px: "PX 1 va = of_nat i" unfolding va_def by (rule PX1_index [OF i])
  have pt: "pt_ok (sym_end (link s)) (mem s) pt" using ok by (simp add: vm_ok_def)
  have ld: "load32 (mem s) (pt + 4 * of_nat i) = pde_at (mem s) pt va" by (simp add: pde_at_def slot_def px del: One_nat_def)
  show ?thesis
  proof (cases "pde_at (mem s) pt va AND PTE_V = 0")
    case True
    have "unat k \<noteq> i" if "load32 (mem s) (slot pt k) AND PTE_V \<noteq> 0" for k
      using True that px by (auto simp: pde_at_def simp del: One_nat_def)
    with True show ?thesis
      using ok none ld by (intro exI [of _ s] exI [of _ "[]"]) (simp add: freewalk_root_def)
  next
    case v: False
    let ?c = "PTE2PA (pde_at (mem s) pt va)"
    have c: "page_ok (sym_end (link s)) ?c" "?c \<notin> set ps" "?c \<in> tables (mem s) pt"
      using pt_okD [OF pt v] ok by (auto simp: vm_ok_def)
    obtain u where u: "kfree ?c s = Ok () u" "free_pages u (?c # ps)" "only_page ?c s u"
      using kfree_ok [of s ps ?c] ok c by (auto simp: vm_ok_def)
    then have off: "off_page ?c (mem s) (mem u)" and mo: "mem_only s u"
      by (auto simp: only_page_def off_page_def)
    let ?t = "u\<lparr>mem := store32 (mem u) (slot pt (PX 1 va)) 0\<rparr>"
    note D = drop_table [OF pt v off]
    have lk: "link u = link s" using mem_only_fields(1) [OF mo] .
    have "freewalk 1 ?c s = Ok () u"
      using freewalk_empty [OF child_empty [OF pt v none]] u(1) by simp
    then have run: "freewalk_root pt i s = Ok () ?t"
      using v ld pt_okD(5) [OF pt v] px by (simp add: freewalk_root_def slot_def del: One_nat_def)
    have poff: "off_page pt (mem u) (mem ?t)" by (simp add: off_page_store)
    have pal: "unat pt mod 4096 = 0" using pt_ok_root [OF pt] by (rule page_ok_aligned)
    have "free_pages ?t (?c # ps)"
      using free_pages_off_page [OF u(2) poff pal] pt_okD(2) [OF pt v] ok
      by (auto simp: vm_ok_def disjoint_iff)
    then have vm: "vm_ok ?t pt ([?c] @ ps)"
      using D(3,4) ok lk by (auto simp: vm_ok_def)
    have "unat k \<noteq> i \<and> load32 (mem s) (slot pt k) AND PTE_V \<noteq> 0"
      if "unat k < 1024" "load32 (mem ?t) (slot pt k) AND PTE_V \<noteq> 0" for k
    proof -
      have k: "PX 1 (push_bit 22 (of_nat (unat k))) = k" using PX1_index [OF that(1)] by simp
      show ?thesis
        using that(2) D(1) [of "push_bit 22 (of_nat (unat k))"] k px i unat_index [OF i]
        by (auto simp: pde_at_def simp del: One_nat_def split: if_splits)
    qed
    moreover have "mem_frame (tables (mem s) pt) (mem s) (mem ?t)"
      using c(3) by (intro mem_frame_trans [OF mem_frame_off_page [OF off] mem_frame_off_page [OF poff]]) auto
    moreover have "tables (mem s) pt = tables (mem ?t) pt \<union> set [?c]" using D(3) c(3) by auto
    moreover have "pte_at (mem ?t) pt vb AND PTE_V = 0" for vb using D(2) none by simp
    moreover have "mem_only s ?t" using mo mem_only_trans mem_only_upd(2) by blast
    ultimately show ?thesis using run vm by (intro exI [of _ ?t] exI [of _ "[?c]"]) simp
  qed
qed


lemma freewalk_loop_spec:
  assumes "vm_ok s pt ps" "\<And>vb. pte_at (mem s) pt vb AND PTE_V = 0" "i \<le> 1024"
    and "\<And>k. unat k < i \<Longrightarrow> load32 (mem s) (slot pt k) AND PTE_V = 0"
  shows "\<exists>t zs. kfor [i..<1024] (freewalk_root pt) s = Ok () t \<and> vm_ok t pt (zs @ ps) \<and> mem_only s t
     \<and> tables (mem s) pt = insert pt (set zs) \<and> mem_frame (tables (mem s) pt) (mem s) (mem t)"
  using assms
proof (induction "1024 - i" arbitrary: i s ps)
  case 0
  then have "tables (mem s) pt = {pt}"
    by (auto simp: tables_def pde_at_def)
  with 0 show ?case by (intro exI [of _ s] exI [of _ "[]"]) simp
next
  case (Suc d)
  then have i: "i < 1024" by simp
  obtain t zs where t: "freewalk_root pt i s = Ok () t" "vm_ok t pt (zs @ ps)" "mem_only s t"
    "\<And>vb. pte_at (mem t) pt vb AND PTE_V = 0" "tables (mem s) pt = tables (mem t) pt \<union> set zs"
    "\<And>k. unat k < 1024 \<Longrightarrow> load32 (mem t) (slot pt k) AND PTE_V \<noteq> 0 \<Longrightarrow>
          load32 (mem s) (slot pt k) AND PTE_V \<noteq> 0 \<and> unat k \<noteq> i"
    "mem_frame (tables (mem s) pt) (mem s) (mem t)"
    using freewalk_root_spec [OF Suc.prems(1,2) i] by blast
  have "load32 (mem t) (slot pt k) AND PTE_V = 0" if "unat k < Suc i" for k
    using t(6) [of k] Suc.prems(4) [of k] that i by (auto simp: less_Suc_eq)
  then obtain u ys where u: "kfor [Suc i..<1024] (freewalk_root pt) t = Ok () u" "vm_ok u pt (ys @ zs @ ps)"
    "mem_only t u" "tables (mem t) pt = insert pt (set ys)" "mem_frame (tables (mem t) pt) (mem t) (mem u)"
    using Suc.hyps(1) [of "Suc i", OF _ t(2,4)] Suc.hyps(2) i by fastforce
  have "[i..<1024] = i # [Suc i..<1024]" using i by (rule upt_conv_Cons)
  then have "kfor [i..<1024] (freewalk_root pt) s = Ok () u" using t(1) u(1) by simp
  moreover have "mem_frame (tables (mem s) pt) (mem s) (mem u)"
    by (rule mem_frame_trans [OF t(7) u(5)]) (use t(5) in auto)
  moreover have "tables (mem s) pt = insert pt (set (ys @ zs))" using t(5) u(4) by auto
  ultimately show ?case
    using u(2) mem_only_trans [OF t(3) u(3)] by (intro exI [of _ u] exI [of _ "ys @ zs"]) simp
qed

lemma freewalk_spec:
  assumes "vm_ok s pt ps" "\<And>vb. pte_at (mem s) pt vb AND PTE_V = 0"
  shows "\<exists>t zs. freewalk 2 pt s = Ok () t \<and> free_pages t (zs @ ps) \<and> mem_only s t
    \<and> set zs = tables (mem s) pt \<and> mem_frame (tables (mem s) pt) (mem s) (mem t)"
proof -
  obtain t zs where t: "kfor [0..<1024] (freewalk_root pt) s = Ok () t" "vm_ok t pt (zs @ ps)" "mem_only s t"
     "tables (mem s) pt = insert pt (set zs)" "mem_frame (tables (mem s) pt) (mem s) (mem t)"
    using freewalk_loop_spec [OF assms, of 0] by auto
  have "page_ok (sym_end (link t)) pt" "pt \<notin> set (zs @ ps)"
    using t(2) pt_ok_root by (auto simp: vm_ok_def disjoint_iff)
  then obtain u where u: "kfree pt t = Ok () u" "free_pages u (pt # zs @ ps)" "only_page pt t u"
    using kfree_ok [of t "zs @ ps" pt] t(2) by (auto simp: vm_ok_def)
  then have "off_page pt (mem t) (mem u)" "mem_only t u" by (auto simp: only_page_def off_page_def)
  then have "mem_frame (tables (mem s) pt) (mem s) (mem u)" "mem_only s u"
    using t(4) mem_only_trans [OF t(3)] mem_frame_trans [OF t(5) mem_frame_off_page, of pt "mem u" "tables (mem s) pt"]
    by auto
  then show ?thesis
    using t(1,4) u(1,2) by (intro exI [of _ u] exI [of _ "pt # zs"]) (simp add: freewalk_2)
qed

text \<open>A leaf that is still there: \<open>freewalk\<close> panics.  Here it is in the first 4 MiB, where programs are.\<close>

lemma kfor_panics:
  "(\<And>i. i \<in> set xs \<Longrightarrow> f i s = Ok () s \<or> f i s = Panic e s) \<Longrightarrow> \<exists>i \<in> set xs. f i s = Panic e s \<Longrightarrow> kfor xs f s = Panic e s"
proof (induction xs)
  case (Cons a xs)
  have a: "f a s = Ok () s \<or> f a s = Panic e s" using Cons.prems(1) by simp
  have "kfor xs f s = Panic e s" if "f a s = Ok () s" using Cons that by auto
  then show ?case using a by auto
qed simp

abbreviation proper_leaves :: "memory \<Rightarrow> u32 \<Rightarrow> bool" where
  "proper_leaves m pt \<equiv> \<forall>vb. unat vb < 4194304 \<and> pte_at m pt vb AND PTE_V \<noteq> 0 \<longrightarrow> pte_at m pt vb AND (PTE_R OR PTE_W OR PTE_X) \<noteq> 0"

lemma freewalk_leaf:
  assumes pt: "pt_ok e (mem s) pt" and va: "unat va < 4194304" "pte_at (mem s) pt va AND PTE_V \<noteq> 0" and lf: "proper_leaves (mem s) pt"
  shows "freewalk 2 pt s = Panic ''freewalk: leaf'' s"
proof -
  have px1: "PX 1 vb = 0" if "unat vb < 4194304" for vb using that by (simp add: word_eq_unat unat_PX)
  have v: "pde_at (mem s) pt va AND PTE_V \<noteq> 0" using va(2) by (auto simp: pte_at_def split: if_splits)
  define c where "c = PTE2PA (pde_at (mem s) pt va)"
  have at: "pte_at (mem s) pt vb = load32 (mem s) (slot c (PX 0 vb))" if "unat vb < 4194304" for vb
    using v px1 [OF that] px1 [OF va(1)] pde_at_cong [of vb va "mem s" pt] by (simp add: pte_at_def pte_addr_def c_def)
  let ?f = "\<lambda>i. kbind (kload (c + 4 * of_nat i)) (\<lambda>pte.
       if pte AND PTE_V \<noteq> 0 \<and> pte AND (PTE_R OR PTE_W OR PTE_X) = 0
       then kbind (freewalk 0 (PTE2PA pte)) (\<lambda>_. kstore (c + 4 * of_nat i) 0)
       else if pte AND PTE_V \<noteq> 0 then kpanic ''freewalk: leaf''
       else kret ())"
  have ent: "\<exists>vb. unat vb < 4194304 \<and> load32 (mem s) (c + 4 * of_nat i) = pte_at (mem s) pt vb" if i: "i < 1024" for i
  proof -
    have n: "unat (of_nat (4096 * i) :: u32) = 4096 * i" using i by (intro unat_of_nat_32) simp
    have "PX 0 (of_nat (4096 * i)) = of_nat i" using i by (simp only: word_eq_unat unat_PX n unat_index) simp
    then show ?thesis using at [of "of_nat (4096 * i)"] i n by (intro exI [of _ "of_nat (4096 * i)"]) (simp add: slot_def)
  qed
  have "kfor [0..<1024] ?f s = Panic ''freewalk: leaf'' s"
  proof (rule kfor_panics)
    fix i assume "i \<in> set [0..<1024]"
    then obtain vb where "unat vb < 4194304" "load32 (mem s) (c + 4 * of_nat i) = pte_at (mem s) pt vb" using ent by auto
    then show "?f i s = Ok () s \<or> ?f i s = Panic ''freewalk: leaf'' s" using lf by auto
  next
    have k: "unat (PX 0 va) < 1024" by (simp add: unat_PX)
    have "load32 (mem s) (c + 4 * of_nat (unat (PX 0 va))) = pte_at (mem s) pt va" using at [OF va(1)] by (simp add: slot_def)
    then have "?f (unat (PX 0 va)) s = Panic ''freewalk: leaf'' s" using va lf by auto
    then show "\<exists>i \<in> set [0..<1024]. ?f i s = Panic ''freewalk: leaf'' s" using k by (intro bexI [of _ "unat (PX 0 va)"]) simp_all
  qed
  then have "freewalk 1 c s = Panic ''freewalk: leaf'' s" by (simp only: One_nat_def freewalk.simps kbind_run outcome.simps)
  moreover have "load32 (mem s) (pt + 4 * of_nat 0) = pde_at (mem s) pt va" using px1 [OF va(1)] by (simp add: pde_at_def slot_def)
  ultimately have "freewalk_root pt 0 s = Panic ''freewalk: leaf'' s"
    using v pt_okD(5) [OF pt v] by (simp add: freewalk_root_def c_def del: One_nat_def)
  moreover have "[0..<1024 :: nat] = 0 # [Suc 0..<1024]" by (rule upt_conv_Cons) simp
  ultimately show ?thesis by (simp only: freewalk_2 kbind_run kfor.simps outcome.case)
qed

text \<open>A size in the last page rounds up to 0, and nothing is unmapped.\<close>
lemma uvmfree_wrapped:
  assumes "4294963200 < unat sz"
  shows "uvmfree pt sz s = freewalk 2 pt s"
proof -
  have "unat (sz + 4095) < 4096" using assms unat_less_32 [of sz] by (simp add: unat_add_32 mod_if) linarith
  moreover have "sz + PGSIZE - 1 = sz + 4095" by simp
  ultimately have "unat (PGROUNDUP sz) = 0" by (simp only: PGROUNDUP_def pgmask unat_and_not_mask) simp
  then have "PGROUNDUP sz = 0" by (rule unat_eq_zero [THEN iffD1])
  then show ?thesis by (simp add: uvmfree_def uvmunmap_def uvmunmap_loop.simps kwhen_def)
qed

section \<open>Properties\<close>

text \<open>An address space with one page: the directory at 0x80051000, a table at 0x80053000, and the address 0x1000 mapped to the frame
  0x80060000.\<close>

abbreviation ex_root :: u32 where "ex_root \<equiv> 0x80051000"
abbreviation ex_table :: u32 where "ex_table \<equiv> 0x80053000"
abbreviation ex_frame :: u32 where "ex_frame \<equiv> 0x80060000"
abbreviation ex_leaf :: u32 where "ex_leaf \<equiv> PA2PTE ex_frame OR (PTE_R OR PTE_W OR PTE_V)"

definition vm_mapped_example :: kstate where
  "vm_mapped_example = blank_kstate\<lparr>freelist := 0x80052000,
     mem := store32 (store32 (\<lambda>_. 0) (slot ex_root 0) (PA2PTE ex_table OR PTE_V)) (slot ex_table 1) ex_leaf\<rparr>"

lemma vm_mapped_slots:
  assumes "unat k < 1024"
  shows "load32 (mem vm_mapped_example) (slot ex_root k) = (if k = 0 then PA2PTE ex_table OR PTE_V else 0)"
    "load32 (mem vm_mapped_example) (slot ex_table k) = (if k = 1 then ex_leaf else 0)"
proof -
  let ?z = "(\<lambda>_. 0) :: memory"
  let ?m = "store32 ?z (slot ex_root 0) (PA2PTE ex_table OR PTE_V)"
  have z: "load32 ?z a = 0" for a by (simp add: load32_def)
  have "load32 (store32 ?m (slot ex_table 1) ex_leaf) (slot ex_root k) = load32 ?m (slot ex_root k)"
    by (rule slot_outside [OF _ _ _ assms off_page_store]) simp_all
  also have "load32 ?m (slot ex_root k) = (if k = 0 then PA2PTE ex_table OR PTE_V else 0)"
    using slot_store_other [of 0 k ?z] assms z by (auto simp: load32_store32_same)
  finally show "load32 (mem vm_mapped_example) (slot ex_root k) = (if k = 0 then PA2PTE ex_table OR PTE_V else 0)"
    by (simp add: vm_mapped_example_def)
  have "load32 ?m (slot ex_table k) = 0"
    using slot_outside [of ex_root ex_table k ?z ?m] assms z off_page_store by simp
  then show "load32 (mem vm_mapped_example) (slot ex_table k) = (if k = 1 then ex_leaf else 0)"
    using slot_store_other [of 1 k ?m] assms by (auto simp: vm_mapped_example_def load32_store32_same)
qed

lemma vm_mapped_leaf: "pte_at (mem vm_mapped_example) ex_root vb = (if unat vb div 4096 = 1 then ex_leaf else 0)"
proof -
  have px: "PX 1 vb = 0 \<and> PX 0 vb = 1 \<longleftrightarrow> unat vb div 4096 = 1"
  proof -
    have "PX 1 vb = PX 1 0x1000 \<and> PX 0 vb = PX 0 0x1000 \<longleftrightarrow> PGROUNDDOWN vb = PGROUNDDOWN 0x1000" by (rule PX_page)
    moreover have "PX 1 0x1000 = 0" "PX 0 0x1000 = 1" by (simp_all add: PX_def)
    moreover have "PGROUNDDOWN vb = PGROUNDDOWN 0x1000 \<longleftrightarrow> unat vb div 4096 = 1"
      by (simp add: word_eq_unat unat_PGROUNDDOWN)
    ultimately show ?thesis by simp
  qed
  show ?thesis using px by (auto simp: pte_at_def pte_addr_def pde_at_def vm_mapped_slots)
qed

lemma vm_mapped_tables: "tables (mem vm_mapped_example) ex_root = {ex_root, ex_table}"
  "pde_at (mem vm_mapped_example) ex_root va = (if PX 1 va = 0 then PA2PTE ex_table OR PTE_V else 0)"
proof -
  show p: "pde_at (mem vm_mapped_example) ex_root va = (if PX 1 va = 0 then PA2PTE ex_table OR PTE_V else 0)" for va
    by (simp add: pde_at_def vm_mapped_slots)
  have "PX 1 0 = 0" by (simp add: PX_def)
  then show "tables (mem vm_mapped_example) ex_root = {ex_root, ex_table}" unfolding tables_def p by (auto intro!: exI [of _ 0])
qed

lemma vm_mapped_ok: "vm_ok vm_mapped_example ex_root [0x80052000]"
proof -
  have "free_pages vm_mapped_example [0x80052000]"
  proof -
    have "load32 (mem vm_mapped_example) 0x80052000 = 0"
      by (simp add: vm_mapped_example_def slot_def load32_store32_other) (simp add: load32_def)
    then show ?thesis by (simp add: free_pages_def page_ok_def) (simp add: vm_mapped_example_def blank_kstate_def)
  qed
  moreover have d: "(PA2PTE ex_table OR PTE_V) AND 14 = 0" by (simp add: PA2PTE_def)
  have "pt_ok (sym_end (link vm_mapped_example)) (mem vm_mapped_example) ex_root"
    using d by (auto simp: pt_ok_def vm_mapped_tables page_ok_def) (simp_all add: vm_mapped_example_def blank_kstate_def)
  ultimately show ?thesis by (simp add: vm_ok_def vm_mapped_tables)
qed

lemma mappages_maps:
  assumes "vm_ok s pt ps" "unat va mod 4096 = 0" "unat sz = 4096 * n" "0 < n" "unat va + unat sz \<le> 4294967296"
    and "\<forall>vb. unat va \<le> unat vb \<and> unat vb < unat va + unat sz \<longrightarrow> pte_at (mem s) pt vb AND PTE_V = 0"
  shows "\<exists>t qs k. vm_ext pt s ps t qs \<and> pte_at (mem t) pt = map_range va k pa perm (pte_at (mem s) pt)
     \<and> (mappages pt va sz pa perm s = Ok 0 t \<and> k = n \<or> mappages pt va sz pa perm s = Ok (-1) t \<and> qs = [] \<and> k < n)"
proof -
  obtain j where j: "n = Suc j" using assms(4) by (cases n) auto
  show ?thesis
    using mappages_loop_spec [OF assms(1,2), of j _ pa perm] mappages_aligned [OF assms(2), of sz j pt pa perm] assms(3,5,6)
    unfolding j by (simp del: mappages_loop.simps add: less_Suc_eq_le)
qed

lemma mappages_remaps:
  assumes "vm_ok s pt ps" "unat va mod 4096 = 0" "unat sz = 4096 * n" "m < n" "unat va + unat sz \<le> 4294967296"
    and "\<forall>vb. unat va \<le> unat vb \<and> unat vb < unat va + 4096 * m \<longrightarrow> pte_at (mem s) pt vb AND PTE_V = 0"
    and "pte_at (mem s) pt (va + of_nat (4096 * m)) AND PTE_V \<noteq> 0"
  shows "\<exists>t qs k. vm_ext pt s ps t qs \<and> pte_at (mem t) pt = map_range va k pa perm (pte_at (mem s) pt)
     \<and> (mappages pt va sz pa perm s = Panic ''mappages: remap'' t \<and> k = m
        \<or> mappages pt va sz pa perm s = Ok (-1) t \<and> qs = [] \<and> k < m)"
proof -
  obtain j where j: "n = Suc j" using assms(4) by (cases n) auto
  have l: "unat va + 4096 * Suc j \<le> 4294967296" "m \<le> j" using assms(3-5) j by simp_all
  show ?thesis
    using mappages_loop_remap [OF assms(1,2) l(1) refl l(2) _ assms(7), of pa perm] assms(6)
      mappages_aligned [OF assms(2), of sz j pt pa perm] assms(3) unfolding j by (simp del: mappages_loop.simps)
qed

text \<open>(C9) \<open>mappages\<close> on every kind of argument, in an address space that does not wrap.  It panics, with nothing changed, on an address or a
  size that is not a multiple of the page size and on size 0.  On an unmapped range it returns 0 with exactly the pages of the range mapped to
  consecutive frames with the requested permissions, or -1 when the allocator ran out of pages, with a proper prefix of
  the range mapped.  When a page of the range is mapped already, it panics with "remap" at the first such page and the pages before it are mapped,
  unless it has run out of memory before.  In all cases other translations are as before, the pages taken from the free list are
  now tables of this address space, and no memory outside the tables and the free pages has changed.\<close>

theorem mappages_spec:
  assumes "vm_ok s pt ps"
  shows "(unat va mod 4096 \<noteq> 0 \<longrightarrow> mappages pt va sz pa perm s = Panic ''mappages: va not aligned'' s)
    \<and> (unat va mod 4096 = 0 \<and> unat sz mod 4096 \<noteq> 0 \<longrightarrow> mappages pt va sz pa perm s = Panic ''mappages: size not aligned'' s)
    \<and> (unat va mod 4096 = 0 \<and> sz = 0 \<longrightarrow> mappages pt va sz pa perm s = Panic ''mappages: size'' s)
    \<and> (\<forall>n. unat va mod 4096 = 0 \<and> unat sz = 4096 * n \<and> 0 < n \<and> unat va + unat sz \<le> 4294967296
        \<and> (\<forall>vb. unat va \<le> unat vb \<and> unat vb < unat va + unat sz \<longrightarrow> pte_at (mem s) pt vb AND PTE_V = 0) \<longrightarrow>
        (\<exists>t qs k. vm_ext pt s ps t qs \<and> pte_at (mem t) pt = map_range va k pa perm (pte_at (mem s) pt)
           \<and> (mappages pt va sz pa perm s = Ok 0 t \<and> k = n \<or> mappages pt va sz pa perm s = Ok (-1) t \<and> qs = [] \<and> k < n)))
    \<and> (\<forall>n m. unat va mod 4096 = 0 \<and> unat sz = 4096 * n \<and> m < n \<and> unat va + unat sz \<le> 4294967296
        \<and> (\<forall>vb. unat va \<le> unat vb \<and> unat vb < unat va + 4096 * m \<longrightarrow> pte_at (mem s) pt vb AND PTE_V = 0)
        \<and> pte_at (mem s) pt (va + of_nat (4096 * m)) AND PTE_V \<noteq> 0 \<longrightarrow>
        (\<exists>t qs k. vm_ext pt s ps t qs \<and> pte_at (mem t) pt = map_range va k pa perm (pte_at (mem s) pt)
           \<and> (mappages pt va sz pa perm s = Panic ''mappages: remap'' t \<and> k = m
              \<or> mappages pt va sz pa perm s = Ok (-1) t \<and> qs = [] \<and> k < m)))"
  using mappages_maps [OF assms, of va sz] mappages_remaps [OF assms, of va sz] page_mod_zero [of va] page_mod_zero [of sz]
  by (intro conjI allI impI) (simp_all add: mappages_def)

theorem mappages_spec_witness:
  "(\<exists>t qs k. vm_ext ex_root vm_mapped_example [0x80052000] t qs
     \<and> pte_at (mem t) ex_root = map_range 0x2000 k 0x80061000 6 (pte_at (mem vm_mapped_example) ex_root)
     \<and> (mappages ex_root 0x2000 0x2000 0x80061000 6 vm_mapped_example = Ok 0 t \<and> k = 2
       \<or> mappages ex_root 0x2000 0x2000 0x80061000 6 vm_mapped_example = Ok (-1) t \<and> qs = [] \<and> k < 2))
   \<and> (\<exists>t. mappages ex_root 0x1000 0x2000 0x80061000 6 vm_mapped_example = Panic ''mappages: remap'' t
     \<and> pte_at (mem t) ex_root = pte_at (mem vm_mapped_example) ex_root)
   \<and> mappages ex_root 0x2001 0x2000 0x80061000 6 vm_mapped_example = Panic ''mappages: va not aligned'' vm_mapped_example"
proof (intro conjI)
  note t = mappages_spec [OF vm_mapped_ok]
  have "pte_at (mem vm_mapped_example) ex_root vb = 0" if "8192 \<le> unat vb" for vb
    using that div_le_mono [of 8192 "unat vb" 4096] by (auto simp: vm_mapped_leaf)
  then show "\<exists>t qs k. vm_ext ex_root vm_mapped_example [0x80052000] t qs
     \<and> pte_at (mem t) ex_root = map_range 0x2000 k 0x80061000 6 (pte_at (mem vm_mapped_example) ex_root)
     \<and> (mappages ex_root 0x2000 0x2000 0x80061000 6 vm_mapped_example = Ok 0 t \<and> k = 2
       \<or> mappages ex_root 0x2000 0x2000 0x80061000 6 vm_mapped_example = Ok (-1) t \<and> qs = [] \<and> k < 2)"
    using t [of "0x2000" "0x2000" "0x80061000" 6] by simp
  have "ex_leaf AND PTE_V \<noteq> 0" by (simp add: PA2PTE_def)
  then have "pte_at (mem vm_mapped_example) ex_root (0x1000 + of_nat (4096 * 0)) AND PTE_V \<noteq> 0" by (simp add: vm_mapped_leaf)
  then have "\<exists>t qs k. vm_ext ex_root vm_mapped_example [0x80052000] t qs
     \<and> pte_at (mem t) ex_root = map_range 0x1000 k 0x80061000 6 (pte_at (mem vm_mapped_example) ex_root)
     \<and> (mappages ex_root 0x1000 0x2000 0x80061000 6 vm_mapped_example = Panic ''mappages: remap'' t \<and> k = 0
        \<or> mappages ex_root 0x1000 0x2000 0x80061000 6 vm_mapped_example = Ok (-1) t \<and> qs = [] \<and> k < 0)"
    using t [of "0x1000" "0x2000" "0x80061000" 6, THEN conjunct2, THEN conjunct2, THEN conjunct2, THEN conjunct2, rule_format, of 2 0] by force
  then show "\<exists>t. mappages ex_root 0x1000 0x2000 0x80061000 6 vm_mapped_example = Panic ''mappages: remap'' t
     \<and> pte_at (mem t) ex_root = pte_at (mem vm_mapped_example) ex_root" by auto
  show "mappages ex_root 0x2001 0x2000 0x80061000 6 vm_mapped_example = Panic ''mappages: va not aligned'' vm_mapped_example"
    using t [of "0x2001" "0x2000" "0x80061000" 6] by simp
qed

text \<open>(C10) \<open>uvmunmap\<close> on a page-aligned range within the address space always returns.  Exactly the valid leaf entries of the
  range are cleared.  With \<open>do_free\<close> the frames they referred to are put on the free list,
  each of them once, and nothing else is; without it the free list does not change.\<close>

theorem uvmunmap_spec:
  assumes "vm_ok s pt ps" "unat va = 4096 * a" "a + unat npages \<le> 1048576"
    and "do_free \<longrightarrow> owns_frames s pt ps a (unat npages)"
  shows "\<exists>t zs. uvmunmap pt va npages do_free s = Ok () t \<and> vm_ok t pt (zs @ ps) \<and> mem_only s t
    \<and> tables (mem t) pt = tables (mem s) pt
    \<and> pte_at (mem t) pt = unmap_range a (unat npages) (pte_at (mem s) pt)
    \<and> set zs = (if do_free then frames a (unat npages) (pte_at (mem s) pt) else {})
    \<and> mem_frame (tables (mem s) pt \<union> set zs) (mem s) (mem t)"
  using uvmunmap_range [OF assms(1-3)] assms(4) by blast

lemma vm_mapped_frames: "frames 0 3 (pte_at (mem vm_mapped_example) ex_root) = {ex_frame}"
  "owns_frames vm_mapped_example ex_root [0x80052000] 0 3"
proof -
  have v: "ex_leaf AND PTE_V \<noteq> 0" by (simp add: PA2PTE_def)
  have pa: "PTE2PA ex_leaf = ex_frame" by (rule PTE2PA_PA2PTE) simp_all
  have "unat (0x1000 :: u32) div 4096 = 1" by simp
  then show f: "frames 0 3 (pte_at (mem vm_mapped_example) ex_root) = {ex_frame}"
    using v pa by (auto simp: frames_def vm_mapped_leaf intro!: exI [of _ "0x1000"] split: if_splits)
  show "owns_frames vm_mapped_example ex_root [0x80052000] 0 3"
    unfolding owns_frames_def f vm_mapped_tables vm_mapped_leaf
    by (auto simp: page_ok_def vm_mapped_example_def blank_kstate_def split: if_splits)
qed

text \<open>Three pages are unmapped, the middle one was mapped: its frame comes back and no leaf is left.\<close>
theorem uvmunmap_spec_witness:
  "\<exists>t zs. uvmunmap ex_root 0 3 True vm_mapped_example = Ok () t \<and> vm_ok t ex_root (zs @ [0x80052000]) \<and> set zs = {ex_frame}
    \<and> pte_at (mem vm_mapped_example) ex_root 0x1000 \<noteq> 0 \<and> pte_at (mem t) ex_root 0x1000 = 0"
proof -
  have o: "True \<longrightarrow> owns_frames vm_mapped_example ex_root [0x80052000] 0 (unat (3 :: u32))" using vm_mapped_frames(2) by simp
  have v: "ex_leaf AND PTE_V \<noteq> 0" "ex_leaf \<noteq> 0" by (simp_all add: PA2PTE_def)
  obtain t zs where t: "uvmunmap ex_root 0 3 True vm_mapped_example = Ok () t" "vm_ok t ex_root (zs @ [0x80052000])"
    "pte_at (mem t) ex_root = unmap_range 0 3 (pte_at (mem vm_mapped_example) ex_root)"
    "set zs = frames 0 3 (pte_at (mem vm_mapped_example) ex_root)"
    using uvmunmap_spec [OF vm_mapped_ok _ _ o, of 0] by auto
  show ?thesis using t v unfolding vm_mapped_frames(1) by (intro exI [of _ t] exI [of _ zs]) (simp add: unmap_range_def vm_mapped_leaf)
qed

text \<open>(C11) \<open>uvmfree\<close> never leaks and never panics: for an address space whose leaves all lie below \<open>sz\<close> it
  returns, and the free list has gained exactly the frames of the user pages, the second-level tables and
  the root table.\<close>

theorem uvmfree_frees_everything:
  assumes "vm_ok s pt ps" "unat sz \<le> 4294963200"
    and "owns_frames s pt ps 0 (unat (PGROUNDUP sz div PGSIZE))"
    and "\<forall>vb. pte_at (mem s) pt vb AND PTE_V \<noteq> 0 \<longrightarrow> unat vb div 4096 < unat (PGROUNDUP sz div PGSIZE)"
  shows "\<exists>t zs. uvmfree pt sz s = Ok () t \<and> free_pages t (zs @ ps) \<and> mem_only s t
    \<and> set zs = tables (mem s) pt \<union> frames 0 (unat (PGROUNDUP sz div PGSIZE)) (pte_at (mem s) pt)"
proof -
  let ?n = "PGROUNDUP sz div PGSIZE"
  let ?f = "pte_at (mem s) pt"
  have n: "unat ?n = (unat sz + 4095) div 4096"
    using assms(2) by (simp add: unat_div unat_PGROUNDUP)
  have "\<exists>u ys. kwhen (sz > 0) (uvmunmap pt 0 ?n True) s = Ok () u \<and> vm_ok u pt (ys @ ps) \<and> mem_only s u
    \<and> tables (mem u) pt = tables (mem s) pt \<and> pte_at (mem u) pt = unmap_range 0 (unat ?n) ?f
    \<and> set ys = frames 0 (unat ?n) ?f"
  proof (cases "sz = 0")
    case True
    then have "unat ?n = 0" using n by simp
    then show ?thesis using True assms(1)
      by (intro exI [of _ s] exI [of _ "[]"]) (auto simp: unmap_range_def fun_eq_iff)
  next
    case False
    have "0 + unat ?n \<le> 1048576" using assms(2) n by simp
    with False uvmunmap_range [OF assms(1), of 0 0 ?n True] assms(3) show ?thesis
      by (auto simp: word_gt_0)
  qed
  then obtain u ys where u: "kwhen (sz > 0) (uvmunmap pt 0 ?n True) s = Ok () u" "vm_ok u pt (ys @ ps)" "mem_only s u"
    "tables (mem u) pt = tables (mem s) pt" "pte_at (mem u) pt = unmap_range 0 (unat ?n) ?f"
    "set ys = frames 0 (unat ?n) ?f" by blast
  have "pte_at (mem u) pt vb AND PTE_V = 0" for vb
    using assms(4) by (auto simp: u(5) unmap_range_def)
  then obtain t zs where "freewalk 2 pt u = Ok () t" "free_pages t (zs @ ys @ ps)" "mem_only u t" "set zs = tables (mem u) pt"
    using freewalk_spec [OF u(2)] by blast
  with u show ?thesis
    using mem_only_trans by (intro exI [of _ t] exI [of _ "zs @ ys"]) (auto simp: uvmfree_def)
qed

text \<open>One user page, one table and the root.\<close>
theorem uvmfree_frees_everything_witness:
  "\<exists>t zs. uvmfree ex_root 0x2800 vm_mapped_example = Ok () t \<and> free_pages t (zs @ [0x80052000])
    \<and> set zs = {ex_root, ex_table, ex_frame}"
proof -
  have n: "unat (PGROUNDUP 0x2800 div PGSIZE) = 3" by (simp add: unat_div unat_PGROUNDUP)
  have o: "owns_frames vm_mapped_example ex_root [0x80052000] 0 (unat (PGROUNDUP 0x2800 div PGSIZE))" unfolding n by (rule vm_mapped_frames)
  have b: "\<forall>vb. pte_at (mem vm_mapped_example) ex_root vb AND PTE_V \<noteq> 0 \<longrightarrow> unat vb div 4096 < unat (PGROUNDUP 0x2800 div PGSIZE)"
    unfolding n by (auto simp: vm_mapped_leaf split: if_splits)
  have e: "{ex_root, ex_table} \<union> {ex_frame} = {ex_root, ex_table, ex_frame}" by auto
  show ?thesis using uvmfree_frees_everything [OF vm_mapped_ok _ o b] unfolding n vm_mapped_frames(1) vm_mapped_tables(1) e by auto
qed

end
