(* ===== verification/KV_Pipe.thy ===== *)
theory KV_Pipe
  imports KV_PageTable
begin

text \<open>
  Pipes (kernel/pipe.c; \<open>pipealloc\<close>, which needs the file table, is in \<open>KV_File\<close>).

  A process that has to wait leaves \<open>pipewrite\<close> or \<open>piperead\<close> by \<open>sleep\<close>; when it is scheduled
  again it goes on at the same loop.  The loops are therefore functions of their own, which a resumed process
  enters again with the progress it had made (\<open>pipewrite_resume\<close>, \<open>piperead_resume\<close>).  The
  abstract pipe is the list of the bytes in transit, \<open>contents\<close>.
\<close>

abbreviation PIPESIZE :: nat where "PIPESIZE \<equiv> 512"

section \<open>Operations\<close>

definition upd_pipe :: "u32 \<Rightarrow> (pipe \<Rightarrow> pipe) \<Rightarrow> kstate \<Rightarrow> kstate" where
  "upd_pipe pi f s = s\<lparr>pipes := (pipes s)(pi := f (pipes s pi))\<rparr>"

text \<open>\<open>sleep\<close> inside a loop: the function does not return from it in this activation.\<close>
definition kblock :: "chan \<Rightarrow> lock \<Rightarrow> 'a K" where
  "kblock ch lk = kbind (sleep ch lk) (\<lambda>_. kdiverge)"

definition pipeclose :: "u32 \<Rightarrow> bool \<Rightarrow> unit K" where
  "pipeclose pi writable = kdo [
     acquire (LK_pipe pi),
     if writable
     then kdo [kmod (upd_pipe pi (\<lambda>p. p\<lparr>pi_writeopen := False\<rparr>)), wakeup (CH_pread pi)]
     else kdo [kmod (upd_pipe pi (\<lambda>p. p\<lparr>pi_readopen := False\<rparr>)), wakeup (CH_pwrite pi)],
     kbind (kget (\<lambda>s. pipes s pi)) (\<lambda>p.
       if \<not> pi_readopen p \<and> \<not> pi_writeopen p
       then kdo [release (LK_pipe pi), kfree pi]
       else release (LK_pipe pi))]"

text \<open>\<open>pi->data[pi->nwrite++ % PIPESIZE] = ch\<close> and \<open>ch = pi->data[pi->nread++ % PIPESIZE]\<close>.\<close>
definition pipe_put :: "u8 \<Rightarrow> pipe \<Rightarrow> pipe" where
  "pipe_put ch p = p\<lparr>pi_data := (pi_data p)[unat (pi_nwrite p) mod PIPESIZE := ch], pi_nwrite := pi_nwrite p + 1\<rparr>"

definition pipe_get :: "pipe \<Rightarrow> u8 \<times> pipe" where
  "pipe_get p = (pi_data p ! (unat (pi_nread p) mod PIPESIZE), p\<lparr>pi_nread := pi_nread p + 1\<rparr>)"

definition pipe_empty :: "pipe \<Rightarrow> bool" where
  "pipe_empty p \<longleftrightarrow> pi_nread p = pi_nwrite p"

definition pipe_full :: "pipe \<Rightarrow> bool" where
  "pipe_full p \<longleftrightarrow> pi_nwrite p = pi_nread p + of_nat PIPESIZE"

text \<open>The loop of \<open>pipewrite\<close>, entered with \<open>pi->lock\<close> held: \<open>Inl\<close> is the early return, \<open>Inr i\<close> the
  value of \<open>i\<close> when the loop is left.\<close>
function pipewrite_loop :: "u32 \<Rightarrow> nat \<Rightarrow> u32 \<Rightarrow> int \<Rightarrow> int \<Rightarrow> (int + int) K" where
  "pipewrite_loop pi pr addr i n =
     (if i < n
      then kbind (kget (\<lambda>s. pi_readopen (pipes s pi))) (\<lambda>ro.
        kbind (if ro then killed pr else kret True) (\<lambda>stop.
        if stop then kbind (release (LK_pipe pi)) (\<lambda>_. kret (Inl (-1)))
        else kbind (kget (\<lambda>s. pipe_full (pipes s pi))) (\<lambda>full.
          if full then kbind (wakeup (CH_pread pi)) (\<lambda>_. kblock (CH_pwrite pi) (LK_pipe pi))
          else kbind (kget (\<lambda>s. p_pagetable (procs s ! pr))) (\<lambda>pt.
            kbind (copyin pt (addr + of_int i) 1) (\<lambda>(r, bs).
            if r = -1 then kret (Inr i)
            else kbind (kmod (upd_pipe pi (pipe_put (hd bs)))) (\<lambda>_.
                 pipewrite_loop pi pr addr (i + 1) n))))))
      else kret (Inr i))"
  by pat_completeness auto
termination
  by (relation "measure (\<lambda>(_, _, _, i, n). nat (n - i))") auto

declare pipewrite_loop.simps [simp del]

definition pipewrite_finish :: "u32 \<Rightarrow> int + int \<Rightarrow> int K" where
  "pipewrite_finish pi r = (case r of
       Inl e \<Rightarrow> kret e
     | Inr i \<Rightarrow> kbind (wakeup (CH_pread pi)) (\<lambda>_. kbind (release (LK_pipe pi)) (\<lambda>_. kret i)))"

definition pipewrite :: "u32 \<Rightarrow> u32 \<Rightarrow> int \<Rightarrow> int K" where
  "pipewrite pi addr n =
     kbind myproc (\<lambda>me. case me of
       None \<Rightarrow> kpanic ''null proc''
     | Some pr \<Rightarrow>
         kbind (acquire (LK_pipe pi)) (\<lambda>_.
         kbind (pipewrite_loop pi pr addr 0 n) (pipewrite_finish pi)))"

definition pipewrite_resume :: "u32 \<Rightarrow> nat \<Rightarrow> u32 \<Rightarrow> int \<Rightarrow> int \<Rightarrow> int K" where
  "pipewrite_resume pi pr addr i n =
     kbind (sleep_resume (LK_pipe pi)) (\<lambda>_.
     kbind (pipewrite_loop pi pr addr i n) (pipewrite_finish pi))"

text \<open>The copy loop of \<open>piperead\<close>.\<close>
function piperead_loop :: "u32 \<Rightarrow> nat \<Rightarrow> u32 \<Rightarrow> int \<Rightarrow> int \<Rightarrow> int K" where
  "piperead_loop pi pr addr i n =
     (if i < n
      then kbind (kget (\<lambda>s. pipes s pi)) (\<lambda>p.
        if pipe_empty p then kret i
        else kbind (kmod (upd_pipe pi (\<lambda>p. snd (pipe_get p)))) (\<lambda>_.
          kbind (kget (\<lambda>s. p_pagetable (procs s ! pr))) (\<lambda>pt.
          kbind (copyout pt (addr + of_int i) [fst (pipe_get p)]) (\<lambda>r.
          if r = -1 then kret i
          else piperead_loop pi pr addr (i + 1) n))))
      else kret i)"
  by pat_completeness auto
termination
  by (relation "measure (\<lambda>(_, _, _, i, n). nat (n - i))") auto

declare piperead_loop.simps [simp del]

text \<open>\<open>piperead\<close> from its waiting loop on, with \<open>pi->lock\<close> held.\<close>
definition piperead_wait :: "u32 \<Rightarrow> nat \<Rightarrow> u32 \<Rightarrow> int \<Rightarrow> int K" where
  "piperead_wait pi pr addr n =
     kbind (kget (\<lambda>s. pipes s pi)) (\<lambda>p.
     if pipe_empty p \<and> pi_writeopen p
     then kbind (killed pr) (\<lambda>k.
       if k then kbind (release (LK_pipe pi)) (\<lambda>_. kret (-1))
       else kblock (CH_pread pi) (LK_pipe pi))
     else kbind (piperead_loop pi pr addr 0 n) (\<lambda>i.
       kbind (wakeup (CH_pwrite pi)) (\<lambda>_.
       kbind (release (LK_pipe pi)) (\<lambda>_. kret i))))"

definition piperead :: "u32 \<Rightarrow> u32 \<Rightarrow> int \<Rightarrow> int K" where
  "piperead pi addr n =
     kbind myproc (\<lambda>me. case me of
       None \<Rightarrow> kpanic ''null proc''
     | Some pr \<Rightarrow>
         kbind (acquire (LK_pipe pi)) (\<lambda>_. piperead_wait pi pr addr n))"

definition piperead_resume :: "u32 \<Rightarrow> nat \<Rightarrow> u32 \<Rightarrow> int \<Rightarrow> int K" where
  "piperead_resume pi pr addr n =
     kbind (sleep_resume (LK_pipe pi)) (\<lambda>_. piperead_wait pi pr addr n)"

section \<open>The bytes in transit\<close>

definition pipe_inv :: "pipe \<Rightarrow> bool" where
  "pipe_inv p \<longleftrightarrow> length (pi_data p) = PIPESIZE \<and> unat (pi_nwrite p - pi_nread p) \<le> PIPESIZE"

definition contents :: "pipe \<Rightarrow> u8 list" where
  "contents p = map (\<lambda>k. pi_data p ! ((unat (pi_nread p) + k) mod PIPESIZE))
     [0..<unat (pi_nwrite p - pi_nread p)]"

text \<open>The contract of a bounded byte queue and what follows from it for any sequence of puts and gets.\<close>

datatype qop = Put u8 | Get

locale byte_queue =
  fixes put :: "u8 \<Rightarrow> 'q \<Rightarrow> 'q" and get :: "'q \<Rightarrow> u8 \<times> 'q" and empty :: "'q \<Rightarrow> bool" and full :: "'q \<Rightarrow> bool"
    and inv :: "'q \<Rightarrow> bool" and abs :: "'q \<Rightarrow> u8 list" and cap :: nat
  assumes put_inv: "inv q \<Longrightarrow> \<not> full q \<Longrightarrow> inv (put c q)"
    and put_abs: "inv q \<Longrightarrow> \<not> full q \<Longrightarrow> abs (put c q) = abs q @ [c]"
    and get_inv: "inv q \<Longrightarrow> \<not> empty q \<Longrightarrow> inv (snd (get q))"
    and get_abs: "inv q \<Longrightarrow> \<not> empty q \<Longrightarrow> abs q = fst (get q) # abs (snd (get q))"
    and empty_abs: "inv q \<Longrightarrow> empty q \<longleftrightarrow> abs q = []"
    and full_abs: "inv q \<Longrightarrow> full q \<longleftrightarrow> length (abs q) = cap"
    and abs_cap: "inv q \<Longrightarrow> length (abs q) \<le> cap"
begin

text \<open>Run a sequence of operations; a put into a full queue and a get from an empty one are not taken.
  The results are the queue, the bytes accepted and the bytes delivered.\<close>
fun run :: "qop list \<Rightarrow> 'q \<Rightarrow> 'q \<times> u8 list \<times> u8 list" where
  "run [] q = (q, [], [])"
| "run (Put c # ops) q = (if full q then run ops q
     else let (q', ws, rs) = run ops (put c q) in (q', c # ws, rs))"
| "run (Get # ops) q = (if empty q then run ops q
     else let (q', ws, rs) = run ops (snd (get q)) in (q', ws, fst (get q) # rs))"

lemma run_fifo:
  "inv q \<Longrightarrow> run ops q = (q', ws, rs) \<Longrightarrow> inv q' \<and> abs q @ ws = rs @ abs q'"
proof (induction ops q arbitrary: q' ws rs rule: run.induct)
  case (2 c ops q)
  then show ?case
    by (auto simp: put_inv put_abs Let_def split: if_splits prod.splits)
next
  case (3 ops q)
  then show ?case
    using get_abs [of q] by (auto simp: get_inv Let_def split: if_splits prod.splits)
qed auto

end

lemma mod_512_word: "unat (x + 1 :: u32) mod 512 = (unat x + 1) mod 512"
proof -
  have "(unat x + 1) mod 4294967296 mod 512 = (unat x + 1) mod 512"
    by (rule mod_mod_cancel) simp
  then show ?thesis by (simp add: unat_add_32)
qed

lemma unat_diff_Suc:
  "unat (w - r :: u32) < 4294967295 \<Longrightarrow> unat (w + 1 - r) = Suc (unat (w - r))"
proof -
  assume a: "unat (w - r) < 4294967295"
  have "w + 1 - r = (w - r) + 1" by simp
  then show ?thesis using a by (simp only: unat_add_32) simp
qed

lemma unat_diff_pred:
  "w \<noteq> (r :: u32) \<Longrightarrow> unat (w - r) = Suc (unat (w - (r + 1)))"
proof -
  assume "w \<noteq> r"
  then have "w - r \<noteq> 0" by simp
  then have "unat (w - r) = Suc (unat (w - r - 1))" using unat_minus_one [of "w - r"] unat_gt_0 [of "w - r"] by simp
  then show ?thesis by (simp add: diff_diff_eq)
qed

lemma pipe_put_contents:
  assumes inv: "pipe_inv p" and nf: "\<not> pipe_full p"
  shows "pipe_inv (pipe_put c p) \<and> contents (pipe_put c p) = contents p @ [c]"
proof -
  let ?r = "pi_nread p" and ?w = "pi_nwrite p"
  let ?n = "unat (?w - ?r)"
  have "?n \<noteq> 512"
  proof
    assume "?n = 512"
    then have "?w - ?r = 512" by (simp add: word_eq_unat)
    then show False using nf by (simp add: pipe_full_def diff_eq_eq add.commute)
  qed
  then have n: "?n < 512" using inv by (simp add: pipe_inv_def)
  then have s: "unat (?w + 1 - ?r) = Suc ?n" by (intro unat_diff_Suc) simp
  have w: "unat ?w mod 512 = (unat ?r + ?n) mod 512"
  proof -
    have "unat ?w = unat (?r + (?w - ?r))" by simp
    also have "\<dots> = (unat ?r + ?n) mod 4294967296" by (simp only: unat_add_32)
    finally show ?thesis by (simp add: mod_mod_cancel)
  qed
  have "(unat ?r + ?n) mod 512 \<noteq> (unat ?r + k) mod 512" if "k < ?n" for k
  proof
    assume "(unat ?r + ?n) mod 512 = (unat ?r + k) mod 512"
    then have "512 dvd (unat ?r + ?n) - (unat ?r + k)" using mod_eq_dvd_iff_nat that by (metis add_left_mono less_imp_le)
    then have "512 dvd ?n - k" by simp
    then show False using that n by (auto dest: dvd_imp_le)
  qed
  then show ?thesis
    using inv n by (auto simp: pipe_inv_def contents_def pipe_put_def s w intro!: nth_equalityI)
qed

lemma pipe_get_contents:
  assumes inv: "pipe_inv p" and ne: "\<not> pipe_empty p"
  shows "pipe_inv (snd (pipe_get p)) \<and> contents p = fst (pipe_get p) # contents (snd (pipe_get p))"
proof -
  have s: "unat (pi_nwrite p - pi_nread p) = Suc (unat (pi_nwrite p - (pi_nread p + 1)))"
    using ne by (intro unat_diff_pred) (auto simp: pipe_empty_def)
  have "(unat (pi_nread p + 1) + k) mod 512 = (unat (pi_nread p) + Suc k) mod 512" for k
    using mod_512_word [of "pi_nread p"] by (metis add.assoc add.commute mod_add_left_eq plus_1_eq_Suc)
  then show ?thesis
    using inv by (auto simp: pipe_inv_def contents_def pipe_get_def s upt_conv_Cons map_Suc_upt [symmetric] simp del: upt_Suc)
qed

interpretation pipeq: byte_queue pipe_put pipe_get pipe_empty pipe_full pipe_inv contents PIPESIZE
proof
  fix q c assume i: "pipe_inv q"
  show "pipe_empty q \<longleftrightarrow> contents q = []"
    by (auto simp: pipe_empty_def contents_def) (metis eq_iff_diff_eq_0 unat_eq_zero)
  show "pipe_full q \<longleftrightarrow> length (contents q) = PIPESIZE"
  proof -
    have "pi_nwrite q = pi_nread q + 512 \<longleftrightarrow> pi_nwrite q - pi_nread q = 512"
      by (simp add: diff_eq_eq add.commute)
    also have "\<dots> \<longleftrightarrow> unat (pi_nwrite q - pi_nread q) = 512" by (simp add: word_eq_unat)
    finally show ?thesis by (simp add: pipe_full_def contents_def)
  qed
  show "length (contents q) \<le> PIPESIZE" using i by (simp add: pipe_inv_def contents_def)
qed (use pipe_put_contents pipe_get_contents in auto)


section \<open>Lemmas\<close>

text \<open>The byte a process sees at a user address that is mapped for it.\<close>
definition ubyte :: "kstate \<Rightarrow> u32 \<Rightarrow> u32 \<Rightarrow> u8 option" where
  "ubyte s pt va = (case walkaddr pt (PGROUNDDOWN va) s of
      Ok pa _ \<Rightarrow> if pa \<noteq> 0 then Some (mem s (pa + (va - PGROUNDDOWN va))) else None
    | _ \<Rightarrow> None)"

lemma walkaddr_state: "walkaddr pt va s = Ok pa t \<Longrightarrow> t = s"
  by (auto simp: walkaddr_def walk_def Let_def split: if_splits)

lemma copyin_zero [simp]: "copyin pt va 0 s = Ok (0, []) s"
  by (simp add: copyin.simps)

lemma copyin_one:
  assumes "ubyte s pt va = Some c"
  shows "copyin pt va 1 s = Ok (0, [c]) s"
proof -
  obtain pa where pa: "walkaddr pt (PGROUNDDOWN va) s = Ok pa s" "pa \<noteq> 0" "c = mem s (pa + (va - PGROUNDDOWN va))"
    using assms walkaddr_state by (fastforce simp: ubyte_def split: outcome.splits if_splits)
  moreover have "chunk va (Suc 0) = Suc 0"
    using page_offset_less [of va] by (simp add: chunk_def)
  ultimately show ?thesis
    by (subst copyin.simps) (simp add: Let_def user_page_def read_bytes_def)
qed

lemma killed_run:
  "LK_proc p \<notin> held s \<Longrightarrow> killed p s = Ok (p_killed (procs s ! p)) s"
  by (simp add: killed_def)

lemma kblock_run:
  assumes "cur s = Some p" "held s = {lk}" "lk \<noteq> LK_proc p" "p < length (procs s)"
  shows "kblock ch lk s = Switch (s\<lparr>held := {LK_proc p},
    procs := (procs s)[p := (procs s ! p)\<lparr>p_chan := Some ch, p_state := SLEEPING\<rparr>]\<rparr>)"
  using assms by (simp add: kblock_def sleep_def myproc_def upd_proc_def sched_def insert_Diff_if)


lemma ubyte_cong: "mem t = mem s \<Longrightarrow> ubyte t pt va = ubyte s pt va"
  by (simp add: ubyte_def walkaddr_def walk_def Let_def)

text \<open>The writing loop: all the bytes fit, or the pipe fills up and the writer sleeps.\<close>

lemma pipewrite_loop_spec:
  assumes "cur s = Some pr" "held s = {LK_pipe pi}" "pr < length (procs s)" "length (procs s) = NPROC"
    "pipe_inv (pipes s pi)" "pi_readopen (pipes s pi)" "\<not> p_killed (procs s ! pr)" "i + int (length us) = n"
    "\<forall>k < length us. ubyte s (p_pagetable (procs s ! pr)) (addr + of_int i + of_nat k) = Some (us ! k)"
  shows "\<exists>t. mem t = mem s \<and> pipe_inv (pipes t pi) \<and>
    (if length (contents (pipes s pi)) + length us \<le> PIPESIZE
     then pipewrite_loop pi pr addr i n s = Ok (Inr n) t \<and> contents (pipes t pi) = contents (pipes s pi) @ us
       \<and> t = s\<lparr>pipes := pipes t\<rparr>
     else pipewrite_loop pi pr addr i n s = Switch t
       \<and> contents (pipes t pi) = contents (pipes s pi) @ take (PIPESIZE - length (contents (pipes s pi))) us
       \<and> p_state (procs t ! pr) = SLEEPING \<and> p_chan (procs t ! pr) = Some (CH_pwrite pi) \<and> held t = {LK_proc pr})"
  using assms
proof (induction us arbitrary: i s)
  case Nil
  then show ?case
    using pipeq.abs_cap [of "pipes s pi"] by (intro exI [of _ s]) (simp add: pipewrite_loop.simps)
next
  case (Cons c us)
  let ?p = "pipes s pi"
  have i: "i < n" using Cons.prems(8) by simp
  show ?case
  proof (cases "pipe_full ?p")
    case True
    then have len: "length (contents ?p) = PIPESIZE" using pipeq.full_abs Cons.prems(5) by blast
    have np: "no_proc_lock s" using Cons.prems(2) by (simp add: no_proc_lock_def)
    let ?u = "s\<lparr>procs := wake_all (CH_pread pi) (cur s) (procs s)\<rparr>"
    let ?t = "?u\<lparr>held := {LK_proc pr}, procs := (procs ?u)[pr := (procs ?u ! pr)
      \<lparr>p_chan := Some (CH_pwrite pi), p_state := SLEEPING\<rparr>]\<rparr>"
    have "kblock (CH_pwrite pi) (LK_pipe pi) ?u = (Switch ?t :: (int + int) outcome)"
      using Cons.prems(1-3) by (intro kblock_run) simp_all
    then have "pipewrite_loop pi pr addr i n s = Switch ?t"
      using True i Cons.prems wakeup_run [OF np Cons.prems(4)] by (subst pipewrite_loop.simps) (simp add: killed_run)
    then show ?thesis
      using len Cons.prems(3,5) by (intro exI [of _ ?t]) simp
  next
    case False
    let ?s = "upd_pipe pi (pipe_put c) s"
    have u: "ubyte s (p_pagetable (procs s ! pr)) (addr + of_int i) = Some c"
      using Cons.prems(9) by force
    have put: "pipe_inv (pipe_put c ?p)" "contents (pipe_put c ?p) = contents ?p @ [c]"
      using pipe_put_contents [OF Cons.prems(5) False] by auto
    have sf: "pipes ?s pi = pipe_put c ?p" "mem ?s = mem s" "cur ?s = cur s" "held ?s = held s" "procs ?s = procs s"
      by (simp_all add: upd_pipe_def)
    have ro: "pi_readopen (pipe_put c ?p) = pi_readopen ?p" by (simp add: pipe_put_def)
    have us: "\<forall>k < length us. ubyte ?s (p_pagetable (procs ?s ! pr)) (addr + of_int (i + 1) + of_nat k) = Some (us ! k)"
      using Cons.prems(9) ubyte_cong [OF sf(2)] by (auto simp: sf algebra_simps)
    have step: "pipewrite_loop pi pr addr i n s = pipewrite_loop pi pr addr (i + 1) n ?s"
      using False i Cons.prems copyin_one [OF u] by (subst pipewrite_loop.simps) (simp add: killed_run)
    obtain t where t: "mem t = mem ?s \<and> pipe_inv (pipes t pi) \<and>
      (if length (contents (pipes ?s pi)) + length us \<le> PIPESIZE
       then pipewrite_loop pi pr addr (i + 1) n ?s = Ok (Inr n) t \<and> contents (pipes t pi) = contents (pipes ?s pi) @ us
         \<and> t = ?s\<lparr>pipes := pipes t\<rparr>
       else pipewrite_loop pi pr addr (i + 1) n ?s = Switch t
         \<and> contents (pipes t pi) = contents (pipes ?s pi) @ take (PIPESIZE - length (contents (pipes ?s pi))) us
         \<and> p_state (procs t ! pr) = SLEEPING \<and> p_chan (procs t ! pr) = Some (CH_pwrite pi) \<and> held t = {LK_proc pr})"
      using Cons.IH [of ?s "i + 1"] Cons.prems us put ro by (auto simp: sf)
    have cap: "length (contents ?p) < PIPESIZE"
      using pipeq.full_abs [OF Cons.prems(5)] False pipeq.abs_cap [OF Cons.prems(5)] by linarith
    have tk: "PIPESIZE - length (contents ?p) = Suc (PIPESIZE - Suc (length (contents ?p)))" using cap by simp
    have eq: "t = ?s\<lparr>pipes := pipes t\<rparr> \<Longrightarrow> t = s\<lparr>pipes := pipes t\<rparr>" by (simp add: upd_pipe_def)
    show ?thesis
      using t put eq by (intro exI [of _ t]) (auto simp: sf step tk split: if_splits)
  qed
qed


lemma pipe_empty_contents: "pipe_inv p \<Longrightarrow> pipe_empty p \<longleftrightarrow> contents p = []"
  by (rule pipeq.empty_abs)

subsection \<open>The reader's memory\<close>

text \<open>What \<open>walkaddr\<close> finds: the frame of a valid user page, or 0.\<close>
definition uaddr :: "memory \<Rightarrow> u32 \<Rightarrow> u32 \<Rightarrow> u32" where
  "uaddr m pt va = (if pte_addr m pt va \<noteq> 0 \<and> pte_at m pt va AND PTE_V \<noteq> 0 \<and> pte_at m pt va AND PTE_U \<noteq> 0
     then PTE2PA (pte_at m pt va) else 0)"

text \<open>The physical address of a byte that the process may write.\<close>
definition uloc :: "memory \<Rightarrow> u32 \<Rightarrow> u32 \<Rightarrow> u32 option" where
  "uloc m pt va = (if uaddr m pt va \<noteq> 0 \<and> pte_at m pt va AND PTE_W \<noteq> 0 then Some (uaddr m pt va + (va - PGROUNDDOWN va)) else None)"

text \<open>A byte that the process may not write: its page is read-only, or it is not mapped and lies behind the end of the process.\<close>
definition ubad :: "memory \<Rightarrow> u32 \<Rightarrow> u32 \<Rightarrow> u32 \<Rightarrow> bool" where
  "ubad m sz pt va \<longleftrightarrow> (if uaddr m pt va = 0 then sz \<le> PGROUNDDOWN va else pte_at m pt va AND PTE_W = 0)"

lemma PX_PGROUNDDOWN: "PX 1 (PGROUNDDOWN va) = PX 1 va" "PX 0 (PGROUNDDOWN va) = PX 0 va"
proof -
  have "PGROUNDDOWN (PGROUNDDOWN va) = PGROUNDDOWN va" by (simp add: word_eq_unat unat_PGROUNDDOWN)
  then show "PX 1 (PGROUNDDOWN va) = PX 1 va" "PX 0 (PGROUNDDOWN va) = PX 0 va" using PX_page [of "PGROUNDDOWN va" va] by simp_all
qed

lemma at_PGROUNDDOWN: "pte_addr m pt (PGROUNDDOWN va) = pte_addr m pt va" "pte_at m pt (PGROUNDDOWN va) = pte_at m pt va"
  "PGROUNDDOWN va < MAXVA"
proof -
  show "pte_addr m pt (PGROUNDDOWN va) = pte_addr m pt va" "pte_at m pt (PGROUNDDOWN va) = pte_at m pt va"
    by (simp_all add: pte_at_def pte_addr_def pde_at_def PX_PGROUNDDOWN [simplified])
  show "PGROUNDDOWN va < MAXVA" by (rule aligned_less_MAXVA) (simp add: unat_PGROUNDDOWN)
qed

lemma load_pte_addr: "pte_addr m pt va \<noteq> 0 \<Longrightarrow> load32 m (pte_addr m pt va) = pte_at m pt va"
  by (simp add: pte_at_def pte_addr_def split: if_splits)

lemma walkaddr_uaddr: "walkaddr pt (PGROUNDDOWN va) s = Ok (uaddr (mem s) pt va) s"
  using at_PGROUNDDOWN(1,2) [of "mem s" pt va] at_PGROUNDDOWN(3) [of va] load_pte_addr [of "mem s" pt va]
  by (auto simp: walkaddr_def walk_lookup uaddr_def not_le)

lemma ubyte_uloc: "uloc (mem s) pt va = Some a \<Longrightarrow> ubyte s pt va = Some (mem s a)"
  by (auto simp: ubyte_def walkaddr_uaddr uloc_def split: if_splits)

lemma copyout_nil [simp]: "copyout pt va [] s = Ok 0 s"
  by (simp add: copyout.simps)

lemma copyout_one:
  "uloc (mem s) pt va = Some a \<Longrightarrow> copyout pt va [b] s = Ok 0 (s\<lparr>mem := (mem s)(a := b)\<rparr>)"
  "cur s = Some pr \<Longrightarrow> ubad (mem s) (p_sz (procs s ! pr)) pt va \<Longrightarrow> copyout pt va [b] s = Ok (-1) s"
proof -
  note p = at_PGROUNDDOWN(1,2) [of "mem s" pt va] at_PGROUNDDOWN(3) [of va] load_pte_addr [of "mem s" pt va] walkaddr_uaddr [of pt va s] walk_lookup [of "PGROUNDDOWN va" pt s]
  have c: "chunk va (Suc 0) = Suc 0" using page_offset_less [of va] by (simp add: chunk_def)
  show "copyout pt va [b] s = Ok 0 (s\<lparr>mem := (mem s)(a := b)\<rparr>)" if "uloc (mem s) pt va = Some a"
  proof -
    have u: "uaddr (mem s) pt va \<noteq> 0" "pte_at (mem s) pt va AND PTE_W \<noteq> 0" "a = uaddr (mem s) pt va + (va - PGROUNDDOWN va)"
      using that by (auto simp: uloc_def split: if_splits)
    then have "pte_addr (mem s) pt va \<noteq> 0" by (auto simp: uaddr_def split: if_splits)
    then show ?thesis using p u c by (subst copyout.simps) (simp add: Let_def user_page_def not_le)
  qed
  show "copyout pt va [b] s = Ok (-1) s" if "cur s = Some pr" "ubad (mem s) (p_sz (procs s ! pr)) pt va"
  proof (cases "uaddr (mem s) pt va = 0")
    case True
    then have "p_sz (procs s ! pr) \<le> PGROUNDDOWN va" using that(2) by (simp add: ubad_def)
    then show ?thesis using p True that(1) by (subst copyout.simps) (simp add: Let_def user_page_def vmfault_def not_le)
  next
    case False
    then have w: "pte_at (mem s) pt va AND PTE_W = 0" using that(2) by (simp add: ubad_def)
    have "pte_addr (mem s) pt va \<noteq> 0" using False by (auto simp: uaddr_def split: if_splits)
    then show ?thesis using p False w by (subst copyout.simps) (simp add: Let_def user_page_def not_le)
  qed
qed

definition same_but :: "u32 set \<Rightarrow> memory \<Rightarrow> memory \<Rightarrow> bool" where
  "same_but L m m' \<longleftrightarrow> (\<forall>a. a \<notin> L \<longrightarrow> m' a = m a)"

text \<open>A buffer of \<open>n\<close> bytes in user memory: its bytes are different writable places, and stay so whatever is written to them (they are not part of the
  page table that maps them).\<close>
definition ubuf :: "memory \<Rightarrow> u32 \<Rightarrow> u32 \<Rightarrow> (nat \<Rightarrow> u32) \<Rightarrow> nat \<Rightarrow> bool" where
  "ubuf m pt a loc n \<longleftrightarrow> inj_on loc {..<n}
     \<and> (\<forall>m'. same_but (loc ` {..<n}) m m' \<longrightarrow> (\<forall>k < n. uloc m' pt (a + of_nat k) = Some (loc k)))"

text \<open>Behind the buffer the process may not write, whatever is written to the buffer.\<close>
definition ubuf_ends :: "memory \<Rightarrow> u32 \<Rightarrow> u32 \<Rightarrow> u32 \<Rightarrow> (nat \<Rightarrow> u32) \<Rightarrow> nat \<Rightarrow> bool" where
  "ubuf_ends m sz pt a loc n \<longleftrightarrow> (\<forall>m'. same_but (loc ` {..<n}) m m' \<longrightarrow> ubad m' sz pt (a + of_nat n))"

lemma same_but_Suc:
  "same_but ((loc \<circ> Suc) ` {..<n}) (m(loc 0 := b)) m' \<Longrightarrow> same_but (loc ` {..<Suc n}) m m'"
  unfolding same_but_def lessThan_Suc_eq_insert_0 by (auto simp: image_image)

lemma ubuf_Suc:
  assumes "ubuf m pt a loc (Suc n)"
  shows "uloc m pt a = Some (loc 0)" "ubuf (m(loc 0 := b)) pt (a + 1) (loc \<circ> Suc) n"
    "ubuf_ends m sz pt a loc (Suc n) \<Longrightarrow> ubuf_ends (m(loc 0 := b)) sz pt (a + 1) (loc \<circ> Suc) n"
    "k < n \<Longrightarrow> loc (Suc k) \<noteq> loc 0"
proof -
  have st: "\<And>m' k. same_but (loc ` {..<Suc n}) m m' \<Longrightarrow> k < Suc n \<Longrightarrow> uloc m' pt (a + of_nat k) = Some (loc k)"
    and inj: "inj_on loc {..<Suc n}" using assms by (auto simp: ubuf_def)
  show "uloc m pt a = Some (loc 0)" using st [of m 0] by (simp add: same_but_def)
  show "loc (Suc k) \<noteq> loc 0" if "k < n" using inj that by (auto simp: inj_on_def)
  have "inj_on (loc \<circ> Suc) {..<n}" using inj by (auto simp: inj_on_def)
  moreover have "uloc m' pt (a + 1 + of_nat k) = Some ((loc \<circ> Suc) k)" if "same_but ((loc \<circ> Suc) ` {..<n}) (m(loc 0 := b)) m'" "k < n" for m' k
    using st [OF same_but_Suc [OF that(1)], of "Suc k"] that(2) by (simp add: add.assoc)
  ultimately show "ubuf (m(loc 0 := b)) pt (a + 1) (loc \<circ> Suc) n" by (simp add: ubuf_def)
  show "ubuf_ends (m(loc 0 := b)) sz pt (a + 1) (loc \<circ> Suc) n" if "ubuf_ends m sz pt a loc (Suc n)"
    using that same_but_Suc by (auto simp: ubuf_ends_def add.assoc)
qed

lemma piperead_loop_copies:
  assumes "pipe_inv (pipes s pi)" "contents (pipes s pi) = bs @ rest" "i + int (length bs) \<le> n" "cur s = Some pr"
    "ubuf (mem s) (p_pagetable (procs s ! pr)) (addr + of_int i) loc (length bs)"
    "i + int (length bs) = n \<or> rest = []
       \<or> ubuf_ends (mem s) (p_sz (procs s ! pr)) (p_pagetable (procs s ! pr)) (addr + of_int i) loc (length bs)"
  shows "\<exists>m P. piperead_loop pi pr addr i n s = Ok (i + int (length bs)) (s\<lparr>mem := m, pipes := P\<rparr>) \<and> pipe_inv (P pi)
    \<and> contents (P pi) = (if i + int (length bs) = n \<or> rest = [] then rest else tl rest)
    \<and> (\<forall>k < length bs. m (loc k) = bs ! k) \<and> same_but (loc ` {..<length bs}) (mem s) m"
  using assms
proof (induction bs arbitrary: i s loc)
  case Nil
  let ?p = "pipes s pi"
  consider "i = n" | "i < n" "rest = []" | b rest' where "i < n" "rest = b # rest'" using Nil.prems(3) by (cases rest) force+
  then show ?case
  proof cases
    case 3
    have ne: "\<not> pipe_empty ?p" using pipe_empty_contents [OF Nil.prems(1)] Nil.prems(2) 3 by simp
    then have get: "pipe_inv (snd (pipe_get ?p))" "fst (pipe_get ?p) = b" "contents (snd (pipe_get ?p)) = rest'"
      using pipe_get_contents [OF Nil.prems(1) ne] Nil.prems(2) 3 by auto
    let ?s = "upd_pipe pi (\<lambda>p. snd (pipe_get p)) s"
    have "ubad (mem s) (p_sz (procs s ! pr)) (p_pagetable (procs s ! pr)) (addr + of_int i)"
      using Nil.prems(6) 3 by (simp add: ubuf_ends_def same_but_def)
    then have "copyout (p_pagetable (procs s ! pr)) (addr + of_int i) [b] ?s = Ok (-1) ?s"
      using Nil.prems(4) by (intro copyout_one(2)) (simp_all add: upd_pipe_def)
    then have "piperead_loop pi pr addr i n s = Ok i ?s"
      using 3(1) ne get(2) by (subst piperead_loop.simps) (simp add: upd_pipe_def)
    then show ?thesis using get 3
      by (intro exI [of _ "mem s"] exI [of _ "(pipes s)(pi := snd (pipe_get ?p))"]) (simp add: upd_pipe_def same_but_def fun_upd_def)
  qed (use Nil.prems pipe_empty_contents [OF Nil.prems(1)] in
      \<open>auto simp: piperead_loop.simps [of pi pr addr i n] piperead_loop.simps [of pi pr addr n n] same_but_def intro!: exI [of _ "mem s"] exI [of _ "pipes s"]\<close>)
next
  case (Cons b bs)
  let ?p = "pipes s pi" and ?pt = "p_pagetable (procs s ! pr)"
  have i: "i < n" using Cons.prems(3) by simp
  have ne: "\<not> pipe_empty ?p" using pipe_empty_contents [OF Cons.prems(1)] Cons.prems(2) by simp
  then have get: "pipe_inv (snd (pipe_get ?p))" "fst (pipe_get ?p) = b" "contents (snd (pipe_get ?p)) = bs @ rest"
    using pipe_get_contents [OF Cons.prems(1) ne] Cons.prems(2) by auto
  have ub: "ubuf (mem s) ?pt (addr + of_int i) loc (Suc (length bs))" using Cons.prems(5) by simp
  note us = ubuf_Suc(1) [OF ub] ubuf_Suc(2) [OF ub, where b = b] ubuf_Suc(3) [OF ub, where b = b] ubuf_Suc(4) [OF ub]
  let ?s = "upd_pipe pi (\<lambda>p. snd (pipe_get p)) s"
  let ?u = "?s\<lparr>mem := (mem s)(loc 0 := b)\<rparr>"
  have "copyout ?pt (addr + of_int i) [b] ?s = Ok 0 ?u" using copyout_one(1) [of ?s ?pt "addr + of_int i" "loc 0" b] us(1) by (simp add: upd_pipe_def)
  then have run: "piperead_loop pi pr addr i n s = piperead_loop pi pr addr (i + 1) n ?u"
    using i ne get(2) by (subst piperead_loop.simps) (simp add: upd_pipe_def)
  have f: "pipes ?u pi = snd (pipe_get ?p)" "cur ?u = cur s" "procs ?u = procs s" "mem ?u = (mem s)(loc 0 := b)" by (simp_all add: upd_pipe_def)
  have ai: "addr + of_int (i + 1) = addr + of_int i + 1" by simp
  have "\<exists>m P. piperead_loop pi pr addr (i + 1) n ?u = Ok (i + 1 + int (length bs)) (?u\<lparr>mem := m, pipes := P\<rparr>) \<and> pipe_inv (P pi)
    \<and> contents (P pi) = (if i + 1 + int (length bs) = n \<or> rest = [] then rest else tl rest)
    \<and> (\<forall>k < length bs. m ((loc \<circ> Suc) k) = bs ! k) \<and> same_but ((loc \<circ> Suc) ` {..<length bs}) (mem ?u) m"
  proof (rule Cons.IH, unfold f ai)
    show "pipe_inv (snd (pipe_get ?p))" "contents (snd (pipe_get ?p)) = bs @ rest" "i + 1 + int (length bs) \<le> n" "cur s = Some pr"
      using get Cons.prems(3,4) by simp_all
    show "ubuf ((mem s)(loc 0 := b)) ?pt (addr + of_int i + 1) (loc \<circ> Suc) (length bs)" by (rule us(2))
    show "i + 1 + int (length bs) = n \<or> rest = []
      \<or> ubuf_ends ((mem s)(loc 0 := b)) (p_sz (procs s ! pr)) ?pt (addr + of_int i + 1) (loc \<circ> Suc) (length bs)"
      using Cons.prems(6) us(3) by auto
  qed
  then obtain m P where r: "piperead_loop pi pr addr (i + 1) n ?u = Ok (i + 1 + int (length bs)) (?u\<lparr>mem := m, pipes := P\<rparr>)" "pipe_inv (P pi)"
    "contents (P pi) = (if i + 1 + int (length bs) = n \<or> rest = [] then rest else tl rest)"
    "\<forall>k < length bs. m (loc (Suc k)) = bs ! k" "same_but ((loc \<circ> Suc) ` {..<length bs}) ((mem s)(loc 0 := b)) m" unfolding f by auto
  have "loc 0 \<notin> (loc \<circ> Suc) ` {..<length bs}" using us(4) by (metis comp_apply imageE lessThan_iff)
  then have m0: "m (loc 0) = b" using r(5) by (simp add: same_but_def)
  have "m (loc k) = (b # bs) ! k" if "k < length (b # bs)" for k using that m0 r(4) by (cases k) auto
  moreover have "same_but (loc ` {..<length (b # bs)}) (mem s) m" using same_but_Suc [OF r(5)] by simp
  moreover have "?u\<lparr>mem := m, pipes := P\<rparr> = s\<lparr>mem := m, pipes := P\<rparr>" by (simp add: upd_pipe_def)
  ultimately show ?case using run r(1-3) by (intro exI [of _ m] exI [of _ P]) (simp add: algebra_simps)
qed

lemma kblock_not_ok: "kblock ch lk s \<noteq> Ok x t"
  by (auto simp: kblock_def split: outcome.splits)

section \<open>Properties\<close>

definition pipe_example :: pipe where
  "pipe_example = \<lparr>pi_data = replicate 512 0, pi_nread = 0xFFFFFFFF, pi_nwrite = 0xFFFFFFFF, pi_readopen = True, pi_writeopen = True\<rparr>"

lemma pipe_example_inv: "pipe_inv pipe_example" "contents pipe_example = []"
  by (simp_all add: pipe_inv_def contents_def pipe_example_def)

text \<open>(C19) The ring buffer of a pipe is a first-in first-out queue, also when the 32-bit counters \<open>nread\<close> and
  \<open>nwrite\<close> wrap around: over any sequence of byte writes and byte reads, the bytes that were in
  the pipe followed by the bytes written are the bytes read followed by the bytes still in the pipe, and at most
  \<open>PIPESIZE\<close> bytes are ever in transit.\<close>

theorem pipe_is_fifo:
  assumes "pipe_inv p" "pipeq.run ops p = (q, ws, rs)"
  shows "contents p @ ws = rs @ contents q \<and> pipe_inv q \<and> length (contents q) \<le> PIPESIZE"
  using pipeq.run_fifo [OF assms] pipeq.abs_cap by blast

theorem pipe_is_fifo_witness:
  "\<exists>q ws rs. pipeq.run [Put 7, Put 8, Get, Put 9] pipe_example = (q, ws, rs) \<and> ws = rs @ contents q"
  using pipe_is_fifo [OF pipe_example_inv(1)] pipe_example_inv(2)
  by (metis append_Nil prod.exhaust)

text \<open>(C20) \<open>pipewrite\<close> of \<open>n\<close> mapped user bytes to a pipe with an open reader: if they fit, it returns
  \<open>n\<close> with all of them appended in order and its locks released; if not, it has appended as many as fit, in order,
  and is asleep on the pipe's \<open>nwrite\<close> channel without losing a byte.\<close>

theorem pipewrite_spec:
  assumes "cur s = Some pr" "held s = {}" "pr < length (procs s)" "length (procs s) = NPROC"
    "pipe_inv (pipes s pi)" "pi_readopen (pipes s pi)" "\<not> p_killed (procs s ! pr)" "n = int (length us)"
    "\<forall>k < length us. ubyte s (p_pagetable (procs s ! pr)) (addr + of_nat k) = Some (us ! k)"
  shows "\<exists>t. pipe_inv (pipes t pi) \<and>
    (if length (contents (pipes s pi)) + length us \<le> PIPESIZE
     then pipewrite pi addr n s = Ok n t \<and> held t = {} \<and> contents (pipes t pi) = contents (pipes s pi) @ us
     else pipewrite pi addr n s = Switch t
       \<and> contents (pipes t pi) = contents (pipes s pi) @ take (PIPESIZE - length (contents (pipes s pi))) us
       \<and> p_state (procs t ! pr) = SLEEPING \<and> p_chan (procs t ! pr) = Some (CH_pwrite pi))"
proof -
  let ?s = "s\<lparr>held := {LK_pipe pi}\<rparr>"
  have us: "\<forall>k < length us. ubyte ?s (p_pagetable (procs ?s ! pr)) (addr + of_int 0 + of_nat k) = Some (us ! k)"
    using assms(9) ubyte_cong [of ?s s] by simp
  obtain t where t: "mem t = mem ?s" "pipe_inv (pipes t pi)"
    "if length (contents (pipes s pi)) + length us \<le> PIPESIZE
     then pipewrite_loop pi pr addr 0 n ?s = Ok (Inr n) t \<and> contents (pipes t pi) = contents (pipes s pi) @ us
       \<and> t = ?s\<lparr>pipes := pipes t\<rparr>
     else pipewrite_loop pi pr addr 0 n ?s = Switch t
       \<and> contents (pipes t pi) = contents (pipes s pi) @ take (PIPESIZE - length (contents (pipes s pi))) us
       \<and> p_state (procs t ! pr) = SLEEPING \<and> p_chan (procs t ! pr) = Some (CH_pwrite pi) \<and> held t = {LK_proc pr}"
    using pipewrite_loop_spec [of ?s pr pi 0 us n addr] assms us by auto
  show ?thesis
  proof (cases "length (contents (pipes s pi)) + length us \<le> PIPESIZE")
    case True
    define P where "P = pipes t"
    have te: "t = s\<lparr>held := {LK_pipe pi}, pipes := P\<rparr>" using t(3) True unfolding P_def by simp
    have np: "no_proc_lock t" "length (procs t) = NPROC" using assms(4) by (simp_all add: te no_proc_lock_def)
    have "pipewrite pi addr n s = Ok n (t\<lparr>procs := wake_all (CH_pread pi) (cur t) (procs t), held := {}\<rparr>)"
      using True t(3) assms(1,2) wakeup_run [OF np]
      by (simp add: pipewrite_def myproc_def pipewrite_finish_def te)
    then show ?thesis using True t(2,3)
      by (intro exI [of _ "t\<lparr>procs := wake_all (CH_pread pi) (cur t) (procs t), held := {}\<rparr>"]) simp
  next
    case False
    then have "pipewrite pi addr n s = Switch t"
      using t(3) assms(1,2) by (simp add: pipewrite_def myproc_def)
    then show ?thesis using False t(2,3) by (intro exI [of _ t]) simp
  qed
qed

definition proc_example :: proc where
  "proc_example = \<lparr>p_state = RUNNING, p_chan = None, p_killed = False, p_xstate = 0, p_pid = 1, p_parent = None,
     p_kstack = 0xFFFFD000, p_sz = 0, p_pagetable = 0x80051000, p_trapframe = 0x80055000,
     p_context = \<lparr>ctx_ra = 0, ctx_sp = 0, ctx_s = replicate 12 0\<rparr>, p_ofile = replicate 16 None, p_cwd = None,
     p_name = replicate 16 0\<rparr>"

definition pipe_state_example :: kstate where
  "pipe_state_example = blank_kstate\<lparr>procs := replicate 64 proc_example, cur := Some 0, pipes := (\<lambda>_. pipe_example)\<rparr>"

definition pipe_mem_example :: memory where
  "pipe_mem_example = store32 (store32 (\<lambda>_. 7) 0x80051000 0x20014801) 0x80052000 0x20014C17"

lemma pipe_mem_example_loads:
  "load32 pipe_mem_example 0x80051000 = 0x20014801" "load32 pipe_mem_example 0x80052000 = 0x20014C17"
  "pipe_mem_example 0x80053000 = 7"
  by (simp_all add: pipe_mem_example_def load32_def store32_def)

lemma ubyte_example: "mem s = pipe_mem_example \<Longrightarrow> ubyte s 0x80051000 0 = Some 7"
  using pipe_mem_example_loads
  by (simp add: ubyte_def walkaddr_def walk_def PGROUNDDOWN_def PTE2PA_def PX_def)

theorem pipewrite_spec_witness:
  "\<exists>t. pipewrite 0x80056000 0 1 (pipe_state_example\<lparr>mem := pipe_mem_example\<rparr>) = Ok 1 t \<and> contents (pipes t 0x80056000) = [7]"
  using pipewrite_spec [of "pipe_state_example\<lparr>mem := pipe_mem_example\<rparr>" 0 "0x80056000" 1 "[7]" 0] pipe_example_inv
    ubyte_example [of "pipe_state_example\<lparr>mem := pipe_mem_example\<rparr>"]
  by (auto simp: pipe_state_example_def pipe_example_def proc_example_def blank_kstate_def)

text \<open>(C21) \<open>piperead\<close> delivers the bytes of the pipe.  On an empty pipe with a writer it sleeps, or returns -1 when the process has been killed; the pipe and
  the memory are as before.  Otherwise let \<open>bs\<close> be the bytes at the front of the pipe up to \<open>n\<close>, up to the end of the pipe or up to
  the first place in the reader's buffer that the process may not write.  It returns their number, the process finds them in its
  buffer in order, no other memory has changed, and the pipe holds the rest; but when it stopped at a place that the process may not write, the next byte of
  the pipe has been taken out as well and is lost.\<close>

theorem piperead_spec:
  assumes "cur s = Some pr" "held s = {}" "pr < length (procs s)" "length (procs s) = NPROC" "pipe_inv (pipes s pi)"
  shows "(contents (pipes s pi) = [] \<and> pi_writeopen (pipes s pi) \<longrightarrow>
      (\<exists>t. pipes t = pipes s \<and> mem t = mem s \<and>
        (if p_killed (procs s ! pr) then piperead pi addr n s = Ok (-1) t \<and> held t = {}
         else piperead pi addr n s = Switch t \<and> p_state (procs t ! pr) = SLEEPING \<and> p_chan (procs t ! pr) = Some (CH_pread pi))))
    \<and> (\<forall>bs rest loc. (contents (pipes s pi) \<noteq> [] \<or> \<not> pi_writeopen (pipes s pi)) \<and> contents (pipes s pi) = bs @ rest \<and> int (length bs) \<le> n
        \<and> ubuf (mem s) (p_pagetable (procs s ! pr)) addr loc (length bs)
        \<and> (int (length bs) = n \<or> rest = [] \<or> ubuf_ends (mem s) (p_sz (procs s ! pr)) (p_pagetable (procs s ! pr)) addr loc (length bs)) \<longrightarrow>
      (\<exists>t. piperead pi addr n s = Ok (int (length bs)) t \<and> held t = {} \<and> pipe_inv (pipes t pi)
        \<and> contents (pipes t pi) = (if int (length bs) = n \<or> rest = [] then rest else tl rest)
        \<and> (\<forall>k < length bs. ubyte t (p_pagetable (procs s ! pr)) (addr + of_nat k) = Some (bs ! k))
        \<and> same_but (loc ` {..<length bs}) (mem s) (mem t)))"
proof (intro conjI allI impI)
  let ?s = "s\<lparr>held := {LK_pipe pi}\<rparr>" and ?pt = "p_pagetable (procs s ! pr)"
  have start: "piperead pi addr n s = piperead_wait pi pr addr n ?s" using assms(1,2) by (simp add: piperead_def myproc_def)
  have em: "pipe_empty (pipes s pi) \<longleftrightarrow> contents (pipes s pi) = []" by (rule pipe_empty_contents [OF assms(5)])
  assume w: "contents (pipes s pi) = [] \<and> pi_writeopen (pipes s pi)"
  show "\<exists>t. pipes t = pipes s \<and> mem t = mem s \<and>
        (if p_killed (procs s ! pr) then piperead pi addr n s = Ok (-1) t \<and> held t = {}
         else piperead pi addr n s = Switch t \<and> p_state (procs t ! pr) = SLEEPING \<and> p_chan (procs t ! pr) = Some (CH_pread pi))"
  proof (cases "p_killed (procs s ! pr)")
    case True
    then have "piperead pi addr n s = Ok (-1) s" using w em assms(2) by (simp add: start piperead_wait_def killed_run)
    then show ?thesis using True assms(2) by auto
  next
    case False
    then have "piperead pi addr n s = kblock (CH_pread pi) (LK_pipe pi) ?s" using w em by (simp add: start piperead_wait_def killed_run)
    then have "piperead pi addr n s = Switch (s\<lparr>held := {LK_proc pr},
        procs := (procs s)[pr := (procs s ! pr)\<lparr>p_chan := Some (CH_pread pi), p_state := SLEEPING\<rparr>]\<rparr>)"
      using assms(1,3) kblock_run [of ?s pr "LK_pipe pi" "CH_pread pi"] by simp
    then show ?thesis using False assms(3) by (intro exI [of _ "s\<lparr>held := {LK_proc pr},
        procs := (procs s)[pr := (procs s ! pr)\<lparr>p_chan := Some (CH_pread pi), p_state := SLEEPING\<rparr>]\<rparr>"]) simp
  qed
next
  fix bs rest loc
  let ?s = "s\<lparr>held := {LK_pipe pi}\<rparr>" and ?pt = "p_pagetable (procs s ! pr)"
  assume h: "(contents (pipes s pi) \<noteq> [] \<or> \<not> pi_writeopen (pipes s pi)) \<and> contents (pipes s pi) = bs @ rest \<and> int (length bs) \<le> n
    \<and> ubuf (mem s) ?pt addr loc (length bs) \<and> (int (length bs) = n \<or> rest = [] \<or> ubuf_ends (mem s) (p_sz (procs s ! pr)) ?pt addr loc (length bs))"
  have "\<exists>m P. piperead_loop pi pr addr 0 n ?s = Ok (0 + int (length bs)) (?s\<lparr>mem := m, pipes := P\<rparr>) \<and> pipe_inv (P pi)
    \<and> contents (P pi) = (if 0 + int (length bs) = n \<or> rest = [] then rest else tl rest)
    \<and> (\<forall>k < length bs. m (loc k) = bs ! k) \<and> same_but (loc ` {..<length bs}) (mem ?s) m"
    by (rule piperead_loop_copies) (use h assms(1,5) in simp_all)
  then obtain m P where r: "piperead_loop pi pr addr 0 n ?s = Ok (int (length bs)) (?s\<lparr>mem := m, pipes := P\<rparr>)" "pipe_inv (P pi)"
    "contents (P pi) = (if int (length bs) = n \<or> rest = [] then rest else tl rest)" "\<forall>k < length bs. m (loc k) = bs ! k"
    "same_but (loc ` {..<length bs}) (mem s) m" by auto
  let ?u = "?s\<lparr>mem := m, pipes := P\<rparr>"
  let ?t = "?u\<lparr>procs := wake_all (CH_pwrite pi) (cur ?u) (procs ?u), held := {}\<rparr>"
  have np: "no_proc_lock ?u" "length (procs ?u) = NPROC" using assms(4) by (simp_all add: no_proc_lock_def)
  have "\<not> (pipe_empty (pipes s pi) \<and> pi_writeopen (pipes s pi))" using h pipe_empty_contents [OF assms(5)] by auto
  then have "piperead pi addr n s = Ok (int (length bs)) ?t"
    using r(1) wakeup_run [OF np, of "CH_pwrite pi"] assms(1,2) by (auto simp: piperead_def myproc_def piperead_wait_def)
  moreover have "ubyte ?t ?pt (addr + of_nat k) = Some (bs ! k)" if "k < length bs" for k
  proof -
    have "uloc m ?pt (addr + of_nat k) = Some (loc k)" using h r(5) that by (simp add: ubuf_def)
    then show ?thesis using ubyte_uloc [of ?t ?pt "addr + of_nat k" "loc k"] r(4) that by simp
  qed
  ultimately show "\<exists>t. piperead pi addr n s = Ok (int (length bs)) t \<and> held t = {} \<and> pipe_inv (pipes t pi)
        \<and> contents (pipes t pi) = (if int (length bs) = n \<or> rest = [] then rest else tl rest)
        \<and> (\<forall>k < length bs. ubyte t ?pt (addr + of_nat k) = Some (bs ! k)) \<and> same_but (loc ` {..<length bs}) (mem s) (mem t)"
    using r(2,3,5) by (intro exI [of _ ?t]) simp
qed

definition pipe_two_example :: kstate where
  "pipe_two_example = pipe_state_example\<lparr>mem := pipe_mem_example,
     pipes := (\<lambda>_. pipe_put 9 (pipe_put 8 pipe_example))\<rparr>"

lemma pipe_two_example_inv: "pipe_inv (pipes pipe_two_example pi)" "contents (pipes pipe_two_example pi) = [8, 9]"
proof -
  have "\<not> pipe_full pipe_example" by (simp add: pipe_full_def pipe_example_def)
  then have a: "pipe_inv (pipe_put 8 pipe_example)" "contents (pipe_put 8 pipe_example) = [8]"
    using pipe_put_contents [of pipe_example 8] pipe_example_inv by auto
  moreover have f: "\<not> pipe_full (pipe_put 8 pipe_example)" by (simp add: pipe_full_def pipe_put_def pipe_example_def)
  ultimately show "pipe_inv (pipes pipe_two_example pi)" "contents (pipes pipe_two_example pi) = [8, 9]"
    using pipe_put_contents [OF a(1) f, of 9] by (simp_all add: pipe_two_example_def)
qed

text \<open>The last byte of the only page of the process, and the byte behind it.\<close>
lemma ubuf_example:
  "ubuf pipe_mem_example 0x80051000 0xFFF (\<lambda>_. 0x80053FFF) 1" "ubuf_ends pipe_mem_example 0 0x80051000 0xFFF (\<lambda>_. 0x80053FFF) 1"
proof -
  have l: "load32 m' 0x80051000 = 0x20014801 \<and> load32 m' 0x80052000 = 0x20014C17 \<and> load32 m' 0x80052004 = 0x07070707"
    if m: "same_but ((\<lambda>_. 0x80053FFF) ` {..<1 :: nat}) pipe_mem_example m'" for m'
  proof -
    have e: "m' a = pipe_mem_example a" if "a \<noteq> 0x80053FFF" for a using m that by (auto simp: same_but_def)
    have "load32 m' x = load32 pipe_mem_example x" if "x \<in> {0x80051000, 0x80052000, 0x80052004}" for x
      using that by (intro load32_cong) (auto simp: e)
    moreover have "load32 pipe_mem_example 0x80052004 = 0x07070707" by (simp add: pipe_mem_example_def load32_def store32_def)
    ultimately show ?thesis using pipe_mem_example_loads by simp
  qed
  have p: "PX (Suc 0) 0xFFF = 0" "PX 0 0xFFF = 0" "PX (Suc 0) 0x1000 = 0" "PX 0 0x1000 = 1" by (simp_all add: PX_def)
  note d = uloc_def ubad_def uaddr_def pte_at_def pte_addr_def pde_at_def slot_def PTE2PA_def PGROUNDDOWN_def
  show "ubuf pipe_mem_example 0x80051000 0xFFF (\<lambda>_. 0x80053FFF) 1" using l p by (auto simp: ubuf_def inj_on_def d)
  show "ubuf_ends pipe_mem_example 0 0x80051000 0xFFF (\<lambda>_. 0x80053FFF) 1" using l p by (auto simp: ubuf_ends_def d)
qed

text \<open>Two bytes are asked for and there is room for one: the first is delivered, the second is lost.\<close>
theorem piperead_spec_witness:
  "\<exists>t. piperead 0x80056000 0xFFF 2 pipe_two_example = Ok 1 t \<and> contents (pipes pipe_two_example 0x80056000) = [8, 9]
     \<and> ubyte t 0x80051000 0xFFF = Some 8 \<and> contents (pipes t 0x80056000) = []"
proof -
  let ?pi = "0x80056000 :: u32"
  have c: "contents (pipes pipe_two_example ?pi) = [8, 9]" by (rule pipe_two_example_inv)
  have f: "mem pipe_two_example = pipe_mem_example" "p_sz (procs pipe_two_example ! 0) = 0" "p_pagetable (procs pipe_two_example ! 0) = 0x80051000"
    by (simp_all add: pipe_two_example_def pipe_state_example_def proc_example_def)
  have "\<exists>t. piperead ?pi 0xFFF 2 pipe_two_example = Ok (int (length [8 :: u8])) t \<and> held t = {} \<and> pipe_inv (pipes t ?pi)
        \<and> contents (pipes t ?pi) = (if int (length [8 :: u8]) = 2 \<or> [9 :: u8] = [] then [9] else tl [9])
        \<and> (\<forall>k < length [8 :: u8]. ubyte t 0x80051000 (0xFFF + of_nat k) = Some ([8] ! k))
        \<and> same_but ((\<lambda>_. 0x80053FFF) ` {..<length [8 :: u8]}) (mem pipe_two_example) (mem t)"
    using piperead_spec [of pipe_two_example 0 ?pi "0xFFF" 2, THEN conjunct2, rule_format, of "[8]" "[9]" "\<lambda>_. 0x80053FFF"]
      c ubuf_example pipe_two_example_inv unfolding f
    by (simp add: pipe_two_example_def pipe_state_example_def blank_kstate_def proc_example_def)
  then show ?thesis using c by auto
qed

end
