(* ===== verification/KV_Sleeplock.thy ===== *)
theory KV_Sleeplock
  imports KV_Pipe
begin

text \<open>
  Sleep locks (kernel/sleeplock.c), the long-term locks of buffers and inodes.  A sleep lock is named by the
  object that contains it; its spin lock \<open>lk->lk\<close> is \<open>LK_sleep\<close> of that name.
\<close>

definition sl_get :: "sleeplk \<Rightarrow> kstate \<Rightarrow> sleeplock" where
  "sl_get sl s = (case sl of SL_buf i \<Rightarrow> b_lock (bufs s ! i) | SL_inode i \<Rightarrow> i_lock (inodes s ! i))"

definition sl_upd :: "sleeplk \<Rightarrow> (sleeplock \<Rightarrow> sleeplock) \<Rightarrow> kstate \<Rightarrow> kstate" where
  "sl_upd sl f s = (case sl of
       SL_buf i \<Rightarrow> s\<lparr>bufs := (bufs s)[i := (bufs s ! i)\<lparr>b_lock := f (b_lock (bufs s ! i))\<rparr>]\<rparr>
     | SL_inode i \<Rightarrow> s\<lparr>inodes := (inodes s)[i := (inodes s ! i)\<lparr>i_lock := f (i_lock (inodes s ! i))\<rparr>]\<rparr>)"

text \<open>\<open>myproc()->pid\<close>.\<close>
definition mypid :: "u32 K" where
  "mypid = kbind (kget (\<lambda>s. map_option (\<lambda>i. p_pid (procs s ! i)) (cur s))) (\<lambda>me. case me of
       None \<Rightarrow> kpanic ''kerneltrap''
     | Some pid \<Rightarrow> kret pid)"

definition initsleeplock :: "sleeplk \<Rightarrow> unit K" where
  "initsleeplock sl = kmod (sl_upd sl (\<lambda>l. l\<lparr>sl_locked := False, sl_pid := 0\<rparr>))"

text \<open>\<open>acquiresleep\<close> from its loop on, with \<open>lk->lk\<close> held; a process that slept enters it again.\<close>
definition acquiresleep_loop :: "sleeplk \<Rightarrow> unit K" where
  "acquiresleep_loop sl =
     kbind (kget (\<lambda>s. sl_locked (sl_get sl s))) (\<lambda>locked.
     if locked then kblock (CH_sleep sl) (LK_sleep sl)
     else kdo [
       kmod (sl_upd sl (\<lambda>l. l\<lparr>sl_locked := True\<rparr>)),
       kbind mypid (\<lambda>pid. kmod (sl_upd sl (\<lambda>l. l\<lparr>sl_pid := pid\<rparr>))),
       release (LK_sleep sl)])"

definition acquiresleep :: "sleeplk \<Rightarrow> unit K" where
  "acquiresleep sl = kbind (acquire (LK_sleep sl)) (\<lambda>_. acquiresleep_loop sl)"

definition acquiresleep_resume :: "sleeplk \<Rightarrow> unit K" where
  "acquiresleep_resume sl = kbind (sleep_resume (LK_sleep sl)) (\<lambda>_. acquiresleep_loop sl)"

definition releasesleep :: "sleeplk \<Rightarrow> unit K" where
  "releasesleep sl = kdo [
     acquire (LK_sleep sl),
     kmod (sl_upd sl (\<lambda>l. l\<lparr>sl_locked := False, sl_pid := 0\<rparr>)),
     wakeup (CH_sleep sl),
     release (LK_sleep sl)]"

definition holdingsleep :: "sleeplk \<Rightarrow> bool K" where
  "holdingsleep sl =
     kbind (acquire (LK_sleep sl)) (\<lambda>_.
     kbind (kget (\<lambda>s. sl_get sl s)) (\<lambda>l.
     kbind (if sl_locked l then kbind mypid (\<lambda>pid. kret (sl_pid l = pid)) else kret False) (\<lambda>r.
     kbind (release (LK_sleep sl)) (\<lambda>_. kret r))))"

section \<open>Running in a process\<close>

text \<open>The running process of the calling hart, outside every critical section.\<close>
definition calm :: "u32 \<Rightarrow> kstate \<Rightarrow> bool" where
  "calm pid s \<longleftrightarrow> held s = {} \<and> length (procs s) = NPROC \<and>
     (\<exists>p. cur s = Some p \<and> p < NPROC \<and> p_pid (procs s ! p) = pid)"

lemma sl_upd_fields [simp]:
  "held (sl_upd sl f s) = held s" "cur (sl_upd sl f s) = cur s" "procs (sl_upd sl f s) = procs s"
  by (cases sl; simp add: sl_upd_def)+

lemma sl_upd_held [simp]:
  "sl_upd sl f (s\<lparr>held := h\<rparr>) = (sl_upd sl f s)\<lparr>held := h\<rparr>"
  "sl_upd sl f (s\<lparr>procs := q\<rparr>) = (sl_upd sl f s)\<lparr>procs := q\<rparr>"
  by (cases sl; simp add: sl_upd_def)+

lemma sl_get_held [simp]: "sl_get sl (s\<lparr>held := h\<rparr>) = sl_get sl s"
  by (cases sl) (simp_all add: sl_get_def)

lemma sl_upd_twice [simp]: "sl_upd sl f (sl_upd sl g s) = sl_upd sl (f \<circ> g) s"
proof (cases sl)
  case (SL_buf i)
  then show ?thesis by (cases "i < length (bufs s)") (simp_all add: sl_upd_def list_update_beyond not_less)
next
  case (SL_inode i)
  then show ?thesis by (cases "i < length (inodes s)") (simp_all add: sl_upd_def list_update_beyond not_less)
qed

lemma held_same [simp]: "held s = h \<Longrightarrow> s\<lparr>held := h\<rparr> = s"
  by auto

lemma mypid_run: "calm pid s \<Longrightarrow> mypid s = Ok pid s"
  by (auto simp: calm_def mypid_def)

lemma acquiresleep_run:
  assumes "calm pid s" "\<not> sl_locked (sl_get sl s)"
  shows "acquiresleep sl s = Ok () (sl_upd sl (\<lambda>l. l\<lparr>sl_locked := True, sl_pid := pid\<rparr>) s)"
  using assms by (auto simp: acquiresleep_def acquiresleep_loop_def mypid_def calm_def comp_def)

lemma holdingsleep_run:
  assumes "calm pid s"
  shows "holdingsleep sl s = Ok (sl_locked (sl_get sl s) \<and> sl_pid (sl_get sl s) = pid) s"
  using assms by (auto simp: holdingsleep_def mypid_def calm_def)

lemma releasesleep_run:
  assumes "calm pid s"
  shows "releasesleep sl s = Ok () ((sl_upd sl (\<lambda>l. l\<lparr>sl_locked := False, sl_pid := 0\<rparr>) s)
    \<lparr>procs := wake_all (CH_sleep sl) (cur s) (procs s)\<rparr>)"
proof -
  let ?u = "(sl_upd sl (\<lambda>l. l\<lparr>sl_locked := False, sl_pid := 0\<rparr>) s)\<lparr>held := {LK_sleep sl}\<rparr>"
  have "no_proc_lock ?u" "length (procs ?u) = NPROC" using assms by (auto simp: no_proc_lock_def calm_def)
  note W = wakeup_run [OF this, of "CH_sleep sl"]
  have h: "held s = {}" using assms by (simp add: calm_def)
  show ?thesis using W h by (simp add: releasesleep_def)
qed

lemma woken_pid [simp]: "p_pid (woken ch me i p) = p_pid p"
  by (simp add: woken_def)

lemma calm_wake: "calm pid s \<Longrightarrow> calm pid (s\<lparr>procs := wake_all ch me (procs s)\<rparr>)"
  by (auto simp: calm_def wake_all_nth)

end
