(* ===== verification/KV_Bio.thy ===== *)
theory KV_Bio
  imports KV_Sleeplock
begin

text \<open>
  The buffer cache (kernel/bio.c): \<open>NBUF\<close> buffers in a doubly linked list, most recently used first.  A buffer is
  its index; index \<open>NBUF\<close> is the list head \<open>bcache.head\<close>.  The scans of \<open>bget\<close> follow the
  list with a bound of \<open>NBUF + 1\<close> visits, which a well formed list never exhausts.

  \<open>spi_rb\<close> and \<open>spi_wb\<close> appear here as what they do to the card when it answers every command;
  every block written is recorded in \<open>wtrace\<close> in the order in which it reaches the card.
  The driver itself is modelled in \<open>KV_Sdcard\<close>.
\<close>

section \<open>Operations\<close>

definition upd_buf :: "nat \<Rightarrow> (buf \<Rightarrow> buf) \<Rightarrow> kstate \<Rightarrow> kstate" where
  "upd_buf i f s = s\<lparr>bufs := (bufs s)[i := f (bufs s ! i)]\<rparr>"

definition disk_read :: "u32 \<Rightarrow> u8 list K" where
  "disk_read blockno = kget (\<lambda>s. disk s blockno)"

definition disk_write :: "u32 \<Rightarrow> u8 list \<Rightarrow> unit K" where
  "disk_write blockno data =
     kmod (\<lambda>s. s\<lparr>disk := (disk s)(blockno := data), wtrace := wtrace s @ [(blockno, data)]\<rparr>)"

text \<open>Push \<open>b\<close> in front of the list, as \<open>binit\<close> and \<open>brelse\<close> do.\<close>
definition lru_push :: "nat \<Rightarrow> unit K" where
  "lru_push b = kdo [
     kmod (\<lambda>s. upd_buf b (\<lambda>x. x\<lparr>b_next := b_next (bufs s ! NBUF)\<rparr>) s),
     kmod (upd_buf b (\<lambda>x. x\<lparr>b_prev := NBUF\<rparr>)),
     kmod (\<lambda>s. upd_buf (b_next (bufs s ! NBUF)) (\<lambda>x. x\<lparr>b_prev := b\<rparr>) s),
     kmod (upd_buf NBUF (\<lambda>x. x\<lparr>b_next := b\<rparr>))]"

text \<open>Take \<open>b\<close> out of the list, the first two pointer updates of \<open>brelse\<close>.\<close>
definition lru_unlink :: "nat \<Rightarrow> unit K" where
  "lru_unlink b = kdo [
     kmod (\<lambda>s. upd_buf (b_next (bufs s ! b)) (\<lambda>x. x\<lparr>b_prev := b_prev (bufs s ! b)\<rparr>) s),
     kmod (\<lambda>s. upd_buf (b_prev (bufs s ! b)) (\<lambda>x. x\<lparr>b_next := b_next (bufs s ! b)\<rparr>) s)]"

definition binit :: "unit K" where
  "binit = kdo [
     kmod (upd_buf NBUF (\<lambda>x. x\<lparr>b_prev := NBUF\<rparr>)),
     kmod (upd_buf NBUF (\<lambda>x. x\<lparr>b_next := NBUF\<rparr>)),
     kfor [0..<NBUF] (\<lambda>b. kdo [lru_push b, initsleeplock (SL_buf b)])]"

primrec find_cached :: "nat \<Rightarrow> nat \<Rightarrow> u32 \<Rightarrow> u32 \<Rightarrow> nat option K" where
  "find_cached 0 b dev blockno = kdiverge"
| "find_cached (Suc n) b dev blockno =
     (if b = NBUF then kret None
      else kbind (kget (\<lambda>s. bufs s ! b)) (\<lambda>x.
        if b_dev x = dev \<and> b_blockno x = blockno then kret (Some b)
        else find_cached n (b_next x) dev blockno))"

primrec find_unused :: "nat \<Rightarrow> nat \<Rightarrow> nat option K" where
  "find_unused 0 b = kdiverge"
| "find_unused (Suc n) b =
     (if b = NBUF then kret None
      else kbind (kget (\<lambda>s. bufs s ! b)) (\<lambda>x.
        if b_refcnt x = 0 then kret (Some b) else find_unused n (b_prev x)))"

definition bget :: "u32 \<Rightarrow> u32 \<Rightarrow> nat K" where
  "bget dev blockno =
     kbind (acquire LK_bcache) (\<lambda>_.
     kbind (kget (\<lambda>s. b_next (bufs s ! NBUF))) (\<lambda>first.
     kbind (find_cached (NBUF + 1) first dev blockno) (\<lambda>r. case r of
       Some b \<Rightarrow>
         kbind (kmod (upd_buf b (\<lambda>x. x\<lparr>b_refcnt := b_refcnt x + 1\<rparr>))) (\<lambda>_.
         kbind (release LK_bcache) (\<lambda>_.
         kbind (acquiresleep (SL_buf b)) (\<lambda>_. kret b)))
     | None \<Rightarrow>
         kbind (kget (\<lambda>s. b_prev (bufs s ! NBUF))) (\<lambda>lst.
         kbind (find_unused (NBUF + 1) lst) (\<lambda>r. case r of
           Some b \<Rightarrow>
             kbind (kmod (upd_buf b (\<lambda>x. x\<lparr>b_dev := dev, b_blockno := blockno, b_valid := False, b_refcnt := 1\<rparr>))) (\<lambda>_.
             kbind (release LK_bcache) (\<lambda>_.
             kbind (acquiresleep (SL_buf b)) (\<lambda>_. kret b)))
         | None \<Rightarrow> kpanic ''bget: no buffers'')))))"

definition bread :: "u32 \<Rightarrow> u32 \<Rightarrow> nat K" where
  "bread dev blockno =
     kbind (bget dev blockno) (\<lambda>b.
     kbind (kget (\<lambda>s. bufs s ! b)) (\<lambda>x.
     kbind (kwhen (\<not> b_valid x)
       (kbind (disk_read (b_blockno x)) (\<lambda>d. kdo [
          kmod (upd_buf b (\<lambda>x. x\<lparr>b_data := d\<rparr>)),
          kmod (upd_buf b (\<lambda>x. x\<lparr>b_valid := True\<rparr>))]))) (\<lambda>_.
     kret b)))"

definition bwrite :: "nat \<Rightarrow> unit K" where
  "bwrite b =
     kbind (holdingsleep (SL_buf b)) (\<lambda>h.
     if \<not> h then kpanic ''bwrite''
     else kbind (kget (\<lambda>s. bufs s ! b)) (\<lambda>x. disk_write (b_blockno x) (b_data x)))"

definition brelse :: "nat \<Rightarrow> unit K" where
  "brelse b =
     kbind (holdingsleep (SL_buf b)) (\<lambda>h.
     if \<not> h then kpanic ''brelse''
     else kdo [
       releasesleep (SL_buf b),
       acquire LK_bcache,
       kmod (upd_buf b (\<lambda>x. x\<lparr>b_refcnt := b_refcnt x - 1\<rparr>)),
       kbind (kget (\<lambda>s. b_refcnt (bufs s ! b))) (\<lambda>n. kwhen (n = 0) (kdo [lru_unlink b, lru_push b])),
       release LK_bcache])"

definition bpin :: "nat \<Rightarrow> unit K" where
  "bpin b = kdo [
     acquire LK_bcache,
     kmod (upd_buf b (\<lambda>x. x\<lparr>b_refcnt := b_refcnt x + 1\<rparr>)),
     release LK_bcache]"

definition bunpin :: "nat \<Rightarrow> unit K" where
  "bunpin b = kdo [
     acquire LK_bcache,
     kmod (upd_buf b (\<lambda>x. x\<lparr>b_refcnt := b_refcnt x - 1\<rparr>)),
     release LK_bcache]"

section \<open>The list through the buffers\<close>

text \<open>\<open>path nx pv a xs b\<close>: from \<open>a\<close> the next pointers run through \<open>xs\<close> to \<open>b\<close>, and the previous
  pointers run back.\<close>

primrec path :: "(nat \<Rightarrow> nat) \<Rightarrow> (nat \<Rightarrow> nat) \<Rightarrow> nat \<Rightarrow> nat list \<Rightarrow> nat \<Rightarrow> bool" where
  "path nx pv a [] b \<longleftrightarrow> nx a = b \<and> pv b = a"
| "path nx pv a (x # xs) b \<longleftrightarrow> nx a = x \<and> pv x = a \<and> path nx pv x xs b"

lemma path_append: "path nx pv a (xs @ y # ys) b \<longleftrightarrow> path nx pv a xs y \<and> path nx pv y ys b"
  by (induction xs arbitrary: a) auto

lemma path_cong:
  assumes "\<And>x. x \<in> insert a (set xs) \<Longrightarrow> nx' x = nx x" "\<And>x. x \<in> insert b (set xs) \<Longrightarrow> pv' x = pv x"
  shows "path nx' pv' a xs b = path nx pv a xs b"
  using assms by (induction xs arbitrary: a) auto

lemma path_next: "path nx pv a xs b \<Longrightarrow> nx a = hd (xs @ [b])"
  by (cases xs) auto

lemma path_prev: "path nx pv a xs b \<Longrightarrow> pv b = last (a # xs)"
  by (induction xs arbitrary: a) auto

lemma path_join:
  assumes "path nx pv a xs c" "path nx pv c ys b" "distinct xs" "distinct ys" "a \<notin> set xs" "b \<notin> set ys"
    "c \<notin> set xs" "c \<notin> set ys" "set xs \<inter> set ys = {}" "a \<notin> set ys" "b \<notin> set xs" "c \<noteq> a" "c \<noteq> b"
  shows "path (nx(pv c := nx c)) (pv(nx c := pv c)) a (xs @ ys) b"
proof -
  let ?p = "last (a # xs)" and ?n = "hd (ys @ [b])"
  have p: "pv c = ?p" and n: "nx c = ?n" using path_prev [OF assms(1)] path_next [OF assms(2)] by auto
  show ?thesis
  proof (cases ys)
    case Nil
    then have n': "?n = b" by simp
    show ?thesis
    proof (cases xs rule: rev_cases)
      case Nil
      then show ?thesis using p n n' \<open>ys = []\<close> by simp
    next
      case (snoc us u)
      then have "path nx pv a us u" using assms(1) path_append [of nx pv a us u "[]" c] by simp
      then have "path (nx(u := b)) (pv(b := u)) a us u"
        using assms snoc by (subst path_cong [of a us _ nx u _ pv]) auto
      then show ?thesis using p n n' snoc \<open>ys = []\<close> path_append [of _ _ a us u "[]" b] by simp
    qed
  next
    case (Cons y zs)
    then have n': "?n = y" by simp
    have yz: "path nx pv y zs b" using assms(2) Cons by simp
    show ?thesis
    proof (cases xs rule: rev_cases)
      case Nil
      have "path (nx(a := y)) (pv(y := a)) y zs b"
        using assms Cons yz by (subst path_cong [of y zs _ nx b _ pv]) auto
      then show ?thesis using p n n' Nil Cons by simp
    next
      case (snoc us u)
      then have "path nx pv a us u" using assms(1) path_append [of nx pv a us u "[]" c] by simp
      then have "path (nx(u := y)) (pv(y := u)) a us u"
        using assms snoc Cons by (subst path_cong [of a us _ nx u _ pv]) auto
      moreover have "path (nx(u := y)) (pv(y := u)) y zs b"
        using assms Cons snoc yz by (subst path_cong [of y zs _ nx b _ pv]) auto
      ultimately show ?thesis
        using p n n' snoc Cons path_append [of _ _ a us u "y # zs" b] by simp
    qed
  qed
qed


lemma path_push:
  assumes "path nx pv h xs h" "b \<notin> set xs" "b \<noteq> h" "h \<notin> set xs" "distinct xs"
  shows "path (nx(b := nx h, h := b)) (pv(b := h, nx h := b)) h (b # xs) h"
proof (cases xs)
  case Nil
  then show ?thesis using assms by auto
next
  case (Cons y ys)
  have "path (nx(b := nx h, h := b)) (pv(b := h, nx h := b)) y ys h = path nx pv y ys h"
    using assms Cons by (intro path_cong) auto
  then show ?thesis using assms Cons by auto
qed

definition nexts :: "buf list \<Rightarrow> nat \<Rightarrow> nat" where "nexts bs i = b_next (bs ! i)"

definition prevs :: "buf list \<Rightarrow> nat \<Rightarrow> nat" where "prevs bs i = b_prev (bs ! i)"

text \<open>The circular list through the head holds exactly the buffers \<open>xs\<close>, most recently used first.\<close>
definition lru :: "buf list \<Rightarrow> nat list \<Rightarrow> bool" where
  "lru bs xs \<longleftrightarrow> length bs = Suc NBUF \<and> distinct xs \<and> set xs \<subseteq> {..<NBUF} \<and> path (nexts bs) (prevs bs) NBUF xs NBUF"

text \<open>A buffer without its links.\<close>
definition payload :: "buf \<Rightarrow> buf" where "payload x = x\<lparr>b_prev := 0, b_next := 0\<rparr>"

lemma payload_fields:
  "payload x = payload y \<Longrightarrow> b_valid x = b_valid y" "payload x = payload y \<Longrightarrow> b_dev x = b_dev y"
  "payload x = payload y \<Longrightarrow> b_blockno x = b_blockno y" "payload x = payload y \<Longrightarrow> b_lock x = b_lock y"
  "payload x = payload y \<Longrightarrow> b_refcnt x = b_refcnt y" "payload x = payload y \<Longrightarrow> b_data x = b_data y"
  by (cases x; cases y; simp add: payload_def)+

lemma payload_links [simp]:
  "payload (x\<lparr>b_prev := p\<rparr>) = payload x" "payload (x\<lparr>b_next := n\<rparr>) = payload x"
  by (simp_all add: payload_def)

lemma links_upd:
  "i < length bs \<Longrightarrow> nexts (bs[i := x]) = (nexts bs)(i := b_next x)"
  "i < length bs \<Longrightarrow> prevs (bs[i := x]) = (prevs bs)(i := b_prev x)"
  by (auto simp: nexts_def prevs_def nth_list_update)

lemma map_payload_upd: "payload x = payload (bs ! i) \<Longrightarrow> map payload (bs[i := x]) = map payload bs"
  by (metis list_update_id map_update)

lemma lru_head_link:
  assumes "lru bs xs" shows "nexts bs NBUF < Suc NBUF" "prevs bs NBUF < Suc NBUF"
proof -
  have p: "path (nexts bs) (prevs bs) NBUF xs NBUF" and sub: "set xs \<subseteq> {..<NBUF}" using assms by (auto simp: lru_def)
  show "nexts bs NBUF < Suc NBUF" using path_next [OF p] sub by (cases xs) auto
  show "prevs bs NBUF < Suc NBUF" using path_prev [OF p] sub by (cases xs rule: rev_cases) auto
qed

lemma upd_buf_run [simp]: "bufs (upd_buf i f s) = (bufs s)[i := f (bufs s ! i)]"
  by (simp add: upd_buf_def)

lemma lru_push_run:
  assumes lru: "lru (bufs s) xs" and b: "b < NBUF" "b \<notin> set xs"
  shows "\<exists>bs. lru_push b s = Ok () (s\<lparr>bufs := bs\<rparr>) \<and> lru bs (b # xs) \<and> map payload bs = map payload (bufs s)"
proof -
  let ?h = "nexts (bufs s) NBUF"
  let ?x = "(bufs s ! b)\<lparr>b_next := ?h, b_prev := NBUF\<rparr>"
  let ?b1 = "(bufs s)[b := ?x]"
  let ?b2 = "?b1[?h := (?b1 ! ?h)\<lparr>b_prev := b\<rparr>]"
  let ?b3 = "?b2[NBUF := (?b2 ! NBUF)\<lparr>b_next := b\<rparr>]"
  have len: "length (bufs s) = Suc NBUF" and dx: "distinct xs" "set xs \<subseteq> {..<NBUF}"
    and p: "path (nexts (bufs s)) (prevs (bufs s)) NBUF xs NBUF" using lru by (auto simp: lru_def)
  have h: "?h < Suc NBUF" using lru_head_link [OF lru] by simp
  have "lru_push b s = Ok () (s\<lparr>bufs := ?b3\<rparr>)"
    using b len by (simp add: lru_push_def upd_buf_def nexts_def nth_list_update)
  moreover have L: "nexts ?b3 = (nexts (bufs s))(b := ?h, NBUF := b)" "prevs ?b3 = (prevs (bufs s))(b := NBUF, ?h := b)"
    using b len h by (auto simp: nexts_def prevs_def nth_list_update fun_eq_iff)
  have "path (nexts ?b3) (prevs ?b3) NBUF (b # xs) NBUF"
    unfolding L by (rule path_push [OF p b(2)]) (use b dx in auto)
  then have "lru ?b3 (b # xs)" using b dx len unfolding lru_def by simp
  moreover have "map payload ?b3 = map payload (bufs s)"
    by (simp add: map_payload_upd)
  ultimately show ?thesis by blast
qed

lemma lru_unlink_run:
  assumes lru: "lru (bufs s) xs" and b: "b \<in> set xs"
  shows "\<exists>bs. lru_unlink b s = Ok () (s\<lparr>bufs := bs\<rparr>) \<and> lru bs (remove1 b xs) \<and> map payload bs = map payload (bufs s)"
proof -
  obtain us vs where xs: "xs = us @ b # vs" "b \<notin> set us" using split_list_first [OF b] by blast
  have len: "length (bufs s) = Suc NBUF" and dx: "distinct xs" "set xs \<subseteq> {..<NBUF}"
    and p: "path (nexts (bufs s)) (prevs (bufs s)) NBUF xs NBUF" using lru by (auto simp: lru_def)
  let ?n = "nexts (bufs s) b" and ?p = "prevs (bufs s) b"
  have pu: "path (nexts (bufs s)) (prevs (bufs s)) NBUF us b" and pv: "path (nexts (bufs s)) (prevs (bufs s)) b vs NBUF"
    using p path_append xs(1) by metis+
  have nb: "?n \<noteq> b" "?p \<noteq> b" "?n < Suc NBUF" "?p < Suc NBUF"
    using path_next [OF pv] path_prev [OF pu] dx xs b by (cases vs; cases us rule: rev_cases; auto)+
  let ?b1 = "(bufs s)[?n := (bufs s ! ?n)\<lparr>b_prev := ?p\<rparr>]"
  let ?b2 = "?b1[?p := (?b1 ! ?p)\<lparr>b_next := ?n\<rparr>]"
  have "lru_unlink b s = Ok () (s\<lparr>bufs := ?b2\<rparr>)"
    using nb len by (simp add: lru_unlink_def upd_buf_def nexts_def prevs_def nth_list_update)
  moreover have L: "nexts ?b2 = (nexts (bufs s))(?p := ?n)" "prevs ?b2 = (prevs (bufs s))(?n := ?p)"
    using nb len by (auto simp: nexts_def prevs_def nth_list_update fun_eq_iff)
  have "path (nexts ?b2) (prevs ?b2) NBUF (us @ vs) NBUF"
    unfolding L by (rule path_join [OF pu pv]) (use dx xs in auto)
  moreover have "remove1 b xs = us @ vs" using xs by (simp add: remove1_append)
  then have "lru ?b2 (remove1 b xs)" using calculation dx len xs unfolding lru_def by auto
  moreover have "map payload ?b2 = map payload (bufs s)" by (simp add: map_payload_upd)
  ultimately show ?thesis by blast
qed

lemma find_cached_run:
  "path (nexts (bufs s)) (prevs (bufs s)) a xs NBUF \<Longrightarrow> NBUF \<notin> set xs \<Longrightarrow> length xs < n \<Longrightarrow>
    find_cached n (nexts (bufs s) a) dev blk s
      = Ok (find (\<lambda>i. b_dev (bufs s ! i) = dev \<and> b_blockno (bufs s ! i) = blk) xs) s"
proof (induction xs arbitrary: a n)
  case Nil
  then show ?case by (cases n) auto
next
  case (Cons x xs)
  then obtain m where "n = Suc m" by (cases n) auto
  with Cons show ?case by (auto simp: nexts_def)
qed

lemma find_unused_run:
  "path (nexts (bufs s)) (prevs (bufs s)) NBUF xs b \<Longrightarrow> NBUF \<notin> set xs \<Longrightarrow> length xs < n \<Longrightarrow>
    find_unused n (prevs (bufs s) b) s = Ok (find (\<lambda>i. b_refcnt (bufs s ! i) = 0) (rev xs)) s"
proof (induction xs arbitrary: b n rule: rev_induct)
  case Nil
  then show ?case by (cases n) auto
next
  case (snoc x xs)
  then obtain m where "n = Suc m" by (cases n) auto
  with snoc show ?case using path_append [of _ _ NBUF xs x "[]" b] by (auto simp: prevs_def)
qed


section \<open>The cache as a view of the disk\<close>

text \<open>
  One process at a time runs in the file system here.  \<open>L\<close> is the set of blocks whose buffers it holds locked,
  \<open>P\<close> the set of blocks pinned by the log.  A cached block that is neither is clean.
\<close>

definition is_slot :: "buf list \<Rightarrow> nat \<Rightarrow> u32 \<Rightarrow> bool" where
  "is_slot bs i blk \<longleftrightarrow> i < NBUF \<and> b_dev (bs ! i) = ROOTDEV \<and> b_blockno (bs ! i) = blk"

definition slot_ok :: "u32 \<Rightarrow> bool \<Rightarrow> bool \<Rightarrow> buf \<Rightarrow> u8 list \<Rightarrow> bool" where
  "slot_ok pid pinned locked x d \<longleftrightarrow>
     sl_locked (b_lock x) = locked \<and> b_refcnt x = (if locked then 1 else 0) + (if pinned then 1 else 0)
     \<and> (locked \<longrightarrow> sl_pid (b_lock x) = pid) \<and> (locked \<or> pinned \<longrightarrow> b_valid x)
     \<and> (\<not> locked \<and> \<not> pinned \<and> b_valid x \<longrightarrow> b_data x = d)"

definition bc_pay :: "u32 \<Rightarrow> u32 set \<Rightarrow> u32 set \<Rightarrow> buf list \<Rightarrow> (u32 \<Rightarrow> u8 list) \<Rightarrow> bool" where
  "bc_pay pid P L bs d \<longleftrightarrow>
     (\<forall>i j blk. is_slot bs i blk \<and> is_slot bs j blk \<longrightarrow> i = j)
     \<and> (\<forall>blk \<in> L \<union> P. \<exists>i. is_slot bs i blk)
     \<and> (\<forall>i blk. is_slot bs i blk \<longrightarrow> slot_ok pid (blk \<in> P) (blk \<in> L) (bs ! i) (d blk))
     \<and> (\<forall>i < NBUF. b_dev (bs ! i) \<noteq> ROOTDEV \<longrightarrow> \<not> sl_locked (b_lock (bs ! i)) \<and> b_refcnt (bs ! i) = 0)"

definition bc_inv :: "u32 \<Rightarrow> u32 set \<Rightarrow> u32 set \<Rightarrow> kstate \<Rightarrow> bool" where
  "bc_inv pid P L s \<longleftrightarrow> calm pid s \<and> (\<exists>xs. lru (bufs s) xs \<and> set xs = {..<NBUF}) \<and> bc_pay pid P L (bufs s) (disk s)"

text \<open>What a reader of the block sees: the cached copy if there is one, the card otherwise.\<close>
definition bview :: "buf list \<Rightarrow> (u32 \<Rightarrow> u8 list) \<Rightarrow> u32 \<Rightarrow> u8 list" where
  "bview bs d blk = (case find (\<lambda>i. is_slot bs i blk) [0..<NBUF] of
       Some i \<Rightarrow> if b_valid (bs ! i) then b_data (bs ! i) else d blk
     | None \<Rightarrow> d blk)"

definition view :: "kstate \<Rightarrow> u32 \<Rightarrow> u8 list" where
  "view s = bview (bufs s) (disk s)"

lemma bc_pay_uniq: "bc_pay pid P L bs d \<Longrightarrow> is_slot bs i blk \<Longrightarrow> is_slot bs j blk \<Longrightarrow> i = j"
  unfolding bc_pay_def by blast

lemma bc_pay_slot: "bc_pay pid P L bs d \<Longrightarrow> is_slot bs i blk \<Longrightarrow> slot_ok pid (blk \<in> P) (blk \<in> L) (bs ! i) (d blk)"
  unfolding bc_pay_def by blast

lemma bc_pay_cached: "bc_pay pid P L bs d \<Longrightarrow> blk \<in> L \<union> P \<Longrightarrow> \<exists>i. is_slot bs i blk"
  unfolding bc_pay_def by blast

lemma find_unique:
  assumes "\<And>j. j \<in> set xs \<Longrightarrow> Q j \<longleftrightarrow> j = i" "i \<in> set xs"
  shows "find Q xs = Some i"
proof -
  have "find Q xs = find (\<lambda>j. j = i) xs" using assms(1) by (intro find_cong) simp_all
  also have "\<dots> = Some i" using assms(2) by (induction xs) auto
  finally show ?thesis .
qed

lemma bview_slot:
  assumes "bc_pay pid P L bs d" "is_slot bs i blk"
  shows "bview bs d blk = (if b_valid (bs ! i) then b_data (bs ! i) else d blk)"
proof -
  have "find (\<lambda>i. is_slot bs i blk) [0..<NBUF] = Some i"
  proof (rule find_unique)
    show "is_slot bs j blk \<longleftrightarrow> j = i" for j using assms(2) bc_pay_uniq [OF assms(1) _ assms(2)] by blast
    show "i \<in> set [0..<NBUF]" using assms(2) by (simp add: is_slot_def)
  qed
  then show ?thesis by (simp add: bview_def)
qed

lemma bview_uncached: "(\<And>i. \<not> is_slot bs i blk) \<Longrightarrow> bview bs d blk = d blk"
  by (simp add: bview_def find_None_iff split: option.split) (metis find_Some_iff)

lemma is_slot_payload:
  assumes "map payload bs' = map payload bs" "length bs = Suc NBUF"
  shows "is_slot bs' i blk = is_slot bs i blk"
proof -
  have len: "length bs' = length bs" using assms(1) by (metis length_map)
  have "payload (bs' ! i) = payload (bs ! i)" if "i < NBUF"
    using assms len that by (metis less_Suc_eq nth_map)
  then show ?thesis using payload_fields(2,3) unfolding is_slot_def by metis
qed

lemma payload_nth:
  assumes "map payload bs' = map payload bs" "length bs = Suc NBUF" "i < NBUF"
  shows "payload (bs' ! i) = payload (bs ! i)"
proof -
  have "length bs' = length bs" using assms(1) by (metis length_map)
  then show ?thesis using assms by (metis less_Suc_eq nth_map)
qed

lemma bc_pay_payload:
  assumes "map payload bs' = map payload bs" "length bs = Suc NBUF" "bc_pay pid P L bs d"
  shows "bc_pay pid P L bs' d"
proof -
  note S = is_slot_payload [OF assms(1,2)] and N = payload_nth [OF assms(1,2)]
  have "slot_ok pid (blk \<in> P) (blk \<in> L) (bs' ! i) (d blk)" if "is_slot bs i blk" for i blk
    using bc_pay_slot [OF assms(3) that] payload_fields(1,4-6) [OF N] that
    unfolding slot_ok_def is_slot_def by metis
  moreover have "\<not> sl_locked (b_lock (bs' ! i)) \<and> b_refcnt (bs' ! i) = 0" if "i < NBUF" "b_dev (bs' ! i) \<noteq> ROOTDEV" for i
    using that assms(3) payload_fields(2,4,5) [OF N [OF that(1)]] unfolding bc_pay_def by metis
  ultimately show ?thesis using assms(3) unfolding bc_pay_def S by blast
qed

lemma bview_payload:
  assumes "map payload bs' = map payload bs" "length bs = Suc NBUF"
  shows "bview bs' d blk = bview bs d blk"
proof -
  have "find (\<lambda>i. is_slot bs' i blk) [0..<NBUF] = find (\<lambda>i. is_slot bs i blk) [0..<NBUF]"
    using is_slot_payload [OF assms] by presburger
  moreover have "i < NBUF" if "find (\<lambda>i. is_slot bs i blk) [0..<NBUF] = Some i" for i
    using that by (auto simp: find_Some_iff)
  ultimately show ?thesis
    using payload_fields(1,6) [OF payload_nth [OF assms]] unfolding bview_def by (auto split: option.split)
qed

text \<open>One buffer changes its payload: it holds block \<open>blk\<close> now, and only what concerns \<open>blk\<close> may differ.\<close>

lemma bc_pay_update:
  assumes pay: "bc_pay pid P L bs d" and i: "i < NBUF" "length bs = Suc NBUF"
    and x: "b_dev x = ROOTDEV" "b_blockno x = blk" and ok: "slot_ok pid (blk \<in> P') (blk \<in> L') x (d' blk)"
    and only: "\<And>j. is_slot bs j blk \<Longrightarrow> j = i" and old: "\<And>b. is_slot bs i b \<Longrightarrow> b \<noteq> blk \<Longrightarrow> b \<notin> L \<union> P"
    and sets: "P' - {blk} = P - {blk}" "L' - {blk} = L - {blk}" and d: "\<And>b. b \<noteq> blk \<Longrightarrow> d' b = d b"
  shows "bc_pay pid P' L' (bs[i := x]) d'"
    and "bview (bs[i := x]) d' = (bview bs d)(blk := if b_valid x then b_data x else d' blk)"
proof -
  have sl: "is_slot (bs[i := x]) j b \<longleftrightarrow> (if j = i then b = blk else is_slot bs j b)" for j b
    using i x by (auto simp: is_slot_def nth_list_update)
  have nonly: "\<And>j. j \<noteq> i \<Longrightarrow> \<not> is_slot bs j blk" using only by blast
  have uniq: "j = k" if "is_slot (bs[i := x]) j b" "is_slot (bs[i := x]) k b" for j k b
    using that nonly bc_pay_uniq [OF pay] unfolding sl by metis
  have mem: "b \<in> P' \<longleftrightarrow> b \<in> P" "b \<in> L' \<longleftrightarrow> b \<in> L" if "b \<noteq> blk" for b using sets that by blast+
  show pay': "bc_pay pid P' L' (bs[i := x]) d'"
    unfolding bc_pay_def
  proof (intro conjI allI impI ballI)
    show "j = k" if "is_slot (bs[i := x]) j b \<and> is_slot (bs[i := x]) k b" for j k b using uniq that by blast
  next
    fix b assume b: "b \<in> L' \<union> P'"
    show "\<exists>j. is_slot (bs[i := x]) j b"
    proof (cases "b = blk")
      case True
      then show ?thesis using sl by (intro exI [of _ i]) simp
    next
      case False
      then have "b \<in> L \<union> P" using b mem by blast
      then obtain j where j: "is_slot bs j b" using bc_pay_cached [OF pay] by blast
      then have "j \<noteq> i" using old False \<open>b \<in> L \<union> P\<close> by blast
      then show ?thesis using j sl by (intro exI [of _ j]) simp
    qed
  next
    fix j b assume "is_slot (bs[i := x]) j b"
    then consider "j = i" "b = blk" | "j \<noteq> i" "is_slot bs j b" unfolding sl by (auto split: if_splits)
    then show "slot_ok pid (b \<in> P') (b \<in> L') (bs[i := x] ! j) (d' b)"
    proof cases
      case 1
      then show ?thesis using ok i by simp
    next
      case 2
      then have "b \<noteq> blk" using only by blast
      then show ?thesis using bc_pay_slot [OF pay 2(2)] 2(1) mem d by simp
    qed
  next
    fix j assume "j < NBUF" "b_dev (bs[i := x] ! j) \<noteq> ROOTDEV"
    then have "j \<noteq> i" "b_dev (bs ! j) \<noteq> ROOTDEV" using x i by (auto simp: nth_list_update split: if_splits)
    then show "\<not> sl_locked (b_lock (bs[i := x] ! j))" "b_refcnt (bs[i := x] ! j) = 0"
      using pay \<open>j < NBUF\<close> by (auto simp: bc_pay_def)
  qed
  show "bview (bs[i := x]) d' = (bview bs d)(blk := if b_valid x then b_data x else d' blk)"
  proof
    fix b
    show "bview (bs[i := x]) d' b = ((bview bs d)(blk := if b_valid x then b_data x else d' blk)) b"
    proof (cases "b = blk")
      case True
      then have "is_slot (bs[i := x]) i b" using sl by simp
      then show ?thesis using bview_slot [OF pay'] True i by simp
    next
      case b: False
      show ?thesis
      proof (cases "\<exists>j. is_slot bs j b \<and> j \<noteq> i")
        case True
        then obtain j where j: "is_slot bs j b" "j \<noteq> i" by blast
        then have "is_slot (bs[i := x]) j b" using sl by simp
        then show ?thesis using bview_slot [OF pay'] bview_slot [OF pay j(1)] j(2) b d by simp
      next
        case False
        then have "bview (bs[i := x]) d' b = d' b" using sl b by (intro bview_uncached) auto
        moreover have "bview bs d b = d b"
        proof (cases "is_slot bs i b")
          case True
          have "b \<notin> L \<union> P" using old [OF True b] .
          then show ?thesis using bview_slot [OF pay True] bc_pay_slot [OF pay True] by (simp add: slot_ok_def)
        next
          case nb: False
          then show ?thesis using False by (intro bview_uncached) blast
        qed
        ultimately show ?thesis using b d by simp
      qed
    qed
  qed
qed


subsection \<open>What each operation does to the view\<close>

text \<open>Everything the cache does not touch.\<close>
definition bio_rest :: "kstate \<Rightarrow> kstate" where
  "bio_rest s = s\<lparr>bufs := [], procs := [], disk := (\<lambda>_. []), wtrace := []\<rparr>"

lemma bio_rest_fields:
  assumes "bio_rest t = bio_rest s"
  shows "klog t = klog s" "sb t = sb s" "inodes t = inodes s" "files t = files s" "mem t = mem s" "cur t = cur s"
    "held t = held s" "pipes t = pipes s" "freelist t = freelist s" "link t = link s" "kcons t = kcons s"
  using assms by (cases s; cases t; simp add: bio_rest_def)+

lemma bio_rest_upd [simp]:
  "bio_rest (s\<lparr>bufs := b\<rparr>) = bio_rest s" "bio_rest (s\<lparr>procs := q\<rparr>) = bio_rest s"
  "bio_rest (s\<lparr>disk := d\<rparr>) = bio_rest s" "bio_rest (s\<lparr>wtrace := w\<rparr>) = bio_rest s"
  by (simp_all add: bio_rest_def)

lemma calm_bufs [simp]: "calm pid (s\<lparr>bufs := b\<rparr>) = calm pid s"
  by (simp add: calm_def)

lemma bc_inv_length: "bc_inv pid P L s \<Longrightarrow> length (bufs s) = Suc NBUF"
  by (auto simp: bc_inv_def lru_def)

text \<open>Changing a buffer but not its links keeps the list.\<close>
lemma lru_keep:
  assumes "lru bs xs" "b_next x = b_next (bs ! i)" "b_prev x = b_prev (bs ! i)"
  shows "lru (bs[i := x]) xs"
proof (cases "i < length bs")
  case True
  have "nexts (bs[i := x]) = nexts bs" "prevs (bs[i := x]) = prevs bs"
    using assms(2,3) links_upd [OF True, of x] by (auto simp: nexts_def prevs_def fun_eq_iff)
  then show ?thesis using assms(1) by (simp add: lru_def)
next
  case False
  then show ?thesis using assms(1) by (simp add: list_update_beyond)
qed

lemma find_slot:
  assumes "lru (bufs s) xs" "set xs = {..<NBUF}" "bc_pay pid P L (bufs s) (disk s)"
  shows "find (\<lambda>i. b_dev (bufs s ! i) = ROOTDEV \<and> b_blockno (bufs s ! i) = blk) xs =
    (if \<exists>i. is_slot (bufs s) i blk then Some (SOME i. is_slot (bufs s) i blk) else None)"
proof (cases "\<exists>i. is_slot (bufs s) i blk")
  case True
  then have i: "is_slot (bufs s) (SOME i. is_slot (bufs s) i blk) blk" by (rule someI_ex)
  have "find (\<lambda>i. b_dev (bufs s ! i) = ROOTDEV \<and> b_blockno (bufs s ! i) = blk) xs = Some (SOME i. is_slot (bufs s) i blk)"
  proof (rule find_unique)
    show "(b_dev (bufs s ! j) = ROOTDEV \<and> b_blockno (bufs s ! j) = blk) \<longleftrightarrow> j = (SOME i. is_slot (bufs s) i blk)"
      if "j \<in> set xs" for j
      using that assms(2) i bc_pay_uniq [OF assms(3) _ i, of j] by (auto simp: is_slot_def)
    show "(SOME i. is_slot (bufs s) i blk) \<in> set xs" using i assms(2) by (simp add: is_slot_def)
  qed
  then show ?thesis using True by simp
next
  case False
  have "find (\<lambda>i. b_dev (bufs s ! i) = ROOTDEV \<and> b_blockno (bufs s ! i) = blk) xs = None"
    using False assms(2) by (auto simp: find_None_iff is_slot_def)
  then show ?thesis using False by simp
qed

lemma find_cached_slot:
  assumes "lru (bufs s) xs" "set xs = {..<NBUF}" "bc_pay pid P L (bufs s) (disk s)"
  shows "find_cached 31 (nexts (bufs s) NBUF) ROOTDEV blk s =
    Ok (if \<exists>i. is_slot (bufs s) i blk then Some (SOME i. is_slot (bufs s) i blk) else None) s"
proof -
  have "length xs = NBUF" using assms(1,2) by (simp add: lru_def distinct_card [symmetric])
  then have "find_cached 31 (nexts (bufs s) NBUF) ROOTDEV blk s =
      Ok (find (\<lambda>i. b_dev (bufs s ! i) = ROOTDEV \<and> b_blockno (bufs s ! i) = blk) xs) s"
    using assms(1,2) by (intro find_cached_run) (auto simp: lru_def)
  then show ?thesis unfolding find_slot [OF assms] .
qed

text \<open>While fewer than \<open>NBUF\<close> blocks are in use, a buffer can be recycled.\<close>

lemma find_unused_slot:
  assumes lru: "lru (bufs s) xs" "set xs = {..<NBUF}" and pay: "bc_pay pid P L (bufs s) (disk s)"
    and room: "card (L \<union> P) < NBUF" "finite (L \<union> P)"
  shows "\<exists>i. find_unused 31 (prevs (bufs s) NBUF) s = Ok (Some i) s \<and> i < NBUF \<and> b_refcnt (bufs s ! i) = 0"
proof -
  have "length xs = NBUF" using lru by (simp add: lru_def distinct_card [symmetric])
  then have f: "find_unused 31 (prevs (bufs s) NBUF) s = Ok (find (\<lambda>i. b_refcnt (bufs s ! i) = 0) (rev xs)) s"
    using lru by (intro find_unused_run) (auto simp: lru_def)
  have "\<exists>i < NBUF. b_refcnt (bufs s ! i) = 0"
  proof (rule ccontr)
    assume "\<not> ?thesis"
    then have nz: "\<And>i. i < NBUF \<Longrightarrow> b_refcnt (bufs s ! i) \<noteq> 0" by blast
    have used: "b_dev (bufs s ! i) = ROOTDEV \<and> b_blockno (bufs s ! i) \<in> L \<union> P" if "i < NBUF" for i
    proof -
      have dev: "b_dev (bufs s ! i) = ROOTDEV" using pay nz [OF that] that unfolding bc_pay_def by blast
      then have "is_slot (bufs s) i (b_blockno (bufs s ! i))" using that by (simp add: is_slot_def)
      from bc_pay_slot [OF pay this] show ?thesis using nz [OF that] dev by (auto simp: slot_ok_def split: if_splits)
    qed
    have inj: "inj_on (\<lambda>i. b_blockno (bufs s ! i)) {..<NBUF}"
      using used bc_pay_uniq [OF pay] by (auto simp: inj_on_def is_slot_def)
    have "(\<lambda>i. b_blockno (bufs s ! i)) ` {..<NBUF} \<subseteq> L \<union> P" using used by auto
    then have "card {..<NBUF} \<le> card (L \<union> P)" by (rule card_inj_on_le [OF inj _ room(2)])
    then show False using room(1) by simp
  qed
  then obtain i where "i \<in> set (rev xs)" "b_refcnt (bufs s ! i) = 0" using lru(2) by auto
  then have "find (\<lambda>i. b_refcnt (bufs s ! i) = 0) (rev xs) \<noteq> None" by (auto simp: find_None_iff)
  then obtain j where j: "find (\<lambda>i. b_refcnt (bufs s ! i) = 0) (rev xs) = Some j" by blast
  then have "j \<in> set xs" "b_refcnt (bufs s ! j) = 0" by (auto simp: find_Some_iff) (metis nth_mem length_rev set_rev)
  then show ?thesis using f j lru(2) by auto
qed


lemma bget_release:
  assumes "calm pid s" "i < NBUF" "length (bufs s) = Suc NBUF" "\<not> sl_locked (b_lock y)"
  shows "kbind (kmod (upd_buf i (\<lambda>_. y))) (\<lambda>_. kbind (release LK_bcache) (\<lambda>_.
      kbind (acquiresleep (SL_buf i)) (\<lambda>_. kret i))) (s\<lparr>held := {LK_bcache}\<rparr>)
    = Ok i (s\<lparr>bufs := (bufs s)[i := y\<lparr>b_lock := (b_lock y)\<lparr>sl_locked := True, sl_pid := pid\<rparr>\<rparr>]\<rparr>)"
proof -
  have h: "held s = {}" using assms(1) by (simp add: calm_def)
  let ?t = "s\<lparr>bufs := (bufs s)[i := y]\<rparr>"
  have "acquiresleep (SL_buf i) ?t = Ok () (sl_upd (SL_buf i) (\<lambda>l. l\<lparr>sl_locked := True, sl_pid := pid\<rparr>) ?t)"
    using assms by (intro acquiresleep_run) (simp_all add: sl_get_def)
  then show ?thesis using h assms(2,3) by (simp add: upd_buf_def sl_upd_def)
qed

lemma bget_cached:
  assumes inv: "bc_inv pid P L s" and i: "is_slot (bufs s) i blk" and nl: "blk \<notin> L"
  defines "x \<equiv> bufs s ! i"
  shows "bget ROOTDEV blk s = Ok i (s\<lparr>bufs := (bufs s)[i := x\<lparr>b_refcnt := b_refcnt x + 1,
    b_lock := (b_lock x)\<lparr>sl_locked := True, sl_pid := pid\<rparr>\<rparr>]\<rparr>)"
proof -
  obtain xs where lru: "lru (bufs s) xs" "set xs = {..<NBUF}" and pay: "bc_pay pid P L (bufs s) (disk s)" and c: "calm pid s"
    using inv by (auto simp: bc_inv_def)
  have h: "held s = {}" using c by (simp add: calm_def)
  have sl: "(SOME j. is_slot (bufs s) j blk) = i" using i bc_pay_uniq [OF pay] by (metis someI)
  let ?s = "s\<lparr>held := {LK_bcache}\<rparr>"
  have fc: "find_cached 31 (nexts (bufs ?s) NBUF) ROOTDEV blk ?s = Ok (Some i) ?s"
    using find_cached_slot [of ?s xs pid P L blk] lru pay i sl by auto
  have unl: "\<not> sl_locked (b_lock x)" using bc_pay_slot [OF pay i] nl by (simp add: slot_ok_def x_def)
  have k: "kmod (upd_buf i (\<lambda>x. x\<lparr>b_refcnt := b_refcnt x + 1\<rparr>)) ?s
      = kmod (upd_buf i (\<lambda>_. x\<lparr>b_refcnt := b_refcnt x + 1\<rparr>)) ?s" by (simp add: upd_buf_def x_def)
  have "i < NBUF" using i by (simp add: is_slot_def)
  then show ?thesis
    using fc k h bget_release [OF c _ bc_inv_length [OF inv], of i "x\<lparr>b_refcnt := b_refcnt x + 1\<rparr>"] unl
    by (simp add: bget_def nexts_def)
qed

lemma bget_recycled:
  assumes inv: "bc_inv pid P L s" and no: "\<And>i. \<not> is_slot (bufs s) i blk"
    and room: "card (L \<union> P) < NBUF" "finite (L \<union> P)"
  shows "\<exists>i x. i < NBUF \<and> x = bufs s ! i \<and> b_refcnt x = 0 \<and> (\<forall>b. is_slot (bufs s) i b \<longrightarrow> b \<notin> L \<union> P) \<and>
    bget ROOTDEV blk s = Ok i (s\<lparr>bufs := (bufs s)[i := x\<lparr>b_dev := ROOTDEV, b_blockno := blk, b_valid := False,
      b_refcnt := 1, b_lock := (b_lock x)\<lparr>sl_locked := True, sl_pid := pid\<rparr>\<rparr>]\<rparr>)"
proof -
  obtain xs where lru: "lru (bufs s) xs" "set xs = {..<NBUF}" and pay: "bc_pay pid P L (bufs s) (disk s)" and c: "calm pid s"
    using inv by (auto simp: bc_inv_def)
  have h: "held s = {}" using c by (simp add: calm_def)
  let ?s = "s\<lparr>held := {LK_bcache}\<rparr>"
  have fc: "find_cached 31 (nexts (bufs ?s) NBUF) ROOTDEV blk ?s = Ok None ?s"
    using find_cached_slot [of ?s xs pid P L blk] lru pay no by auto
  obtain i where fu: "find_unused 31 (prevs (bufs ?s) NBUF) ?s = Ok (Some i) ?s" "i < NBUF" "b_refcnt (bufs s ! i) = 0"
    using find_unused_slot [of ?s xs pid P L] lru pay room by auto
  let ?x = "bufs s ! i"
  let ?y = "?x\<lparr>b_dev := ROOTDEV, b_blockno := blk, b_valid := False, b_refcnt := 1\<rparr>"
  have old: "b \<notin> L \<union> P" if "is_slot (bufs s) i b" for b
    using bc_pay_slot [OF pay that] fu(3) by (auto simp: slot_ok_def split: if_splits)
  have unl: "\<not> sl_locked (b_lock ?x)"
  proof (cases "b_dev ?x = ROOTDEV")
    case True
    then have "is_slot (bufs s) i (b_blockno ?x)" using fu(2) by (simp add: is_slot_def)
    with bc_pay_slot [OF pay this] old [OF this] show ?thesis by (simp add: slot_ok_def)
  next
    case False
    then show ?thesis using pay fu(2) by (simp add: bc_pay_def)
  qed
  have k: "kmod (upd_buf i (\<lambda>x. x\<lparr>b_dev := ROOTDEV, b_blockno := blk, b_valid := False, b_refcnt := 1\<rparr>)) ?s
      = kmod (upd_buf i (\<lambda>_. ?y)) ?s" by (simp add: upd_buf_def)
  have "bget ROOTDEV blk s = Ok i (s\<lparr>bufs := (bufs s)[i := ?y\<lparr>b_lock := (b_lock ?x)\<lparr>sl_locked := True, sl_pid := pid\<rparr>\<rparr>]\<rparr>)"
    using fc fu k h bget_release [OF c fu(2) bc_inv_length [OF inv], of ?y] unl
    by (simp add: bget_def nexts_def prevs_def)
  then show ?thesis using fu old by (intro exI [of _ i] exI [of _ ?x]) simp
qed

text \<open>The buffer \<open>i\<close> holds the locked block \<open>blk\<close>, with contents \<open>d\<close>.\<close>
definition holds :: "kstate \<Rightarrow> nat \<Rightarrow> u32 \<Rightarrow> u8 list \<Rightarrow> bool" where
  "holds s i blk d \<longleftrightarrow> is_slot (bufs s) i blk \<and> b_data (bufs s ! i) = d"

lemma bread_spec:
  assumes inv: "bc_inv pid P L s" and nl: "blk \<notin> L" and room: "blk \<in> P \<or> card (L \<union> P) < NBUF" "finite (L \<union> P)"
  shows "\<exists>i t. bread ROOTDEV blk s = Ok i t \<and> bc_inv pid P (insert blk L) t \<and> holds t i blk (view s blk)
    \<and> view t = view s \<and> disk t = disk s \<and> wtrace t = wtrace s \<and> bio_rest t = bio_rest s
    \<and> (\<forall>j b. b \<in> L \<union> P \<longrightarrow> is_slot (bufs s) j b \<longrightarrow> is_slot (bufs t) j b \<and> b_data (bufs t ! j) = b_data (bufs s ! j))"
proof -
  obtain xs where lru: "lru (bufs s) xs" "set xs = {..<NBUF}" and pay: "bc_pay pid P L (bufs s) (disk s)" and c: "calm pid s"
    using inv by (auto simp: bc_inv_def)
  note len = bc_inv_length [OF inv]
  have "\<exists>i y. i < NBUF \<and> bread ROOTDEV blk s = Ok i (s\<lparr>bufs := (bufs s)[i := y]\<rparr>) \<and> b_dev y = ROOTDEV
      \<and> b_blockno y = blk \<and> slot_ok pid (blk \<in> P) True y (disk s blk) \<and> b_data y = view s blk \<and> b_valid y
      \<and> b_next y = b_next (bufs s ! i) \<and> b_prev y = b_prev (bufs s ! i)
      \<and> (\<forall>j. is_slot (bufs s) j blk \<longrightarrow> j = i) \<and> (\<forall>b. is_slot (bufs s) i b \<longrightarrow> b \<noteq> blk \<longrightarrow> b \<notin> L \<union> P)"
  proof (cases "\<exists>i. is_slot (bufs s) i blk")
    case True
    then obtain i where i: "is_slot (bufs s) i blk" by blast
    let ?x = "bufs s ! i"
    let ?d = "if b_valid ?x then b_data ?x else disk s blk"
    let ?y = "?x\<lparr>b_refcnt := b_refcnt ?x + 1, b_lock := (b_lock ?x)\<lparr>sl_locked := True, sl_pid := pid\<rparr>\<rparr>"
    have iN: "i < NBUF" and bx: "b_dev ?x = ROOTDEV" "b_blockno ?x = blk" using i by (auto simp: is_slot_def)
    have "bread ROOTDEV blk s = Ok i (s\<lparr>bufs := (bufs s)[i := ?y\<lparr>b_data := ?d, b_valid := True\<rparr>]\<rparr>)"
    proof (cases "b_valid ?x")
      case True
      then have eq: "?y\<lparr>b_data := ?d, b_valid := True\<rparr> = ?y" by (cases ?x) simp
      have "bread ROOTDEV blk s = Ok i (s\<lparr>bufs := (bufs s)[i := ?y]\<rparr>)"
        using True bget_cached [OF inv i nl] iN len by (simp add: bread_def)
      then show ?thesis unfolding eq .
    next
      case False
      then show ?thesis
        using bget_cached [OF inv i nl] iN len bx by (simp add: bread_def disk_read_def upd_buf_def)
    qed
    moreover have "slot_ok pid (blk \<in> P) True (?y\<lparr>b_data := ?d, b_valid := True\<rparr>) (disk s blk)"
      using bc_pay_slot [OF pay i] nl by (simp add: slot_ok_def)
    moreover have "b_data (?y\<lparr>b_data := ?d, b_valid := True\<rparr>) = view s blk"
      using bview_slot [OF pay i] by (simp add: view_def)
    moreover have "\<forall>j. is_slot (bufs s) j blk \<longrightarrow> j = i" using bc_pay_uniq [OF pay _ i] by blast
    moreover have "\<forall>b. is_slot (bufs s) i b \<longrightarrow> b \<noteq> blk \<longrightarrow> b \<notin> L \<union> P" using bx(2) by (simp add: is_slot_def)
    ultimately show ?thesis
      using iN bx by (intro exI [of _ i] exI [of _ "?y\<lparr>b_data := ?d, b_valid := True\<rparr>"] conjI) (assumption | simp)+
  next
    case False
    then have nP: "blk \<notin> P" using bc_pay_cached [OF pay] by blast
    then have room': "card (L \<union> P) < NBUF" using room(1) by blast
    obtain i x where ix: "i < NBUF" "x = bufs s ! i" "b_refcnt x = 0" "\<And>b. is_slot (bufs s) i b \<Longrightarrow> b \<notin> L \<union> P"
      "bget ROOTDEV blk s = Ok i (s\<lparr>bufs := (bufs s)[i := x\<lparr>b_dev := ROOTDEV, b_blockno := blk, b_valid := False,
      b_refcnt := 1, b_lock := (b_lock x)\<lparr>sl_locked := True, sl_pid := pid\<rparr>\<rparr>]\<rparr>)"
      using bget_recycled [OF inv _ room' room(2)] False by blast
    let ?y = "x\<lparr>b_dev := ROOTDEV, b_blockno := blk,
      b_refcnt := 1, b_lock := (b_lock x)\<lparr>sl_locked := True, sl_pid := pid\<rparr>, b_data := disk s blk, b_valid := True\<rparr>"
    have "bread ROOTDEV blk s = Ok i (s\<lparr>bufs := (bufs s)[i := ?y]\<rparr>)"
      using ix(1,5) len by (simp add: bread_def disk_read_def upd_buf_def)
    moreover have "slot_ok pid (blk \<in> P) True ?y (disk s blk)" using nP by (simp add: slot_ok_def)
    moreover have "view s blk = disk s blk" using False by (simp add: view_def bview_uncached)
    ultimately show ?thesis
      using ix False by (intro exI [of _ i] exI [of _ ?y]) auto
  qed
  then obtain i y where y: "i < NBUF" "bread ROOTDEV blk s = Ok i (s\<lparr>bufs := (bufs s)[i := y]\<rparr>)" "b_dev y = ROOTDEV"
      "b_blockno y = blk" "slot_ok pid (blk \<in> P) True y (disk s blk)" "b_data y = view s blk" "b_valid y"
      "b_next y = b_next (bufs s ! i)" "b_prev y = b_prev (bufs s ! i)"
      "\<And>j. is_slot (bufs s) j blk \<Longrightarrow> j = i" "\<And>b. is_slot (bufs s) i b \<Longrightarrow> b \<noteq> blk \<Longrightarrow> b \<notin> L \<union> P" by blast
  let ?t = "s\<lparr>bufs := (bufs s)[i := y]\<rparr>"
  have ok: "slot_ok pid (blk \<in> P) (blk \<in> insert blk L) y (disk s blk)" using y(5) by simp
  note U = bc_pay_update [where P' = P and L' = "insert blk L" and d' = "disk s", OF pay y(1) len y(3,4) ok y(10,11)]
  have "bc_inv pid P (insert blk L) ?t"
    using c U(1) lru_keep [OF lru(1) y(8,9)] lru(2) unfolding bc_inv_def by auto
  moreover have "view ?t = view s"
    using U(2) y(6,7) by (simp add: view_def fun_upd_idem)
  moreover have "holds ?t i blk (view s blk)" using y len by (simp add: holds_def is_slot_def)
  moreover have "is_slot (bufs ?t) j b \<and> b_data (bufs ?t ! j) = b_data (bufs s ! j)"
    if "b \<in> L \<union> P" "is_slot (bufs s) j b" for j b
  proof (cases "j = i")
    case True
    then have b: "b = blk" using that y(11) by blast
    have v: "b_valid (bufs s ! j)" using bc_pay_slot [OF pay that(2)] that(1) by (auto simp: slot_ok_def)
    have "b_data (bufs s ! j) = view s b" using bview_slot [OF pay that(2)] v by (simp add: view_def)
    then show ?thesis using True y(1,3,4,6) len b by (simp add: is_slot_def)
  next
    case False
    then show ?thesis using that by (simp add: is_slot_def)
  qed
  ultimately show ?thesis using y(2) by (intro exI [of _ i] exI [of _ ?t]) auto
qed


lemma holds_slot: "holds s i blk d \<Longrightarrow> is_slot (bufs s) i blk"
  by (simp add: holds_def)

lemma holds_view: "bc_inv pid P L s \<Longrightarrow> holds s i blk d \<Longrightarrow> blk \<in> L \<union> P \<Longrightarrow> view s blk = d"
  using bview_slot [of pid P L "bufs s" "disk s" i blk] bc_pay_slot [of pid P L "bufs s" "disk s" i blk]
  by (auto simp: bc_inv_def holds_def view_def slot_ok_def)

text \<open>Rewriting the payload of a buffer the caller holds.\<close>

lemma bc_inv_update:
  assumes inv: "bc_inv pid P L s" and i: "is_slot (bufs s) i blk"
    and y: "b_dev y = ROOTDEV" "b_blockno y = blk" "b_next y = b_next (bufs s ! i)" "b_prev y = b_prev (bufs s ! i)"
    and ok: "slot_ok pid (blk \<in> P') (blk \<in> L') y (d' blk)"
    and sets: "P' - {blk} = P - {blk}" "L' - {blk} = L - {blk}" and d: "\<And>b. b \<noteq> blk \<Longrightarrow> d' b = disk s b"
  defines "t \<equiv> s\<lparr>bufs := (bufs s)[i := y], disk := d'\<rparr>"
  shows "bc_inv pid P' L' t" "view t = (view s)(blk := if b_valid y then b_data y else d' blk)"
proof -
  obtain xs where lru: "lru (bufs s) xs" "set xs = {..<NBUF}" and pay: "bc_pay pid P L (bufs s) (disk s)" and c: "calm pid s"
    using inv by (auto simp: bc_inv_def)
  have iN: "i < NBUF" using i by (simp add: is_slot_def)
  have only: "\<And>j. is_slot (bufs s) j blk \<Longrightarrow> j = i" using bc_pay_uniq [OF pay _ i] by blast
  have old: "\<And>b. is_slot (bufs s) i b \<Longrightarrow> b \<noteq> blk \<Longrightarrow> b \<notin> L \<union> P" using i by (simp add: is_slot_def)
  note U = bc_pay_update [where P' = P' and L' = L' and d' = d', OF pay iN bc_inv_length [OF inv] y(1,2) ok only old sets d]
  have "calm pid t" using c by (simp add: t_def calm_def)
  then show "bc_inv pid P' L' t"
    using U(1) lru_keep [OF lru(1) y(3,4)] lru(2) unfolding bc_inv_def t_def by auto
  show "view t = (view s)(blk := if b_valid y then b_data y else d' blk)"
    using U(2) by (simp add: t_def view_def)
qed

lemma disk_same [simp]: "s\<lparr>bufs := b, disk := disk s\<rparr> = s\<lparr>bufs := b\<rparr>"
  by (cases s) simp

definition bmodify :: "nat \<Rightarrow> (u8 list \<Rightarrow> u8 list) \<Rightarrow> unit K" where
  "bmodify i f = kmod (upd_buf i (\<lambda>x. x\<lparr>b_data := f (b_data x)\<rparr>))"

lemma bmodify_spec:
  assumes inv: "bc_inv pid P L s" and h: "holds s i blk d" and L: "blk \<in> L"
  shows "\<exists>t. bmodify i f s = Ok () t \<and> bc_inv pid P L t \<and> holds t i blk (f d) \<and> view t = (view s)(blk := f d)
    \<and> disk t = disk s \<and> wtrace t = wtrace s \<and> bio_rest t = bio_rest s
    \<and> (\<forall>j b. b \<noteq> blk \<longrightarrow> is_slot (bufs s) j b \<longrightarrow> is_slot (bufs t) j b \<and> b_data (bufs t ! j) = b_data (bufs s ! j))"
proof -
  let ?x = "bufs s ! i"
  let ?y = "?x\<lparr>b_data := f (b_data ?x)\<rparr>"
  let ?t = "s\<lparr>bufs := (bufs s)[i := ?y]\<rparr>"
  have sl: "is_slot (bufs s) i blk" and d: "b_data ?x = d" using h by (auto simp: holds_def)
  have ok: "slot_ok pid (blk \<in> P) (blk \<in> L) ?x (disk s blk)"
    using inv bc_pay_slot [OF _ sl] by (auto simp: bc_inv_def)
  have "slot_ok pid (blk \<in> P) (blk \<in> L) ?y (disk s blk)" using ok L by (simp add: slot_ok_def)
  then have "bc_inv pid P L ?t" "view ?t = (view s)(blk := f d)"
    using bc_inv_update [OF inv sl, of ?y P L "disk s"] sl ok L d by (auto simp: is_slot_def slot_ok_def)
  moreover have "i < length (bufs s)" using sl bc_inv_length [OF inv] by (simp add: is_slot_def)
  moreover have "is_slot (bufs ?t) j b \<and> b_data (bufs ?t ! j) = b_data (bufs s ! j)"
    if "b \<noteq> blk" "is_slot (bufs s) j b" for j b
    using that sl calculation(3) by (cases "j = i") (auto simp: is_slot_def)
  ultimately show ?thesis
    using sl d by (intro exI [of _ ?t]) (auto simp: bmodify_def upd_buf_def holds_def is_slot_def)
qed

lemma bwrite_spec:
  assumes inv: "bc_inv pid P L s" and h: "holds s i blk d" and L: "blk \<in> L"
  shows "\<exists>t. bwrite i s = Ok () t \<and> bc_inv pid P L t \<and> view t = view s \<and> disk t = (disk s)(blk := d)
    \<and> wtrace t = wtrace s @ [(blk, d)] \<and> bio_rest t = bio_rest s \<and> bufs t = bufs s"
proof -
  let ?x = "bufs s ! i"
  let ?t = "s\<lparr>disk := (disk s)(blk := d), wtrace := wtrace s @ [(blk, d)]\<rparr>"
  have sl: "is_slot (bufs s) i blk" and d: "b_data ?x = d" using h by (auto simp: holds_def)
  have c: "calm pid s" and ok: "slot_ok pid (blk \<in> P) (blk \<in> L) ?x (disk s blk)"
    using inv bc_pay_slot [OF _ sl] by (auto simp: bc_inv_def)
  have "bwrite i s = Ok () ?t"
    using holdingsleep_run [OF c, of "SL_buf i"] ok L sl d
    by (simp add: bwrite_def sl_get_def slot_ok_def disk_write_def is_slot_def)
  moreover have ok': "slot_ok pid (blk \<in> P) (blk \<in> L) ?x (((disk s)(blk := d)) blk)" using ok L by (simp add: slot_ok_def)
  have upd: "(bufs s)[i := ?x] = bufs s" by simp
  have "bc_inv pid P L (s\<lparr>disk := (disk s)(blk := d)\<rparr>)" "view (s\<lparr>disk := (disk s)(blk := d)\<rparr>) = (view s)(blk := d)"
    using bc_inv_update [OF inv sl, of ?x P L "(disk s)(blk := d)"] sl ok ok' L d
    by (auto simp: is_slot_def slot_ok_def upd)
  moreover have "view s blk = d" using holds_view [OF inv h] L by blast
  ultimately show ?thesis
    by (intro exI [of _ ?t]) (auto simp: bc_inv_def view_def calm_def)
qed


text \<open>Moving a buffer to the front.\<close>

lemma lru_front_run:
  assumes lru: "lru (bufs s) xs" "set xs = {..<NBUF}" and b: "b < NBUF"
  shows "\<exists>bs. kdo [lru_unlink b, lru_push b] s = Ok () (s\<lparr>bufs := bs\<rparr>) \<and> lru bs (b # remove1 b xs)
    \<and> set (b # remove1 b xs) = {..<NBUF} \<and> map payload bs = map payload (bufs s)"
proof -
  have bx: "b \<in> set xs" and dx: "distinct xs" using lru b by (auto simp: lru_def)
  obtain b1 where b1: "lru_unlink b s = Ok () (s\<lparr>bufs := b1\<rparr>)" "lru b1 (remove1 b xs)" "map payload b1 = map payload (bufs s)"
    using lru_unlink_run [OF lru(1) bx] by blast
  have "b \<notin> set (remove1 b xs)" using dx by simp
  then obtain b2 where b2: "lru_push b (s\<lparr>bufs := b1\<rparr>) = Ok () (s\<lparr>bufs := b2\<rparr>)" "lru b2 (b # remove1 b xs)"
    "map payload b2 = map payload b1"
    using lru_push_run [of "s\<lparr>bufs := b1\<rparr>" "remove1 b xs" b] b1(2) b by auto
  have "set (b # remove1 b xs) = {..<NBUF}" using dx lru(2) b by auto
  then show ?thesis using b1 b2 by (intro exI [of _ b2]) simp
qed

lemma bc_inv_front:
  assumes inv: "bc_inv pid P L s" and lru: "lru bs xs" "set xs = {..<NBUF}" and pay: "map payload bs = map payload (bufs s)"
  shows "bc_inv pid P L (s\<lparr>bufs := bs\<rparr>)" "view (s\<lparr>bufs := bs\<rparr>) = view s"
proof -
  note len = bc_inv_length [OF inv]
  show "bc_inv pid P L (s\<lparr>bufs := bs\<rparr>)"
    using inv lru bc_pay_payload [OF pay len] unfolding bc_inv_def by auto
  show "view (s\<lparr>bufs := bs\<rparr>) = view s"
    using bview_payload [OF pay len] by (simp add: view_def fun_eq_iff)
qed

lemma bc_inv_wake:
  assumes "bc_inv pid P L s"
  shows "bc_inv pid P L (s\<lparr>procs := wake_all ch me (procs s)\<rparr>)" "view (s\<lparr>procs := q\<rparr>) = view s"
  using assms calm_wake by (auto simp: bc_inv_def view_def)

lemma slots_kept:
  assumes "map payload bs = map payload (bs'[i := y])" "length bs' = Suc NBUF" "is_slot bs' i blk"
    "b_dev y = ROOTDEV" "b_blockno y = blk" "b_data y = b_data (bs' ! i)" "is_slot bs' j b"
  shows "is_slot bs j b \<and> b_data (bs ! j) = b_data (bs' ! j)"
proof -
  have len: "length (bs'[i := y]) = Suc NBUF" using assms(2) by simp
  have j: "j < NBUF" using assms(7) by (simp add: is_slot_def)
  have "is_slot (bs'[i := y]) j b \<and> b_data (bs'[i := y] ! j) = b_data (bs' ! j)"
    using assms(2-7) by (cases "j = i") (auto simp: is_slot_def)
  then show ?thesis
    using is_slot_payload [OF assms(1) len] payload_fields(6) [OF payload_nth [OF assms(1) len j]] by simp
qed

lemma kbind_kret [simp]: "kbind m kret = m"
  by (rule ext) (simp split: outcome.split)

lemma brelse_spec:
  assumes inv: "bc_inv pid P L s" and h: "holds s i blk d" and L: "blk \<in> L" and clean: "blk \<in> P \<or> d = disk s blk"
  shows "\<exists>t. brelse i s = Ok () t \<and> bc_inv pid P (L - {blk}) t \<and> view t = view s \<and> disk t = disk s
    \<and> wtrace t = wtrace s \<and> bio_rest t = bio_rest s
    \<and> (\<forall>j b. is_slot (bufs s) j b \<longrightarrow> is_slot (bufs t) j b \<and> b_data (bufs t ! j) = b_data (bufs s ! j))"
proof -
  let ?x = "bufs s ! i"
  let ?y = "?x\<lparr>b_lock := (b_lock ?x)\<lparr>sl_locked := False, sl_pid := 0\<rparr>, b_refcnt := b_refcnt ?x - 1\<rparr>"
  have sl: "is_slot (bufs s) i blk" and d: "b_data ?x = d" using h by (auto simp: holds_def)
  have c: "calm pid s" and ok: "slot_ok pid (blk \<in> P) (blk \<in> L) ?x (disk s blk)"
    using inv bc_pay_slot [OF _ sl] by (auto simp: bc_inv_def)
  have hd: "held s = {}" and iN: "i < NBUF" using c sl by (auto simp: calm_def is_slot_def)
  note len = bc_inv_length [OF inv]
  let ?q = "wake_all (CH_sleep (SL_buf i)) (cur s) (procs s)"
  define u where "u = s\<lparr>bufs := (bufs s)[i := ?y], procs := ?q\<rparr>"
  have y: "slot_ok pid (blk \<in> P) (blk \<in> L - {blk}) ?y (disk s blk)"
    using ok L clean d by (auto simp: slot_ok_def)
  have u1: "bc_inv pid P (L - {blk}) (s\<lparr>bufs := (bufs s)[i := ?y]\<rparr>)"
    "view (s\<lparr>bufs := (bufs s)[i := ?y]\<rparr>) = (view s)(blk := if b_valid ?y then b_data ?y else disk s blk)"
    using bc_inv_update [OF inv sl, of ?y P "L - {blk}" "disk s"] sl y by (auto simp: is_slot_def)
  have "view s blk = (if b_valid ?y then b_data ?y else disk s blk)"
    using ok L holds_view [OF inv h] d by (auto simp: slot_ok_def)
  then have uview: "view u = view s"
    using u1(2) bc_inv_wake(2) [OF u1(1)] unfolding u_def by (simp add: fun_upd_idem)
  have uinv: "bc_inv pid P (L - {blk}) u"
    using bc_inv_wake(1) [OF u1(1), of "CH_sleep (SL_buf i)" "cur s"] by (simp add: u_def)
  have hold: "holdingsleep (SL_buf i) s = Ok True s"
    using holdingsleep_run [OF c, of "SL_buf i"] ok L by (simp add: sl_get_def slot_ok_def)
  have run: "brelse i s = kbind (kwhen (b_refcnt ?y = 0) (kdo [lru_unlink i, lru_push i]))
      (\<lambda>_. release LK_bcache) (u\<lparr>held := {LK_bcache}\<rparr>)"
  proof -
    have "u\<lparr>held := {LK_bcache}\<rparr> = s\<lparr>procs := ?q, held := {LK_bcache}, bufs := (bufs s)[i := ?y]\<rparr>"
      by (simp add: u_def)
    then show ?thesis
      using hold releasesleep_run [OF c, of "SL_buf i"] hd iN len
      by (simp add: brelse_def sl_upd_def upd_buf_def)
  qed
  obtain xs where lru: "lru (bufs u) xs" "set xs = {..<NBUF}" using uinv by (auto simp: bc_inv_def)
  have uh: "held u = {}" using hd by (simp add: u_def)
  have "\<exists>bs. brelse i s = Ok () (u\<lparr>bufs := bs\<rparr>) \<and> map payload bs = map payload (bufs u) \<and> (\<exists>ys. lru bs ys \<and> set ys = {..<NBUF})"
  proof (cases "b_refcnt ?y = 0")
    case True
    let ?u = "u\<lparr>held := {LK_bcache}\<rparr>"
    obtain bs where bs: "kdo [lru_unlink i, lru_push i] ?u = Ok () (?u\<lparr>bufs := bs\<rparr>)" "lru bs (i # remove1 i xs)"
      "set (i # remove1 i xs) = {..<NBUF}" "map payload bs = map payload (bufs u)"
      using lru_front_run [of ?u xs i] lru iN by auto
    have "brelse i s = Ok () (u\<lparr>bufs := bs\<rparr>)"
      unfolding run using bs(1) True uh by (simp only: kwhen_def if_True kbind_run outcome.simps) simp
    then show ?thesis using bs by blast
  next
    case False
    then have "brelse i s = Ok () (u\<lparr>bufs := bufs u\<rparr>)" unfolding run using uh by simp
    then show ?thesis using lru by blast
  qed
  then obtain bs ys where bs: "brelse i s = Ok () (u\<lparr>bufs := bs\<rparr>)" "map payload bs = map payload (bufs u)"
    "lru bs ys" "set ys = {..<NBUF}" by blast
  note F = bc_inv_front [OF uinv bs(3,4,2)]
  have "is_slot bs j b \<and> b_data (bs ! j) = b_data (bufs s ! j)" if "is_slot (bufs s) j b" for j b
    using slots_kept [OF _ len sl _ _ _ that, of bs ?y] bs(2) sl by (auto simp: u_def is_slot_def)
  then show ?thesis
    using bs(1) F uview by (intro exI [of _ "u\<lparr>bufs := bs\<rparr>"]) (simp add: u_def)
qed

lemma bpin_spec:
  assumes inv: "bc_inv pid P L s" and h: "holds s i blk d" and L: "blk \<in> L" "blk \<notin> P"
  shows "\<exists>t. bpin i s = Ok () t \<and> bc_inv pid (insert blk P) L t \<and> view t = view s \<and> disk t = disk s
    \<and> wtrace t = wtrace s \<and> bio_rest t = bio_rest s
    \<and> (\<forall>j b. is_slot (bufs s) j b \<longrightarrow> is_slot (bufs t) j b \<and> b_data (bufs t ! j) = b_data (bufs s ! j))"
proof -
  let ?x = "bufs s ! i"
  let ?y = "?x\<lparr>b_refcnt := b_refcnt ?x + 1\<rparr>"
  let ?t = "s\<lparr>bufs := (bufs s)[i := ?y]\<rparr>"
  have sl: "is_slot (bufs s) i blk" and d: "b_data ?x = d" using h by (auto simp: holds_def)
  have c: "calm pid s" and ok: "slot_ok pid (blk \<in> P) (blk \<in> L) ?x (disk s blk)"
    using inv bc_pay_slot [OF _ sl] by (auto simp: bc_inv_def)
  note len = bc_inv_length [OF inv]
  have "bpin i s = Ok () ?t" using c by (simp add: bpin_def calm_def upd_buf_def)
  moreover have y: "slot_ok pid (blk \<in> insert blk P) (blk \<in> L) ?y (disk s blk)" using ok L by (auto simp: slot_ok_def)
  have "bc_inv pid (insert blk P) L ?t" "view ?t = (view s)(blk := d)"
    using bc_inv_update [OF inv sl, of ?y "insert blk P" L "disk s"] sl y ok L d by (auto simp: is_slot_def slot_ok_def)
  moreover have "view s blk = d" using holds_view [OF inv h] L by blast
  moreover have "is_slot (bufs ?t) j b \<and> b_data (bufs ?t ! j) = b_data (bufs s ! j)" if "is_slot (bufs s) j b" for j b
    using slots_kept [OF _ len sl _ _ _ that, of "(bufs s)[i := ?y]" ?y] sl by (auto simp: is_slot_def)
  ultimately show ?thesis by (intro exI [of _ ?t]) (auto simp: fun_upd_idem)
qed

lemma bunpin_spec:
  assumes inv: "bc_inv pid P L s" and h: "holds s i blk d" and L: "blk \<in> L" "blk \<in> P"
  shows "\<exists>t. bunpin i s = Ok () t \<and> bc_inv pid (P - {blk}) L t \<and> view t = view s \<and> disk t = disk s
    \<and> wtrace t = wtrace s \<and> bio_rest t = bio_rest s
    \<and> (\<forall>j b. is_slot (bufs s) j b \<longrightarrow> is_slot (bufs t) j b \<and> b_data (bufs t ! j) = b_data (bufs s ! j))"
proof -
  let ?x = "bufs s ! i"
  let ?y = "?x\<lparr>b_refcnt := b_refcnt ?x - 1\<rparr>"
  let ?t = "s\<lparr>bufs := (bufs s)[i := ?y]\<rparr>"
  have sl: "is_slot (bufs s) i blk" and d: "b_data ?x = d" using h by (auto simp: holds_def)
  have c: "calm pid s" and ok: "slot_ok pid (blk \<in> P) (blk \<in> L) ?x (disk s blk)"
    using inv bc_pay_slot [OF _ sl] by (auto simp: bc_inv_def)
  note len = bc_inv_length [OF inv]
  have "bunpin i s = Ok () ?t" using c by (simp add: bunpin_def calm_def upd_buf_def)
  moreover have y: "slot_ok pid (blk \<in> P - {blk}) (blk \<in> L) ?y (disk s blk)" using ok L by (auto simp: slot_ok_def)
  have "bc_inv pid (P - {blk}) L ?t" "view ?t = (view s)(blk := d)"
    using bc_inv_update [OF inv sl, of ?y "P - {blk}" L "disk s"] sl y ok L d by (auto simp: is_slot_def slot_ok_def)
  moreover have "view s blk = d" using holds_view [OF inv h] L by blast
  moreover have "is_slot (bufs ?t) j b \<and> b_data (bufs ?t ! j) = b_data (bufs s ! j)" if "is_slot (bufs s) j b" for j b
    using slots_kept [OF _ len sl _ _ _ that, of "(bufs s)[i := ?y]" ?y] sl by (auto simp: is_slot_def)
  ultimately show ?thesis by (intro exI [of _ ?t]) (auto simp: fun_upd_idem)
qed


section \<open>The contract of the block cache\<close>

definition keeps :: "u32 set \<Rightarrow> kstate \<Rightarrow> kstate \<Rightarrow> bool" where
  "keeps B s t \<longleftrightarrow> (\<forall>j b. b \<in> B \<longrightarrow> is_slot (bufs s) j b \<longrightarrow> is_slot (bufs t) j b \<and> b_data (bufs t ! j) = b_data (bufs s ! j))"

lemma keeps_holds: "keeps B s t \<Longrightarrow> b \<in> B \<Longrightarrow> holds s j b d \<Longrightarrow> holds t j b d"
  by (auto simp: keeps_def holds_def)

locale block_cache =
  fixes rd :: "u32 \<Rightarrow> nat K" and md :: "nat \<Rightarrow> (u8 list \<Rightarrow> u8 list) \<Rightarrow> unit K" and wr :: "nat \<Rightarrow> unit K"
    and rl :: "nat \<Rightarrow> unit K" and inv :: "u32 set \<Rightarrow> u32 set \<Rightarrow> kstate \<Rightarrow> bool"
  assumes rd_ok: "inv P L s \<Longrightarrow> blk \<notin> L \<Longrightarrow> blk \<in> P \<or> card (L \<union> P) < NBUF \<Longrightarrow> finite (L \<union> P) \<Longrightarrow>
      \<exists>i t. rd blk s = Ok i t \<and> inv P (insert blk L) t \<and> holds t i blk (view s blk) \<and> view t = view s
        \<and> disk t = disk s \<and> wtrace t = wtrace s \<and> bio_rest t = bio_rest s \<and> keeps (L \<union> P) s t"
    and md_ok: "inv P L s \<Longrightarrow> holds s i blk d \<Longrightarrow> blk \<in> L \<Longrightarrow>
      \<exists>t. md i f s = Ok () t \<and> inv P L t \<and> holds t i blk (f d) \<and> view t = (view s)(blk := f d)
        \<and> disk t = disk s \<and> wtrace t = wtrace s \<and> bio_rest t = bio_rest s \<and> keeps (- {blk}) s t"
    and wr_ok: "inv P L s \<Longrightarrow> holds s i blk d \<Longrightarrow> blk \<in> L \<Longrightarrow>
      \<exists>t. wr i s = Ok () t \<and> inv P L t \<and> view t = view s \<and> disk t = (disk s)(blk := d)
        \<and> wtrace t = wtrace s @ [(blk, d)] \<and> bio_rest t = bio_rest s \<and> keeps UNIV s t"
    and rl_ok: "inv P L s \<Longrightarrow> holds s i blk d \<Longrightarrow> blk \<in> L \<Longrightarrow> blk \<in> P \<or> d = disk s blk \<Longrightarrow>
      \<exists>t. rl i s = Ok () t \<and> inv P (L - {blk}) t \<and> view t = view s \<and> disk t = disk s
        \<and> wtrace t = wtrace s \<and> bio_rest t = bio_rest s \<and> keeps UNIV s t"
    and hold_view: "inv P L s \<Longrightarrow> holds s i blk d \<Longrightarrow> blk \<in> L \<union> P \<Longrightarrow> view s blk = d"
begin

text \<open>Read a block, change it, write it through and release it: the only block written is this one.\<close>

lemma write_through:
  assumes "inv P L s" "blk \<notin> L" "blk \<in> P \<or> card (L \<union> P) < NBUF" "finite (L \<union> P)"
  shows "\<exists>t. kbind (rd blk) (\<lambda>i. kdo [md i f, wr i, rl i]) s = Ok () t \<and> inv P L t
    \<and> view t = (view s)(blk := f (view s blk)) \<and> disk t = (disk s)(blk := f (view s blk))
    \<and> wtrace t = wtrace s @ [(blk, f (view s blk))] \<and> bio_rest t = bio_rest s"
proof -
  obtain i t1 where t1: "rd blk s = Ok i t1" "inv P (insert blk L) t1" "holds t1 i blk (view s blk)"
    "view t1 = view s" "disk t1 = disk s" "wtrace t1 = wtrace s" "bio_rest t1 = bio_rest s"
    using rd_ok [OF assms] by blast
  obtain t2 where t2: "md i f t1 = Ok () t2" "inv P (insert blk L) t2" "holds t2 i blk (f (view s blk))"
    "view t2 = (view t1)(blk := f (view s blk))" "disk t2 = disk t1" "wtrace t2 = wtrace t1" "bio_rest t2 = bio_rest t1"
    using md_ok [OF t1(2,3), of f] by blast
  obtain t3 where t3: "wr i t2 = Ok () t3" "inv P (insert blk L) t3" "view t3 = view t2"
    "disk t3 = (disk t2)(blk := f (view s blk))" "wtrace t3 = wtrace t2 @ [(blk, f (view s blk))]"
    "bio_rest t3 = bio_rest t2" "keeps UNIV t2 t3"
    using wr_ok [OF t2(2,3)] by blast
  have h3: "holds t3 i blk (f (view s blk))" using keeps_holds [OF t3(7) _ t2(3)] by simp
  obtain t4 where t4: "rl i t3 = Ok () t4" "inv P (insert blk L - {blk}) t4" "view t4 = view t3" "disk t4 = disk t3"
    "wtrace t4 = wtrace t3" "bio_rest t4 = bio_rest t3"
    using rl_ok [OF t3(2) h3] t3(4) by auto
  have "insert blk L - {blk} = L" using assms(2) by auto
  then show ?thesis
    using t1 t2 t3 t4 by (intro exI [of _ t4]) simp
qed

text \<open>Two different blocks read one after the other.\<close>

lemma read_two:
  assumes "inv P L s" "a \<notin> L" "b \<notin> L" "a \<noteq> b" "a \<in> P \<or> card (L \<union> P) < NBUF"
    "b \<in> P \<or> card (insert a L \<union> P) < NBUF" "finite (L \<union> P)"
  shows "\<exists>i j t. kbind (rd a) (\<lambda>i. kbind (rd b) (\<lambda>j. m i j)) s = m i j t \<and> inv P (insert b (insert a L)) t
    \<and> holds t i a (view s a) \<and> holds t j b (view s b) \<and> view t = view s
    \<and> disk t = disk s \<and> wtrace t = wtrace s \<and> bio_rest t = bio_rest s"
proof -
  obtain i t1 where t1: "rd a s = Ok i t1" "inv P (insert a L) t1" "holds t1 i a (view s a)"
    "view t1 = view s" "disk t1 = disk s" "wtrace t1 = wtrace s" "bio_rest t1 = bio_rest s"
    using rd_ok [OF assms(1,2,5,7)] by blast
  obtain j t2 where t2: "rd b t1 = Ok j t2" "inv P (insert b (insert a L)) t2" "holds t2 j b (view t1 b)"
    "view t2 = view t1" "disk t2 = disk t1" "wtrace t2 = wtrace t1" "bio_rest t2 = bio_rest t1" "keeps (insert a L \<union> P) t1 t2"
    using rd_ok [OF t1(2), of b] assms(3,4,6,7) by auto
  have "holds t2 i a (view s a)" using keeps_holds [OF t2(8) _ t1(3)] by simp
  then show ?thesis using t1 t2 by (intro exI [of _ i] exI [of _ j] exI [of _ t2]) simp
qed

end

interpretation bcache: block_cache "bread ROOTDEV" bmodify bwrite brelse "bc_inv pid" for pid
proof
  fix P L s blk assume "bc_inv pid P L s" "blk \<notin> L" "blk \<in> P \<or> card (L \<union> P) < NBUF" "finite (L \<union> P)"
  from bread_spec [OF this] show "\<exists>i t. bread ROOTDEV blk s = Ok i t \<and> bc_inv pid P (insert blk L) t \<and> holds t i blk (view s blk)
    \<and> view t = view s \<and> disk t = disk s \<and> wtrace t = wtrace s \<and> bio_rest t = bio_rest s \<and> keeps (L \<union> P) s t"
    unfolding keeps_def .
next
  fix P L s i blk d f assume "bc_inv pid P L s" "holds s i blk d" "blk \<in> L"
  from bmodify_spec [OF this, of f] show "\<exists>t. bmodify i f s = Ok () t \<and> bc_inv pid P L t \<and> holds t i blk (f d) \<and> view t = (view s)(blk := f d)
    \<and> disk t = disk s \<and> wtrace t = wtrace s \<and> bio_rest t = bio_rest s \<and> keeps (- {blk}) s t"
    unfolding keeps_def by simp
next
  fix P L s i blk d assume "bc_inv pid P L s" "holds s i blk d" "blk \<in> L"
  from bwrite_spec [OF this] show "\<exists>t. bwrite i s = Ok () t \<and> bc_inv pid P L t \<and> view t = view s \<and> disk t = (disk s)(blk := d)
    \<and> wtrace t = wtrace s @ [(blk, d)] \<and> bio_rest t = bio_rest s \<and> keeps UNIV s t"
    unfolding keeps_def by auto
next
  fix P L s i blk d assume "bc_inv pid P L s" "holds s i blk d" "blk \<in> L" "blk \<in> P \<or> d = disk s blk"
  from brelse_spec [OF this] show "\<exists>t. brelse i s = Ok () t \<and> bc_inv pid P (L - {blk}) t \<and> view t = view s \<and> disk t = disk s
    \<and> wtrace t = wtrace s \<and> bio_rest t = bio_rest s \<and> keeps UNIV s t"
    unfolding keeps_def by simp
qed (rule holds_view)

section \<open>Initialisation\<close>

lemma binit_loop:
  assumes "lru (bufs s) (rev [0..<n])" "n \<le> NBUF"
  shows "\<exists>bs. kfor [n..<NBUF] (\<lambda>b. kdo [lru_push b, initsleeplock (SL_buf b)]) s = Ok () (s\<lparr>bufs := bs\<rparr>)
    \<and> lru bs (rev [0..<NBUF]) \<and> (\<forall>i < NBUF. n \<le> i \<longrightarrow> \<not> sl_locked (b_lock (bs ! i)))
    \<and> (\<forall>i < NBUF. i < n \<longrightarrow> b_lock (bs ! i) = b_lock (bufs s ! i))
    \<and> (\<forall>i < NBUF. b_refcnt (bs ! i) = b_refcnt (bufs s ! i) \<and> b_dev (bs ! i) = b_dev (bufs s ! i))"
  using assms
proof (induction "NBUF - n" arbitrary: n s)
  case 0
  then have "n = NBUF" by simp
  then show ?case using 0 by (intro exI [of _ "bufs s"]) simp
next
  case (Suc k)
  then have n: "n < NBUF" by simp
  obtain b1 where b1: "lru_push n s = Ok () (s\<lparr>bufs := b1\<rparr>)" "lru b1 (n # rev [0..<n])" "map payload b1 = map payload (bufs s)"
    using lru_push_run [OF Suc.prems(1) n] by auto
  have len: "length b1 = Suc NBUF" "length (bufs s) = Suc NBUF" using b1(2) Suc.prems(1) by (auto simp: lru_def)
  let ?b2 = "b1[n := (b1 ! n)\<lparr>b_lock := (b_lock (b1 ! n))\<lparr>sl_locked := False, sl_pid := 0\<rparr>\<rparr>]"
  have step: "kdo [lru_push n, initsleeplock (SL_buf n)] s = Ok () (s\<lparr>bufs := ?b2\<rparr>)"
    using b1(1) by (simp add: initsleeplock_def sl_upd_def)
  define s2 where "s2 = s\<lparr>bufs := ?b2\<rparr>"
  have s2: "bufs s2 = ?b2" "\<And>bs. s2\<lparr>bufs := bs\<rparr> = s\<lparr>bufs := bs\<rparr>" by (simp_all add: s2_def)
  have l2: "lru (bufs s2) (rev [0..<Suc n])" using lru_keep [OF b1(2)] by (simp add: s2)
  have kk: "k = NBUF - Suc n" "Suc n \<le> NBUF" using Suc.hyps(2) n by simp_all
  obtain bs where bs: "kfor [Suc n..<NBUF] (\<lambda>b. kdo [lru_push b, initsleeplock (SL_buf b)]) s2 = Ok () (s\<lparr>bufs := bs\<rparr>)"
    "lru bs (rev [0..<NBUF])" "\<forall>i < NBUF. Suc n \<le> i \<longrightarrow> \<not> sl_locked (b_lock (bs ! i))"
    "\<forall>i < NBUF. i < Suc n \<longrightarrow> b_lock (bs ! i) = b_lock (?b2 ! i)"
    "\<forall>i < NBUF. b_refcnt (bs ! i) = b_refcnt (?b2 ! i) \<and> b_dev (bs ! i) = b_dev (?b2 ! i)"
    using Suc.hyps(1) [OF kk(1) l2 kk(2)] unfolding s2 by blast
  have up: "[n..<NBUF] = n # [Suc n..<NBUF]" using n by (rule upt_conv_Cons)
  have run: "kfor [n..<NBUF] (\<lambda>b. kdo [lru_push b, initsleeplock (SL_buf b)]) s = Ok () (s\<lparr>bufs := bs\<rparr>)"
    unfolding up kfor.simps(2) kbind_run step using bs(1) by (simp add: s2_def)
  have pn: "payload (b1 ! i) = payload (bufs s ! i)" if "i < NBUF" for i
    using payload_nth [OF b1(3) len(2) that] .
  have "\<not> sl_locked (b_lock (bs ! i))" if "i < NBUF" "n \<le> i" for i
    using that bs(3,4) n len by (cases "i = n") auto
  moreover have "b_lock (bs ! i) = b_lock (bufs s ! i)" if "i < NBUF" "i < n" for i
    using that bs(4) payload_fields(4) [OF pn [OF that(1)]] by simp
  moreover have "b_refcnt (bs ! i) = b_refcnt (bufs s ! i) \<and> b_dev (bs ! i) = b_dev (bufs s ! i)" if "i < NBUF" for i
    using that bs(5) payload_fields(2,5) [OF pn [OF that]] len by (cases "i = n") auto
  ultimately show ?case using run bs(2) by blast
qed


section \<open>Properties\<close>

text \<open>\<open>binit\<close> links all \<open>NBUF\<close> buffers into one circular doubly linked list, the last one in front, with
  every sleep lock free, and the cache invariant holds: nothing is locked or pinned and every block is seen as it is on the card.\<close>

theorem binit_establishes_cache:
  assumes "calm pid s" "length (bufs s) = Suc NBUF" "\<forall>i < NBUF. b_dev (bufs s ! i) = 0 \<and> b_refcnt (bufs s ! i) = 0"
  shows "\<exists>t. binit s = Ok () t \<and> lru (bufs t) (rev [0..<NBUF]) \<and> bc_inv pid {} {} t \<and> view t = disk s"
proof -
  let ?h = "(bufs s ! NBUF)\<lparr>b_prev := NBUF, b_next := NBUF\<rparr>"
  let ?s = "s\<lparr>bufs := (bufs s)[NBUF := ?h]\<rparr>"
  have "lru (bufs ?s) (rev [0..<0])" using assms(2) by (simp add: lru_def nexts_def prevs_def)
  then obtain bs where bs: "kfor [0..<NBUF] (\<lambda>b. kdo [lru_push b, initsleeplock (SL_buf b)]) ?s = Ok () (?s\<lparr>bufs := bs\<rparr>)"
    "lru bs (rev [0..<NBUF])" "\<forall>i < NBUF. 0 \<le> i \<longrightarrow> \<not> sl_locked (b_lock (bs ! i))"
    "\<forall>i < NBUF. b_refcnt (bs ! i) = b_refcnt (bufs ?s ! i) \<and> b_dev (bs ! i) = b_dev (bufs ?s ! i)"
    using binit_loop [of ?s 0] by blast
  let ?t = "s\<lparr>bufs := bs\<rparr>"
  have run: "binit s = Ok () ?t" using bs(1) assms(2) by (simp add: binit_def upd_buf_def)
  have z: "b_refcnt (bs ! i) = 0" "b_dev (bs ! i) = 0" "\<not> sl_locked (b_lock (bs ! i))" if "i < NBUF" for i
    using that bs(3,4) assms(3) by auto
  then have no: "\<not> is_slot bs i blk" for i blk by (auto simp: is_slot_def)
  have "bc_pay pid {} {} bs (disk s)" using z no by (simp add: bc_pay_def)
  then have "bc_inv pid {} {} ?t" using assms(1) bs(2) unfolding bc_inv_def by (auto intro!: exI [of _ "rev [0..<NBUF]"])
  moreover have "view ?t = disk s" using no by (auto simp: view_def bview_uncached)
  ultimately show ?thesis using run bs(2) by (intro exI [of _ ?t]) simp
qed

definition buf_example :: buf where
  "buf_example = \<lparr>b_valid = False, b_dev = 0, b_blockno = 0, b_lock = \<lparr>sl_locked = False, sl_pid = 0\<rparr>, b_refcnt = 0,
     b_prev = 0, b_next = 0, b_data = replicate 512 0\<rparr>"

definition fs_example :: kstate where
  "fs_example = blank_kstate\<lparr>procs := replicate 64 proc_example, cur := Some 0, bufs := replicate 31 buf_example,
     disk := (\<lambda>b. replicate 512 (ucast b))\<rparr>"

lemma fs_example_calm: "calm 1 fs_example"
  by (simp add: calm_def fs_example_def blank_kstate_def proc_example_def)

lemma fs_example_bufs: "length (bufs fs_example) = Suc NBUF"
  "\<forall>i < NBUF. b_dev (bufs fs_example ! i) = 0 \<and> b_refcnt (bufs fs_example ! i) = 0"
  by (simp_all add: fs_example_def buf_example_def)

theorem binit_establishes_cache_witness:
  "\<exists>t. binit fs_example = Ok () t \<and> lru (bufs t) (rev [0..<NBUF]) \<and> bc_inv 1 {} {} t"
  using binit_establishes_cache [OF fs_example_calm fs_example_bufs] by blast

text \<open>A cache as \<open>binit\<close> leaves it.\<close>

definition cache_example :: kstate where
  "cache_example = fs_example\<lparr>bufs := map (\<lambda>i. buf_example\<lparr>b_prev := (i + 1) mod 31, b_next := (i + 30) mod 31\<rparr>) [0..<31]\<rparr>"

lemma bc_inv_example: "bc_inv 1 {} {} (cache_example\<lparr>disk := d, klog := l\<rparr>)" (is "bc_inv 1 {} {} ?s")
proof -
  have slot: "\<not> is_slot (bufs ?s) i blk" for i blk
    unfolding is_slot_def by (cases "i < NBUF") (simp_all add: buf_example_def cache_example_def)
  have "path (nexts (bufs ?s)) (prevs (bufs ?s)) 30 (rev [0..<n]) 30 \<longleftrightarrow> True" if "n = 30" for n
    unfolding that by (simp add: nexts_def prevs_def upt_rec cache_example_def)
  then have "lru (bufs ?s) (rev [0..<NBUF])" by (auto simp: lru_def cache_example_def)
  moreover have "bc_pay 1 {} {} (bufs ?s) (disk ?s)" using slot by (simp add: bc_pay_def buf_example_def cache_example_def)
  moreover have "calm 1 ?s" using fs_example_calm by (simp add: calm_def cache_example_def)
  ultimately show ?thesis unfolding bc_inv_def by (intro conjI exI [of _ "rev [0..<NBUF]"]) auto
qed

text \<open>With all buffers in use, a block that is not cached cannot be read.\<close>

lemma bget_no_buffers:
  assumes inv: "bc_inv pid P L s" and no: "\<And>i. \<not> is_slot (bufs s) i blk" and full: "card (L \<union> P) = NBUF"
  shows "\<exists>t. bget ROOTDEV blk s = Panic ''bget: no buffers'' t"
proof -
  obtain xs where lru: "lru (bufs s) xs" "set xs = {..<NBUF}" and pay: "bc_pay pid P L (bufs s) (disk s)" and c: "calm pid s"
    using inv by (auto simp: bc_inv_def)
  have h: "held s = {}" using c by (simp add: calm_def)
  let ?s = "s\<lparr>held := {LK_bcache}\<rparr>"
  have fc: "find_cached 31 (nexts (bufs ?s) NBUF) ROOTDEV blk ?s = Ok None ?s"
    using find_cached_slot [of ?s xs pid P L blk] lru pay no by auto
  have "L \<union> P \<subseteq> (\<lambda>i. b_blockno (bufs s ! i)) ` {i. i < NBUF \<and> b_refcnt (bufs s ! i) \<noteq> 0}"
  proof
    fix b assume b: "b \<in> L \<union> P"
    then obtain i where i: "is_slot (bufs s) i b" using bc_pay_cached [OF pay] by blast
    then have "b_refcnt (bufs s ! i) \<noteq> 0" using bc_pay_slot [OF pay i] b by (auto simp: slot_ok_def)
    then show "b \<in> (\<lambda>i. b_blockno (bufs s ! i)) ` {i. i < NBUF \<and> b_refcnt (bufs s ! i) \<noteq> 0}"
      using i by (auto simp: is_slot_def)
  qed
  then have "card (L \<union> P) \<le> card {i. i < NBUF \<and> b_refcnt (bufs s ! i) \<noteq> 0}"
    by (intro surj_card_le) auto
  moreover have "{i. i < NBUF \<and> b_refcnt (bufs s ! i) \<noteq> 0} \<subseteq> {..<NBUF}" by auto
  moreover have "card {i. i < NBUF \<and> b_refcnt (bufs s ! i) \<noteq> 0} \<le> card {..<NBUF}" by (rule card_mono) auto
  ultimately have all: "{i. i < NBUF \<and> b_refcnt (bufs s ! i) \<noteq> 0} = {..<NBUF}"
    using full by (intro card_subset_eq) simp_all
  have "length xs = NBUF" using lru by (simp add: lru_def distinct_card [symmetric])
  then have "find_unused 31 (prevs (bufs ?s) NBUF) ?s = Ok (find (\<lambda>i. b_refcnt (bufs s ! i) = 0) (rev xs)) ?s"
    using lru find_unused_run [of ?s xs NBUF 31] by (auto simp: lru_def)
  moreover have "find (\<lambda>i. b_refcnt (bufs s ! i) = 0) (rev xs) = None"
    using all lru(2) by (auto simp: find_None_iff)
  ultimately show ?thesis
    using fc h by (simp add: bget_def nexts_def prevs_def)
qed

text \<open>(C12) \<open>bread\<close> never panics while the block is pinned or fewer than \<open>NBUF\<close> blocks are in use: it returns a locked buffer that holds what every
  reader of that block sees (the cached copy, or the card's contents), and it changes neither the view of any block nor the card,
  although it may evict a cached block.\<close>

theorem bread_returns_view:
  assumes "bc_inv pid P L s" "blk \<notin> L" "blk \<in> P \<or> card (L \<union> P) < NBUF" "finite (L \<union> P)"
  shows "\<exists>i t. bread ROOTDEV blk s = Ok i t \<and> bc_inv pid P (insert blk L) t \<and> b_data (bufs t ! i) = view s blk
    \<and> view t = view s \<and> disk t = disk s \<and> wtrace t = wtrace s"
  using bcache.rd_ok [OF assms] by (auto simp: holds_def)

theorem bread_returns_view_witness:
  "\<exists>i t. bread ROOTDEV 7 (cache_example\<lparr>disk := (\<lambda>b. [ucast b]), klog := klog blank_kstate\<rparr>) = Ok i t \<and> bc_inv 1 {} {7} t"
  using bread_returns_view [OF bc_inv_example [where d = "\<lambda>b. [ucast b]" and l = "klog blank_kstate"], of 7] by auto

text \<open>A read-modify-write through the cache (\<open>bread\<close>, change the data, \<open>bwrite\<close>, \<open>brelse\<close>) puts exactly
  the modified block on the card, as the only write, makes it what all later readers see, and leaves the cache with the
  buffer released and moved to the front of the list.\<close>

theorem bwrite_through_cache:
  assumes "bc_inv pid P L s" "blk \<notin> L" "blk \<in> P \<or> card (L \<union> P) < NBUF" "finite (L \<union> P)"
  shows "\<exists>t. kbind (bread ROOTDEV blk) (\<lambda>i. kdo [bmodify i f, bwrite i, brelse i]) s = Ok () t \<and> bc_inv pid P L t
    \<and> view t = (view s)(blk := f (view s blk)) \<and> disk t = (disk s)(blk := f (view s blk))
    \<and> wtrace t = wtrace s @ [(blk, f (view s blk))]"
  using bcache.write_through [OF assms, of f] by blast

theorem bwrite_through_cache_witness:
  "\<exists>t. kbind (bread ROOTDEV 7) (\<lambda>i. kdo [bmodify i (\<lambda>_. [1]), bwrite i, brelse i])
      (cache_example\<lparr>disk := (\<lambda>b. [ucast b]), klog := klog blank_kstate\<rparr>) = Ok () t
    \<and> bc_inv 1 {} {} t \<and> disk t 7 = [1]"
  using bwrite_through_cache [OF bc_inv_example [where d = "\<lambda>b. [ucast b]" and l = "klog blank_kstate"], of 7 "\<lambda>_. [1]"] by fastforce

end
