(* ===== verification/KV_Log.thy ===== *)
theory KV_Log
  imports KV_Bio
begin

text \<open>
  The write-ahead log of the file system (kernel/log.c): group commit of system calls, the on-disk header, installation and
  recovery.  The crash model: every block write is atomic and reaches the card in program order (\<open>wtrace\<close>); a crash
  keeps a prefix of the writes, and the next boot starts from an empty cache.

  The messages that \<open>install_trans\<close> prints while recovering are not part of the state.
\<close>

section \<open>Little-endian fields of a block\<close>

definition get32 :: "u8 list \<Rightarrow> nat \<Rightarrow> u32" where
  "get32 bs o' = ucast (bs ! o') OR push_bit 8 (ucast (bs ! (o' + 1)))
     OR push_bit 16 (ucast (bs ! (o' + 2))) OR push_bit 24 (ucast (bs ! (o' + 3)))"

definition put32 :: "u8 list \<Rightarrow> nat \<Rightarrow> u32 \<Rightarrow> u8 list" where
  "put32 bs o' v = bs[o' := ucast v, o' + 1 := ucast (drop_bit 8 v),
     o' + 2 := ucast (drop_bit 16 v), o' + 3 := ucast (drop_bit 24 v)]"

lemma length_put32 [simp]: "length (put32 bs o' v) = length bs"
  by (simp add: put32_def)

lemma get32_put32 [simp]: "o' + 4 \<le> length bs \<Longrightarrow> get32 (put32 bs o' v) o' = v"
  by (simp add: get32_def put32_def nth_list_update word_cat4)

lemma get32_put32_other: "o' + 4 \<le> p \<or> p + 4 \<le> o' \<Longrightarrow> get32 (put32 bs o' v) p = get32 bs p"
  by (auto simp: get32_def put32_def)

text \<open>\<open>hb->n = n; hb->block[i] = block[i]\<close> for the first \<open>n\<close> blocks; the rest of the block keeps its bytes.\<close>
definition put_header :: "u32 list \<Rightarrow> nat \<Rightarrow> u8 list \<Rightarrow> u8 list" where
  "put_header bl n d = foldl (\<lambda>d i. put32 d (4 + 4 * i) (bl ! i)) (put32 d 0 (of_nat n)) [0..<n]"

section \<open>Operations\<close>

definition upd_log :: "(log \<Rightarrow> log) \<Rightarrow> kstate \<Rightarrow> kstate" where
  "upd_log f s = s\<lparr>klog := f (klog s)\<rparr>"

text \<open>\<open>memmove(dst->data, src->data, BSIZE)\<close>.\<close>
definition bcopy :: "nat \<Rightarrow> nat \<Rightarrow> unit K" where
  "bcopy dst src = kbind (kget (\<lambda>s. b_data (bufs s ! src))) (\<lambda>d. bmodify dst (\<lambda>_. d))"

definition install_one :: "bool \<Rightarrow> nat \<Rightarrow> unit K" where
  "install_one recovering tail =
     kbind (kget klog) (\<lambda>l.
     kbind (bread (l_dev l) (l_start l + of_nat tail + 1)) (\<lambda>lbuf.
     kbind (bread (l_dev l) (lh_block l ! tail)) (\<lambda>dbuf. kdo [
       bcopy dbuf lbuf,
       bwrite dbuf,
       kwhen (\<not> recovering) (bunpin dbuf),
       brelse lbuf,
       brelse dbuf])))"

definition install_trans :: "bool \<Rightarrow> unit K" where
  "install_trans recovering = kbind (kget (\<lambda>s. lh_n (klog s))) (\<lambda>n. kfor [0..<n] (install_one recovering))"

text \<open>A header whose count exceeds \<open>LOGBLOCKS\<close> would make the C code write past \<open>log.lh.block\<close>.  A
  negative count is no entry.\<close>
definition read_head :: "unit K" where
  "read_head =
     kbind (kget klog) (\<lambda>l.
     kbind (bread (l_dev l) (l_start l)) (\<lambda>b.
     kbind (kget (\<lambda>s. b_data (bufs s ! b))) (\<lambda>d.
     let n = nat (sint (get32 d 0)) in
     if n > LOGBLOCKS then kpanic ''log.lh.block: out of bounds''
     else kdo [
       kmod (upd_log (\<lambda>l. l\<lparr>lh_n := n\<rparr>)),
       kfor [0..<n] (\<lambda>i. kmod (upd_log (\<lambda>l. l\<lparr>lh_block := (lh_block l)[i := get32 d (4 + 4 * i)]\<rparr>))),
       brelse b])))"

definition write_head :: "unit K" where
  "write_head =
     kbind (kget klog) (\<lambda>l.
     kbind (bread (l_dev l) (l_start l)) (\<lambda>b. kdo [
       bmodify b (put_header (lh_block l) (lh_n l)),
       bwrite b,
       brelse b]))"

definition recover_from_log :: "unit K" where
  "recover_from_log = kdo [
     read_head,
     install_trans True,
     kmod (upd_log (\<lambda>l. l\<lparr>lh_n := 0\<rparr>)),
     write_head]"

definition initlog :: "u32 \<Rightarrow> superblock \<Rightarrow> unit K" where
  "initlog dev sbp =
     (if 4 + 4 * LOGBLOCKS \<ge> BSIZE then kpanic ''initlog: too big logheader''
      else kdo [
        kmod (upd_log (\<lambda>l. l\<lparr>l_start := sb_logstart sbp, l_dev := dev\<rparr>)),
        recover_from_log])"

text \<open>\<open>begin_op\<close> from its loop on, with \<open>log.lock\<close> held; a process that slept enters it again.\<close>
definition begin_op_loop :: "unit K" where
  "begin_op_loop =
     kbind (kget klog) (\<lambda>l.
     if l_committing l then kblock CH_log LK_log
     else if int (lh_n l) + (l_outstanding l + 1) * int MAXOPBLOCKS > int LOGBLOCKS then kblock CH_log LK_log
     else kdo [
       kmod (upd_log (\<lambda>l. l\<lparr>l_outstanding := l_outstanding l + 1\<rparr>)),
       release LK_log])"

definition begin_op :: "unit K" where
  "begin_op = kbind (acquire LK_log) (\<lambda>_. begin_op_loop)"

definition begin_op_resume :: "unit K" where
  "begin_op_resume = kbind (sleep_resume LK_log) (\<lambda>_. begin_op_loop)"

definition write_log_one :: "nat \<Rightarrow> unit K" where
  "write_log_one tail =
     kbind (kget klog) (\<lambda>l.
     kbind (bread (l_dev l) (l_start l + of_nat tail + 1)) (\<lambda>to'.
     kbind (bread (l_dev l) (lh_block l ! tail)) (\<lambda>from'. kdo [
       bcopy to' from',
       bwrite to',
       brelse from',
       brelse to'])))"

definition write_log :: "unit K" where
  "write_log = kbind (kget (\<lambda>s. lh_n (klog s))) (\<lambda>n. kfor [0..<n] write_log_one)"

definition commit :: "unit K" where
  "commit =
     kbind (kget (\<lambda>s. lh_n (klog s))) (\<lambda>n.
     kwhen (n > 0) (kdo [
       write_log,
       write_head,
       install_trans False,
       kmod (upd_log (\<lambda>l. l\<lparr>lh_n := 0\<rparr>)),
       write_head]))"

definition end_op :: "unit K" where
  "end_op =
     kbind (acquire LK_log) (\<lambda>_.
     kbind (kmod (upd_log (\<lambda>l. l\<lparr>l_outstanding := l_outstanding l - 1\<rparr>))) (\<lambda>_.
     kbind (kget klog) (\<lambda>l.
     if l_committing l then kpanic ''log.committing''
     else
       let do_commit = (l_outstanding l = 0) in
       kdo [
         if do_commit then kmod (upd_log (\<lambda>l. l\<lparr>l_committing := True\<rparr>)) else wakeup CH_log,
         release LK_log,
         kwhen do_commit (kdo [
           commit,
           acquire LK_log,
           kmod (upd_log (\<lambda>l. l\<lparr>l_committing := False\<rparr>)),
           wakeup CH_log,
           release LK_log])])))"

text \<open>The index the absorption loop of \<open>log_write\<close> stops at.\<close>
primrec absorb_index :: "nat \<Rightarrow> u32 list \<Rightarrow> u32 \<Rightarrow> nat" where
  "absorb_index 0 bl blk = 0"
| "absorb_index (Suc n) bl blk = (if hd bl = blk then 0 else Suc (absorb_index n (tl bl) blk))"

definition log_write :: "nat \<Rightarrow> unit K" where
  "log_write b =
     kbind (acquire LK_log) (\<lambda>_.
     kbind (kget klog) (\<lambda>l.
     if lh_n l \<ge> LOGBLOCKS then kpanic ''too big a transaction''
     else if l_outstanding l < 1 then kpanic ''log_write outside of trans''
     else
       kbind (kget (\<lambda>s. b_blockno (bufs s ! b))) (\<lambda>blk.
       let i = absorb_index (lh_n l) (lh_block l) blk in
       kdo [
         kmod (upd_log (\<lambda>l. l\<lparr>lh_block := (lh_block l)[i := blk]\<rparr>)),
         kwhen (i = lh_n l) (kdo [
           bpin b,
           kmod (upd_log (\<lambda>l. l\<lparr>lh_n := lh_n l + 1\<rparr>))]),
         release LK_log])))"

section \<open>The header block\<close>

lemma put_header_step:
  "foldl (\<lambda>d i. put32 d (4 + 4 * i) (bl ! i)) d [0..<Suc n] = put32 (foldl (\<lambda>d i. put32 d (4 + 4 * i) (bl ! i)) d [0..<n]) (4 + 4 * n) (bl ! n)"
  by simp

lemma put_header_fold:
  assumes "4 + 4 * n \<le> length d"
  shows "length (foldl (\<lambda>d i. put32 d (4 + 4 * i) (bl ! i)) d [0..<n]) = length d"
    "get32 (foldl (\<lambda>d i. put32 d (4 + 4 * i) (bl ! i)) d [0..<n]) 0 = get32 d 0"
    "i < n \<Longrightarrow> get32 (foldl (\<lambda>d i. put32 d (4 + 4 * i) (bl ! i)) d [0..<n]) (4 + 4 * i) = bl ! i"
proof -
  show len: "length (foldl (\<lambda>d i. put32 d (4 + 4 * i) (bl ! i)) d [0..<n]) = length d" for n
    by (induction n) simp_all
  show "get32 (foldl (\<lambda>d i. put32 d (4 + 4 * i) (bl ! i)) d [0..<n]) 0 = get32 d 0"
    by (induction n) (simp_all add: get32_put32_other)
  show "i < n \<Longrightarrow> get32 (foldl (\<lambda>d i. put32 d (4 + 4 * i) (bl ! i)) d [0..<n]) (4 + 4 * i) = bl ! i"
    using assms
  proof (induction n)
    case (Suc n)
    show ?case
    proof (cases "i = n")
      case True
      then show ?thesis using Suc.prems len [of n] by simp
    next
      case False
      then show ?thesis using Suc by (simp add: get32_put32_other)
    qed
  qed simp
qed

lemma header_roundtrip:
  assumes "4 + 4 * n \<le> length d"
  shows "get32 (put_header bl n d) 0 = of_nat n" "i < n \<Longrightarrow> get32 (put_header bl n d) (4 + 4 * i) = bl ! i"
    "length (put_header bl n d) = length d"
  using put_header_fold [where n = n and d = "put32 d 0 (of_nat n)" and bl = bl] assms by (simp_all add: put_header_def)


section \<open>One block at a time\<close>

lemma kdo_Cons_ok: "m s = Ok () t \<Longrightarrow> kdo (m # ms) s = kdo ms t"
  by simp

lemma bcopy_run: "holds s src b d \<Longrightarrow> bcopy dst src s = bmodify dst (\<lambda>_. d) s"
  by (simp add: bcopy_def holds_def)

lemma finite_card_insert: "finite P \<Longrightarrow> a \<notin> P \<Longrightarrow> card (insert a P) = Suc (card P)"
  by simp

lemma write_log_one_spec:
  assumes inv: "bc_inv pid P {} s" and P: "finite P" "card P < NBUF" and l: "l_dev (klog s) = ROOTDEV"
    and b: "lh_block (klog s) ! tail = b" "b \<in> P" and a: "l_start (klog s) + of_nat tail + 1 = a" "a \<notin> P"
  shows "\<exists>t. write_log_one tail s = Ok () t \<and> bc_inv pid P {} t \<and> view t = (view s)(a := view s b)
    \<and> disk t = (disk s)(a := view s b) \<and> wtrace t = wtrace s @ [(a, view s b)] \<and> bio_rest t = bio_rest s"
proof -
  let ?m = "\<lambda>i j. kdo [bcopy i j, bwrite i, brelse j, brelse i]"
  have ab: "a \<noteq> b" using a b by auto
  obtain i j t where t: "kbind (bread ROOTDEV a) (\<lambda>i. kbind (bread ROOTDEV b) (\<lambda>j. ?m i j)) s = ?m i j t"
    "bc_inv pid P {b, a} t" "holds t i a (view s a)" "holds t j b (view s b)" "view t = view s"
    "disk t = disk s" "wtrace t = wtrace s" "bio_rest t = bio_rest s"
    using bcache.read_two [OF inv, of a b ?m] ab b(2) P by auto
  obtain t1 where t1: "bmodify i (\<lambda>_. view s b) t = Ok () t1" "bc_inv pid P {b, a} t1" "holds t1 i a (view s b)"
    "view t1 = (view t)(a := view s b)" "disk t1 = disk t" "wtrace t1 = wtrace t" "bio_rest t1 = bio_rest t" "keeps (- {a}) t t1"
    using bcache.md_ok [OF t(2,3), of "\<lambda>_. view s b"] by blast
  obtain t2 where t2: "bwrite i t1 = Ok () t2" "bc_inv pid P {b, a} t2" "view t2 = view t1" "disk t2 = (disk t1)(a := view s b)"
    "wtrace t2 = wtrace t1 @ [(a, view s b)]" "bio_rest t2 = bio_rest t1" "keeps UNIV t1 t2"
    using bcache.wr_ok [OF t1(2,3)] by blast
  have h2: "holds t2 j b (view s b)" "holds t2 i a (view s b)"
    using keeps_holds [OF t2(7)] keeps_holds [OF t1(8) _ t(4)] t1(3) ab by auto
  obtain t3 where t3: "brelse j t2 = Ok () t3" "bc_inv pid P ({b, a} - {b}) t3" "view t3 = view t2" "disk t3 = disk t2"
    "wtrace t3 = wtrace t2" "bio_rest t3 = bio_rest t2" "keeps UNIV t2 t3"
    using bcache.rl_ok [OF t2(2) h2(1)] b(2) by blast
  have s3: "{b, a} - {b} = {a}" using ab by auto
  have h3: "holds t3 i a (view s b)" using keeps_holds [OF t3(7) _ h2(2)] by simp
  obtain t4 where t4: "brelse i t3 = Ok () t4" "bc_inv pid P ({a} - {a}) t4" "view t4 = view t3" "disk t4 = disk t3"
    "wtrace t4 = wtrace t3" "bio_rest t4 = bio_rest t3"
    using bcache.rl_ok [OF t3(2) h3] t3(4) t2(4) s3 by auto
  have "?m i j t = Ok () t4"
    using bcopy_run [OF t(4), of i] t1(1) t2(1) t3(1) t4(1) by simp
  then have "write_log_one tail s = Ok () t4"
    using t(1) l a(1) b(1) by (simp add: write_log_one_def)
  then show ?thesis using t t1 t2 t3 t4 by (intro exI [of _ t4]) simp
qed

lemma install_one_spec:
  assumes inv: "bc_inv pid P {} s" and P: "finite P" "card P + 1 < NBUF \<or> b \<in> P \<and> card P < NBUF" and l: "l_dev (klog s) = ROOTDEV"
    and b: "lh_block (klog s) ! tail = b" "recovering \<or> b \<in> P"
    and a: "l_start (klog s) + of_nat tail + 1 = a" "a \<notin> P" "a \<noteq> b"
  shows "\<exists>t. install_one recovering tail s = Ok () t \<and> bc_inv pid (if recovering then P else P - {b}) {} t
    \<and> view t = (view s)(b := view s a) \<and> disk t = (disk s)(b := view s a)
    \<and> wtrace t = wtrace s @ [(b, view s a)] \<and> bio_rest t = bio_rest s"
proof -
  let ?m = "\<lambda>i j. kdo [bcopy j i, bwrite j, kwhen (\<not> recovering) (bunpin j), brelse i, brelse j]"
  have room: "card ({} \<union> P) < NBUF" "b \<in> P \<or> card (insert a {} \<union> P) < NBUF" using P a by auto
  obtain i j t where t: "kbind (bread ROOTDEV a) (\<lambda>i. kbind (bread ROOTDEV b) (\<lambda>j. ?m i j)) s = ?m i j t"
    "bc_inv pid P {b, a} t" "holds t i a (view s a)" "holds t j b (view s b)" "view t = view s"
    "disk t = disk s" "wtrace t = wtrace s" "bio_rest t = bio_rest s"
    using bcache.read_two [OF inv, of a b ?m] a(3) room P(1) by auto
  have va: "view s a = disk s a"
  proof (cases "\<exists>k. is_slot (bufs s) k a")
    case True
    then obtain k where k: "is_slot (bufs s) k a" by blast
    have pay: "bc_pay pid P {} (bufs s) (disk s)" using inv by (simp add: bc_inv_def)
    show ?thesis using bview_slot [OF pay k] bc_pay_slot [OF pay k] a(2) by (simp add: view_def slot_ok_def)
  next
    case False
    then show ?thesis by (simp add: view_def bview_uncached)
  qed
  obtain t1 where t1: "bmodify j (\<lambda>_. view s a) t = Ok () t1" "bc_inv pid P {b, a} t1" "holds t1 j b (view s a)"
    "view t1 = (view t)(b := view s a)" "disk t1 = disk t" "wtrace t1 = wtrace t" "bio_rest t1 = bio_rest t" "keeps (- {b}) t t1"
    using bcache.md_ok [OF t(2,4), of "\<lambda>_. view s a"] by blast
  obtain t2 where t2: "bwrite j t1 = Ok () t2" "bc_inv pid P {b, a} t2" "view t2 = view t1" "disk t2 = (disk t1)(b := view s a)"
    "wtrace t2 = wtrace t1 @ [(b, view s a)]" "bio_rest t2 = bio_rest t1" "keeps UNIV t1 t2"
    using bcache.wr_ok [OF t1(2,3)] by blast
  have h2: "holds t2 j b (view s a)" "holds t2 i a (view s a)"
    using keeps_holds [OF t2(7)] keeps_holds [OF t1(8) _ t(3)] t1(3) a(3) by auto
  let ?P = "if recovering then P else P - {b}"
  obtain t3 where t3: "kwhen (\<not> recovering) (bunpin j) t2 = Ok () t3" "bc_inv pid ?P {b, a} t3" "view t3 = view t2" "disk t3 = disk t2"
    "wtrace t3 = wtrace t2" "bio_rest t3 = bio_rest t2" "holds t3 j b (view s a)" "holds t3 i a (view s a)"
  proof (cases recovering)
    case True
    then show ?thesis using t2(2) h2 by (intro that [of t2]) simp_all
  next
    case False
    then have "b \<in> P" using b(2) by simp
    from bunpin_spec [OF t2(2) h2(1) _ this] obtain u where u: "bunpin j t2 = Ok () u" "bc_inv pid (P - {b}) {b, a} u" "view u = view t2"
      "disk u = disk t2" "wtrace u = wtrace t2" "bio_rest u = bio_rest t2"
      "\<forall>j b. is_slot (bufs t2) j b \<longrightarrow> is_slot (bufs u) j b \<and> b_data (bufs u ! j) = b_data (bufs t2 ! j)" by auto
    then have "holds u j b (view s a)" "holds u i a (view s a)" using h2 by (auto simp: holds_def)
    then show ?thesis using False u by (intro that [of u]) simp_all
  qed
  obtain t4 where t4: "brelse i t3 = Ok () t4" "bc_inv pid ?P ({b, a} - {a}) t4" "view t4 = view t3" "disk t4 = disk t3"
    "wtrace t4 = wtrace t3" "bio_rest t4 = bio_rest t3" "keeps UNIV t3 t4"
    using bcache.rl_ok [OF t3(2,8)] t3(4) t2(4) t1(5) t(6) va a(3) by auto
  have s4: "{b, a} - {a} = {b}" using a(3) by auto
  have h4: "holds t4 j b (view s a)" using keeps_holds [OF t4(7) _ t3(7)] by simp
  obtain t5 where t5: "brelse j t4 = Ok () t5" "bc_inv pid ?P ({b} - {b}) t5" "view t5 = view t4" "disk t5 = disk t4"
    "wtrace t5 = wtrace t4" "bio_rest t5 = bio_rest t4"
    using bcache.rl_ok [OF t4(2) h4] t4(4) t3(4) t2(4) s4 by auto
  have "?m i j t = Ok () t5"
    using bcopy_run [OF t(3), of j] t1(1) t2(1) t3(1) t4(1) t5(1) by simp
  then have "install_one recovering tail s = Ok () t5"
    using t(1) l a(1) b(1) by (simp add: install_one_def)
  then show ?thesis using t t1 t2 t3 t4 t5 by (intro exI [of _ t5]) simp
qed


section \<open>Sequences of block writes\<close>

definition apply_writes :: "(u32 \<Rightarrow> u8 list) \<Rightarrow> (u32 \<times> u8 list) list \<Rightarrow> u32 \<Rightarrow> u8 list" where
  "apply_writes d tr = foldl (\<lambda>d (b, x). d(b := x)) d tr"

lemma apply_writes_simps [simp]:
  "apply_writes d [] = d" "apply_writes d ((b, x) # tr) = apply_writes (d(b := x)) tr"
  "apply_writes d (tr @ us) = apply_writes (apply_writes d tr) us"
  by (simp_all add: apply_writes_def)

lemma apply_writes_other: "b \<notin> fst ` set tr \<Longrightarrow> apply_writes d tr b = d b"
  by (induction tr arbitrary: d) auto

lemma apply_writes_map_snoc:
  "apply_writes d (map f [0..<Suc k]) = (apply_writes d (map f [0..<k]))(fst (f k) := snd (f k))"
  by (cases "f k") simp

lemma apply_writes_map:
  assumes "\<And>i j. i < n \<Longrightarrow> j < n \<Longrightarrow> fst (f i) = fst (f j) \<Longrightarrow> i = j" "k < n"
  shows "apply_writes d (map f [0..<n]) (fst (f k)) = snd (f k)"
  using assms
proof (induction n)
  case (Suc n)
  show ?case
  proof (cases "k = n")
    case False
    then have "k < n" using Suc.prems(2) by simp
    moreover have "fst (f k) \<noteq> fst (f n)" using Suc.prems False by (metis less_Suc_eq)
    moreover have "apply_writes d (map f [0..<n]) (fst (f k)) = snd (f k)"
      by (rule Suc.IH) (use Suc.prems calculation in auto)
    ultimately show ?thesis by (simp only: apply_writes_map_snoc) simp
  qed (simp only: apply_writes_map_snoc, simp)
qed simp

lemma kfor_append: "kfor (xs @ ys) f s = kbind (kfor xs f) (\<lambda>_. kfor ys f) s"
  by (induction xs arbitrary: s) (auto split: outcome.split)

lemma kfor_snoc: "kfor [0..<k] f s = Ok () u \<Longrightarrow> f k u = Ok () t \<Longrightarrow> kfor [0..<Suc k] f s = Ok () t"
  by (simp add: kfor_append del: kfor.simps) simp

definition logblk :: "u32 \<Rightarrow> nat \<Rightarrow> u32" where
  "logblk start i = start + of_nat i + 1"

definition log_region :: "u32 \<Rightarrow> u32 set" where
  "log_region start = {b. unat start \<le> unat b \<and> unat b \<le> unat start + LOGBLOCKS}"

lemma unat_logblk: "unat start + LOGBLOCKS < 4294967296 \<Longrightarrow> i < LOGBLOCKS \<Longrightarrow> unat (logblk start i) = unat start + i + 1"
proof -
  assume a: "unat start + LOGBLOCKS < 4294967296" "i < LOGBLOCKS"
  have "unat (of_nat i :: u32) = i" using a by (intro unat_of_nat_32) simp
  then show ?thesis using a by (simp add: logblk_def unat_add_32)
qed

lemma logblk_region:
  assumes "unat start + LOGBLOCKS < 4294967296" "i < LOGBLOCKS"
  shows "logblk start i \<in> log_region start" "logblk start i \<noteq> start" "start \<in> log_region start"
    "j < LOGBLOCKS \<Longrightarrow> logblk start i = logblk start j \<Longrightarrow> i = j"
  using assms unat_logblk [OF assms] unat_logblk [OF assms(1), of j]
  by (auto simp: log_region_def word_eq_unat)

text \<open>A transaction that is about to commit: \<open>blks\<close> are the logged blocks.\<close>
definition log_ready :: "u32 \<Rightarrow> u32 list \<Rightarrow> kstate \<Rightarrow> bool" where
  "log_ready pid blks s \<longleftrightarrow> bc_inv pid (set blks) {} s \<and> l_dev (klog s) = ROOTDEV
     \<and> lh_n (klog s) = length blks \<and> take (length blks) (lh_block (klog s)) = blks
     \<and> distinct blks \<and> 0 < length blks \<and> length blks < NBUF
     \<and> set blks \<inter> log_region (l_start (klog s)) = {} \<and> unat (l_start (klog s)) + LOGBLOCKS < 4294967296
     \<and> length (disk s (l_start (klog s))) = BSIZE"

lemma log_ready_nth: "log_ready pid blks s \<Longrightarrow> i < length blks \<Longrightarrow> lh_block (klog s) ! i = blks ! i"
  by (metis log_ready_def nth_take)

definition log_writes :: "kstate \<Rightarrow> u32 list \<Rightarrow> nat \<Rightarrow> (u32 \<times> u8 list) list" where
  "log_writes s blks k = map (\<lambda>i. (logblk (l_start (klog s)) i, view s (blks ! i))) [0..<k]"

lemma write_log_loop:
  assumes r: "log_ready pid blks s" and k: "k \<le> length blks"
  shows "\<exists>t. kfor [0..<k] write_log_one s = Ok () t \<and> bc_inv pid (set blks) {} t \<and> bio_rest t = bio_rest s
    \<and> view t = apply_writes (view s) (log_writes s blks k) \<and> disk t = apply_writes (disk s) (log_writes s blks k)
    \<and> wtrace t = wtrace s @ log_writes s blks k"
  using k
proof (induction k)
  case 0
  then show ?case using r by (intro exI [of _ s]) (simp add: log_writes_def log_ready_def)
next
  case (Suc k)
  let ?st = "l_start (klog s)"
  obtain u where u: "kfor [0..<k] write_log_one s = Ok () u" "bc_inv pid (set blks) {} u" "bio_rest u = bio_rest s"
    "view u = apply_writes (view s) (log_writes s blks k)" "disk u = apply_writes (disk s) (log_writes s blks k)"
    "wtrace u = wtrace s @ log_writes s blks k" using Suc by auto
  have lg: "klog u = klog s" using bio_rest_fields(1) [OF u(3)] .
  have kl: "k < length blks" "k < LOGBLOCKS" and st: "unat ?st + LOGBLOCKS < 4294967296"
    and dis: "set blks \<inter> log_region ?st = {}" using Suc.prems r by (auto simp: log_ready_def)
  have bk: "blks ! k \<in> set blks" using kl by simp
  have ak: "logblk ?st k \<notin> set blks" using logblk_region(1) [OF st kl(2)] dis by blast
  have bb: "blks ! k \<notin> fst ` set (log_writes s blks k)"
    using logblk_region(1) [OF st] kl bk dis unfolding log_writes_def by fastforce
  then have vb: "view u (blks ! k) = view s (blks ! k)" unfolding u(4) by (rule apply_writes_other)
  have card: "finite (set blks)" "card (set blks) < NBUF" using r by (auto simp: log_ready_def distinct_card)
  obtain t where t: "write_log_one k u = Ok () t" "bc_inv pid (set blks) {} t"
    "view t = (view u)(logblk ?st k := view u (blks ! k))" "disk t = (disk u)(logblk ?st k := view u (blks ! k))"
    "wtrace t = wtrace u @ [(logblk ?st k, view u (blks ! k))]" "bio_rest t = bio_rest u"
    using write_log_one_spec [OF u(2) card _ _ bk _ ak, of k] lg r log_ready_nth [OF r kl(1)]
    by (auto simp: log_ready_def logblk_def)
  have w: "log_writes s blks (Suc k) = log_writes s blks k @ [(logblk ?st k, view s (blks ! k))]"
    by (simp add: log_writes_def)
  show ?case
    using kfor_snoc [OF u(1) t(1)] t u vb by (intro exI [of _ t]) (simp add: w)
qed

definition home_writes :: "kstate \<Rightarrow> u32 list \<Rightarrow> nat \<Rightarrow> (u32 \<times> u8 list) list" where
  "home_writes s blks k = map (\<lambda>i. (blks ! i, view s (logblk (l_start (klog s)) i))) [0..<k]"

text \<open>The blocks still pinned after \<open>k\<close> installations.\<close>
definition pins_left :: "bool \<Rightarrow> u32 list \<Rightarrow> nat \<Rightarrow> u32 set" where
  "pins_left recovering blks k = (if recovering then {} else set (drop k blks))"

lemma install_loop:
  assumes inv: "bc_inv pid (pins_left recovering blks 0) {} s" and dev: "l_dev (klog s) = ROOTDEV"
    and bl: "\<And>i. i < length blks \<Longrightarrow> lh_block (klog s) ! i = blks ! i" and d: "distinct blks" "recovering \<or> length blks < NBUF" "length blks \<le> LOGBLOCKS"
    and dis: "set blks \<inter> log_region (l_start (klog s)) = {}" and st: "unat (l_start (klog s)) + LOGBLOCKS < 4294967296"
    and k: "k \<le> length blks"
  shows "\<exists>t. kfor [0..<k] (install_one recovering) s = Ok () t \<and> bc_inv pid (pins_left recovering blks k) {} t \<and> bio_rest t = bio_rest s
    \<and> view t = apply_writes (view s) (home_writes s blks k) \<and> disk t = apply_writes (disk s) (home_writes s blks k)
    \<and> wtrace t = wtrace s @ home_writes s blks k"
  using k
proof (induction k)
  case 0
  then show ?case using inv by (intro exI [of _ s]) (simp add: home_writes_def)
next
  case (Suc k)
  let ?st = "l_start (klog s)"
  let ?P = "pins_left recovering blks k"
  obtain u where u: "kfor [0..<k] (install_one recovering) s = Ok () u" "bc_inv pid ?P {} u" "bio_rest u = bio_rest s"
    "view u = apply_writes (view s) (home_writes s blks k)" "disk u = apply_writes (disk s) (home_writes s blks k)"
    "wtrace u = wtrace s @ home_writes s blks k" using Suc by auto
  have lg: "klog u = klog s" using bio_rest_fields(1) [OF u(3)] .
  have kl: "k < length blks" "k < LOGBLOCKS" using Suc.prems d by auto
  have bk: "blks ! k \<in> set blks" using kl by simp
  have nR: "logblk ?st k \<notin> set blks" using logblk_region(1) [OF st kl(2)] dis by blast
  have sub: "?P \<subseteq> set blks" by (auto simp: pins_left_def dest: in_set_dropD)
  have ak: "logblk ?st k \<notin> ?P" "logblk ?st k \<noteq> blks ! k" using nR sub bk by auto
  have "logblk ?st k \<notin> fst ` set (home_writes s blks k)"
    using nR kl unfolding home_writes_def by fastforce
  then have va: "view u (logblk ?st k) = view s (logblk ?st k)" unfolding u(4) by (rule apply_writes_other)
  have dk: "drop k blks = blks ! k # drop (Suc k) blks" using kl(1) by (rule Cons_nth_drop_Suc [symmetric])
  have bp: "recovering \<or> blks ! k \<in> ?P" by (simp add: pins_left_def dk)
  have "card (set (drop k blks)) \<le> length (drop k blks)" by (rule card_length)
  then have room: "card ?P + 1 < NBUF \<or> blks ! k \<in> ?P \<and> card ?P < NBUF"
    using bp d(2) by (auto simp: pins_left_def)
  have fin: "finite ?P" by (simp add: pins_left_def)
  have nb: "lh_block (klog u) ! k = blks ! k" using bl [OF kl(1)] lg by simp
  have na: "l_start (klog u) + of_nat k + 1 = logblk ?st k" using lg by (simp add: logblk_def)
  have P': "(if recovering then ?P else ?P - {blks ! k}) = pins_left recovering blks (Suc k)"
  proof (cases recovering)
    case False
    have "blks ! k \<notin> set (drop (Suc k) blks)" using d(1) dk by (metis distinct.simps(2) distinct_drop)
    then show ?thesis using False by (auto simp: pins_left_def dk)
  qed (simp add: pins_left_def)
  obtain t where t: "install_one recovering k u = Ok () t" "bc_inv pid (pins_left recovering blks (Suc k)) {} t"
    "view t = (view u)(blks ! k := view u (logblk ?st k))" "disk t = (disk u)(blks ! k := view u (logblk ?st k))"
    "wtrace t = wtrace u @ [(blks ! k, view u (logblk ?st k))]" "bio_rest t = bio_rest u"
    using install_one_spec [OF u(2) fin room _ nb bp na ak] dev lg P' by auto
  have w: "home_writes s blks (Suc k) = home_writes s blks k @ [(blks ! k, view s (logblk ?st k))]"
    by (simp add: home_writes_def)
  show ?case
    using kfor_snoc [OF u(1) t(1)] t u va by (intro exI [of _ t]) (simp add: w)
qed


section \<open>Commit and recovery\<close>

lemma upd_log_cache [simp]:
  "bc_inv pid P L (upd_log f s) = bc_inv pid P L s" "view (upd_log f s) = view s" "disk (upd_log f s) = disk s"
  "wtrace (upd_log f s) = wtrace s" "klog (upd_log f s) = f (klog s)" "bufs (upd_log f s) = bufs s"
  by (simp_all add: upd_log_def bc_inv_def calm_def view_def)

lemma view_clean: "bc_inv pid P {} s \<Longrightarrow> b \<notin> P \<Longrightarrow> view s b = disk s b"
proof -
  assume inv: "bc_inv pid P {} s" and b: "b \<notin> P"
  then have pay: "bc_pay pid P {} (bufs s) (disk s)" by (simp add: bc_inv_def)
  show ?thesis
  proof (cases "\<exists>i. is_slot (bufs s) i b")
    case True
    then obtain i where i: "is_slot (bufs s) i b" by blast
    show ?thesis using bview_slot [OF pay i] bc_pay_slot [OF pay i] b by (simp add: view_def slot_ok_def)
  next
    case False
    then show ?thesis by (simp add: view_def bview_uncached)
  qed
qed

lemma write_head_spec:
  assumes "bc_inv pid P {} s" "finite P" "card P < NBUF" "l_dev (klog s) = ROOTDEV" "l_start (klog s) = st"
    and "put_header (lh_block (klog s)) (lh_n (klog s)) (view s st) = h"
  shows "\<exists>t. write_head s = Ok () t \<and> bc_inv pid P {} t \<and> bio_rest t = bio_rest s
    \<and> view t = apply_writes (view s) [(st, h)] \<and> disk t = apply_writes (disk s) [(st, h)] \<and> wtrace t = wtrace s @ [(st, h)]"
  using bcache.write_through [OF assms(1), of st "put_header (lh_block (klog s)) (lh_n (klog s))"] assms(2-6)
  by (auto simp: write_head_def)

definition commit_writes :: "kstate \<Rightarrow> u32 list \<Rightarrow> (u32 \<times> u8 list) list" where
  "commit_writes s blks =
     (let st = l_start (klog s); n = length blks; h = put_header blks n (view s st) in
      log_writes s blks n @ [(st, h)] @ map (\<lambda>b. (b, view s b)) blks @ [(st, put_header blks 0 h)])"

lemma put_header_cong: "(\<And>i. i < n \<Longrightarrow> bl ! i = bm ! i) \<Longrightarrow> put_header bl n d = put_header bm n d"
  unfolding put_header_def by (rule foldl_cong) auto

lemma log_view_after:
  assumes r: "log_ready pid blks s" and i: "i < length blks"
  shows "apply_writes (view s) (log_writes s blks (length blks)) (logblk (l_start (klog s)) i) = view s (blks ! i)"
proof -
  have st: "unat (l_start (klog s)) + LOGBLOCKS < 4294967296" and n: "length blks \<le> LOGBLOCKS"
    using r by (auto simp: log_ready_def)
  let ?f = "\<lambda>i. (logblk (l_start (klog s)) i, view s (blks ! i))"
  have "apply_writes (view s) (map ?f [0..<length blks]) (fst (?f i)) = snd (?f i)"
    by (rule apply_writes_map [OF _ i]) (use logblk_region(4) [OF st] n in auto)
  then show ?thesis by (simp add: log_writes_def)
qed

lemma start_not_log_write:
  assumes r: "log_ready pid blks s" and k: "k \<le> length blks"
  shows "l_start (klog s) \<notin> fst ` set (log_writes s blks k)"
proof
  assume "l_start (klog s) \<in> fst ` set (log_writes s blks k)"
  then obtain i where i: "i < k" "l_start (klog s) = logblk (l_start (klog s)) i" by (auto simp: log_writes_def)
  have "unat (l_start (klog s)) + LOGBLOCKS < 4294967296" "i < LOGBLOCKS" using r k i(1) by (auto simp: log_ready_def)
  from logblk_region(2) [OF this] i(2) show False by simp
qed

lemma commit_run:
  assumes r: "log_ready pid blks s"
  shows "\<exists>t. commit s = Ok () t \<and> bc_inv pid {} {} t \<and> lh_n (klog t) = 0
    \<and> disk t = apply_writes (disk s) (commit_writes s blks) \<and> view t = apply_writes (view s) (commit_writes s blks)
    \<and> wtrace t = wtrace s @ commit_writes s blks"
proof -
  let ?st = "l_start (klog s)" and ?n = "length blks" and ?W = "log_writes s blks (length blks)"
  let ?h = "put_header blks ?n (view s ?st)"
  have n0: "0 < lh_n (klog s)" and nl: "lh_n (klog s) = ?n" and dev: "l_dev (klog s) = ROOTDEV"
    and st: "unat ?st + LOGBLOCKS < 4294967296" and dis: "set blks \<inter> log_region ?st = {}" and n30: "?n < NBUF"
    and dst: "distinct blks" using r by (auto simp: log_ready_def)
  have card: "finite (set blks)" "card (set blks) < NBUF" using r by (auto simp: log_ready_def distinct_card)
  obtain t1 where t1: "kfor [0..<?n] write_log_one s = Ok () t1" "bc_inv pid (set blks) {} t1" "bio_rest t1 = bio_rest s"
    "view t1 = apply_writes (view s) ?W" "disk t1 = apply_writes (disk s) ?W" "wtrace t1 = wtrace s @ ?W"
    using write_log_loop [OF r, of ?n] by auto
  have k1: "klog t1 = klog s" using bio_rest_fields(1) [OF t1(3)] .
  have v1: "view t1 ?st = view s ?st" unfolding t1(4) using start_not_log_write [OF r] by (intro apply_writes_other) simp
  have h1: "put_header (lh_block (klog t1)) (lh_n (klog t1)) (view t1 ?st) = ?h"
    unfolding k1 v1 nl by (rule put_header_cong) (rule log_ready_nth [OF r])
  obtain t2 where t2: "write_head t1 = Ok () t2" "bc_inv pid (set blks) {} t2" "bio_rest t2 = bio_rest t1"
    "view t2 = apply_writes (view t1) [(?st, ?h)]" "disk t2 = apply_writes (disk t1) [(?st, ?h)]" "wtrace t2 = wtrace t1 @ [(?st, ?h)]"
    using write_head_spec [OF t1(2) card _ _ h1] k1 dev by auto
  have k2: "klog t2 = klog s" using bio_rest_fields(1) [OF t2(3)] k1 by simp
  have v2: "view t2 (logblk ?st i) = view s (blks ! i)" if "i < ?n" for i
    using log_view_after [OF r that] logblk_region(2) [OF st, of i] that n30 by (simp add: t2(4) t1(4))
  have hw: "home_writes t2 blks ?n = map (\<lambda>b. (b, view s b)) blks"
    unfolding home_writes_def k2 by (rule nth_equalityI) (simp_all add: v2)
  have i2: "bc_inv pid (pins_left False blks 0) {} t2" using t2(2) by (simp add: pins_left_def)
  obtain t3 where t3: "kfor [0..<?n] (install_one False) t2 = Ok () t3" "bc_inv pid (pins_left False blks ?n) {} t3" "bio_rest t3 = bio_rest t2"
    "view t3 = apply_writes (view t2) (map (\<lambda>b. (b, view s b)) blks)" "disk t3 = apply_writes (disk t2) (map (\<lambda>b. (b, view s b)) blks)"
    "wtrace t3 = wtrace t2 @ map (\<lambda>b. (b, view s b)) blks"
    using install_loop [OF i2, of ?n] log_ready_nth [OF r] dev dst n30 dis st unfolding k2 hw by auto
  have k3: "klog t3 = klog s" using bio_rest_fields(1) [OF t3(3)] k2 by simp
  let ?t3 = "upd_log (\<lambda>l. l\<lparr>lh_n := 0\<rparr>) t3"
  have st3: "?st \<notin> fst ` set (map (\<lambda>b. (b, view s b)) blks)" using dis logblk_region(3) [OF st, of 0] by auto
  have v3: "view t3 ?st = ?h" unfolding t3(4) apply_writes_other [OF st3] t2(4) by simp
  have h3: "put_header (lh_block (klog ?t3)) (lh_n (klog ?t3)) (view ?t3 ?st) = put_header blks 0 ?h"
    using v3 put_header_cong [of 0] by simp
  have i3: "bc_inv pid {} {} ?t3" using t3(2) by (simp add: pins_left_def)
  obtain t4 where t4: "write_head ?t3 = Ok () t4" "bc_inv pid {} {} t4" "bio_rest t4 = bio_rest ?t3"
    "view t4 = apply_writes (view t3) [(?st, put_header blks 0 ?h)]" "disk t4 = apply_writes (disk t3) [(?st, put_header blks 0 ?h)]"
    "wtrace t4 = wtrace t3 @ [(?st, put_header blks 0 ?h)]"
    using write_head_spec [OF i3 _ _ _ _ h3] dev k3 by auto
  have "lh_n (klog t4) = 0" using bio_rest_fields(1) [OF t4(3)] by simp
  moreover have "commit s = Ok () t4"
    using n0 t1(1) t2(1) t3(1) t4(1) nl k1 k2 k3 by (simp add: commit_def write_log_def install_trans_def)
  ultimately show ?thesis
    using t1(4-6) t2(4-6) t3(4-6) t4(2,4-6) by (intro exI [of _ t4]) (simp add: commit_writes_def Let_def)
qed


lemma sint_small: "n < 2147483648 \<Longrightarrow> sint (of_nat n :: u32) = int n"
  by (simp add: signed_of_nat signed_take_bit_int_eq_self)

lemma read_blocks_run:
  "n \<le> length (lh_block (klog s)) \<Longrightarrow>
    kfor [0..<n] (\<lambda>i. kmod (upd_log (\<lambda>l. l\<lparr>lh_block := (lh_block l)[i := g i]\<rparr>))) s
      = Ok () (upd_log (\<lambda>l. l\<lparr>lh_block := map g [0..<n] @ drop n (lh_block l)\<rparr>) s)"
proof (induction n)
  case 0
  then show ?case by (simp add: upd_log_def)
next
  case (Suc n)
  let ?u = "upd_log (\<lambda>l. l\<lparr>lh_block := map g [0..<n] @ drop n (lh_block l)\<rparr>) s"
  have "drop n (lh_block (klog s)) = lh_block (klog s) ! n # drop (Suc n) (lh_block (klog s))"
    using Suc.prems by (simp add: Cons_nth_drop_Suc)
  then have "kmod (upd_log (\<lambda>l. l\<lparr>lh_block := (lh_block l)[n := g n]\<rparr>)) ?u
      = Ok () (upd_log (\<lambda>l. l\<lparr>lh_block := map g [0..<Suc n] @ drop (Suc n) (lh_block l)\<rparr>) s)"
    by (simp add: upd_log_def list_update_append)
  with Suc show ?case by (intro kfor_snoc [where u = ?u]) auto
qed

definition head_n :: "u8 list \<Rightarrow> nat" where
  "head_n h = nat (sint (get32 h 0))"

definition head_blocks :: "u8 list \<Rightarrow> u32 list" where
  "head_blocks h = map (\<lambda>i. get32 h (4 + 4 * i)) [0..<head_n h]"

text \<open>The disk after recovery: the logged blocks of a committed header go to their homes, then the header is cleared.\<close>
definition recovery_writes :: "u32 \<Rightarrow> (u32 \<Rightarrow> u8 list) \<Rightarrow> (u32 \<times> u8 list) list" where
  "recovery_writes st d = map (\<lambda>i. (head_blocks (d st) ! i, d (logblk st i))) [0..<head_n (d st)] @ [(st, put_header [] 0 (d st))]"

text \<open>A machine that has just booted: nothing cached, the log's place known.\<close>
definition fresh :: "u32 \<Rightarrow> u32 \<Rightarrow> kstate \<Rightarrow> bool" where
  "fresh pid st c \<longleftrightarrow> bc_inv pid {} {} c \<and> l_dev (klog c) = ROOTDEV \<and> l_start (klog c) = st
     \<and> length (lh_block (klog c)) = LOGBLOCKS"

lemma recover_run:
  assumes f: "fresh pid st c" and n: "head_n (disk c st) \<le> LOGBLOCKS"
    and d: "distinct (head_blocks (disk c st))" "set (head_blocks (disk c st)) \<inter> log_region st = {}"
    and st: "unat st + LOGBLOCKS < 4294967296"
  shows "\<exists>t. recover_from_log c = Ok () t \<and> disk t = apply_writes (disk c) (recovery_writes st (disk c))
    \<and> lh_n (klog t) = 0 \<and> bc_inv pid {} {} t"
proof -
  let ?h = "disk c st" and ?d = "disk c"
  have inv: "bc_inv pid {} {} c" and dev: "l_dev (klog c) = ROOTDEV" and ls: "l_start (klog c) = st"
    and ll: "length (lh_block (klog c)) = LOGBLOCKS" using f by (auto simp: fresh_def)
  have vd: "view c = disk c" using view_clean [OF inv] by auto
  obtain i t1 where t1: "bread ROOTDEV st c = Ok i t1" "bc_inv pid {} (insert st {}) t1" "holds t1 i st (view c st)"
    "view t1 = view c" "disk t1 = disk c" "wtrace t1 = wtrace c" "bio_rest t1 = bio_rest c"
    using bcache.rd_ok [OF inv, of st] by auto
  have k1: "klog t1 = klog c" using bio_rest_fields(1) [OF t1(7)] .
  let ?g = "\<lambda>l. l\<lparr>lh_n := head_n ?h, lh_block := head_blocks ?h @ drop (head_n ?h) (lh_block l)\<rparr>"
  let ?t2 = "upd_log ?g t1"
  have rb: "kfor [0..<head_n ?h] (\<lambda>i. kmod (upd_log (\<lambda>l. l\<lparr>lh_block := (lh_block l)[i := get32 ?h (4 + 4 * i)]\<rparr>)))
      (upd_log (\<lambda>l. l\<lparr>lh_n := head_n ?h\<rparr>) t1) = Ok () ?t2"
    using read_blocks_run [of "head_n ?h" "upd_log (\<lambda>l. l\<lparr>lh_n := head_n ?h\<rparr>) t1" "\<lambda>i. get32 ?h (4 + 4 * i)"] n ll k1
    by (simp add: upd_log_def head_blocks_def)
  have data: "b_data (bufs t1 ! i) = ?h" using t1(3) vd by (simp add: holds_def)
  have h2: "holds ?t2 i st ?h" using t1(3) vd by (simp add: holds_def)
  have i2: "bc_inv pid {} {st} ?t2" using t1(2) by simp
  obtain t3 where t3: "brelse i ?t2 = Ok () t3" "bc_inv pid {} ({st} - {st}) t3" "view t3 = view ?t2" "disk t3 = disk ?t2" "bio_rest t3 = bio_rest ?t2"
    using bcache.rl_ok [OF i2 h2] t1(5) by auto
  have run1: "read_head c = Ok () t3"
    using t1(1) rb t3(1) n dev ls data by (simp add: read_head_def Let_def head_n_def [symmetric])
  have k3: "klog t3 = ?g (klog c)" using bio_rest_fields(1) [OF t3(5)] k1 by simp
  have v3: "view t3 = ?d" "disk t3 = ?d" using t3(3,4) t1(4,5) vd by simp_all
  have lb: "length (head_blocks ?h) = head_n ?h" by (simp add: head_blocks_def)
  have i3: "bc_inv pid (pins_left True (head_blocks ?h) 0) {} t3" using t3(2) by (simp add: pins_left_def)
  let ?H = "map (\<lambda>i. (head_blocks ?h ! i, ?d (logblk st i))) [0..<head_n ?h]"
  have hw: "home_writes t3 (head_blocks ?h) (head_n ?h) = ?H" by (simp add: home_writes_def v3 k3 ls)
  obtain t4 where t4: "kfor [0..<head_n ?h] (install_one True) t3 = Ok () t4" "bc_inv pid (pins_left True (head_blocks ?h) (head_n ?h)) {} t4"
    "bio_rest t4 = bio_rest t3" "view t4 = apply_writes ?d ?H" "disk t4 = apply_writes ?d ?H"
    using install_loop [OF i3, of "head_n ?h"] dev d n ls st lb unfolding hw by (auto simp: k3 v3 nth_append)
  have k4: "klog t4 = klog t3" using bio_rest_fields(1) [OF t4(3)] .
  let ?t4 = "upd_log (\<lambda>l. l\<lparr>lh_n := 0\<rparr>) t4"
  have i4: "bc_inv pid {} {} ?t4" using t4(2) by (simp add: pins_left_def)
  have "st \<in> log_region st" using logblk_region(3) [OF st, of 0] by simp
  then have stH: "st \<notin> fst ` set ?H" using d(2) lb by (auto simp: disjoint_iff) (metis nth_mem lb)
  have v4: "view t4 st = ?h" unfolding t4(4) by (rule apply_writes_other [OF stH])
  have h4: "put_header (lh_block (klog ?t4)) (lh_n (klog ?t4)) (view ?t4 st) = put_header [] 0 ?h"
    using v4 put_header_cong [of 0] by simp
  obtain t5 where t5: "write_head ?t4 = Ok () t5" "bc_inv pid {} {} t5" "bio_rest t5 = bio_rest ?t4"
    "disk t5 = apply_writes (disk t4) [(st, put_header [] 0 ?h)]"
    using write_head_spec [OF i4 _ _ _ _ h4] dev ls k3 k4 by auto
  have "recover_from_log c = Ok () t5"
    using run1 t4(1) t5(1) k3 by (simp add: recover_from_log_def install_trans_def)
  then show ?thesis
    using t5 bio_rest_fields(1) [OF t5(3)] by (intro exI [of _ t5]) (simp add: recovery_writes_def t4(5))
qed


section \<open>Crashes\<close>

text \<open>The three stages in which a crash can find the card.\<close>

lemma take_commit_writes:
  assumes "k \<le> length (commit_writes s blks)"
  shows "k \<le> length blks \<and> take k (commit_writes s blks) = log_writes s blks k
    \<or> length blks < k \<and> (\<exists>j \<le> length blks. take k (commit_writes s blks) = log_writes s blks (length blks)
         @ (l_start (klog s), put_header blks (length blks) (view s (l_start (klog s)))) # map (\<lambda>b. (b, view s b)) (take j blks))
    \<or> length blks < k \<and> take k (commit_writes s blks) = commit_writes s blks"
proof -
  let ?n = "length blks" and ?W = "log_writes s blks (length blks)"
  have W: "length ?W = ?n" by (simp add: log_writes_def)
  have len: "length (commit_writes s blks) = 2 * ?n + 2" by (simp add: commit_writes_def Let_def W)
  consider "k \<le> ?n" | "?n < k" "k \<le> 2 * ?n + 1" | "k = 2 * ?n + 2" using assms len by linarith
  then show ?thesis
  proof cases
    case 1
    then have "take k ?W = log_writes s blks k" by (simp add: log_writes_def take_map)
    then show ?thesis using 1 W by (simp add: commit_writes_def Let_def)
  next
    case 2
    define j where "j = k - Suc ?n"
    have k: "k = Suc (?n + j)" and j: "j \<le> ?n" using 2 by (simp_all add: j_def)
    have "take k (commit_writes s blks) = ?W @ (l_start (klog s), put_header blks ?n (view s (l_start (klog s))))
        # map (\<lambda>b. (b, view s b)) (take j blks)"
      using j W by (simp add: commit_writes_def Let_def k take_map)
    then show ?thesis using j 2(1) by blast
  next
    case 3
    then show ?thesis using len by simp
  qed
qed

lemma log_writes_region:
  assumes "log_ready pid blks s" "k \<le> length blks"
  shows "fst ` set (log_writes s blks k) \<subseteq> log_region (l_start (klog s)) - {l_start (klog s)}"
  using assms logblk_region(1,2) [of "l_start (klog s)"]
  by (auto simp: log_writes_def log_ready_def)

lemma home_apply:
  assumes "b \<in> set xs"
  shows "apply_writes d (map (\<lambda>b. (b, f b)) xs) b = f b"
  using assms
proof (induction xs arbitrary: d rule: rev_induct)
  case (snoc x xs)
  then show ?case by (cases "b = x") auto
qed simp

lemma get32_put_zero: "4 \<le> length h \<Longrightarrow> get32 (put_header bl 0 h) 0 = 0"
  by (simp add: put_header_def)

lemma head_n_0: "get32 h 0 = 0 \<Longrightarrow> head_n h = 0"
  by (simp add: head_n_def)

lemma recovery_none:
  "head_n (d st) = 0 \<Longrightarrow> b \<notin> log_region st \<Longrightarrow> st \<in> log_region st \<Longrightarrow> apply_writes d (recovery_writes st d) b = d b"
  by (auto simp: recovery_writes_def)

lemma header_decodes:
  assumes "length blks < NBUF" "length h = BSIZE"
  shows "head_n (put_header blks (length blks) h) = length blks" "head_blocks (put_header blks (length blks) h) = blks"
proof -
  have len: "4 + 4 * length blks \<le> length h" using assms by simp
  have "sint (of_nat (length blks) :: u32) = int (length blks)" using assms(1) by (intro sint_small) simp
  then show n: "head_n (put_header blks (length blks) h) = length blks"
    using header_roundtrip(1) [OF len] by (simp add: head_n_def)
  show "head_blocks (put_header blks (length blks) h) = blks"
    unfolding head_blocks_def n using header_roundtrip(2) [OF len, of _ blks] by (intro nth_equalityI) simp_all
qed

lemma recover_ok_none:
  assumes f: "fresh pid st c" and z: "head_n (disk c st) = 0" and st: "unat st + LOGBLOCKS < 4294967296"
  shows "\<exists>t. recover_from_log c = Ok () t \<and> (\<forall>b. b \<notin> log_region st \<longrightarrow> disk t b = disk c b)"
proof -
  have h: "head_blocks (disk c st) = []" using z by (simp add: head_blocks_def)
  have "st \<in> log_region st" using logblk_region(3) [OF st, of 0] by simp
  then show ?thesis
    using recover_run [OF f _ _ _ st] recovery_none [of "disk c" st] z h by auto
qed

lemma crash_before_header:
  assumes r: "log_ready pid blks s" and z: "get32 (disk s (l_start (klog s))) 0 = 0" and k: "k \<le> length blks"
    and f: "fresh pid2 (l_start (klog s)) c" and d: "disk c = apply_writes (disk s) (log_writes s blks k)"
  shows "\<exists>t. recover_from_log c = Ok () t \<and> (\<forall>b. b \<notin> log_region (l_start (klog s)) \<longrightarrow> disk t b = disk s b)"
proof -
  let ?st = "l_start (klog s)"
  have st: "unat ?st + LOGBLOCKS < 4294967296" using r by (simp add: log_ready_def)
  note R = log_writes_region [OF r k]
  have "disk c ?st = disk s ?st" unfolding d using R by (intro apply_writes_other) blast
  then have "head_n (disk c ?st) = 0" using head_n_0 z by simp
  moreover have "disk c b = disk s b" if "b \<notin> log_region ?st" for b
    unfolding d using R that by (intro apply_writes_other) blast
  ultimately show ?thesis using recover_ok_none [OF f _ st] by metis
qed

lemma crash_after_header:
  assumes r: "log_ready pid blks s" and j: "j \<le> length blks" and f: "fresh pid2 (l_start (klog s)) c"
    and d: "disk c = apply_writes (disk s) (log_writes s blks (length blks)
      @ (l_start (klog s), put_header blks (length blks) (view s (l_start (klog s)))) # map (\<lambda>b. (b, view s b)) (take j blks))"
  shows "\<exists>t. recover_from_log c = Ok () t \<and> (\<forall>b. b \<notin> log_region (l_start (klog s)) \<longrightarrow> disk t b = view s b)"
proof -
  let ?st = "l_start (klog s)" and ?n = "length blks" and ?T = "map (\<lambda>b. (b, view s b)) (take j blks)"
  let ?h = "put_header blks ?n (view s ?st)" and ?W = "log_writes s blks (length blks)"
  have st: "unat ?st + LOGBLOCKS < 4294967296" and dis: "set blks \<inter> log_region ?st = {}" and dst: "distinct blks"
    and n: "?n < NBUF" and inv: "bc_inv pid (set blks) {} s" and hl: "length (disk s ?st) = BSIZE"
    using r by (auto simp: log_ready_def)
  have sR: "?st \<in> log_region ?st" using logblk_region(3) [OF st, of 0] by simp
  have vst: "view s ?st = disk s ?st" using view_clean [OF inv] sR dis by blast
  have T: "fst ` set ?T \<subseteq> set blks" by (auto dest: in_set_takeD)
  have nT: "?st \<notin> fst ` set ?T" using T sR dis by blast
  have "disk c ?st = ?h"
    unfolding d apply_writes_simps apply_writes_other [OF nT] by simp
  then have hd: "head_n (disk c ?st) = ?n" "head_blocks (disk c ?st) = blks"
    using header_decodes [OF n, of "view s ?st"] hl vst by simp_all
  have lb: "disk c (logblk ?st i) = view s (blks ! i)" if "i < ?n" for i
  proof -
    have i: "i < LOGBLOCKS" using that n by simp
    have nT: "logblk ?st i \<notin> fst ` set ?T" using T logblk_region(1) [OF st i] dis by blast
    let ?f = "\<lambda>i. (logblk ?st i, view s (blks ! i))"
    have "apply_writes (disk s) (map ?f [0..<?n]) (fst (?f i)) = snd (?f i)"
      by (rule apply_writes_map [OF _ that]) (use logblk_region(4) [OF st] n in auto)
    then show ?thesis
      unfolding d using apply_writes_other [OF nT] logblk_region(2) [OF st i] by (simp add: log_writes_def)
  qed
  obtain t where t: "recover_from_log c = Ok () t" "disk t = apply_writes (disk c) (recovery_writes ?st (disk c))"
    using recover_run [OF f _ _ _ st] hd dst dis n by auto
  have rw: "recovery_writes ?st (disk c) = map (\<lambda>b. (b, view s b)) blks @ [(?st, put_header [] 0 (disk c ?st))]"
    unfolding recovery_writes_def hd by (simp add: lb map_nth [symmetric] del: map_nth) (rule nth_equalityI; simp add: lb)
  have "disk t b = view s b" if b: "b \<notin> log_region ?st" for b
  proof (cases "b \<in> set blks")
    case True
    then show ?thesis unfolding t(2) rw using home_apply [OF True, of "disk c"] b sR by auto
  next
    case False
    have "disk t b = disk c b" unfolding t(2) rw using False b sR by (auto simp: apply_writes_other image_def)
    also have "\<dots> = disk s b"
      unfolding d using T False b sR log_writes_region [OF r order_refl] by (intro apply_writes_other) auto
    also have "\<dots> = view s b" using view_clean [OF inv False] by simp
    finally show ?thesis .
  qed
  then show ?thesis using t(1) by blast
qed

lemma crash_after_commit:
  assumes r: "log_ready pid blks s" and f: "fresh pid2 (l_start (klog s)) c"
    and d: "disk c = apply_writes (disk s) (commit_writes s blks)"
  shows "\<exists>t. recover_from_log c = Ok () t \<and> (\<forall>b. b \<notin> log_region (l_start (klog s)) \<longrightarrow> disk t b = view s b)"
proof -
  let ?st = "l_start (klog s)" and ?n = "length blks"
  let ?h = "put_header blks ?n (view s ?st)" and ?W = "log_writes s blks (length blks)"
  have st: "unat ?st + LOGBLOCKS < 4294967296" and dis: "set blks \<inter> log_region ?st = {}"
    and n: "?n < NBUF" and inv: "bc_inv pid (set blks) {} s" and hl: "length (disk s ?st) = BSIZE"
    using r by (auto simp: log_ready_def)
  have sR: "?st \<in> log_region ?st" using logblk_region(3) [OF st, of 0] by simp
  have vst: "view s ?st = disk s ?st" using view_clean [OF inv] sR dis by blast
  have "disk c ?st = put_header blks 0 ?h" unfolding d commit_writes_def Let_def by simp
  moreover have "length ?h = BSIZE" using header_roundtrip(3) [of ?n "view s ?st" blks] n hl vst by simp
  ultimately have "head_n (disk c ?st) = 0" using head_n_0 get32_put_zero by simp
  moreover have "disk c b = view s b" if b: "b \<notin> log_region ?st" for b
  proof (cases "b \<in> set blks")
    case True
    then show ?thesis unfolding d commit_writes_def Let_def using home_apply [OF True] b sR by auto
  next
    case False
    have "disk c b = disk s b"
      unfolding d commit_writes_def Let_def using False b sR log_writes_region [OF r order_refl]
      by (intro apply_writes_other) auto
    then show ?thesis using view_clean [OF inv False] by simp
  qed
  ultimately show ?thesis using recover_ok_none [OF f _ st] by metis
qed

section \<open>Transactions\<close>

text \<open>A transaction in progress; \<open>L\<close> are the locked blocks.\<close>
definition log_tx :: "u32 \<Rightarrow> u32 list \<Rightarrow> u32 set \<Rightarrow> kstate \<Rightarrow> bool" where
  "log_tx pid blks L s \<longleftrightarrow> bc_inv pid (set blks) L s \<and> l_dev (klog s) = ROOTDEV \<and> 1 \<le> l_outstanding (klog s)
     \<and> lh_n (klog s) = length blks \<and> take (length blks) (lh_block (klog s)) = blks \<and> length (lh_block (klog s)) = LOGBLOCKS
     \<and> distinct blks \<and> length blks \<le> LOGBLOCKS"

lemma absorb_index_found:
  "n \<le> length bl \<Longrightarrow> absorb_index n bl blk = (if blk \<in> set (take n bl) then (LEAST i. i < n \<and> bl ! i = blk) else n)"
proof (induction n arbitrary: bl)
  case (Suc n)
  then obtain x xs where bl: "bl = x # xs" by (cases bl) auto
  show ?case
  proof (cases "x = blk")
    case True
    have "(LEAST i. i < Suc n \<and> bl ! i = blk) = 0" using True bl by (intro Least_equality) auto
    then show ?thesis using True bl by simp
  next
    case False
    have ih: "absorb_index n xs blk = (if blk \<in> set (take n xs) then (LEAST i. i < n \<and> xs ! i = blk) else n)"
      using Suc bl by simp
    have "(LEAST i. i < Suc n \<and> bl ! i = blk) = Suc (LEAST i. i < n \<and> xs ! i = blk)" if "blk \<in> set (take n xs)"
    proof -
      from that obtain j where "j < n" "xs ! j = blk" by (auto simp: in_set_conv_nth)
      then have "Suc j < Suc n \<and> bl ! Suc j = blk" "\<not> (0 < Suc n \<and> bl ! 0 = blk)" using bl False by auto
      from Least_Suc [OF this] show ?thesis using bl by simp
    qed
    then show ?thesis using False bl ih by simp
  qed
qed simp

lemma absorb_index_present:
  assumes "n \<le> length bl" "blk \<in> set (take n bl)"
  shows "absorb_index n bl blk < n" "bl ! absorb_index n bl blk = blk"
proof -
  obtain j where j: "j < n \<and> bl ! j = blk" using assms by (auto simp: in_set_conv_nth)
  have "(LEAST i. i < n \<and> bl ! i = blk) < n \<and> bl ! (LEAST i. i < n \<and> bl ! i = blk) = blk" by (rule LeastI [where P = "\<lambda>i. i < n \<and> bl ! i = blk", OF j])
  then show "absorb_index n bl blk < n" "bl ! absorb_index n bl blk = blk"
    using absorb_index_found [OF assms(1), of blk] assms(2) by auto
qed

text \<open>What the cache operations leave alone.\<close>

named_theorems log_safe_intros "computations that leave the log's variables alone"

definition log_safe :: "'a K \<Rightarrow> bool" where
  "log_safe m \<longleftrightarrow> (\<forall>s x t. m s = Ok x t \<longrightarrow> klog t = klog s)"

lemma log_safeD: "log_safe m \<Longrightarrow> m s = Ok x t \<Longrightarrow> klog t = klog s"
  by (simp add: log_safe_def)

lemma log_safe_kmod: "(\<And>s. klog (f s) = klog s) \<Longrightarrow> log_safe (kmod f)"
  by (simp add: log_safe_def)

lemma log_safe_basic [log_safe_intros]:
  "log_safe (kret x)" "log_safe (kget g)" "log_safe (kpanic e)" "log_safe kdiverge"
  "log_safe (acquire lk)" "log_safe (release lk)"
  by (auto simp: log_safe_def split: if_splits)

lemma log_safe_kbind [log_safe_intros]: "log_safe m \<Longrightarrow> (\<And>x. log_safe (f x)) \<Longrightarrow> log_safe (kbind m f)"
  unfolding log_safe_def kbind_ok_iff by metis

lemma log_safe_if [log_safe_intros]: "log_safe m \<Longrightarrow> log_safe n \<Longrightarrow> log_safe (if b then m else n)"
  by simp

lemma log_safe_kwhen [log_safe_intros]: "log_safe m \<Longrightarrow> log_safe (kwhen b m)"
  by (simp add: kwhen_def log_safe_basic)

lemma log_safe_kdo [log_safe_intros]:
  "log_safe (kdo [])" "log_safe m \<Longrightarrow> log_safe (kdo ms) \<Longrightarrow> log_safe (kdo (m # ms))"
  by (auto intro: log_safe_intros)

lemma log_safe_kfor [log_safe_intros]: "(\<And>x. log_safe (f x)) \<Longrightarrow> log_safe (kfor xs f)"
  by (induction xs) (auto intro: log_safe_intros)

lemma log_safe_mods [log_safe_intros]:
  "log_safe (kmod (upd_proc p f))" "log_safe (kmod (upd_buf i g))" "log_safe (kmod (sl_upd sl h))" "log_safe (disk_write b d)"
  "log_safe (kmod (\<lambda>s. upd_buf (i1 s) (g1 s) s))"
  by (auto simp: disk_write_def upd_proc_def upd_buf_def sl_upd_def split: sleeplk.split intro!: log_safe_kmod)

lemma log_safe_sched [log_safe_intros]: "log_safe sched" "log_safe (kblock ch lk)"
  by (auto simp: log_safe_def sched_def kblock_not_ok split: option.splits if_splits)

lemma log_safe_wakeup [log_safe_intros]: "log_safe (wakeup ch)"
  unfolding wakeup_def wakeup_one_def myproc_def by (intro log_safe_intros)

lemma log_safe_sleeplock [log_safe_intros]: "log_safe mypid" "log_safe (acquiresleep sl)" "log_safe (releasesleep sl)" "log_safe (holdingsleep sl)"
proof -
  show m: "log_safe mypid" unfolding mypid_def by (auto intro!: log_safe_intros split: option.split)
  show "log_safe (acquiresleep sl)" unfolding acquiresleep_def acquiresleep_loop_def by (intro log_safe_intros m)
  show "log_safe (releasesleep sl)" unfolding releasesleep_def by (intro log_safe_intros)
  show "log_safe (holdingsleep sl)" unfolding holdingsleep_def by (intro log_safe_intros m)
qed

lemma log_safe_find [log_safe_intros]: "log_safe (find_cached n b dev blk)" "log_safe (find_unused n b)"
  by (induction n arbitrary: b) (auto intro!: log_safe_intros)

lemma log_safe_bio [log_safe_intros]:
  "log_safe (bget dev blk)" "log_safe (bread dev blk)" "log_safe (bwrite i)" "log_safe (brelse i)" "log_safe (bpin i)"
  "log_safe (bunpin i)" "log_safe (bmodify i h)" "log_safe (bcopy i j)"
proof -
  show g: "log_safe (bget dev blk)"
    unfolding bget_def by (intro log_safe_intros) (auto split: option.split intro!: log_safe_intros)
  show "log_safe (bread dev blk)" unfolding bread_def disk_read_def by (intro log_safe_intros g)
  show "log_safe (brelse i)" unfolding brelse_def lru_unlink_def lru_push_def by (intro log_safe_intros)
  show "log_safe (bmodify i h)" for i h unfolding bmodify_def by (intro log_safe_intros)
  then show "log_safe (bcopy i j)" unfolding bcopy_def by (intro log_safe_intros)
qed (unfold bwrite_def bpin_def bunpin_def, (intro log_safe_intros)+)


text \<open>\<open>log_write\<close>: a block that is already logged is absorbed, any other is appended and pinned.\<close>

definition logged :: "u32 \<Rightarrow> u32 list \<Rightarrow> u32 list" where
  "logged blk blks = (if blk \<in> set blks then blks else blks @ [blk])"

lemma bpin_state: "LK_bcache \<notin> held s \<Longrightarrow>
    bpin i s = Ok () (s\<lparr>bufs := (bufs s)[i := (bufs s ! i)\<lparr>b_refcnt := b_refcnt (bufs s ! i) + 1\<rparr>]\<rparr>)"
  by (simp add: bpin_def upd_buf_def)

lemma view_klog [simp]: "view (s\<lparr>klog := l\<rparr>) = view s"
  by (simp add: view_def)

lemma bc_inv_klog [simp]: "bc_inv pid P L (s\<lparr>klog := l\<rparr>) = bc_inv pid P L s"
  by (simp add: bc_inv_def calm_def)

text \<open>What no operation on a block touches.\<close>
definition tx_rest :: "kstate \<Rightarrow> kstate" where
  "tx_rest s = (bio_rest s)\<lparr>klog := klog blank_kstate\<rparr>"

lemma tx_rest_bio: "bio_rest t = bio_rest s \<Longrightarrow> tx_rest t = tx_rest s"
  by (simp add: tx_rest_def)

lemma tx_rest_klog [simp]: "tx_rest (s\<lparr>klog := l\<rparr>) = tx_rest s"
  by (simp add: tx_rest_def bio_rest_def)

lemma tx_rest_fields:
  assumes "tx_rest t = tx_rest s"
  shows "sb t = sb s" "inodes t = inodes s" "files t = files s" "mem t = mem s" "cur t = cur s" "held t = held s"
    "pipes t = pipes s" "freelist t = freelist s" "link t = link s" "kcons t = kcons s"
  using assms by (cases s; cases t; simp add: tx_rest_def bio_rest_def)+

lemma log_write_ok:
  assumes tx: "log_tx pid blks L s" and h: "holds s i blk d" and L: "blk \<in> L" and n: "length blks < LOGBLOCKS"
  shows "\<exists>t. log_write i s = Ok () t \<and> log_tx pid (logged blk blks) L t \<and> view t = view s \<and> disk t = disk s \<and> wtrace t = wtrace s
    \<and> l_start (klog t) = l_start (klog s) \<and> l_outstanding (klog t) = l_outstanding (klog s) \<and> tx_rest t = tx_rest s"
proof (cases "blk \<in> set blks")
  case True
  have inv: "bc_inv pid (set blks) L s" and lg: "lh_n (klog s) = length blks" "take (length blks) (lh_block (klog s)) = blks"
    "length (lh_block (klog s)) = LOGBLOCKS" "1 \<le> l_outstanding (klog s)" using tx by (auto simp: log_tx_def)
  have hd: "held s = {}" using inv by (simp add: bc_inv_def calm_def)
  have b: "b_blockno (bufs s ! i) = blk" using h by (simp add: holds_def is_slot_def)
  let ?k = "absorb_index (length blks) (lh_block (klog s)) blk"
  have k: "?k < length blks" "lh_block (klog s) ! ?k = blk"
    using absorb_index_present [of "length blks" "lh_block (klog s)" blk] lg n True by simp_all
  then have "(lh_block (klog s))[?k := blk] = lh_block (klog s)" by (metis list_update_id)
  then have "log_write i s = Ok () s"
    using k lg n hd b by (simp add: log_write_def Let_def upd_log_def)
  then show ?thesis using tx True by (simp add: logged_def)
next
  case False
  have inv: "bc_inv pid (set blks) L s" and lg: "lh_n (klog s) = length blks" "take (length blks) (lh_block (klog s)) = blks"
    "length (lh_block (klog s)) = LOGBLOCKS" "1 \<le> l_outstanding (klog s)" using tx by (auto simp: log_tx_def)
  have hd: "held s = {}" using inv by (simp add: bc_inv_def calm_def)
  have b: "b_blockno (bufs s ! i) = blk" using h by (simp add: holds_def is_slot_def)
  obtain t1 where t1: "bpin i s = Ok () t1" "bc_inv pid (insert blk (set blks)) L t1" "view t1 = view s" "disk t1 = disk s" "wtrace t1 = wtrace s"
    "bio_rest t1 = bio_rest s"
    using bpin_spec [OF inv h L False] by blast
  note r = bio_rest_fields [OF t1(6)]
  have t1': "t1 = s\<lparr>bufs := (bufs s)[i := (bufs s ! i)\<lparr>b_refcnt := b_refcnt (bufs s ! i) + 1\<rparr>]\<rparr>"
    using t1(1) bpin_state [of s i] hd by simp
  have k: "absorb_index (length blks) (lh_block (klog s)) blk = length blks"
    using absorb_index_found [of "length blks" "lh_block (klog s)" blk] lg n False by simp
  let ?t = "t1\<lparr>klog := (klog s)\<lparr>lh_block := (lh_block (klog s))[length blks := blk], lh_n := length blks + 1\<rparr>\<rparr>"
  have "log_write i s = Ok () ?t"
    using k lg n hd b by (simp add: log_write_def Let_def upd_log_def bpin_state t1')
  moreover have "take (Suc (length blks)) ((lh_block (klog s))[length blks := blk]) = blks @ [blk]"
    using lg n by (simp add: take_Suc_conv_app_nth)
  ultimately show ?thesis
    using tx False t1(2-5) r n tx_rest_bio [OF t1(6)] by (intro exI [of _ ?t]) (simp add: log_tx_def logged_def)
qed



lemma log_write_keeps_slot:
  assumes "log_tx pid blks L s" "holds s i blk d" "blk \<in> L" "length blks < LOGBLOCKS" "log_write i s = Ok () t"
  shows "holds t i blk d"
proof -
  have inv: "bc_inv pid (set blks) L s" using assms(1) by (simp add: log_tx_def)
  then have "held s = {}" by (simp add: bc_inv_def calm_def)
  moreover note bc_inv_length [OF inv]
  ultimately show ?thesis
    using assms(2,5) by (auto simp: log_write_def upd_log_def Let_def bpin_state holds_def is_slot_def split: if_splits)
qed

section \<open>The space reservation\<close>

lemma log_safe_head [log_safe_intros]: "log_safe write_head"
  unfolding write_head_def by (intro log_safe_intros)

lemma log_safe_copies [log_safe_intros]: "log_safe write_log" "log_safe (install_trans r)"
  unfolding write_log_def install_trans_def write_log_one_def install_one_def by (intro log_safe_intros)+

lemma commit_klog: "commit s = Ok () t \<Longrightarrow> klog t = (klog s)\<lparr>lh_n := 0\<rparr>"
  using log_safeD [OF log_safe_head] log_safeD [OF log_safe_copies(1)] log_safeD [OF log_safe_copies(2)]
  by (auto simp: commit_def upd_log_def split: outcome.splits if_splits)

lemma begin_op_klog:
  "begin_op s = Ok () t \<Longrightarrow> klog t = (klog s)\<lparr>l_outstanding := l_outstanding (klog s) + 1\<rparr> \<and> \<not> l_committing (klog s)
     \<and> int (lh_n (klog s)) + (l_outstanding (klog s) + 1) * 10 \<le> 30"
  by (auto simp: begin_op_def begin_op_loop_def upd_log_def kblock_not_ok split: if_splits)

lemma end_op_klog:
  assumes "end_op s = Ok () t"
  shows "klog t = (if l_outstanding (klog s) = 1 then (klog s)\<lparr>l_outstanding := 0, lh_n := 0, l_committing := False\<rparr>
    else (klog s)\<lparr>l_outstanding := l_outstanding (klog s) - 1\<rparr>) \<and> \<not> l_committing (klog s)"
  using assms log_safeD [OF log_safe_wakeup [of CH_log]] commit_klog
  by (fastforce simp: end_op_def upd_log_def Let_def split: outcome.splits if_splits)

lemma log_write_klog:
  assumes "log_write b s = Ok () t"
  shows "lh_n (klog t) \<le> Suc (lh_n (klog s)) \<and> l_outstanding (klog t) = l_outstanding (klog s) \<and> l_committing (klog t) = l_committing (klog s)"
  using assms by (auto simp: log_write_def upd_log_def Let_def bpin_def upd_buf_def split: outcome.splits if_splits)

text \<open>The file-system calls in progress and what each may still write: \<open>begin_op\<close> reserves \<open>MAXOPBLOCKS\<close> blocks,
  each \<open>log_write\<close> uses one, \<open>end_op\<close> gives the rest back.  Everything else the kernel does leaves the log's variables alone.\<close>

inductive log_step :: "kstate \<times> nat list \<Rightarrow> kstate \<times> nat list \<Rightarrow> bool" where
  log_begin: "begin_op s = Ok () t \<Longrightarrow> log_step (s, B) (t, MAXOPBLOCKS # B)"
| log_put: "log_write b s = Ok () t \<Longrightarrow> i < length B \<Longrightarrow> 0 < B ! i \<Longrightarrow> log_step (s, B) (t, B[i := B ! i - 1])"
| log_end: "end_op s = Ok () t \<Longrightarrow> log_step (s, B1 @ x # B2) (t, B1 @ B2)"
| log_other: "log_safe m \<Longrightarrow> m s = Ok () t \<Longrightarrow> log_step (s, B) (t, B)"

definition log_idle :: "kstate \<times> nat list \<Rightarrow> bool" where
  "log_idle sB \<longleftrightarrow> snd sB = [] \<and> lh_n (klog (fst sB)) = 0 \<and> l_outstanding (klog (fst sB)) = 0 \<and> \<not> l_committing (klog (fst sB))"

definition log_reserved :: "kstate \<times> nat list \<Rightarrow> bool" where
  "log_reserved sB \<longleftrightarrow> l_outstanding (klog (fst sB)) = int (length (snd sB)) \<and> lh_n (klog (fst sB)) + sum_list (snd sB) \<le> LOGBLOCKS
     \<and> (\<forall>x \<in> set (snd sB). x \<le> MAXOPBLOCKS) \<and> \<not> l_committing (klog (fst sB))"

lemma sum_list_bound: "\<forall>x \<in> set B. x \<le> (m :: nat) \<Longrightarrow> sum_list B \<le> length B * m"
  by (induction B) auto

lemma sum_list_take_one:
  "i < length B \<Longrightarrow> 0 < B ! i \<Longrightarrow> Suc (sum_list (B[i := B ! i - 1])) = sum_list (B :: nat list)"
  by (induction B arbitrary: i) (auto simp: nth_Cons split: nat.splits)

lemma log_reserved_step:
  assumes inv: "log_reserved sB" and st: "log_step sB tC"
  shows "log_reserved tC"
  using st
proof (cases rule: log_step.cases)
  case (log_begin s t B)
  have "sum_list B \<le> length B * 10" using inv log_begin by (intro sum_list_bound) (simp add: log_reserved_def)
  then show ?thesis using inv begin_op_klog [OF log_begin(3)] log_begin(1,2) by (auto simp: log_reserved_def)
next
  case (log_put b s t i B)
  have small: "\<forall>x \<in> set B. x \<le> 10" using inv log_put(1) by (simp add: log_reserved_def)
  then have "B ! i - 1 \<le> 10" using nth_mem [OF log_put(4)] by fastforce
  then have "\<forall>x \<in> set (B[i := B ! i - 1]). x \<le> 10" using small set_update_subset_insert [of B i "B ! i - 1"] by auto
  then show ?thesis using inv log_write_klog [OF log_put(3)] sum_list_take_one [OF log_put(4,5)] log_put(1,2)
    by (auto simp: log_reserved_def)
next
  case (log_end s t B1 x B2)
  then show ?thesis using inv end_op_klog [OF log_end(3)] by (auto simp: log_reserved_def)
next
  case (log_other m s t B)
  then show ?thesis using inv log_safeD [OF log_other(3,4)] by (simp add: log_reserved_def)
qed

interpretation logspace: invariant_system log_idle log_step log_reserved
proof
  show "log_reserved sB" if "log_idle sB" for sB using that by (simp add: log_idle_def log_reserved_def)
qed (rule log_reserved_step)


section \<open>Updating a block inside a transaction\<close>

lemma view_unlocked:
  assumes "bc_inv pid P L s" "blk \<notin> L \<union> P"
  shows "view s blk = disk s blk"
proof (cases "\<exists>i. is_slot (bufs s) i blk")
  case True
  then obtain i where i: "is_slot (bufs s) i blk" by blast
  have pay: "bc_pay pid P L (bufs s) (disk s)" using assms(1) by (simp add: bc_inv_def)
  show ?thesis using bview_slot [OF pay i] bc_pay_slot [OF pay i] assms(2) by (simp add: view_def slot_ok_def)
next
  case False
  then show ?thesis using bview_uncached [of "bufs s" blk "disk s"] by (simp add: view_def)
qed

lemma tx_read:
  assumes tx: "log_tx pid blks L s" and nl: "blk \<notin> L" and room: "blk \<in> set blks \<or> card (L \<union> set blks) < NBUF" and fin: "finite L"
  shows "\<exists>i t. bread ROOTDEV blk s = Ok i t \<and> log_tx pid blks (insert blk L) t \<and> holds t i blk (view s blk) \<and> view t = view s
    \<and> disk t = disk s \<and> wtrace t = wtrace s \<and> klog t = klog s \<and> tx_rest t = tx_rest s \<and> keeps (L \<union> set blks) s t"
proof -
  have inv: "bc_inv pid (set blks) L s" using tx by (simp add: log_tx_def)
  obtain i t where t: "bread ROOTDEV blk s = Ok i t" "bc_inv pid (set blks) (insert blk L) t" "holds t i blk (view s blk)"
    "view t = view s" "disk t = disk s" "wtrace t = wtrace s" "bio_rest t = bio_rest s" "keeps (L \<union> set blks) s t"
    using bcache.rd_ok [OF inv nl room] fin by auto
  have "log_tx pid blks (insert blk L) t" using tx t(2) bio_rest_fields [OF t(7)] by (simp add: log_tx_def)
  then show ?thesis using t tx_rest_bio [OF t(7)] bio_rest_fields(1) [OF t(7)] by blast
qed

lemma tx_release:
  assumes tx: "log_tx pid blks (insert blk L) s" and h: "holds s i blk d" and nl: "blk \<notin> L" and clean: "blk \<in> set blks \<or> d = disk s blk"
  shows "\<exists>t. brelse i s = Ok () t \<and> log_tx pid blks L t \<and> view t = view s \<and> disk t = disk s \<and> wtrace t = wtrace s
    \<and> klog t = klog s \<and> tx_rest t = tx_rest s \<and> keeps UNIV s t"
proof -
  have inv: "bc_inv pid (set blks) (insert blk L) s" using tx by (simp add: log_tx_def)
  obtain t where t: "brelse i s = Ok () t" "bc_inv pid (set blks) (insert blk L - {blk}) t" "view t = view s"
    "disk t = disk s" "wtrace t = wtrace s" "bio_rest t = bio_rest s" "keeps UNIV s t"
    using bcache.rl_ok [OF inv h _ clean] by blast
  have "insert blk L - {blk} = L" using nl by auto
  then have "log_tx pid blks L t" using tx t(2) bio_rest_fields [OF t(6)] by (simp add: log_tx_def)
  then show ?thesis using t tx_rest_bio [OF t(6)] bio_rest_fields(1) [OF t(6)] by blast
qed

text \<open>The shape of every metadata update of the file system: change, log, release.\<close>

lemma tx_modify:
  assumes tx: "log_tx pid blks (insert blk L) s" and h: "holds s i blk d" and nl: "blk \<notin> L" and n: "length blks < LOGBLOCKS"
  shows "\<exists>t. kdo [bmodify i f, log_write i, brelse i] s = Ok () t
    \<and> log_tx pid (logged blk blks) L t \<and> view t = (view s)(blk := f d) \<and> disk t = disk s \<and> wtrace t = wtrace s
    \<and> l_start (klog t) = l_start (klog s) \<and> l_outstanding (klog t) = l_outstanding (klog s) \<and> tx_rest t = tx_rest s"
proof -
  have inv: "bc_inv pid (set blks) (insert blk L) s" using tx by (simp add: log_tx_def)
  obtain t2 where t2: "bmodify i f s = Ok () t2" "bc_inv pid (set blks) (insert blk L) t2" "holds t2 i blk (f d)"
    "view t2 = (view s)(blk := f d)" "disk t2 = disk s" "wtrace t2 = wtrace s" "bio_rest t2 = bio_rest s"
    using bcache.md_ok [OF inv h, of f] by blast
  note r = bio_rest_fields [OF t2(7)]
  have tx2: "log_tx pid blks (insert blk L) t2" using tx t2(2) r by (simp add: log_tx_def)
  obtain t3 where t3: "log_write i t2 = Ok () t3" "log_tx pid (logged blk blks) (insert blk L) t3" "view t3 = view t2" "disk t3 = disk t2"
    "wtrace t3 = wtrace t2" "l_start (klog t3) = l_start (klog t2)" "l_outstanding (klog t3) = l_outstanding (klog t2)" "tx_rest t3 = tx_rest t2"
    using log_write_ok [OF tx2 t2(3) _ n] by auto
  have P: "blk \<in> set (logged blk blks)" by (simp add: logged_def)
  have h3: "holds t3 i blk (f d)" using log_write_keeps_slot [OF tx2 t2(3) _ n t3(1)] by simp
  obtain t4 where t4: "brelse i t3 = Ok () t4" "log_tx pid (logged blk blks) L t4" "view t4 = view t3" "disk t4 = disk t3"
    "wtrace t4 = wtrace t3" "klog t4 = klog t3" "tx_rest t4 = tx_rest t3"
    using tx_release [OF t3(2) h3 nl] P by blast
  show ?thesis using t2 t3 t4 r tx_rest_bio [OF t2(7)] by (intro exI [of _ t4]) simp
qed

lemma log_update:
  assumes tx: "log_tx pid blks L s" and nl: "blk \<notin> L" and n: "length blks < LOGBLOCKS"
    and room: "blk \<in> set blks \<or> card (L \<union> set blks) < NBUF" and fin: "finite L"
  shows "\<exists>t. kbind (bread ROOTDEV blk) (\<lambda>i. kdo [bmodify i f, log_write i, brelse i]) s = Ok () t
    \<and> log_tx pid (logged blk blks) L t \<and> view t = (view s)(blk := f (view s blk)) \<and> disk t = disk s \<and> wtrace t = wtrace s
    \<and> l_start (klog t) = l_start (klog s) \<and> l_outstanding (klog t) = l_outstanding (klog s) \<and> tx_rest t = tx_rest s"
proof -
  obtain i t1 where t1: "bread ROOTDEV blk s = Ok i t1" "log_tx pid blks (insert blk L) t1" "holds t1 i blk (view s blk)"
    "view t1 = view s" "disk t1 = disk s" "wtrace t1 = wtrace s" "klog t1 = klog s" "tx_rest t1 = tx_rest s"
    using tx_read [OF tx nl room fin] by blast
  from tx_modify [OF t1(2,3) nl n, of f] show ?thesis using t1 by auto
qed

text \<open>A block that is only looked at.\<close>

lemma tx_peek:
  assumes tx: "log_tx pid blks L s" and nl: "blk \<notin> L" and room: "blk \<in> set blks \<or> card (L \<union> set blks) < NBUF" and fin: "finite L"
  shows "\<exists>i t u. bread ROOTDEV blk s = Ok i t \<and> b_data (bufs t ! i) = view s blk \<and> sb t = sb s \<and> inodes t = inodes s
    \<and> brelse i t = Ok () u \<and> log_tx pid blks L u \<and> view u = view s \<and> disk u = disk s \<and> wtrace u = wtrace s \<and> klog u = klog s \<and> tx_rest u = tx_rest s"
proof -
  obtain i t where t: "bread ROOTDEV blk s = Ok i t" "log_tx pid blks (insert blk L) t" "holds t i blk (view s blk)"
    "view t = view s" "disk t = disk s" "wtrace t = wtrace s" "klog t = klog s" "tx_rest t = tx_rest s"
    using tx_read [OF tx nl room fin] by blast
  have "blk \<in> set blks \<or> view s blk = disk t blk"
    using view_unlocked [of pid "set blks" L s blk] tx nl t(5) by (auto simp: log_tx_def)
  from tx_release [OF t(2,3) nl this] show ?thesis
    using t tx_rest_fields(1,2) [OF t(8)] by (auto simp: holds_def)
qed



text \<open>Transactions that log the blocks 100, 101, \<open>\<dots>\<close>, starting from an empty log at block 2 of a blank card.\<close>

definition log_example :: kstate where
  "log_example = cache_example\<lparr>disk := (\<lambda>_. replicate 512 0),
     klog := \<lparr>l_start = 2, l_outstanding = 1, l_committing = False, l_dev = 1, lh_n = 0, lh_block = replicate 30 0\<rparr>\<rparr>"

lemma log_example_tx: "log_tx 1 [] {} log_example"
  using bc_inv_example [where d = "\<lambda>_. replicate 512 0"] by (simp add: log_tx_def log_example_def)

lemma tx_example:
  assumes "n \<le> 30"
  shows "\<exists>s. log_tx 1 (map (\<lambda>i. 100 + of_nat i) [0..<n]) {} s \<and> disk s = (\<lambda>_. replicate 512 0) \<and> l_start (klog s) = 2
    \<and> (\<forall>b. b < 100 \<longrightarrow> view s b = replicate 512 0) \<and> (0 < n \<longrightarrow> view s 100 = replicate 512 1)"
  using assms
proof (induction n)
  case 0
  have no: "\<not> is_slot (bufs log_example) i blk" for i blk
    unfolding is_slot_def by (cases "i < NBUF") (simp_all add: buf_example_def cache_example_def log_example_def)
  have "view log_example = disk log_example" using bview_uncached [OF no] by (auto simp: view_def)
  then show ?case using log_example_tx by (intro exI [of _ log_example]) (simp add: log_example_def)
next
  case (Suc n)
  let ?blks = "\<lambda>n. map (\<lambda>i. 100 + of_nat i) [0..<n] :: u32 list"
  obtain s where s: "log_tx 1 (?blks n) {} s" "disk s = (\<lambda>_. replicate 512 0)" "l_start (klog s) = 2"
    "\<forall>b. b < 100 \<longrightarrow> view s b = replicate 512 0" "0 < n \<longrightarrow> view s 100 = replicate 512 1"
    using Suc by auto
  have c: "card (set (?blks n)) \<le> n" using card_length [of "?blks n"] by simp
  obtain t where t: "log_tx 1 (logged (100 + of_nat n) (?blks n)) {} t" "view t = (view s)(100 + of_nat n := replicate 512 1)"
    "disk t = disk s" "l_start (klog t) = l_start (klog s)"
    using log_update [OF s(1), of "100 + of_nat n" "\<lambda>_. replicate 512 1"] c Suc.prems by fastforce
  have u: "unat (100 + of_nat n :: u32) = 100 + n" using Suc.prems by (simp add: unat_word_ariths unat_of_nat)
  have "100 + of_nat n \<notin> set (?blks n)"
  proof
    assume "100 + of_nat n \<in> set (?blks n)"
    then obtain i where i: "i < n" "(of_nat n :: u32) = of_nat i" by auto
    then have "unat (of_nat n :: u32) = unat (of_nat i :: u32)" by simp
    then show False using i(1) Suc.prems by (simp add: unat_of_nat)
  qed
  moreover have "b < 100 \<Longrightarrow> b \<noteq> 100 + of_nat n" for b :: u32 using u by (auto simp: word_less_nat_alt)
  moreover have "n = 0" if "(100 :: u32) = 100 + of_nat n"
  proof -
    have "unat (100 + of_nat n :: u32) = 100" using that by simp
    then show ?thesis using u by simp
  qed
  ultimately show ?case using t s by (intro exI [of _ t]) (auto simp: logged_def)
qed

section \<open>Properties\<close>

text \<open>(C3) The log makes a transaction atomic across crashes.  Let \<open>commit\<close> run on a transaction that logged the blocks
  \<open>blks\<close>, and let the machine stop after any number \<open>k\<close> of the block writes that \<open>commit\<close> issues.  The recovery of the next boot returns, and
  afterwards the card, outside the log itself, holds either everything as it was before the transaction or everything as the
  transaction left it; a crash before the header is written always gives the former, a crash after it the latter.\<close>

theorem commit_crash_atomic:
  assumes "log_ready pid blks s" "get32 (disk s (l_start (klog s))) 0 = 0" "k \<le> length (commit_writes s blks)"
    and "fresh pid2 (l_start (klog s)) c" "disk c = apply_writes (disk s) (take k (commit_writes s blks))"
  shows "(\<exists>t. commit s = Ok () t \<and> wtrace t = wtrace s @ commit_writes s blks) \<and>
    (\<exists>t. recover_from_log c = Ok () t \<and>
      (\<forall>b. b \<notin> log_region (l_start (klog s)) \<longrightarrow> disk t b = (if k \<le> length blks then disk s b else view s b)))"
proof -
  have "\<exists>t. commit s = Ok () t \<and> wtrace t = wtrace s @ commit_writes s blks" using commit_run [OF assms(1)] by blast
  moreover have "\<exists>t. recover_from_log c = Ok () t \<and>
      (\<forall>b. b \<notin> log_region (l_start (klog s)) \<longrightarrow> disk t b = (if k \<le> length blks then disk s b else view s b))"
    using take_commit_writes [OF assms(3)]
  proof (elim disjE exE conjE)
    assume "k \<le> length blks" "take k (commit_writes s blks) = log_writes s blks k"
    then show ?thesis using crash_before_header [OF assms(1,2) _ assms(4)] assms(5) by simp
  next
    fix j assume k: "length blks < k" and j: "j \<le> length blks"
      and "take k (commit_writes s blks) = log_writes s blks (length blks)
         @ (l_start (klog s), put_header blks (length blks) (view s (l_start (klog s)))) # map (\<lambda>b. (b, view s b)) (take j blks)"
    then show ?thesis using crash_after_header [OF assms(1) j assms(4)] assms(5) by simp
  next
    assume "length blks < k" "take k (commit_writes s blks) = commit_writes s blks"
    then show ?thesis using crash_after_commit [OF assms(1,4)] assms(5) by simp
  qed
  ultimately show ?thesis by blast
qed


lemma ready_example:
  "\<exists>s. log_ready 1 [100] s \<and> disk s = (\<lambda>_. replicate 512 0) \<and> l_start (klog s) = 2 \<and> view s 100 = replicate 512 1"
proof -
  obtain s where s: "log_tx 1 [100] {} s" "disk s = (\<lambda>_. replicate 512 0)" "l_start (klog s) = 2" "view s 100 = replicate 512 1"
    using tx_example [of 1] by (auto simp: upt_rec)
  have "(100 :: u32) \<notin> log_region 2" by (auto simp: log_region_def word_less_nat_alt logblk_def unat_word_ariths unat_of_nat)
  then have "log_ready 1 [100] s" using s by (simp add: log_ready_def log_tx_def)
  then show ?thesis using s by blast
qed

theorem commit_crash_atomic_witness:
  "\<exists>s c. log_ready 1 [100] s \<and> view s 100 = replicate 512 1 \<and> disk c = apply_writes (disk s) (take 2 (commit_writes s [100]))
     \<and> (\<exists>t. recover_from_log c = Ok () t \<and> disk t 100 = replicate 512 1)"
proof -
  obtain s where s: "log_ready 1 [100] s" "disk s = (\<lambda>_. replicate 512 0)" "l_start (klog s) = 2" "view s 100 = replicate 512 1"
    using ready_example by blast
  define c where "c = cache_example\<lparr>disk := apply_writes (disk s) (take 2 (commit_writes s [100])),
    klog := \<lparr>l_start = 2, l_outstanding = 0, l_committing = False, l_dev = 1, lh_n = 0, lh_block = replicate 30 0\<rparr>\<rparr>"
  have "fresh 1 (l_start (klog s)) c" using bc_inv_example s by (simp add: fresh_def c_def)
  moreover have "get32 (disk s (l_start (klog s))) 0 = 0" using s by (simp add: get32_def)
  moreover have "2 \<le> length (commit_writes s [100])" by (simp add: commit_writes_def Let_def)
  moreover have d: "disk c = apply_writes (disk s) (take 2 (commit_writes s [100]))" by (simp add: c_def)
  ultimately have "\<exists>t. recover_from_log c = Ok () t \<and> (\<forall>b. b \<notin> log_region (l_start (klog s)) \<longrightarrow> disk t b = view s b)"
    using commit_crash_atomic [OF s(1), of 2 1 c] by auto
  moreover have "100 \<notin> log_region (l_start (klog s))" using s(1) by (simp add: log_ready_def)
  ultimately show ?thesis using s d by metis
qed

text \<open>\<open>log_write\<close> inside a transaction: a block that is already in the log is absorbed, any other is appended to the log
  and its buffer pinned, so that it stays cached until the commit; nothing is written to the card, and what readers see does not change.\<close>

theorem log_write_spec:
  assumes "log_tx pid blks L s" "holds s i blk d" "blk \<in> L" "length blks < LOGBLOCKS"
  shows "\<exists>t. log_write i s = Ok () t \<and> view t = view s \<and> disk t = disk s \<and> wtrace t = wtrace s \<and>
    log_tx pid (if blk \<in> set blks then blks else blks @ [blk]) L t"
  using log_write_ok [OF assms] by (auto simp: logged_def)

theorem log_write_spec_witness:
  "\<exists>s i t. log_tx 1 [] {7} s \<and> log_write i s = Ok () t \<and> log_tx 1 [7] {7} t"
proof -
  have inv: "bc_inv 1 {} {} log_example" using log_example_tx by (simp add: log_tx_def)
  obtain i t where t: "bc_inv 1 {} (insert 7 {}) t" "holds t i 7 (view log_example 7)" "bio_rest t = bio_rest log_example"
    using bcache.rd_ok [OF inv, of 7] by auto
  have "log_tx 1 [] {7} t" using t log_example_tx bio_rest_fields [OF t(3)] by (simp add: log_tx_def)
  from log_write_spec [OF this t(2)] this show ?thesis by auto
qed

text \<open>(C5) The reservation of \<open>begin_op\<close> is sufficient.  However file-system calls start, log blocks and finish, in any order, as long as none
  logs more than the \<open>MAXOPBLOCKS\<close> blocks it may, the log never holds more than \<open>LOGBLOCKS\<close> blocks, and no \<open>log_write\<close> of a call that has not used up its
  blocks panics because the transaction is too big or because no transaction is open.\<close>

theorem log_never_overflows:
  assumes "log_idle sB0" "log_step\<^sup>*\<^sup>* sB0 (s, B)"
  shows "lh_n (klog s) \<le> LOGBLOCKS \<and> l_outstanding (klog s) = int (length B) \<and>
    (\<forall>i b e t. i < length B \<longrightarrow> 0 < B ! i \<longrightarrow> held s = {} \<longrightarrow> log_write b s \<noteq> Panic e t)"
proof -
  have inv: "log_reserved (s, B)" by (rule logspace.reach_inv [OF assms])
  have "log_write b s \<noteq> Panic e t" if "i < length B" "0 < B ! i" "held s = {}" for i b e t
  proof -
    have "0 < sum_list B" using that nth_mem [OF that(1)] member_le_sum_list [of "B ! i" B] by linarith
    then have "lh_n (klog s) < LOGBLOCKS" "1 \<le> l_outstanding (klog s)" using inv that(1) by (auto simp: log_reserved_def)
    then show ?thesis using that(3) by (auto simp: log_write_def Let_def upd_log_def bpin_def upd_buf_def)
  qed
  then show ?thesis using inv by (auto simp: log_reserved_def)
qed

lemma begin_example:
  "begin_op (log_example\<lparr>klog := (klog log_example)\<lparr>l_outstanding := 0\<rparr>\<rparr>) = Ok () log_example"
  by (simp add: begin_op_def begin_op_loop_def log_example_def cache_example_def fs_example_def blank_kstate_def upd_log_def)

theorem log_never_overflows_witness:
  "log_step\<^sup>*\<^sup>* (log_example\<lparr>klog := (klog log_example)\<lparr>l_outstanding := 0\<rparr>\<rparr>, []) (log_example, [10]) \<and>
   (\<forall>b e t. log_write b log_example \<noteq> Panic e t)"
proof -
  let ?s0 = "(log_example\<lparr>klog := (klog log_example)\<lparr>l_outstanding := 0\<rparr>\<rparr>, [])"
  have st: "log_step\<^sup>*\<^sup>* ?s0 (log_example, [10])" using log_begin [OF begin_example, of "[]"] by blast
  have "log_idle ?s0" by (simp add: log_idle_def log_example_def)
  moreover have "held log_example = {}" by (simp add: log_example_def cache_example_def fs_example_def blank_kstate_def)
  ultimately show ?thesis using log_never_overflows [OF _ st] st by fastforce
qed

text \<open>The header block round-trips: what \<open>write_head\<close> stores is read back by \<open>read_head\<close> as the same count and the same block numbers,
  for every list of block numbers that fits, whatever the block held before.\<close>

theorem loghead_roundtrip:
  assumes "length blks \<le> LOGBLOCKS" "length h = BSIZE"
  shows "head_n (put_header blks (length blks) h) = length blks \<and> head_blocks (put_header blks (length blks) h) = blks
    \<and> length (put_header blks (length blks) h) = BSIZE"
proof -
  have len: "4 + 4 * length blks \<le> length h" using assms by simp
  have "sint (of_nat (length blks) :: u32) = int (length blks)" using assms(1) by (intro sint_small) simp
  then have "head_n (put_header blks (length blks) h) = length blks"
    using header_roundtrip(1) [OF len] by (simp add: head_n_def)
  then show ?thesis
    using header_roundtrip(2,3) [OF len] assms(2) by (auto simp: head_blocks_def intro: nth_equalityI)
qed

theorem loghead_roundtrip_witness:
  "head_blocks (put_header [45, 46, 0xFFFFFFFF] 3 (replicate 512 7)) = [45, 46, 0xFFFFFFFF]"
  using loghead_roundtrip [of "[45, 46, 0xFFFFFFFF]" "replicate 512 7"] by (simp add: eval_nat_numeral)



end
