(* ===== verification/KV_Fs.thy ===== *)
theory KV_Fs
  imports KV_Log
begin

text \<open>
  The file system (kernel/fs.c): block allocation, inodes, inode contents, directories and path names, on top of the
  buffer cache and the log.

  An in-memory inode is named by its index in \<open>itable\<close>.  Objects on the kernel stack (\<open>struct dirent de\<close>, \<open>char name[DIRSIZ]\<close>) are
  byte lists; a source or destination of \<open>readi\<close> and \<open>writei\<close> is a user address, a kernel address or such an object (\<open>kptr\<close>), and the bytes
  that \<open>readi\<close> delivered are part of its result.  The lines that only print a message are left out.
\<close>

abbreviation NDIRECT :: nat where "NDIRECT \<equiv> 12"
abbreviation NINDIRECT :: nat where "NINDIRECT \<equiv> 128"
abbreviation MAXFILE :: nat where "MAXFILE \<equiv> 140"
abbreviation IPB :: nat where "IPB \<equiv> 8"
abbreviation BPB :: nat where "BPB \<equiv> 4096"
abbreviation DIRSIZ :: nat where "DIRSIZ \<equiv> 14"
abbreviation FSMAGIC :: u32 where "FSMAGIC \<equiv> 0x10203040"
abbreviation ROOTINO :: u32 where "ROOTINO \<equiv> 1"
abbreviation T_DIR :: u16 where "T_DIR \<equiv> 1"
abbreviation T_FILE :: u16 where "T_FILE \<equiv> 2"
abbreviation T_DEVICE :: u16 where "T_DEVICE \<equiv> 3"

definition IBLOCK :: "u32 \<Rightarrow> superblock \<Rightarrow> u32" where
  "IBLOCK i sbk = i div of_nat IPB + sb_inodestart sbk"

definition BBLOCK :: "u32 \<Rightarrow> superblock \<Rightarrow> u32" where
  "BBLOCK b sbk = b div of_nat BPB + sb_bmapstart sbk"

section \<open>On-disk structures\<close>

definition get16 :: "u8 list \<Rightarrow> nat \<Rightarrow> u16" where
  "get16 bs o' = ucast (bs ! o') OR push_bit 8 (ucast (bs ! (o' + 1)))"

definition put16 :: "u8 list \<Rightarrow> nat \<Rightarrow> u16 \<Rightarrow> u8 list" where
  "put16 bs o' v = bs[o' := ucast v, o' + 1 := ucast (drop_bit 8 v)]"

record dinode =
  d_type :: u16
  d_major :: u16
  d_minor :: u16
  d_nlink :: u16
  d_size :: u32
  d_addrs :: "u32 list"

text \<open>\<open>sizeof(struct dinode)\<close> is 64; entry \<open>k\<close> of a block of inodes.\<close>
definition get_dinode :: "u8 list \<Rightarrow> nat \<Rightarrow> dinode" where
  "get_dinode d k = \<lparr>d_type = get16 d (64 * k), d_major = get16 d (64 * k + 2), d_minor = get16 d (64 * k + 4),
     d_nlink = get16 d (64 * k + 6), d_size = get32 d (64 * k + 8),
     d_addrs = map (\<lambda>i. get32 d (64 * k + 12 + 4 * i)) [0..<NDIRECT + 1]\<rparr>"

definition put_dinode :: "u8 list \<Rightarrow> nat \<Rightarrow> dinode \<Rightarrow> u8 list" where
  "put_dinode d k di =
     (let d = put16 d (64 * k) (d_type di);
          d = put16 d (64 * k + 2) (d_major di);
          d = put16 d (64 * k + 4) (d_minor di);
          d = put16 d (64 * k + 6) (d_nlink di);
          d = put32 d (64 * k + 8) (d_size di)
      in foldl (\<lambda>d i. put32 d (64 * k + 12 + 4 * i) (d_addrs di ! i)) d [0..<NDIRECT + 1])"

definition blank_dinode :: dinode where
  "blank_dinode = \<lparr>d_type = 0, d_major = 0, d_minor = 0, d_nlink = 0, d_size = 0, d_addrs = replicate (NDIRECT + 1) 0\<rparr>"

record dirent =
  de_inum :: u16
  de_name :: "u8 list"

definition get_dirent :: "u8 list \<Rightarrow> dirent" where
  "get_dirent bs = \<lparr>de_inum = get16 bs 0, de_name = take DIRSIZ (drop 2 bs)\<rparr>"

definition put_dirent :: "dirent \<Rightarrow> u8 list" where
  "put_dirent de = [ucast (de_inum de), ucast (drop_bit 8 (de_inum de))] @ de_name de"

section \<open>Superblock and block allocation\<close>

text \<open>\<open>memmove(sb, bp->data, sizeof(*sb))\<close>.\<close>
definition get_sb :: "u8 list \<Rightarrow> superblock" where
  "get_sb d = \<lparr>sb_magic = get32 d 0, sb_size = get32 d 4, sb_nblocks = get32 d 8, sb_ninodes = get32 d 12,
     sb_nlog = get32 d 16, sb_logstart = get32 d 20, sb_inodestart = get32 d 24, sb_bmapstart = get32 d 28\<rparr>"

definition readsb :: "u32 \<Rightarrow> unit K" where
  "readsb dev =
     kbind (bread dev 1) (\<lambda>bp.
     kbind (kget (\<lambda>s. b_data (bufs s ! bp))) (\<lambda>d. kdo [
       kmod (\<lambda>s. s\<lparr>sb := get_sb d\<rparr>),
       brelse bp]))"

definition bzero :: "u32 \<Rightarrow> u32 \<Rightarrow> unit K" where
  "bzero dev bno =
     kbind (bread dev bno) (\<lambda>bp. kdo [
       bmodify bp (\<lambda>_. replicate BSIZE 0),
       log_write bp,
       brelse bp])"

text \<open>The bit of block \<open>bi\<close> in a block of the free map: \<open>data[bi/8] & (1 << (bi % 8))\<close>, and setting and clearing it.\<close>
definition bit_used :: "u8 list \<Rightarrow> nat \<Rightarrow> bool" where
  "bit_used d bi \<longleftrightarrow> d ! (bi div 8) AND push_bit (bi mod 8) 1 \<noteq> 0"

definition set_used :: "nat \<Rightarrow> u8 list \<Rightarrow> u8 list" where
  "set_used bi d = d[bi div 8 := d ! (bi div 8) OR push_bit (bi mod 8) 1]"

definition clear_used :: "nat \<Rightarrow> u8 list \<Rightarrow> u8 list" where
  "clear_used bi d = d[bi div 8 := d ! (bi div 8) AND NOT (push_bit (bi mod 8) 1)]"

text \<open>One round of the outer loop of \<open>balloc\<close>; the inner loop looks for the first clear bit below \<open>sb.size\<close>.\<close>
definition balloc_at :: "u32 \<Rightarrow> superblock \<Rightarrow> nat \<Rightarrow> u32 option K" where
  "balloc_at dev sbk b =
     kbind (bread dev (BBLOCK (of_nat b) sbk)) (\<lambda>bp.
     kbind (kget (\<lambda>s. b_data (bufs s ! bp))) (\<lambda>d.
     case find (\<lambda>bi. \<not> bit_used d bi) [0..<min BPB (unat (sb_size sbk) - b)] of
       Some bi \<Rightarrow>
         kbind (kdo [
           bmodify bp (set_used bi),
           log_write bp,
           brelse bp,
           bzero dev (of_nat (b + bi))]) (\<lambda>_.
         kret (Some (of_nat (b + bi))))
     | None \<Rightarrow> kbind (brelse bp) (\<lambda>_. kret None)))"

definition balloc :: "u32 \<Rightarrow> u32 K" where
  "balloc dev =
     kbind (kget sb) (\<lambda>sbk.
     kbind (ksearch (map (\<lambda>k. BPB * k) [0..<(unat (sb_size sbk) + BPB - 1) div BPB]) (balloc_at dev sbk)) (\<lambda>r.
     case r of Some b \<Rightarrow> kret b | None \<Rightarrow> kret 0))"

definition bfree :: "u32 \<Rightarrow> u32 \<Rightarrow> unit K" where
  "bfree dev b =
     kbind (kget sb) (\<lambda>sbk.
     kbind (bread dev (BBLOCK b sbk)) (\<lambda>bp.
     kbind (kget (\<lambda>s. b_data (bufs s ! bp))) (\<lambda>d.
     let bi = unat b mod BPB in
     if \<not> bit_used d bi then kpanic ''freeing free block''
     else kdo [
       bmodify bp (clear_used bi),
       log_write bp,
       brelse bp])))"

section \<open>The inode table\<close>

definition upd_inode :: "nat \<Rightarrow> (inode \<Rightarrow> inode) \<Rightarrow> kstate \<Rightarrow> kstate" where
  "upd_inode ip f s = s\<lparr>inodes := (inodes s)[ip := f (inodes s ! ip)]\<rparr>"

definition iinit :: "unit K" where
  "iinit = kfor [0..<NINODE] (\<lambda>i. initsleeplock (SL_inode i))"

text \<open>The search loop of \<open>iget\<close>: \<open>Inl\<close> is the entry found, \<open>Inr\<close> the remembered empty one.\<close>
primrec iget_scan :: "inode list \<Rightarrow> nat \<Rightarrow> nat option \<Rightarrow> u32 \<Rightarrow> u32 \<Rightarrow> nat + nat option" where
  "iget_scan [] k emp dev inum = Inr emp"
| "iget_scan (ip # ips) k emp dev inum =
     (if i_ref ip > 0 \<and> i_dev ip = dev \<and> i_inum ip = inum then Inl k
      else iget_scan ips (Suc k) (if emp = None \<and> i_ref ip = 0 then Some k else emp) dev inum)"

definition iget :: "u32 \<Rightarrow> u32 \<Rightarrow> nat K" where
  "iget dev inum =
     kbind (acquire LK_itable) (\<lambda>_.
     kbind (kget (\<lambda>s. iget_scan (take NINODE (inodes s)) 0 None dev inum)) (\<lambda>r.
     case r of
       Inl ip \<Rightarrow>
         kbind (kmod (upd_inode ip (\<lambda>x. x\<lparr>i_ref := i_ref x + 1\<rparr>))) (\<lambda>_.
         kbind (release LK_itable) (\<lambda>_. kret ip))
     | Inr None \<Rightarrow> kpanic ''iget: no inodes''
     | Inr (Some ip) \<Rightarrow>
         kbind (kmod (upd_inode ip (\<lambda>x. x\<lparr>i_dev := dev, i_inum := inum, i_ref := 1, i_valid := False\<rparr>))) (\<lambda>_.
         kbind (release LK_itable) (\<lambda>_. kret ip))))"

definition idup :: "nat \<Rightarrow> nat K" where
  "idup ip =
     kbind (acquire LK_itable) (\<lambda>_.
     kbind (kmod (upd_inode ip (\<lambda>x. x\<lparr>i_ref := i_ref x + 1\<rparr>))) (\<lambda>_.
     kbind (release LK_itable) (\<lambda>_. kret ip)))"

definition ialloc :: "u32 \<Rightarrow> u16 \<Rightarrow> nat option K" where
  "ialloc dev ty =
     kbind (kget sb) (\<lambda>sbk.
     ksearch [1..<unat (sb_ninodes sbk)] (\<lambda>inum.
       kbind (bread dev (IBLOCK (of_nat inum) sbk)) (\<lambda>bp.
       kbind (kget (\<lambda>s. b_data (bufs s ! bp))) (\<lambda>d.
       if d_type (get_dinode d (inum mod IPB)) = 0
       then kbind (kdo [
           bmodify bp (\<lambda>d. put_dinode d (inum mod IPB) (blank_dinode\<lparr>d_type := ty\<rparr>)),
           log_write bp,
           brelse bp]) (\<lambda>_.
         kbind (iget dev (of_nat inum)) (\<lambda>ip. kret (Some ip)))
       else kbind (brelse bp) (\<lambda>_. kret None)))))"

definition dinode_of :: "inode \<Rightarrow> dinode" where
  "dinode_of x = \<lparr>d_type = i_type x, d_major = i_major x, d_minor = i_minor x, d_nlink = i_nlink x, d_size = i_size x, d_addrs = i_addrs x\<rparr>"

definition iupdate :: "nat \<Rightarrow> unit K" where
  "iupdate ip =
     kbind (kget (\<lambda>s. inodes s ! ip)) (\<lambda>x.
     kbind (kget sb) (\<lambda>sbk.
     kbind (bread (i_dev x) (IBLOCK (i_inum x) sbk)) (\<lambda>bp. kdo [
       bmodify bp (\<lambda>d. put_dinode d (unat (i_inum x) mod IPB) (dinode_of x)),
       log_write bp,
       brelse bp])))"

definition load_dinode :: "dinode \<Rightarrow> inode \<Rightarrow> inode" where
  "load_dinode di x = x\<lparr>i_type := d_type di, i_major := d_major di, i_minor := d_minor di, i_nlink := d_nlink di,
     i_size := d_size di, i_addrs := d_addrs di\<rparr>"

definition ilock :: "nat \<Rightarrow> unit K" where
  "ilock ip =
     kbind (kget (\<lambda>s. i_ref (inodes s ! ip))) (\<lambda>ref.
     if ref < 1 then kpanic ''ilock''
     else kdo [
       acquiresleep (SL_inode ip),
       kbind (kget (\<lambda>s. inodes s ! ip)) (\<lambda>x.
         kwhen (\<not> i_valid x)
           (kbind (kget sb) (\<lambda>sbk.
            kbind (bread (i_dev x) (IBLOCK (i_inum x) sbk)) (\<lambda>bp.
            kbind (kget (\<lambda>s. get_dinode (b_data (bufs s ! bp)) (unat (i_inum x) mod IPB))) (\<lambda>di. kdo [
              kmod (upd_inode ip (load_dinode di)),
              brelse bp,
              kmod (upd_inode ip (\<lambda>x. x\<lparr>i_valid := True\<rparr>)),
              if d_type di = 0 then kpanic ''ilock: no type'' else kret ()])))))])"

definition iunlock :: "nat \<Rightarrow> unit K" where
  "iunlock ip =
     kbind (holdingsleep (SL_inode ip)) (\<lambda>h.
     kbind (kget (\<lambda>s. i_ref (inodes s ! ip))) (\<lambda>ref.
     if \<not> h \<or> ref < 1 then kpanic ''iunlock''
     else releasesleep (SL_inode ip)))"

section \<open>Inode contents\<close>

text \<open>\<open>ip->addrs[k]\<close>, allocated on demand.\<close>
definition bmap_slot :: "nat \<Rightarrow> nat \<Rightarrow> u32 K" where
  "bmap_slot ip k =
     kbind (kget (\<lambda>s. inodes s ! ip)) (\<lambda>x.
     if i_addrs x ! k \<noteq> 0 then kret (i_addrs x ! k)
     else kbind (balloc (i_dev x)) (\<lambda>addr.
       if addr = 0 then kret 0
       else kbind (kmod (upd_inode ip (\<lambda>x. x\<lparr>i_addrs := (i_addrs x)[k := addr]\<rparr>))) (\<lambda>_. kret addr)))"

definition bmap :: "nat \<Rightarrow> nat \<Rightarrow> u32 K" where
  "bmap ip bn =
     (if bn < NDIRECT then bmap_slot ip bn
      else if bn - NDIRECT < NINDIRECT then
        kbind (bmap_slot ip NDIRECT) (\<lambda>ind.
        if ind = 0 then kret 0
        else kbind (kget (\<lambda>s. i_dev (inodes s ! ip))) (\<lambda>dev.
          kbind (bread dev ind) (\<lambda>bp.
          kbind (kget (\<lambda>s. get32 (b_data (bufs s ! bp)) (4 * (bn - NDIRECT)))) (\<lambda>addr0.
          kbind (if addr0 \<noteq> 0 then kret addr0
                 else kbind (balloc dev) (\<lambda>addr.
                   kbind (kwhen (addr \<noteq> 0) (kdo [
                     bmodify bp (\<lambda>d. put32 d (4 * (bn - NDIRECT)) addr),
                     log_write bp])) (\<lambda>_. kret addr))) (\<lambda>addr.
          kbind (brelse bp) (\<lambda>_. kret addr)))))
      )
      else kpanic ''bmap: out of range'')"

definition itrunc :: "nat \<Rightarrow> unit K" where
  "itrunc ip = kdo [
     kfor [0..<NDIRECT] (\<lambda>i.
       kbind (kget (\<lambda>s. inodes s ! ip)) (\<lambda>x.
       kwhen (i_addrs x ! i \<noteq> 0) (kdo [
         bfree (i_dev x) (i_addrs x ! i),
         kmod (upd_inode ip (\<lambda>x. x\<lparr>i_addrs := (i_addrs x)[i := 0]\<rparr>))]))),
     kbind (kget (\<lambda>s. inodes s ! ip)) (\<lambda>x.
       kwhen (i_addrs x ! NDIRECT \<noteq> 0)
         (kbind (bread (i_dev x) (i_addrs x ! NDIRECT)) (\<lambda>bp.
          kbind (kget (\<lambda>s. b_data (bufs s ! bp))) (\<lambda>d. kdo [
            kfor [0..<NINDIRECT] (\<lambda>j. kwhen (get32 d (4 * j) \<noteq> 0) (bfree (i_dev x) (get32 d (4 * j)))),
            brelse bp,
            bfree (i_dev x) (i_addrs x ! NDIRECT),
            kmod (upd_inode ip (\<lambda>x. x\<lparr>i_addrs := (i_addrs x)[NDIRECT := 0]\<rparr>))])))),
     kmod (upd_inode ip (\<lambda>x. x\<lparr>i_size := 0\<rparr>)),
     iupdate ip]"

definition iput :: "nat \<Rightarrow> unit K" where
  "iput ip = kdo [
     acquire LK_itable,
     kbind (kget (\<lambda>s. inodes s ! ip)) (\<lambda>x.
       kwhen (i_ref x = 1 \<and> i_valid x \<and> i_nlink x = 0) (kdo [
         acquiresleep (SL_inode ip),
         release LK_itable,
         itrunc ip,
         kmod (upd_inode ip (\<lambda>x. x\<lparr>i_type := 0\<rparr>)),
         iupdate ip,
         kmod (upd_inode ip (\<lambda>x. x\<lparr>i_valid := False\<rparr>)),
         releasesleep (SL_inode ip),
         acquire LK_itable])),
     kmod (upd_inode ip (\<lambda>x. x\<lparr>i_ref := i_ref x - 1\<rparr>)),
     release LK_itable]"

definition iunlockput :: "nat \<Rightarrow> unit K" where
  "iunlockput ip = kdo [iunlock ip, iput ip]"

definition ireclaim :: "u32 \<Rightarrow> unit K" where
  "ireclaim dev =
     kbind (kget sb) (\<lambda>sbk.
     kfor [1..<unat (sb_ninodes sbk)] (\<lambda>inum.
       kbind (bread dev (IBLOCK (of_nat inum) sbk)) (\<lambda>bp.
       kbind (kget (\<lambda>s. get_dinode (b_data (bufs s ! bp)) (inum mod IPB))) (\<lambda>di.
       if d_type di \<noteq> 0 \<and> d_nlink di = 0
       then kbind (iget dev (of_nat inum)) (\<lambda>ip. kdo [
         brelse bp,
         begin_op,
         ilock ip,
         iunlock ip,
         iput ip,
         end_op])
       else brelse bp))))"

definition fsinit :: "u32 \<Rightarrow> unit K" where
  "fsinit dev =
     kbind (readsb dev) (\<lambda>_.
     kbind (kget sb) (\<lambda>sbk.
     if sb_magic sbk \<noteq> FSMAGIC then kpanic ''invalid file system''
     else kdo [initlog dev sbk, ireclaim dev]))"

section \<open>Copies to and from user or kernel memory\<close>

datatype kptr = UserVA u32 | KernPA u32 | KernObj "u8 list"

fun kptr_add :: "kptr \<Rightarrow> nat \<Rightarrow> kptr" where
  "kptr_add (UserVA a) m = UserVA (a + of_nat m)"
| "kptr_add (KernPA a) m = KernPA (a + of_nat m)"
| "kptr_add (KernObj bs) m = KernObj (drop m bs)"

text \<open>\<open>either_copyout\<close> and \<open>either_copyin\<close> of kernel/proc.c.\<close>
fun either_copyout :: "kptr \<Rightarrow> u8 list \<Rightarrow> int K" where
  "either_copyout (UserVA a) bs =
     kbind myproc (\<lambda>me. case me of
       None \<Rightarrow> kpanic ''null proc''
     | Some p \<Rightarrow> kbind (kget (\<lambda>s. p_pagetable (procs s ! p))) (\<lambda>pt. copyout pt a bs))"
| "either_copyout (KernPA a) bs = kbind (kmem_upd (write_bytes a bs)) (\<lambda>_. kret 0)"
| "either_copyout (KernObj old) bs = kret 0"

fun either_copyin :: "kptr \<Rightarrow> nat \<Rightarrow> (int \<times> u8 list) K" where
  "either_copyin (UserVA a) n =
     kbind myproc (\<lambda>me. case me of
       None \<Rightarrow> kpanic ''null proc''
     | Some p \<Rightarrow> kbind (kget (\<lambda>s. p_pagetable (procs s ! p))) (\<lambda>pt. copyin pt a n))"
| "either_copyin (KernPA a) n = kget (\<lambda>s. (0, read_bytes (mem s) a n))"
| "either_copyin (KernObj bs) n = kret (0, take n bs)"

text \<open>A \<open>uint\<close> returned as \<open>int\<close>.\<close>
definition as_int :: "nat \<Rightarrow> int" where
  "as_int n = sint (of_nat n :: u32)"

text \<open>The loop of \<open>readi\<close>; the second component of the result are the bytes copied so far.\<close>
function readi_loop :: "nat \<Rightarrow> kptr \<Rightarrow> nat \<Rightarrow> nat \<Rightarrow> nat \<Rightarrow> (int \<times> u8 list) K" where
  "readi_loop ip dst off tot n =
     (if tot < n
      then kbind (bmap ip (off div BSIZE)) (\<lambda>addr.
        if addr = 0 then kret (as_int tot, [])
        else kbind (kget (\<lambda>s. i_dev (inodes s ! ip))) (\<lambda>dev.
          kbind (bread dev addr) (\<lambda>bp.
          let m = min (n - tot) (BSIZE - off mod BSIZE) in
          kbind (kget (\<lambda>s. take m (drop (off mod BSIZE) (b_data (bufs s ! bp))))) (\<lambda>bs.
          kbind (either_copyout dst bs) (\<lambda>r.
          kbind (brelse bp) (\<lambda>_.
          if r = -1 then kret (-1, [])
          else kbind (readi_loop ip (kptr_add dst m) (off + m) (tot + m) n) (\<lambda>(c, rest).
            kret (c, bs @ rest))))))))
      else kret (as_int tot, []))"
  by pat_completeness auto
termination
  by (relation "measure (\<lambda>(_, _, off, tot, n). n - tot)") (auto simp: min_def)

declare readi_loop.simps [simp del]

definition readi :: "nat \<Rightarrow> kptr \<Rightarrow> u32 \<Rightarrow> u32 \<Rightarrow> (int \<times> u8 list) K" where
  "readi ip dst off n =
     kbind (kget (\<lambda>s. i_size (inodes s ! ip))) (\<lambda>sz.
     if off > sz \<or> off + n < off then kret (0, [])
     else let n = (if off + n > sz then sz - off else n) in
       readi_loop ip dst (unat off) 0 (unat n))"

text \<open>The loop of \<open>writei\<close>: the result is \<open>(tot, off)\<close> when it is left.\<close>
function writei_loop :: "nat \<Rightarrow> kptr \<Rightarrow> nat \<Rightarrow> nat \<Rightarrow> nat \<Rightarrow> (nat \<times> nat) K" where
  "writei_loop ip src off tot n =
     (if tot < n
      then kbind (bmap ip (off div BSIZE)) (\<lambda>addr.
        if addr = 0 then kret (tot, off)
        else kbind (kget (\<lambda>s. i_dev (inodes s ! ip))) (\<lambda>dev.
          kbind (bread dev addr) (\<lambda>bp.
          let m = min (n - tot) (BSIZE - off mod BSIZE) in
          kbind (either_copyin src m) (\<lambda>(r, bs).
          kbind (bmodify bp (\<lambda>d. take (off mod BSIZE) d @ bs @ drop (off mod BSIZE + length bs) d)) (\<lambda>_.
          if r = -1 then kbind (brelse bp) (\<lambda>_. kret (tot, off))
          else kbind (log_write bp) (\<lambda>_. kbind (brelse bp) (\<lambda>_.
            writei_loop ip (kptr_add src m) (off + m) (tot + m) n)))))))
      else kret (tot, off))"
  by pat_completeness auto
termination
  by (relation "measure (\<lambda>(_, _, off, tot, n). n - tot)") (auto simp: min_def)

declare writei_loop.simps [simp del]

definition writei :: "nat \<Rightarrow> kptr \<Rightarrow> u32 \<Rightarrow> u32 \<Rightarrow> int K" where
  "writei ip src off n =
     kbind (kget (\<lambda>s. i_size (inodes s ! ip))) (\<lambda>sz.
     if off > sz \<or> off + n < off then kret (-1)
     else if off + n > of_nat (MAXFILE * BSIZE) then kret (-1)
     else kbind (writei_loop ip src (unat off) 0 (unat n)) (\<lambda>(tot, off).
       kbind (kwhen (of_nat off > sz) (kmod (upd_inode ip (\<lambda>x. x\<lparr>i_size := of_nat off\<rparr>)))) (\<lambda>_.
       kbind (iupdate ip) (\<lambda>_.
       kret (as_int tot)))))"

record stat =
  st_dev :: u32
  st_ino :: u32
  st_type :: u16
  st_nlink :: u16
  st_size :: u32

definition stati :: "nat \<Rightarrow> stat K" where
  "stati ip = kget (\<lambda>s. let x = inodes s ! ip in
     \<lparr>st_dev = i_dev x, st_ino = i_inum x, st_type = i_type x, st_nlink = i_nlink x, st_size = i_size x\<rparr>)"

section \<open>Directories\<close>

text \<open>\<open>strncmp\<close> and \<open>strncpy\<close> on objects of the kernel stack; reading past the object is reading a NUL.\<close>
primrec strncmp_obj :: "nat \<Rightarrow> u8 list \<Rightarrow> u8 list \<Rightarrow> int" where
  "strncmp_obj 0 p q = 0"
| "strncmp_obj (Suc n) p q =
     (let a = (case p of [] \<Rightarrow> 0 | x # _ \<Rightarrow> x); b = (case q of [] \<Rightarrow> 0 | y # _ \<Rightarrow> y) in
      if a \<noteq> 0 \<and> a = b then strncmp_obj n (tl p) (tl q) else uint a - uint b)"

primrec strncpy_obj :: "nat \<Rightarrow> u8 list \<Rightarrow> u8 list" where
  "strncpy_obj 0 t = []"
| "strncpy_obj (Suc n) t =
     (case t of [] \<Rightarrow> replicate (Suc n) 0
      | c # t' \<Rightarrow> if c = 0 then replicate (Suc n) 0 else c # strncpy_obj n t')"

definition namecmp :: "u8 list \<Rightarrow> u8 list \<Rightarrow> int" where
  "namecmp s t = strncmp_obj DIRSIZ s t"

definition dir_offsets :: "u32 \<Rightarrow> nat list" where
  "dir_offsets sz = map (\<lambda>k. 16 * k) [0..<(unat sz + 15) div 16]"

definition read_dirent :: "string \<Rightarrow> nat \<Rightarrow> nat \<Rightarrow> dirent K" where
  "read_dirent e dp off =
     kbind (readi dp (KernObj []) (of_nat off) 16) (\<lambda>(c, bs).
     if c \<noteq> 16 then kpanic e else kret (get_dirent bs))"

text \<open>The entry found and its offset (\<open>*poff\<close>).\<close>
definition dirlookup :: "nat \<Rightarrow> u8 list \<Rightarrow> (nat \<times> nat) option K" where
  "dirlookup dp name =
     kbind (kget (\<lambda>s. inodes s ! dp)) (\<lambda>x.
     if i_type x \<noteq> T_DIR then kpanic ''dirlookup not DIR''
     else ksearch (dir_offsets (i_size x)) (\<lambda>off.
       kbind (read_dirent ''dirlookup read'' dp off) (\<lambda>de.
       if de_inum de = 0 then kret None
       else if namecmp name (de_name de) = 0
       then kbind (iget (i_dev x) (ucast (de_inum de))) (\<lambda>ip. kret (Some (ip, off)))
       else kret None)))"

definition dirlink :: "nat \<Rightarrow> u8 list \<Rightarrow> u32 \<Rightarrow> int K" where
  "dirlink dp name inum =
     kbind (dirlookup dp name) (\<lambda>r. case r of
       Some (ip, _) \<Rightarrow> kbind (iput ip) (\<lambda>_. kret (-1))
     | None \<Rightarrow>
         kbind (kget (\<lambda>s. i_size (inodes s ! dp))) (\<lambda>sz.
         kbind (ksearch (dir_offsets sz) (\<lambda>off.
           kbind (read_dirent ''dirlink read'' dp off) (\<lambda>de.
           kret (if de_inum de = 0 then Some off else None)))) (\<lambda>r.
         let off = (case r of Some off \<Rightarrow> off | None \<Rightarrow> 16 * ((unat sz + 15) div 16));
             de = \<lparr>de_inum = ucast inum, de_name = strncpy_obj DIRSIZ name\<rparr> in
         kbind (writei dp (KernObj (put_dirent de)) (of_nat off) 16) (\<lambda>c.
         kret (if c \<noteq> 16 then -1 else 0)))))"

section \<open>Paths\<close>

text \<open>A path is the bytes of the C string; \<open>name\<close> is the caller's buffer, of which only the bytes that are written change.\<close>
definition SLASH :: u8 where "SLASH = 47"

definition skipelem :: "u8 list \<Rightarrow> u8 list \<Rightarrow> (u8 list \<times> u8 list) option" where
  "skipelem pth name =
     (let pth = dropWhile (\<lambda>c. c = SLASH) pth in
      if pth = [] then None
      else let e = takeWhile (\<lambda>c. c \<noteq> SLASH) pth; pth = dropWhile (\<lambda>c. c \<noteq> SLASH) pth;
               name = (if length e \<ge> DIRSIZ then take DIRSIZ e else e @ [0] @ drop (length e + 1) name)
           in Some (dropWhile (\<lambda>c. c = SLASH) pth, name))"

lemma skipelem_shorter: "skipelem pth name = Some (pth2, name') \<Longrightarrow> length pth2 < length pth"
proof -
  assume s: "skipelem pth name = Some (pth2, name')"
  define p1 where "p1 = dropWhile (\<lambda>c. c = SLASH) pth"
  have p1: "p1 \<noteq> []" "pth2 = dropWhile (\<lambda>c. c = SLASH) (dropWhile (\<lambda>c. c \<noteq> SLASH) p1)"
    using s by (auto simp: skipelem_def Let_def p1_def split: if_splits)
  have "hd p1 \<noteq> SLASH" using p1(1) hd_dropWhile [of "\<lambda>c. c = SLASH" pth] by (simp add: p1_def)
  then have "length (dropWhile (\<lambda>c. c \<noteq> SLASH) p1) < length p1"
    using p1(1) by (cases p1) (auto simp: le_imp_less_Suc length_dropWhile_le)
  moreover have "length p1 \<le> length pth" by (simp add: p1_def length_dropWhile_le)
  moreover have "length pth2 \<le> length (dropWhile (\<lambda>c. c \<noteq> SLASH) p1)" by (simp add: p1(2) length_dropWhile_le)
  ultimately show ?thesis by linarith
qed

text \<open>The loop of \<open>namex\<close>; the result is the inode, if any, and the buffer \<open>name\<close>.\<close>
function namex_loop :: "nat \<Rightarrow> bool \<Rightarrow> u8 list \<Rightarrow> u8 list \<Rightarrow> (nat option \<times> u8 list) K" where
  "namex_loop ip parent pth name =
     (case skipelem pth name of
        None \<Rightarrow> if parent then kbind (iput ip) (\<lambda>_. kret (None, name)) else kret (Some ip, name)
      | Some (pth2, name') \<Rightarrow>
          kbind (ilock ip) (\<lambda>_.
          kbind (kget (\<lambda>s. i_type (inodes s ! ip))) (\<lambda>ty.
          if ty \<noteq> T_DIR then kbind (iunlockput ip) (\<lambda>_. kret (None, name'))
          else if parent \<and> pth2 = [] then kbind (iunlock ip) (\<lambda>_. kret (Some ip, name'))
          else kbind (dirlookup ip name') (\<lambda>r. case r of
              None \<Rightarrow> kbind (iunlockput ip) (\<lambda>_. kret (None, name'))
            | Some (next', _) \<Rightarrow>
                kbind (iunlockput ip) (\<lambda>_. namex_loop next' parent pth2 name')))))"
  by pat_completeness auto
termination
  by (relation "measure (\<lambda>(_, _, pth, _). length pth)") (auto dest: skipelem_shorter)

declare namex_loop.simps [simp del]

definition namex :: "u8 list \<Rightarrow> bool \<Rightarrow> u8 list \<Rightarrow> (nat option \<times> u8 list) K" where
  "namex pth parent name =
     kbind (if pth \<noteq> [] \<and> hd pth = SLASH then iget ROOTDEV ROOTINO
            else kbind (kget (\<lambda>s. case cur s of Some p \<Rightarrow> p_cwd (procs s ! p) | None \<Rightarrow> None)) (\<lambda>cwd.
              case cwd of Some c \<Rightarrow> idup c | None \<Rightarrow> kpanic ''null cwd'')) (\<lambda>ip.
     namex_loop ip parent pth name)"

definition namei :: "u8 list \<Rightarrow> nat option K" where
  "namei pth = kbind (namex pth False (replicate DIRSIZ 0)) (\<lambda>(ip, _). kret ip)"

definition nameiparent :: "u8 list \<Rightarrow> (nat option \<times> u8 list) K" where
  "nameiparent pth = namex pth True (replicate DIRSIZ 0)"

end
