(* ===== verification/KV_FsBlocks.thy ===== *)
theory KV_FsBlocks
  imports KV_Fs
begin

text \<open>
  Block allocation of the file system: what \<open>balloc\<close>, \<open>bfree\<close> and \<open>bzero\<close> of kernel/fs.c do to the free map and the blocks when they
  run inside a transaction of the log.
\<close>

section \<open>Block allocation\<close>

text \<open>What \<open>balloc_at\<close> does in a transaction.\<close>

lemma bzero_tx:
  assumes "log_tx pid blks {} s" "length blks < LOGBLOCKS"
  shows "\<exists>t. bzero ROOTDEV b s = Ok () t \<and> log_tx pid (logged b blks) {} t \<and> view t = (view s)(b := replicate BSIZE 0)
    \<and> disk t = disk s \<and> wtrace t = wtrace s \<and> tx_rest t = tx_rest s"
proof -
  have "card (set blks) < NBUF" using assms(2) card_length [of blks] by simp
  then show ?thesis using log_update [OF assms(1) _ assms(2), of b "\<lambda>_. replicate BSIZE 0"] unfolding bzero_def by auto
qed

lemma length_logged: "length (logged b blks) \<le> Suc (length blks)"
  by (simp add: logged_def)

definition free_bit :: "kstate \<Rightarrow> nat \<Rightarrow> nat option" where
  "free_bit s b = find (\<lambda>bi. \<not> bit_used (view s (BBLOCK (of_nat b) (sb s))) bi) [0..<min BPB (unat (sb_size (sb s)) - b)]"

lemma balloc_at_none:
  assumes tx: "log_tx pid blks {} s" and n: "length blks < LOGBLOCKS" and none: "free_bit s b = None"
  shows "\<exists>t. balloc_at ROOTDEV (sb s) b s = Ok None t \<and> log_tx pid blks {} t \<and> view t = view s \<and> disk t = disk s
    \<and> wtrace t = wtrace s \<and> tx_rest t = tx_rest s"
proof -
  let ?bb = "BBLOCK (of_nat b) (sb s)"
  have c: "card (set blks) < NBUF" using n card_length [of blks] by simp
  obtain i t u where "bread ROOTDEV ?bb s = Ok i t" "b_data (bufs t ! i) = view s ?bb" "brelse i t = Ok () u" "log_tx pid blks {} u"
    "view u = view s" "disk u = disk s" "wtrace u = wtrace s" "tx_rest u = tx_rest s"
    using tx_peek [OF tx, of ?bb] c by auto
  then show ?thesis using none by (intro exI [of _ u]) (simp add: balloc_at_def free_bit_def)
qed

lemma balloc_at_some:
  assumes tx: "log_tx pid blks {} s" and n: "length blks + 2 \<le> LOGBLOCKS" and some: "free_bit s b = Some bi"
  defines "bb \<equiv> BBLOCK (of_nat b) (sb s)"
  shows "\<exists>t. balloc_at ROOTDEV (sb s) b s = Ok (Some (of_nat (b + bi))) t \<and> log_tx pid (logged (of_nat (b + bi)) (logged bb blks)) {} t
    \<and> view t = (view s)(bb := set_used bi (view s bb), of_nat (b + bi) := replicate BSIZE 0)
    \<and> disk t = disk s \<and> wtrace t = wtrace s \<and> tx_rest t = tx_rest s"
proof -
  have c: "card (set blks) < NBUF" using n card_length [of blks] by simp
  obtain i t1 where t1: "bread ROOTDEV bb s = Ok i t1" "log_tx pid blks (insert bb {}) t1" "holds t1 i bb (view s bb)"
    "view t1 = view s" "disk t1 = disk s" "wtrace t1 = wtrace s" "klog t1 = klog s" "tx_rest t1 = tx_rest s"
    using tx_read [OF tx, of bb] c by auto
  obtain t2 where t2: "kdo [bmodify i (set_used bi), log_write i, brelse i] t1 = Ok () t2" "log_tx pid (logged bb blks) {} t2"
    "view t2 = (view t1)(bb := set_used bi (view s bb))" "disk t2 = disk t1" "wtrace t2 = wtrace t1" "tx_rest t2 = tx_rest t1"
    using tx_modify [OF t1(2,3), of "set_used bi"] n by auto
  obtain t3 where t3: "bzero ROOTDEV (of_nat (b + bi)) t2 = Ok () t3" "log_tx pid (logged (of_nat (b + bi)) (logged bb blks)) {} t3"
    "view t3 = (view t2)(of_nat (b + bi) := replicate BSIZE 0)" "disk t3 = disk t2" "wtrace t3 = wtrace t2" "tx_rest t3 = tx_rest t2"
    using bzero_tx [OF t2(2), of "of_nat (b + bi)"] n length_logged [of bb blks] by auto
  have run: "kdo [bmodify i (set_used bi), log_write i, brelse i, bzero ROOTDEV (of_nat (b + bi))] t1 = Ok () t3"
    using t2(1) t3(1) by (auto split: outcome.splits)
  have "b_data (bufs t1 ! i) = view s bb" using t1(3) by (simp add: holds_def)
  then have "balloc_at ROOTDEV (sb s) b s = Ok (Some (of_nat (b + bi))) t3"
    using t1(1) run some unfolding balloc_at_def bb_def [symmetric] free_bit_def
    by (simp add: kbind_def bb_def del: kdo.simps kbind_run)
  then show ?thesis using t1 t2 t3 by (intro exI [of _ t3]) simp
qed


lemma balloc_search:
  assumes "log_tx pid blks {} s" "length blks + 2 \<le> LOGBLOCKS"
  shows "case find (\<lambda>b. free_bit s b \<noteq> None) bs of
      None \<Rightarrow> \<exists>t. ksearch bs (balloc_at ROOTDEV (sb s)) s = Ok None t \<and> log_tx pid blks {} t \<and> view t = view s \<and> disk t = disk s
        \<and> wtrace t = wtrace s \<and> tx_rest t = tx_rest s
    | Some b \<Rightarrow> let bi = the (free_bit s b); bb = BBLOCK (of_nat b) (sb s) in
        \<exists>t. ksearch bs (balloc_at ROOTDEV (sb s)) s = Ok (Some (of_nat (b + bi))) t
        \<and> log_tx pid (logged (of_nat (b + bi)) (logged bb blks)) {} t
        \<and> view t = (view s)(bb := set_used bi (view s bb), of_nat (b + bi) := replicate BSIZE 0)
        \<and> disk t = disk s \<and> wtrace t = wtrace s \<and> tx_rest t = tx_rest s"
  using assms
proof (induction bs arbitrary: s)
  case Nil
  then show ?case by simp
next
  case (Cons b bs)
  show ?case
  proof (cases "free_bit s b")
    case None
    obtain u where u: "balloc_at ROOTDEV (sb s) b s = Ok None u" "log_tx pid blks {} u" "view u = view s" "disk u = disk s"
      "wtrace u = wtrace s" "tx_rest u = tx_rest s"
      using balloc_at_none [OF Cons.prems(1) _ None] Cons.prems(2) by auto
    have sbu: "sb u = sb s" using tx_rest_fields(1) [OF u(6)] .
    have fb: "free_bit u = free_bit s" using u(3) sbu by (simp add: free_bit_def fun_eq_iff)
    have st: "ksearch (b # bs) (balloc_at ROOTDEV (sb s)) s = ksearch bs (balloc_at ROOTDEV (sb s)) u" using u(1) by simp
    show ?thesis using Cons.IH [OF u(2) Cons.prems(2)] None unfolding st fb sbu u(3-6) by simp
  next
    case (Some bi)
    then show ?thesis using balloc_at_some [OF Cons.prems Some] by (auto simp: Let_def)
  qed
qed

text \<open>The free map as the readers see it.\<close>
definition used :: "kstate \<Rightarrow> nat \<Rightarrow> bool" where
  "used s b \<longleftrightarrow> bit_used (view s (BBLOCK (of_nat b) (sb s))) (b mod BPB)"

lemma BBLOCK_group: "BPB * k + bi < 4294967296 \<Longrightarrow> bi < BPB \<Longrightarrow> BBLOCK (of_nat (BPB * k + bi)) sbk = BBLOCK (of_nat (BPB * k)) sbk"
proof -
  assume a: "BPB * k + bi < 4294967296" "bi < BPB"
  have "unat (of_nat (BPB * k + bi) div 4096 :: u32) = k" "unat (of_nat (BPB * k) div 4096 :: u32) = k"
    using a unat_of_nat_32 [of "BPB * k + bi"] unat_of_nat_32 [of "BPB * k"] by (simp_all add: unat_div_distrib del: of_nat_add of_nat_mult)
  then have "(of_nat (BPB * k + bi) div 4096 :: u32) = of_nat (BPB * k) div 4096" by (metis word_eq_unat)
  then show ?thesis by (simp only: BBLOCK_def of_nat_numeral)
qed

lemma used_group:
  assumes "BPB * k + bi < unat (sb_size (sb s))" "bi < BPB"
  shows "used s (BPB * k + bi) = bit_used (view s (BBLOCK (of_nat (BPB * k)) (sb s))) bi"
proof -
  have "BPB * k + bi < 4294967296" using assms(1) unat_less_32 [of "sb_size (sb s)"] by linarith
  then show ?thesis using BBLOCK_group [OF _ assms(2), of k "sb s"] assms(2) by (simp add: used_def del: of_nat_add of_nat_mult)
qed

lemma find_upt_Some: "find P [0..<n] = Some i \<longleftrightarrow> i < n \<and> P i \<and> (\<forall>j < i. \<not> P j)"
  by (auto simp: find_Some_iff)

lemma find_upt_None: "find P [0..<n] = None \<longleftrightarrow> (\<forall>j < n. \<not> P j)"
  by (auto simp: find_None_iff)

lemma free_bit_Some:
  "free_bit s (BPB * k) = Some bi \<longleftrightarrow> bi < BPB \<and> BPB * k + bi < unat (sb_size (sb s)) \<and> \<not> used s (BPB * k + bi)
     \<and> (\<forall>j < bi. used s (BPB * k + j))"
  unfolding free_bit_def find_upt_Some using used_group [of k _ s] by (auto simp: less_diff_conv add.commute)

lemma free_bit_None:
  "free_bit s (BPB * k) = None \<longleftrightarrow> (\<forall>j < BPB. BPB * k + j < unat (sb_size (sb s)) \<longrightarrow> used s (BPB * k + j))"
  unfolding free_bit_def find_upt_None using used_group [of k _ s] by (auto simp: less_diff_conv add.commute)

lemma find_map_option: "find P (map f xs) = map_option f (find (\<lambda>x. P (f x)) xs)"
  by (induction xs) auto

lemma balloc_groups:
  fixes s :: kstate
  defines "groups \<equiv> map (\<lambda>k. BPB * k) [0..<(unat (sb_size (sb s)) + BPB - 1) div BPB]"
  shows "find (\<lambda>b. free_bit s b \<noteq> None) groups = None \<longleftrightarrow> (\<forall>b < unat (sb_size (sb s)). used s b)"
    and "find (\<lambda>b. free_bit s b \<noteq> None) groups = Some b \<Longrightarrow> \<exists>k bi. b = BPB * k \<and> free_bit s b = Some bi \<and> bi < BPB
       \<and> b + bi < unat (sb_size (sb s)) \<and> \<not> used s (b + bi) \<and> (\<forall>c < b + bi. used s c)"
proof -
  let ?n = "(unat (sb_size (sb s)) + BPB - 1) div BPB"
  have grp: "c div BPB < ?n" if "c < unat (sb_size (sb s))" for c
  proof -
    have "(c + BPB) div BPB \<le> ?n" by (rule div_le_mono) (use that in simp)
    then show ?thesis by simp
  qed
  have spl: "BPB * (c div BPB) + c mod BPB = c" "c mod BPB < BPB" for c :: nat by simp_all
  note f = find_map_option [of "\<lambda>b. free_bit s b \<noteq> None" "\<lambda>k. BPB * k" "[0..<?n]", folded groups_def]
  show "find (\<lambda>b. free_bit s b \<noteq> None) groups = None \<longleftrightarrow> (\<forall>b < unat (sb_size (sb s)). used s b)"
  proof
    assume "find (\<lambda>b. free_bit s b \<noteq> None) groups = None"
    then have none: "\<forall>k < ?n. free_bit s (BPB * k) = None" unfolding f by (simp add: find_upt_None)
    show "\<forall>b < unat (sb_size (sb s)). used s b"
    proof (intro allI impI)
      fix b assume b: "b < unat (sb_size (sb s))"
      then have "free_bit s (BPB * (b div BPB)) = None" using none grp by blast
      then show "used s b" using b spl [of b] unfolding free_bit_None by metis
    qed
  next
    assume "\<forall>b < unat (sb_size (sb s)). used s b"
    then show "find (\<lambda>b. free_bit s b \<noteq> None) groups = None" unfolding f by (simp add: find_upt_None free_bit_None)
  qed
  assume "find (\<lambda>b. free_bit s b \<noteq> None) groups = Some b"
  then obtain k where k: "b = BPB * k" "k < ?n" "free_bit s (BPB * k) \<noteq> None" "\<forall>j < k. free_bit s (BPB * j) = None"
    unfolding f by (auto simp: find_upt_Some)
  then obtain bi where bi: "free_bit s (BPB * k) = Some bi" by blast
  note b = bi [unfolded free_bit_Some]
  have "used s c" if c: "c < BPB * k + bi" for c
  proof (cases "c div BPB < k")
    case True
    then have "free_bit s (BPB * (c div BPB)) = None" using k(4) by blast
    moreover have "c < unat (sb_size (sb s))" using c b by linarith
    ultimately show ?thesis using spl [of c] unfolding free_bit_None by metis
  next
    case False
    then have "c = BPB * k + (c - BPB * k)" "c - BPB * k < bi" using c b
      by (auto simp: not_less less_eq_div_iff_mult_less_eq mult.commute)
    then show ?thesis using b by metis
  qed
  then show "\<exists>k bi. b = BPB * k \<and> free_bit s b = Some bi \<and> bi < BPB \<and> b + bi < unat (sb_size (sb s)) \<and> \<not> used s (b + bi) \<and> (\<forall>c < b + bi. used s c)"
    using k(1) bi b by blast
qed

lemma balloc_full:
  assumes "log_tx pid blks {} s" "length blks + 2 \<le> LOGBLOCKS" "\<forall>b < unat (sb_size (sb s)). used s b"
  shows "\<exists>t. balloc ROOTDEV s = Ok 0 t \<and> log_tx pid blks {} t \<and> view t = view s \<and> disk t = disk s \<and> wtrace t = wtrace s \<and> tx_rest t = tx_rest s"
proof -
  note none = balloc_groups(1) [THEN iffD2, OF assms(3)]
  from balloc_search [OF assms(1,2), of "map (\<lambda>k. BPB * k) [0..<(unat (sb_size (sb s)) + BPB - 1) div BPB]", unfolded none option.case]
  show ?thesis by (auto simp: balloc_def)
qed

lemma balloc_takes_first:
  assumes "log_tx pid blks {} s" "length blks + 2 \<le> LOGBLOCKS"
    and b: "b < unat (sb_size (sb s))" "\<not> used s b" "\<forall>c < b. used s c"
  defines "bb \<equiv> BBLOCK (of_nat b) (sb s)"
  shows "\<exists>t. balloc ROOTDEV s = Ok (of_nat b) t \<and> log_tx pid (logged (of_nat b) (logged bb blks)) {} t
    \<and> view t = (view s)(bb := set_used (b mod BPB) (view s bb), of_nat b := replicate BSIZE 0)
    \<and> disk t = disk s \<and> wtrace t = wtrace s \<and> tx_rest t = tx_rest s"
proof -
  let ?gs = "map (\<lambda>k. BPB * k) [0..<(unat (sb_size (sb s)) + BPB - 1) div BPB]"
  obtain b0 where b0: "find (\<lambda>b. free_bit s b \<noteq> None) ?gs = Some b0"
    using balloc_groups(1) [of s] b by (cases "find (\<lambda>b. free_bit s b \<noteq> None) ?gs") auto
  obtain k bi where k: "b0 = BPB * k" "free_bit s b0 = Some bi" "bi < BPB" "\<not> used s (b0 + bi)" "\<forall>c < b0 + bi. used s c"
    using balloc_groups(2) [OF b0] by blast
  have e: "b0 + bi = b" using k(4,5) b(2,3) by (meson linorder_neqE_nat)
  then have "b mod BPB = bi" using k(1,3) by auto
  moreover have "BBLOCK (of_nat b0) (sb s) = bb"
    using BBLOCK_group [of k bi "sb s"] k(1,3) e b(1) unat_less_32 [of "sb_size (sb s)"] unfolding bb_def by (metis order_less_trans)
  ultimately show ?thesis
    using balloc_search [OF assms(1,2), of ?gs, unfolded b0 option.case] k(2) e
    by (auto simp: balloc_def Let_def simp del: of_nat_add)
qed


lemma bit_mask: "k < 8 \<Longrightarrow> (x :: u8) AND push_bit k 1 \<noteq> 0 \<longleftrightarrow> bit x k"
  by (simp add: bit_iff_and_push_bit_not_eq_0)

lemma bit_used_iff: "bit_used d bi \<longleftrightarrow> bit (d ! (bi div 8)) (bi mod 8)"
  unfolding bit_used_def by (rule bit_mask) simp

lemma same_bit: "bj div 8 = bi div 8 \<Longrightarrow> bj mod 8 = bi mod 8 \<longleftrightarrow> bj = bi" for bi bj :: nat
  by (metis div_mult_mod_eq)

lemma bit_mask_8: "k < 8 \<Longrightarrow> j < 8 \<Longrightarrow> bit (push_bit k (1 :: u8)) j \<longleftrightarrow> j = k"
  by (auto simp: bit_exp_iff)

lemma set_used_bit:
  assumes "bi div 8 < length d"
  shows "bit_used (set_used bi d) bj \<longleftrightarrow> bj = bi \<or> bit_used d bj"
proof (cases "bj div 8 = bi div 8")
  case True
  then show ?thesis using assms same_bit [OF True] bit_mask_8 [of "bi mod 8" "bj mod 8"]
    by (simp add: bit_used_iff set_used_def bit_or_iff) blast
next
  case False
  then show ?thesis by (auto simp: bit_used_iff set_used_def)
qed

lemma clear_used_bit:
  assumes "bi div 8 < length d"
  shows "bit_used (clear_used bi d) bj \<longleftrightarrow> bj \<noteq> bi \<and> bit_used d bj"
proof (cases "bj div 8 = bi div 8")
  case True
  then show ?thesis using assms same_bit [OF True] bit_mask_8 [of "bi mod 8" "bj mod 8"]
    by (simp add: bit_used_iff clear_used_def bit_and_iff bit_not_iff) blast
next
  case False
  then show ?thesis by (auto simp: bit_used_iff clear_used_def)
qed

lemma length_set_used [simp]: "length (set_used bi d) = length d" "length (clear_used bi d) = length d"
  by (simp_all add: set_used_def clear_used_def)

lemma bfree_tx:
  fixes b :: u32
  assumes tx: "log_tx pid blks {} s" and n: "length blks < LOGBLOCKS"
  defines "bb \<equiv> BBLOCK b (sb s)"
  shows "if bit_used (view s bb) (unat b mod BPB)
    then \<exists>t. bfree ROOTDEV b s = Ok () t \<and> log_tx pid (logged bb blks) {} t \<and> view t = (view s)(bb := clear_used (unat b mod BPB) (view s bb))
      \<and> disk t = disk s \<and> wtrace t = wtrace s \<and> tx_rest t = tx_rest s
    else \<exists>t. bfree ROOTDEV b s = Panic ''freeing free block'' t"
proof -
  have c: "card (set blks) < NBUF" using n card_length [of blks] by simp
  obtain i t1 where t1: "bread ROOTDEV bb s = Ok i t1" "log_tx pid blks (insert bb {}) t1" "holds t1 i bb (view s bb)"
    "view t1 = view s" "disk t1 = disk s" "wtrace t1 = wtrace s" "klog t1 = klog s" "tx_rest t1 = tx_rest s"
    using tx_read [OF tx, of bb] c by auto
  have d: "b_data (bufs t1 ! i) = view s bb" using t1(3) by (simp add: holds_def)
  obtain t2 where t2: "kdo [bmodify i (clear_used (unat b mod BPB)), log_write i, brelse i] t1 = Ok () t2" "log_tx pid (logged bb blks) {} t2"
    "view t2 = (view t1)(bb := clear_used (unat b mod BPB) (view s bb))" "disk t2 = disk t1" "wtrace t2 = wtrace t1" "tx_rest t2 = tx_rest t1"
    using tx_modify [OF t1(2,3), of "clear_used (unat b mod BPB)"] n by auto
  show ?thesis
    using t1 t2 d unfolding bfree_def bb_def [symmetric] by (auto simp: Let_def bb_def simp del: kdo.simps)
qed

lemma BBLOCK_inj:
  assumes "BBLOCK (of_nat c) sbk = BBLOCK (of_nat b) sbk" "b < 4294967296" "c < 4294967296"
  shows "c div BPB = b div BPB"
proof -
  have "(of_nat c div 4096 :: u32) = of_nat b div 4096" using assms(1) by (simp add: BBLOCK_def)
  then have "unat (of_nat c div 4096 :: u32) = unat (of_nat b div 4096 :: u32)" by simp
  then show ?thesis using assms(2,3) by (simp add: unat_div_distrib unat_of_nat_32)
qed

text \<open>The blocks of the free map are full-sized and in use themselves.\<close>
definition map_ok :: "kstate \<Rightarrow> bool" where
  "map_ok s \<longleftrightarrow> (\<forall>c < unat (sb_size (sb s)). length (view s (BBLOCK (of_nat c) (sb s))) = BSIZE
     \<and> used s (unat (BBLOCK (of_nat c) (sb s))))"

lemma map_block_neq:
  "b < 4294967296 \<Longrightarrow> map_ok s \<Longrightarrow> c < unat (sb_size (sb s)) \<Longrightarrow> \<not> used s b \<Longrightarrow> BBLOCK (of_nat c) (sb s) \<noteq> of_nat b"
  by (auto simp: map_ok_def unat_of_nat_32)

lemma used_after_free:
  fixes s :: kstate and b :: nat
  defines "bb \<equiv> BBLOCK (of_nat b) (sb s)"
  assumes ok: "map_ok s" and b: "b < unat (sb_size (sb s))" "\<not> used s b" and c: "c < unat (sb_size (sb s))"
    and sbu: "sb u = sb s"
    and v: "view u = (view s)(bb := set_used (b mod BPB) (view s bb), of_nat b := z, bb := clear_used (b mod BPB) (set_used (b mod BPB) (view s bb)))"
  shows "used u c = used s c"
proof -
  have lt: "b < 4294967296" "c < 4294967296" using b(1) c unat_less_32 [of "sb_size (sb s)"] by linarith+
  have len: "b mod BPB div 8 < length (view s bb)" using ok b(1) by (simp add: map_ok_def bb_def)
  have ne: "BBLOCK (of_nat c) (sb s) \<noteq> of_nat b" by (rule map_block_neq [OF lt(1) ok c b(2)])
  show ?thesis
  proof (cases "BBLOCK (of_nat c) (sb s) = bb")
    case True
    then have "c div BPB = b div BPB" using BBLOCK_inj [OF _ lt] by (simp add: bb_def)
    then have "c mod BPB = b mod BPB \<longleftrightarrow> c = b" by (metis div_mult_mod_eq)
    moreover have "used u c \<longleftrightarrow> c mod BPB \<noteq> b mod BPB \<and> (c mod BPB = b mod BPB \<or> bit_used (view s bb) (c mod BPB))"
      using len True clear_used_bit [of "b mod BPB" "set_used (b mod BPB) (view s bb)" "c mod BPB"] set_used_bit [OF len, of "c mod BPB"]
      by (simp add: used_def sbu v)
    ultimately show ?thesis using b(2) True by (auto simp: used_def)
  next
    case False
    then show ?thesis using ne by (simp add: used_def sbu v)
  qed
qed

lemma used_after_alloc:
  fixes s :: kstate and b :: nat
  defines "bb \<equiv> BBLOCK (of_nat b) (sb s)"
  assumes ok: "map_ok s" and b: "b < unat (sb_size (sb s))" "\<not> used s b" and c: "c < unat (sb_size (sb s))"
    and sbt: "sb t = sb s" and v: "view t = (view s)(bb := set_used (b mod BPB) (view s bb), of_nat b := z)"
  shows "used t c \<longleftrightarrow> used s c \<or> c = b"
proof -
  have lt: "b < 4294967296" "c < 4294967296" using b(1) c unat_less_32 [of "sb_size (sb s)"] by linarith+
  have len: "b mod BPB div 8 < length (view s bb)" using ok b(1) by (simp add: map_ok_def bb_def)
  have ne: "BBLOCK (of_nat c) (sb s) \<noteq> of_nat b" by (rule map_block_neq [OF lt(1) ok c b(2)])
  show ?thesis
  proof (cases "BBLOCK (of_nat c) (sb s) = bb")
    case True
    then have "c div BPB = b div BPB" using BBLOCK_inj [OF _ lt] by (simp add: bb_def)
    then have "c mod BPB = b mod BPB \<longleftrightarrow> c = b" by (metis div_mult_mod_eq)
    then show ?thesis using ne True set_used_bit [OF len, of "c mod BPB"] by (auto simp: used_def sbt v)
  next
    case False
    then have "c \<noteq> b" by (auto simp: bb_def)
    then show ?thesis using False ne by (simp add: used_def sbt v)
  qed
qed

section \<open>Properties\<close>

text \<open>(C14) \<open>balloc\<close> inside a transaction, on a free map whose blocks are whole and marked as used, returns the lowest block that the free map shows as
  free.  Afterwards the free map shows exactly this block as used besides those it showed before, the block is zero, and no block but it and its block
  of the free map has changed, both through the log; when every block below \<open>sb.size\<close> is in use it returns 0 and changes nothing.\<close>

theorem balloc_spec:
  assumes "log_tx pid blks {} s" "length blks + 2 \<le> LOGBLOCKS" "map_ok s"
  shows "if \<forall>b < unat (sb_size (sb s)). used s b
    then \<exists>t. balloc ROOTDEV s = Ok 0 t \<and> log_tx pid blks {} t \<and> view t = view s \<and> disk t = disk s
    else let b = (LEAST b. \<not> used s b); bb = BBLOCK (of_nat b) (sb s) in
      \<exists>t. balloc ROOTDEV s = Ok (of_nat b) t \<and> log_tx pid (logged (of_nat b) (logged bb blks)) {} t
        \<and> (\<forall>c < unat (sb_size (sb s)). used t c \<longleftrightarrow> used s c \<or> c = b)
        \<and> view t (of_nat b) = replicate BSIZE 0 \<and> (\<forall>x. x \<noteq> bb \<and> x \<noteq> of_nat b \<longrightarrow> view t x = view s x)
        \<and> sb t = sb s \<and> disk t = disk s"
proof (cases "\<forall>b < unat (sb_size (sb s)). used s b")
  case True
  then show ?thesis using balloc_full [OF assms(1,2) True] by auto
next
  case False
  define b where "b = (LEAST b. \<not> used s b)"
  define bb where "bb = BBLOCK (of_nat b) (sb s)"
  obtain c where c: "c < unat (sb_size (sb s))" "\<not> used s c" using False by blast
  have b: "\<not> used s b" "b \<le> c" "\<forall>a < b. used s a"
    unfolding b_def using LeastI [where P = "\<lambda>b. \<not> used s b", OF c(2)] Least_le [where P = "\<lambda>b. \<not> used s b", OF c(2)] by (auto dest: not_less_Least)
  have lt: "b < unat (sb_size (sb s))" using b(2) c(1) by simp
  obtain t where t: "balloc ROOTDEV s = Ok (of_nat b) t" "log_tx pid (logged (of_nat b) (logged bb blks)) {} t"
    "view t = (view s)(bb := set_used (b mod BPB) (view s bb), of_nat b := replicate BSIZE 0)" "disk t = disk s" "tx_rest t = tx_rest s"
    using balloc_takes_first [OF assms(1,2) lt b(1,3)] unfolding bb_def by blast
  have sbt: "sb t = sb s" using tx_rest_fields(1) [OF t(5)] .
  have "used t c \<longleftrightarrow> used s c \<or> c = b" if "c < unat (sb_size (sb s))" for c
    by (rule used_after_alloc [OF assms(3) lt b(1) that sbt t(3) [unfolded bb_def]])
  moreover have "view t (of_nat b) = replicate BSIZE 0" "\<forall>x. x \<noteq> bb \<and> x \<noteq> of_nat b \<longrightarrow> view t x = view s x" using t(3) by simp_all
  ultimately show ?thesis using False t(1,2,4) sbt unfolding b_def [symmetric] Let_def bb_def by auto
qed

text \<open>An empty log, and a free map at block 45 with the first 80 blocks in use.\<close>
definition alloc_example :: kstate where
  "alloc_example = cache_example\<lparr>disk := (\<lambda>b. if b = 45 then replicate 10 255 @ replicate 502 0 else replicate 512 7),
     klog := klog log_example, sb := (sb blank_kstate)\<lparr>sb_size := 2000, sb_bmapstart := 45\<rparr>\<rparr>"

lemma log_tx_sb [simp]: "log_tx pid blks L (s\<lparr>sb := l\<rparr>) = log_tx pid blks L s"
  by (simp add: log_tx_def bc_inv_def calm_def)

lemma alloc_example_tx: "log_tx 1 [] {} alloc_example"
  unfolding alloc_example_def log_tx_sb using bc_inv_example
  by (simp add: log_tx_def log_example_def)

lemma alloc_example_used: "b < 4096 \<Longrightarrow> used alloc_example b \<longleftrightarrow> b < 80"
proof -
  assume b: "b < 4096"
  have no: "\<not> is_slot (bufs alloc_example) i blk" for i blk
    unfolding is_slot_def by (cases "i < NBUF") (simp_all add: buf_example_def cache_example_def alloc_example_def)
  have v: "view alloc_example 45 = replicate 10 255 @ replicate 502 0"
    using bview_uncached [OF no, of "disk alloc_example" 45] by (simp add: view_def alloc_example_def)
  have "BBLOCK (of_nat b) (sb alloc_example) = 45"
    using BBLOCK_group [of 0 b "sb alloc_example"] b by (simp add: BBLOCK_def alloc_example_def blank_kstate_def)
  moreover have "bit (255 :: u8) (b mod 8)"
  proof -
    have "(255 :: u8) = - 1" by simp
    moreover have "b mod 8 < 8" by simp
    ultimately show ?thesis by (simp only: bit_minus_1_iff) simp
  qed
  ultimately show ?thesis using b v by (auto simp: used_def bit_used_iff nth_append)
qed

lemma alloc_example_map: "map_ok alloc_example"
proof -
  have sz: "unat (sb_size (sb alloc_example)) = 2000" by (simp add: alloc_example_def)
  have no: "\<not> is_slot (bufs alloc_example) i blk" for i blk
    unfolding is_slot_def by (cases "i < NBUF") (simp_all add: buf_example_def cache_example_def alloc_example_def)
  have v: "length (view alloc_example blk) = 512" for blk
    using bview_uncached [OF no, of "disk alloc_example" blk] by (simp add: view_def alloc_example_def)
  have bb: "BBLOCK (of_nat c) (sb alloc_example) = 45" if "c < 2000" for c
    using BBLOCK_group [of 0 c "sb alloc_example"] that by (simp add: BBLOCK_def alloc_example_def blank_kstate_def)
  show ?thesis using v bb alloc_example_used [of 45] by (simp add: map_ok_def sz)
qed

theorem balloc_spec_witness:
  "\<exists>t. balloc ROOTDEV alloc_example = Ok 80 t \<and> log_tx 1 [45, 80] {} t \<and> view t 80 = replicate 512 0
     \<and> \<not> used alloc_example 80 \<and> used t 80 \<and> \<not> used t 81"
proof -
  have sz: "unat (sb_size (sb alloc_example)) = 2000" by (simp add: alloc_example_def)
  have u80: "\<not> used alloc_example 80" "\<not> used alloc_example 81" using alloc_example_used by simp_all
  then have n: "\<not> (\<forall>b < unat (sb_size (sb alloc_example)). used alloc_example b)" unfolding sz by (intro notI) auto
  have l: "(LEAST b. \<not> used alloc_example b) = 80"
    by (rule Least_equality) (use u80 alloc_example_used in \<open>auto simp: not_less [symmetric]\<close>)
  have bb: "BBLOCK 80 (sb alloc_example) = 45" by (simp add: BBLOCK_def alloc_example_def blank_kstate_def)
  obtain t where "balloc ROOTDEV alloc_example = Ok 80 t" "log_tx 1 [45, 80] {} t" "\<forall>c < 2000. used t c \<longleftrightarrow> used alloc_example c \<or> c = 80"
    "view t 80 = replicate 512 0"
    using balloc_spec [OF alloc_example_tx _ alloc_example_map, unfolded if_not_P [OF n] l Let_def] bb sz by (auto simp: logged_def)
  then show ?thesis using u80 by auto
qed

text \<open>(C15) \<open>bfree\<close> undoes \<open>balloc\<close>: freeing the block that \<open>balloc\<close> has just returned succeeds and leaves every bit of the free map as it
  was before the allocation; freeing it once more panics.\<close>

theorem bfree_undoes_balloc:
  assumes "log_tx pid blks {} s" "length blks + 3 \<le> LOGBLOCKS" "map_ok s" "balloc ROOTDEV s = Ok a t" "a \<noteq> 0"
  shows "\<exists>u. bfree ROOTDEV a t = Ok () u \<and> (\<forall>c < unat (sb_size (sb s)). used u c = used s c)
    \<and> (\<exists>w. bfree ROOTDEV a u = Panic ''freeing free block'' w)"
proof -
  have n2: "length blks + 2 \<le> LOGBLOCKS" using assms(2) by simp
  have "\<not> (\<forall>b < unat (sb_size (sb s)). used s b)" using balloc_full [OF assms(1) n2] assms(4,5) by auto
  then obtain c where c: "c < unat (sb_size (sb s))" "\<not> used s c" by blast
  define b where "b = (LEAST b. \<not> used s b)"
  have b: "\<not> used s b" "b \<le> c" "\<forall>a < b. used s a"
    unfolding b_def using LeastI [where P = "\<lambda>b. \<not> used s b", OF c(2)] Least_le [where P = "\<lambda>b. \<not> used s b", OF c(2)] by (auto dest: not_less_Least)
  have lt: "b < unat (sb_size (sb s))" "b < 4294967296" using b(2) c(1) unat_less_32 [of "sb_size (sb s)"] by linarith+
  let ?bb = "BBLOCK (of_nat b) (sb s)"
  have t: "a = of_nat b" "log_tx pid (logged (of_nat b) (logged ?bb blks)) {} t"
    "view t = (view s)(?bb := set_used (b mod BPB) (view s ?bb), of_nat b := replicate BSIZE 0)" "tx_rest t = tx_rest s"
    using balloc_takes_first [OF assms(1) n2 lt(1) b(1,3)] assms(4) by auto
  have ua: "unat a = b" using t(1) unat_of_nat_32 [OF lt(2)] by simp
  have ne: "?bb \<noteq> of_nat b" by (rule map_block_neq [OF lt(2) assms(3) lt(1) b(1)])
  have len: "b mod BPB div 8 < length (view s ?bb)" using assms(3) lt(1) by (simp add: map_ok_def)
  have sbt: "sb t = sb s" using tx_rest_fields(1) [OF t(4)] .
  let ?l = "logged (of_nat b) (logged ?bb blks)"
  have ln: "length ?l < LOGBLOCKS" using length_logged [of "of_nat b" "logged ?bb blks"] length_logged [of ?bb blks] assms(2) by simp
  have bbt: "BBLOCK a (sb t) = ?bb" using t(1) sbt by simp
  have vt: "view t ?bb = set_used (b mod BPB) (view s ?bb)" using t(3) ne by simp
  obtain u where u: "bfree ROOTDEV a t = Ok () u" "log_tx pid (logged ?bb ?l) {} u"
    "view u = (view t)(?bb := clear_used (b mod BPB) (set_used (b mod BPB) (view s ?bb)))" "tx_rest u = tx_rest t"
    using bfree_tx [OF t(2) ln, of a] len unfolding bbt ua vt by (auto simp: set_used_bit)
  have sbu: "sb u = sb s" using tx_rest_fields(1) [OF u(4)] sbt by simp
  have "used u c' = used s c'" if "c' < unat (sb_size (sb s))" for c'
    using used_after_free [OF assms(3) lt(1) b(1) that sbu] u(3) t(3) by simp
  moreover have "\<exists>w. bfree ROOTDEV a u = Panic ''freeing free block'' w"
  proof -
    have "?bb \<in> set ?l" by (simp add: logged_def)
    then have "length (logged ?bb ?l) < LOGBLOCKS" using ln by (simp add: logged_def)
    from bfree_tx [OF u(2) this, of a] show ?thesis
      using len u(3) sbu t(1) ua by (simp add: clear_used_bit set_used_def split: if_splits)
  qed
  ultimately show ?thesis using u(1) by blast
qed

theorem bfree_undoes_balloc_witness:
  "\<exists>t u. balloc ROOTDEV alloc_example = Ok 80 t \<and> bfree ROOTDEV 80 t = Ok () u \<and> \<not> used u 80"
proof -
  have sz: "unat (sb_size (sb alloc_example)) = 2000" by (simp add: alloc_example_def)
  have u80: "\<not> used alloc_example 80" using alloc_example_used [of 80] by simp
  have lo: "\<forall>a < 80. used alloc_example a" using alloc_example_used by auto
  obtain t where t: "balloc ROOTDEV alloc_example = Ok 80 t"
    using balloc_takes_first [OF alloc_example_tx _ _ u80 lo] sz by auto
  show ?thesis using bfree_undoes_balloc [OF alloc_example_tx _ alloc_example_map t] t u80 sz by auto
qed

end
