(* ===== verification/KV_Inode.thy ===== *)
theory KV_Inode
  imports KV_FsBlocks
begin

text \<open>
  Inodes: the on-disk encoding (kernel/fs.h) and its round trip through \<open>iupdate\<close> and \<open>ilock\<close>, the reference counts of the inode table, and path names.
\<close>

section \<open>Fields of a block\<close>

lemma length_put16 [simp]: "length (put16 bs o' v) = length bs"
  by (simp add: put16_def)

lemma word_cat2: "ucast (ucast v :: u8) OR push_bit 8 (ucast (ucast (drop_bit 8 v) :: u8)) = (v :: u16)"
  by (rule bit_word_eqI) (auto simp: bit_or_iff bit_push_bit_iff bit_drop_bit_eq bit_ucast_iff)

lemma get16_put16 [simp]: "o' + 2 \<le> length bs \<Longrightarrow> get16 (put16 bs o' v) o' = v"
  by (simp add: get16_def put16_def nth_list_update word_cat2)

lemma get_put_other:
  "o' + 2 \<le> p \<or> p + 2 \<le> o' \<Longrightarrow> get16 (put16 bs o' v) p = get16 bs p"
  "o' + 4 \<le> p \<or> p + 2 \<le> o' \<Longrightarrow> get16 (put32 bs o' w) p = get16 bs p"
  "o' + 2 \<le> p \<or> p + 4 \<le> o' \<Longrightarrow> get32 (put16 bs o' v) p = get32 bs p"
  by (auto simp: get16_def put16_def get32_def put32_def)

definition put_addrs :: "nat \<Rightarrow> u32 list \<Rightarrow> nat \<Rightarrow> u8 list \<Rightarrow> u8 list" where
  "put_addrs q as n d = foldl (\<lambda>d i. put32 d (q + 4 * i) (as ! i)) d [0..<n]"

lemma put_addrs_Suc: "put_addrs q as (Suc n) d = put32 (put_addrs q as n d) (q + 4 * n) (as ! n)"
  by (simp add: put_addrs_def)

lemma put_addrs_0: "put_addrs q as 0 d = d"
  by (simp add: put_addrs_def)

lemma length_put_addrs [simp]: "length (put_addrs q as n d) = length d"
  by (induction n) (simp_all add: put_addrs_Suc put_addrs_0)

lemma get_put_addrs:
  "p + 2 \<le> q \<or> q + 4 * n \<le> p \<Longrightarrow> get16 (put_addrs q as n d) p = get16 d p"
  "p + 4 \<le> q \<or> q + 4 * n \<le> p \<Longrightarrow> get32 (put_addrs q as n d) p = get32 d p"
  by (induction n) (auto simp: put_addrs_Suc put_addrs_0 get_put_other get32_put32_other)

lemma get_put_addrs_nth: "i < n \<Longrightarrow> q + 4 * n \<le> length d \<Longrightarrow> get32 (put_addrs q as n d) (q + 4 * i) = as ! i"
proof (induction n)
  case (Suc n)
  show ?case
  proof (cases "i = n")
    case True
    then show ?thesis using Suc.prems by (simp add: put_addrs_Suc)
  next
    case False
    then show ?thesis using Suc by (simp add: put_addrs_Suc get32_put32_other)
  qed
qed simp

lemma put_dinode_unfold:
  "put_dinode d k di = put_addrs (64 * k + 12) (d_addrs di) 13 (put32 (put16 (put16 (put16 (put16 d (64 * k) (d_type di))
     (64 * k + 2) (d_major di)) (64 * k + 4) (d_minor di)) (64 * k + 6) (d_nlink di)) (64 * k + 8) (d_size di))"
  by (simp add: put_dinode_def put_addrs_def Let_def)

lemma length_put_dinode [simp]: "length (put_dinode d k di) = length d"
  by (simp add: put_dinode_unfold)

lemma dinode_get_put:
  assumes "length d = BSIZE" "k < IPB" "length (d_addrs di) = 13"
  shows "get_dinode (put_dinode d k di) k = di"
proof (rule dinode.equality)
  have "map (\<lambda>i. get32 (put_dinode d k di) (64 * k + 12 + 4 * i)) [0..<13] = d_addrs di"
    by (rule nth_equalityI) (use assms in \<open>simp_all add: put_dinode_unfold get_put_addrs_nth\<close>)
  then show "d_addrs (get_dinode (put_dinode d k di) k) = d_addrs di" by (simp add: get_dinode_def)
qed (use assms in \<open>simp_all add: get_dinode_def put_dinode_unfold get_put_addrs get_put_other get32_put32_other\<close>)

lemma dinode_get_other:
  assumes "j \<noteq> k"
  shows "get_dinode (put_dinode d k di) j = get_dinode d j"
proof -
  have s: "64 * j + 64 \<le> 64 * k \<or> 64 * k + 64 \<le> 64 * j" using assms by linarith
  have a: "get32 (put_dinode d k di) (64 * j + 12 + 4 * i) = get32 d (64 * j + 12 + 4 * i)" if "i < 13" for i
    using s that by (auto simp: put_dinode_unfold get_put_addrs get_put_other get32_put32_other)
  have b: "get32 (put_dinode d k di) (64 * j + 8) = get32 d (64 * j + 8)"
    using s by (auto simp: put_dinode_unfold get_put_addrs get_put_other get32_put32_other)
  have c: "get16 (put_dinode d k di) (64 * j + q) = get16 d (64 * j + q)" if "q < 8" for q
    using s that by (auto simp: put_dinode_unfold get_put_addrs get_put_other)
  show ?thesis using a b c [of 0] c [of 2] c [of 4] c [of 6] by (simp add: get_dinode_def)
qed


section \<open>The inodes on the card\<close>

text \<open>Inode \<open>n\<close> as a reader of its block decodes it.\<close>
definition disk_inode :: "kstate \<Rightarrow> u32 \<Rightarrow> dinode" where
  "disk_inode s n = get_dinode (view s (IBLOCK n (sb s))) (unat n mod IPB)"

lemma IBLOCK_inj: "IBLOCK n sbk = IBLOCK m sbk \<Longrightarrow> unat n mod IPB = unat m mod IPB \<Longrightarrow> n = m"
proof -
  assume a: "IBLOCK n sbk = IBLOCK m sbk" "unat n mod IPB = unat m mod IPB"
  have "n div 8 = m div 8" using a(1) by (simp add: IBLOCK_def)
  then have "unat (n div 8) = unat (m div 8)" by simp
  then have "unat n div 8 = unat m div 8" by (simp add: unat_div_distrib)
  then have "unat n = unat m" using a(2) by (metis div_mult_mod_eq)
  then show ?thesis by (simp add: word_eq_unat)
qed

text \<open>Writing inode \<open>n\<close> into its block changes that inode and no other.\<close>
lemma dinode_at_put:
  assumes "length (v (IBLOCK n sbk)) = BSIZE" "length (d_addrs di) = 13"
  defines "v' \<equiv> v(IBLOCK n sbk := put_dinode (v (IBLOCK n sbk)) (unat n mod IPB) di)"
  shows "get_dinode (v' (IBLOCK m sbk)) (unat m mod IPB) = (if m = n then di else get_dinode (v (IBLOCK m sbk)) (unat m mod IPB))"
proof (cases "m = n")
  case True
  then show ?thesis using dinode_get_put [OF assms(1) _ assms(2), of "unat n mod IPB"] by (simp add: v'_def)
next
  case False
  then have "unat m mod IPB \<noteq> unat n mod IPB" if "IBLOCK m sbk = IBLOCK n sbk" using that IBLOCK_inj by blast
  then show ?thesis using False by (simp add: v'_def dinode_get_other)
qed

lemma disk_inode_put:
  assumes "view t = (view s)(IBLOCK n (sb s) := put_dinode (view s (IBLOCK n (sb s))) (unat n mod IPB) di)" "sb t = sb s"
    "length (view s (IBLOCK n (sb s))) = BSIZE" "length (d_addrs di) = 13"
  shows "disk_inode t = (disk_inode s)(n := di)"
  using dinode_at_put [of "view s" n "sb s" di, OF assms(3,4)] assms(1,2) by (auto simp: disk_inode_def)

lemma iupdate_tx:
  assumes tx: "log_tx pid blks {} s" and n: "length blks < LOGBLOCKS" and x: "i_dev (inodes s ! ip) = ROOTDEV"
  defines "ib \<equiv> IBLOCK (i_inum (inodes s ! ip)) (sb s)"
  shows "\<exists>t. iupdate ip s = Ok () t \<and> log_tx pid (logged ib blks) {} t
    \<and> view t = (view s)(ib := put_dinode (view s ib) (unat (i_inum (inodes s ! ip)) mod IPB) (dinode_of (inodes s ! ip)))
    \<and> disk t = disk s \<and> tx_rest t = tx_rest s"
proof -
  have "card (set blks) < NBUF" using n card_length [of blks] by simp
  then show ?thesis using log_update [OF tx _ n, of ib] x unfolding iupdate_def ib_def by auto
qed

section \<open>The inode table\<close>

text \<open>No two entries in use name the same inode.\<close>
definition itable_ok :: "inode list \<Rightarrow> bool" where
  "itable_ok ips \<longleftrightarrow> length ips = NINODE \<and> (\<forall>i < NINODE. 0 \<le> i_ref (ips ! i))
     \<and> (\<forall>i < NINODE. \<forall>j < NINODE. 0 < i_ref (ips ! i) \<and> 0 < i_ref (ips ! j) \<and> i_dev (ips ! i) = i_dev (ips ! j)
          \<and> i_inum (ips ! i) = i_inum (ips ! j) \<longrightarrow> i = j)"

lemma itable_ok_length: "itable_ok ips \<Longrightarrow> length ips = NINODE"
  by (simp add: itable_ok_def)

definition live :: "u32 \<Rightarrow> u32 \<Rightarrow> inode \<Rightarrow> bool" where
  "live dev inum x \<longleftrightarrow> i_ref x > 0 \<and> i_dev x = dev \<and> i_inum x = inum"

lemma itable_ok_uniq:
  assumes "itable_ok ips" "j < NINODE" "i < NINODE" "live dev inum (ips ! j)" "live dev inum (ips ! i)"
  shows "j = i"
proof -
  have "\<forall>i < NINODE. \<forall>j < NINODE. 0 < i_ref (ips ! i) \<and> 0 < i_ref (ips ! j) \<and> i_dev (ips ! i) = i_dev (ips ! j)
      \<and> i_inum (ips ! i) = i_inum (ips ! j) \<longrightarrow> i = j" using assms(1) by (simp add: itable_ok_def)
  from this [rule_format, OF assms(2,3)] show ?thesis using assms(4,5) by (simp add: live_def)
qed

lemma iget_scan_found:
  "iget_scan ips k emp dev inum =
     (case find (\<lambda>i. live dev inum (ips ! i)) [0..<length ips] of
        Some i \<Rightarrow> Inl (k + i)
      | None \<Rightarrow> Inr (if emp \<noteq> None then emp else map_option (\<lambda>i. k + i) (find (\<lambda>i. i_ref (ips ! i) = 0) [0..<length ips])))"
proof (induction ips arbitrary: k emp)
  case (Cons x xs)
  have f: "find P [0..<length (x # xs)] = (if P 0 then Some 0 else map_option Suc (find (\<lambda>i. P (Suc i)) [0..<length xs]))" for P
    by (simp add: upt_conv_Cons map_Suc_upt [symmetric] find_map_option del: upt_Suc)
  show ?case unfolding iget_scan.simps Cons f
    by (cases "find (\<lambda>i. i_ref (xs ! i) = 0) [0..<length xs]") (auto simp: live_def option.map_comp comp_def split: option.split)
qed simp

lemma find_None_upt: "find P [0..<n] = None \<Longrightarrow> i < n \<Longrightarrow> \<not> P i"
  by (simp add: find_upt_None)

lemma iget_scan_table:
  assumes "itable_ok (inodes s)"
  shows "iget_scan (take NINODE (inodes s)) 0 None dev inum =
     (case find (\<lambda>i. live dev inum (inodes s ! i)) [0..<NINODE] of
        Some i \<Rightarrow> Inl i
      | None \<Rightarrow> Inr (find (\<lambda>i. i_ref (inodes s ! i) = 0) [0..<NINODE]))"
proof -
  have len: "length (inodes s) = NINODE" using assms by (rule itable_ok_length)
  have t: "take NINODE (inodes s) = inodes s" using len by simp
  have z: "map_option (\<lambda>i. 0 + i) r = r" for r :: "nat option" by (cases r) simp_all
  show ?thesis unfolding t iget_scan_found len z by (simp only: add_0 not_True_eq_False if_False simp_thms)
qed

lemma iget_live:
  assumes ok: "itable_ok (inodes s)" and lk: "LK_itable \<notin> held s" and i: "i < NINODE" "live dev inum (inodes s ! i)"
  shows "iget dev inum s = Ok i (upd_inode i (\<lambda>x. x\<lparr>i_ref := i_ref x + 1\<rparr>) s)"
proof -
  have "find (\<lambda>i. live dev inum (inodes s ! i)) [0..<NINODE] = Some i"
    unfolding find_upt_Some
  proof (intro conjI allI impI notI)
    fix j assume j: "j < i" "live dev inum (inodes s ! j)"
    have "j < NINODE" using j(1) i(1) by simp
    then have "j = i" using itable_ok_uniq [OF ok _ i(1) j(2) i(2)] by simp
    then show False using j(1) by simp
  qed (fact i)+
  then have "iget_scan (take NINODE (inodes s)) 0 None dev inum = Inl i"
    unfolding iget_scan_table [OF ok] by (simp only: option.case)
  then show ?thesis using lk by (simp add: iget_def upd_inode_def)
qed

lemma iget_fresh:
  assumes ok: "itable_ok (inodes s)" and lk: "LK_itable \<notin> held s" and none: "\<forall>i < NINODE. \<not> live dev inum (inodes s ! i)"
  shows "i < NINODE \<Longrightarrow> i_ref (inodes s ! i) = 0 \<Longrightarrow> \<forall>j < i. i_ref (inodes s ! j) \<noteq> 0 \<Longrightarrow>
      iget dev inum s = Ok i (upd_inode i (\<lambda>x. x\<lparr>i_dev := dev, i_inum := inum, i_ref := 1, i_valid := False\<rparr>) s)"
    and "\<forall>i < NINODE. i_ref (inodes s ! i) \<noteq> 0 \<Longrightarrow> \<exists>t. iget dev inum s = Panic ''iget: no inodes'' t"
proof -
  have "find (\<lambda>i. live dev inum (inodes s ! i)) [0..<NINODE] = None" using none unfolding find_upt_None .
  then have sc: "iget_scan (take NINODE (inodes s)) 0 None dev inum = Inr (find (\<lambda>i. i_ref (inodes s ! i) = 0) [0..<NINODE])"
    unfolding iget_scan_table [OF ok] by (simp only: option.case)
  show "iget dev inum s = Ok i (upd_inode i (\<lambda>x. x\<lparr>i_dev := dev, i_inum := inum, i_ref := 1, i_valid := False\<rparr>) s)"
    if "i < NINODE" "i_ref (inodes s ! i) = 0" "\<forall>j < i. i_ref (inodes s ! j) \<noteq> 0"
  proof -
    have "find (\<lambda>i. i_ref (inodes s ! i) = 0) [0..<NINODE] = Some i" unfolding find_upt_Some using that by blast
    then have "iget_scan (take NINODE (inodes s)) 0 None dev inum = Inr (Some i)" unfolding sc by (simp only:)
    then show ?thesis using lk by (simp add: iget_def upd_inode_def)
  qed
  assume "\<forall>i < NINODE. i_ref (inodes s ! i) \<noteq> 0"
  then have "find (\<lambda>i. i_ref (inodes s ! i) = 0) [0..<NINODE] = None" unfolding find_upt_None .
  then have "iget_scan (take NINODE (inodes s)) 0 None dev inum = Inr None" unfolding sc by (simp only:)
  then show "\<exists>t. iget dev inum s = Panic ''iget: no inodes'' t" using lk by (simp add: iget_def)
qed

lemma itable_ok_upd:
  assumes ok: "itable_ok ips" and i: "i < NINODE" and r: "0 \<le> i_ref x"
    and new: "\<And>j. j < NINODE \<Longrightarrow> j \<noteq> i \<Longrightarrow> 0 < i_ref x \<Longrightarrow> \<not> live (i_dev x) (i_inum x) (ips ! j)"
  shows "itable_ok (ips[i := x])"
proof -
  have len: "length ips = NINODE" using ok by (simp add: itable_ok_def)
  have g: "ips[i := x] ! j = (if j = i then x else ips ! j)" if "j < NINODE" for j using that len by (simp add: nth_list_update)
  have u: "j = k" if "j < NINODE" "k < NINODE" "0 < i_ref (ips ! j)" "0 < i_ref (ips ! k)" "i_dev (ips ! j) = i_dev (ips ! k)"
    "i_inum (ips ! j) = i_inum (ips ! k)" for j k
    using itable_ok_uniq [OF ok that(1,2), of "i_dev (ips ! k)" "i_inum (ips ! k)"] that(3-6) by (simp add: live_def)
  have pos: "0 \<le> i_ref (ips ! j)" if "j < NINODE" for j using ok that by (simp add: itable_ok_def)
  show ?thesis unfolding itable_ok_def
  proof (intro conjI allI impI)
    fix j k assume j: "j < NINODE" "k < NINODE" and l: "0 < i_ref (ips[i := x] ! j) \<and> 0 < i_ref (ips[i := x] ! k)
      \<and> i_dev (ips[i := x] ! j) = i_dev (ips[i := x] ! k) \<and> i_inum (ips[i := x] ! j) = i_inum (ips[i := x] ! k)"
    show "j = k"
      using l u [OF j] new [OF j(1)] new [OF j(2)] unfolding g [OF j(1)] g [OF j(2)] live_def
      by (cases "j = i"; cases "k = i") auto
  next
    fix j assume j: "j < NINODE"
    show "0 \<le> i_ref (ips[i := x] ! j)" unfolding g [OF j] using r pos [OF j] by simp
  qed (use len in simp)
qed

section \<open>Path names\<close>

text \<open>The components of a path: what lies between slashes and is not empty.\<close>
primrec split_slash :: "u8 list \<Rightarrow> u8 list list" where
  "split_slash [] = [[]]"
| "split_slash (c # cs) = (if c = SLASH then [] # split_slash cs else (c # hd (split_slash cs)) # tl (split_slash cs))"

definition components :: "u8 list \<Rightarrow> u8 list list" where
  "components pth = filter (\<lambda>e. e \<noteq> []) (split_slash pth)"

lemma split_slash_ne [simp]: "split_slash pth \<noteq> []"
  by (induction pth) auto

lemma components_Nil [simp]: "components [] = []"
  by (simp add: components_def)

lemma components_slash: "components (dropWhile (\<lambda>c. c = SLASH) pth) = components pth"
  by (induction pth) (auto simp: components_def)

lemma split_slash_first:
  "split_slash pth = takeWhile (\<lambda>c. c \<noteq> SLASH) pth #
     (case dropWhile (\<lambda>c. c \<noteq> SLASH) pth of [] \<Rightarrow> [] | _ # rest \<Rightarrow> split_slash rest)"
  by (induction pth) auto

lemma components_step:
  assumes "pth \<noteq> []" "hd pth \<noteq> SLASH"
  shows "components pth = takeWhile (\<lambda>c. c \<noteq> SLASH) pth # components (dropWhile (\<lambda>c. c \<noteq> SLASH) pth)"
proof -
  have "takeWhile (\<lambda>c. c \<noteq> SLASH) pth \<noteq> []" using assms by (cases pth) auto
  then have "components pth = takeWhile (\<lambda>c. c \<noteq> SLASH) pth #
      filter (\<lambda>e. e \<noteq> []) (case dropWhile (\<lambda>c. c \<noteq> SLASH) pth of [] \<Rightarrow> [] | _ # rest \<Rightarrow> split_slash rest)"
    unfolding components_def by (subst split_slash_first) simp
  moreover have "filter (\<lambda>e. e \<noteq> []) (case dropWhile (\<lambda>c. c \<noteq> SLASH) pth of [] \<Rightarrow> [] | _ # rest \<Rightarrow> split_slash rest)
      = components (dropWhile (\<lambda>c. c \<noteq> SLASH) pth)"
  proof (cases "dropWhile (\<lambda>c. c \<noteq> SLASH) pth")
    case (Cons c rest)
    then have "c = SLASH" using hd_dropWhile [of "\<lambda>c. c \<noteq> SLASH" pth] by simp
    then show ?thesis using Cons by (simp add: components_def)
  next
    case Nil
    show ?thesis unfolding Nil by simp
  qed
  ultimately show ?thesis by simp
qed

text \<open>The C string in a name buffer, and the names that the loop of \<open>namex\<close> sees.\<close>
definition name_of :: "u8 list \<Rightarrow> u8 list" where
  "name_of name = cstr (take DIRSIZ name)"

function path_names :: "u8 list \<Rightarrow> u8 list \<Rightarrow> u8 list list" where
  "path_names pth name = (case skipelem pth name of None \<Rightarrow> [] | Some (pth2, name') \<Rightarrow> name_of name' # path_names pth2 name')"
  by pat_completeness auto
termination
  by (relation "measure (\<lambda>(pth, _). length pth)") (auto dest: skipelem_shorter)

declare path_names.simps [simp del]

lemma skipelem_cases:
  shows "skipelem pth name = None \<longleftrightarrow> components pth = []"
    and "skipelem pth name = Some (pth2, name') \<Longrightarrow> components pth = hd (components pth) # components pth2
      \<and> name' = (if length (hd (components pth)) \<ge> DIRSIZ then take DIRSIZ (hd (components pth))
           else hd (components pth) @ [0] @ drop (length (hd (components pth)) + 1) name)
      \<and> set (hd (components pth)) \<subseteq> set pth \<and> set pth2 \<subseteq> set pth"
proof -
  define p1 where "p1 = dropWhile (\<lambda>c. c = SLASH) pth"
  have p1: "components p1 = components pth" "set p1 \<subseteq> set pth" by (auto simp: p1_def components_slash dest: set_dropWhileD)
  have hd1: "p1 \<noteq> [] \<Longrightarrow> hd p1 \<noteq> SLASH" using hd_dropWhile [of "\<lambda>c. c = SLASH" pth] by (simp add: p1_def)
  show "skipelem pth name = None \<longleftrightarrow> components pth = []"
    using components_step [OF _ hd1] p1(1) by (cases "p1 = []") (auto simp: skipelem_def p1_def [symmetric] Let_def)
  assume s: "skipelem pth name = Some (pth2, name')"
  then have ne: "p1 \<noteq> []" by (auto simp: skipelem_def p1_def [symmetric] Let_def split: if_splits)
  have st: "components pth = takeWhile (\<lambda>c. c \<noteq> SLASH) p1 # components pth2"
    using s ne components_step [OF ne hd1 [OF ne]] components_slash [of "dropWhile (\<lambda>c. c \<noteq> SLASH) p1"] p1(1)
    by (auto simp: skipelem_def p1_def [symmetric] Let_def)
  have "set (takeWhile (\<lambda>c. c \<noteq> SLASH) p1) \<subseteq> set pth" "set pth2 \<subseteq> set pth"
    using p1(2) s ne by (auto simp: skipelem_def p1_def [symmetric] Let_def dest!: set_takeWhileD set_dropWhileD)
  then show "components pth = hd (components pth) # components pth2
      \<and> name' = (if length (hd (components pth)) \<ge> DIRSIZ then take DIRSIZ (hd (components pth))
           else hd (components pth) @ [0] @ drop (length (hd (components pth)) + 1) name)
      \<and> set (hd (components pth)) \<subseteq> set pth \<and> set pth2 \<subseteq> set pth"
    using s ne unfolding st by (auto simp: skipelem_def p1_def [symmetric] Let_def)
qed


lemma name_of_skipelem:
  assumes "0 \<notin> set e"
  shows "name_of (if length e \<ge> DIRSIZ then take DIRSIZ e else e @ [0] @ drop (length e + 1) name) = take DIRSIZ e"
proof (cases "length e \<ge> DIRSIZ")
  case True
  have "0 \<notin> set (take DIRSIZ e)" using assms by (auto dest: in_set_takeD)
  then show ?thesis using True by (simp add: name_of_def cstr_def takeWhile_eq_all_conv) (metis)
next
  case False
  have e: "c \<in> set e \<Longrightarrow> c \<noteq> 0" for c using assms by auto
  have "take DIRSIZ (e @ [0] @ drop (length e + 1) name) = e @ 0 # take (DIRSIZ - length e - 1) (drop (length e + 1) name)"
    using False by (cases "DIRSIZ - length e") simp_all
  then show ?thesis using False e by (simp add: name_of_def cstr_def takeWhile_append)
qed

lemma if_cases_exI: "P \<Longrightarrow> \<exists>t. Q i t \<Longrightarrow> if P then \<exists>i t. Q i t else R"
  by auto

section \<open>Properties\<close>

text \<open>(C16) \<open>iupdate\<close> writes back exactly one inode: after it, decoding the blocks of inodes gives for its own number an inode with the type, the device
  numbers, the link count, the size and the addresses of the in-memory inode, which \<open>ilock\<close> loads into any entry of the table as they were, and
  for every other inode number what it gave before, also for the seven that share the block.\<close>

theorem iupdate_roundtrip:
  assumes "log_tx pid blks {} s" "length blks < LOGBLOCKS" "i_dev (inodes s ! ip) = ROOTDEV" "length (i_addrs (inodes s ! ip)) = NDIRECT + 1"
    "length (view s (IBLOCK (i_inum (inodes s ! ip)) (sb s))) = BSIZE"
  shows "\<exists>t. iupdate ip s = Ok () t \<and> (\<forall>n. n \<noteq> i_inum (inodes s ! ip) \<longrightarrow> disk_inode t n = disk_inode s n)
    \<and> disk_inode t (i_inum (inodes s ! ip)) = \<lparr>d_type = i_type (inodes s ! ip), d_major = i_major (inodes s ! ip), d_minor = i_minor (inodes s ! ip),
        d_nlink = i_nlink (inodes s ! ip), d_size = i_size (inodes s ! ip), d_addrs = i_addrs (inodes s ! ip)\<rparr>
    \<and> load_dinode (disk_inode t (i_inum (inodes s ! ip))) (inodes s ! ip) = inodes s ! ip
    \<and> log_tx pid (logged (IBLOCK (i_inum (inodes s ! ip)) (sb s)) blks) {} t \<and> disk t = disk s \<and> inodes t = inodes s"
proof -
  let ?x = "inodes s ! ip"
  obtain t where t: "iupdate ip s = Ok () t" "log_tx pid (logged (IBLOCK (i_inum ?x) (sb s)) blks) {} t"
    "view t = (view s)(IBLOCK (i_inum ?x) (sb s) := put_dinode (view s (IBLOCK (i_inum ?x) (sb s))) (unat (i_inum ?x) mod IPB) (dinode_of ?x))"
    "disk t = disk s" "tx_rest t = tx_rest s"
    using iupdate_tx [OF assms(1-3)] by blast
  have "length (d_addrs (dinode_of ?x)) = 13" using assms(4) by (simp add: dinode_of_def)
  then have "disk_inode t = (disk_inode s)(i_inum ?x := dinode_of ?x)"
    using disk_inode_put [OF t(3) tx_rest_fields(1) [OF t(5)] assms(5)] by blast
  then show ?thesis using t tx_rest_fields(2) [OF t(5)] by (auto simp: dinode_of_def load_dinode_def)
qed

definition inode_example :: inode where
  "inode_example = \<lparr>i_dev = 1, i_inum = 9, i_ref = 1, i_lock = \<lparr>sl_locked = False, sl_pid = 0\<rparr>, i_valid = True,
     i_type = 2, i_major = 0, i_minor = 0, i_nlink = 1, i_size = 0x12345, i_addrs = 300 # 301 # replicate 11 0\<rparr>"

definition itable_example :: kstate where
  "itable_example = alloc_example\<lparr>inodes := inode_example # replicate 49 (inode_example\<lparr>i_ref := 0\<rparr>)\<rparr>"

lemma itable_example_tx: "log_tx 1 [] {} itable_example"
  using alloc_example_tx by (simp add: itable_example_def log_tx_def bc_inv_def calm_def)

lemma itable_example_view: "length (view itable_example blk) = 512"
proof -
  have no: "\<not> is_slot (bufs itable_example) i blk" for i blk
    unfolding is_slot_def by (cases "i < NBUF") (simp_all add: buf_example_def cache_example_def alloc_example_def itable_example_def)
  show ?thesis using bview_uncached [OF no, of "disk itable_example" blk] by (simp add: view_def alloc_example_def itable_example_def)
qed

theorem iupdate_roundtrip_witness:
  "\<exists>t. iupdate 0 itable_example = Ok () t
     \<and> disk_inode t 9 = \<lparr>d_type = 2, d_major = 0, d_minor = 0, d_nlink = 1, d_size = 0x12345, d_addrs = 300 # 301 # replicate 11 0\<rparr>
     \<and> disk_inode t 10 = disk_inode itable_example 10"
proof -
  have x: "inodes itable_example ! 0 = inode_example" by (simp add: itable_example_def)
  have e: "i_dev inode_example = ROOTDEV" "length (i_addrs inode_example) = NDIRECT + 1" "i_inum inode_example = 9"
    by (simp_all add: inode_example_def)
  obtain t where t: "iupdate 0 itable_example = Ok () t" "\<forall>n. n \<noteq> 9 \<longrightarrow> disk_inode t n = disk_inode itable_example n"
    "disk_inode t 9 = \<lparr>d_type = i_type inode_example, d_major = i_major inode_example, d_minor = i_minor inode_example,
        d_nlink = i_nlink inode_example, d_size = i_size inode_example, d_addrs = i_addrs inode_example\<rparr>"
    using iupdate_roundtrip [OF itable_example_tx, of 0, unfolded x e(3)] e itable_example_view by auto
  then show ?thesis by (intro exI [of _ t]) (simp add: inode_example_def)
qed

text \<open>(C17) \<open>iget\<close> keeps the inode table consistent.  An inode that is in use keeps its entry and gains a reference; any other gets the first free entry,
  with one reference and marked as not yet read; with no free entry the kernel panics.  In every case no two entries in use name the same
  inode afterwards, and no other entry changes.\<close>

theorem iget_spec:
  assumes "itable_ok (inodes s)" "LK_itable \<notin> held s"
  shows "if \<exists>i < NINODE. live dev inum (inodes s ! i) \<or> i_ref (inodes s ! i) = 0
    then \<exists>i t. iget dev inum s = Ok i t \<and> i < NINODE \<and> itable_ok (inodes t) \<and> live dev inum (inodes t ! i)
      \<and> i_ref (inodes t ! i) = i_ref (inodes s ! i) + 1 \<and> (\<forall>j < NINODE. j \<noteq> i \<longrightarrow> inodes t ! j = inodes s ! j)
      \<and> (live dev inum (inodes s ! i) \<or> (\<forall>j < NINODE. \<not> live dev inum (inodes s ! j))
          \<and> \<not> i_valid (inodes t ! i) \<and> (\<forall>j < i. i_ref (inodes s ! j) \<noteq> 0))
    else \<exists>t. iget dev inum s = Panic ''iget: no inodes'' t"
proof -
  have len: "length (inodes s) = NINODE" using assms(1) by (rule itable_ok_length)
  consider (live) i where "i < NINODE" "live dev inum (inodes s ! i)"
    | (free) i where "\<forall>i < NINODE. \<not> live dev inum (inodes s ! i)" "i < NINODE" "i_ref (inodes s ! i) = 0" "\<forall>j < i. i_ref (inodes s ! j) \<noteq> 0"
    | (none) "\<forall>i < NINODE. \<not> live dev inum (inodes s ! i)" "\<forall>i < NINODE. i_ref (inodes s ! i) \<noteq> 0"
  proof (cases "\<exists>i < NINODE. live dev inum (inodes s ! i)")
    case False
    show ?thesis
    proof (cases "\<exists>i < NINODE. i_ref (inodes s ! i) = 0")
      case True
      then obtain i where i: "i < NINODE \<and> i_ref (inodes s ! i) = 0" "\<forall>j < i. \<not> (j < NINODE \<and> i_ref (inodes s ! j) = 0)"
        unfolding exists_least_iff [of "\<lambda>i. i < NINODE \<and> i_ref (inodes s ! i) = 0"] by blast
      then have "\<forall>j < i. i_ref (inodes s ! j) \<noteq> 0" by auto
      then show ?thesis using free [of i] False i(1) by blast
    qed (use none False in blast)
  qed (use live in blast)
  then show ?thesis
  proof cases
    case live
    let ?x = "(inodes s ! i)\<lparr>i_ref := i_ref (inodes s ! i) + 1\<rparr>"
    have l: "0 < i_ref (inodes s ! i)" "i_dev (inodes s ! i) = dev" "i_inum (inodes s ! i) = inum" using live(2) by (auto simp: live_def)
    have "\<not> live (i_dev ?x) (i_inum ?x) (inodes s ! j)" if "j < NINODE" "j \<noteq> i" for j
      using itable_ok_uniq [OF assms(1) that(1) live(1)] that(2) live(2) l by auto
    then have "itable_ok ((inodes s)[i := ?x])" using itable_ok_upd [OF assms(1) live(1), of ?x] l by simp
    then show ?thesis using iget_live [OF assms live] live len l
      by (intro if_cases_exI [where i = i]) (auto simp: upd_inode_def live_def)
  next
    case free
    let ?x = "(inodes s ! i)\<lparr>i_dev := dev, i_inum := inum, i_ref := 1, i_valid := False\<rparr>"
    have "itable_ok ((inodes s)[i := ?x])" using itable_ok_upd [OF assms(1) free(2), of ?x] free(1) by simp
    then show ?thesis using iget_fresh(1) [OF assms free(1-4)] free len
      by (intro if_cases_exI [where i = i]) (auto simp: upd_inode_def live_def)
  next
    case none
    then show ?thesis using iget_fresh(2) [OF assms none] by auto
  qed
qed

theorem iget_spec_witness:
  "\<exists>i t. iget 1 9 itable_example = Ok i t \<and> live 1 9 (inodes t ! i) \<and> i_ref (inodes t ! i) = i_ref (inodes itable_example ! i) + 1"
proof -
  have n: "inodes itable_example ! i = (if i = 0 then inode_example else inode_example\<lparr>i_ref := 0\<rparr>)" if "i < 50" for i
    using that by (cases i) (simp_all add: itable_example_def)
  have "itable_ok (inodes itable_example)" unfolding itable_ok_def
    by (auto simp: n inode_example_def) (simp add: itable_example_def)
  moreover have "LK_itable \<notin> held itable_example"
    by (simp add: itable_example_def alloc_example_def cache_example_def fs_example_def blank_kstate_def)
  moreover have "\<exists>i < NINODE. live 1 9 (inodes itable_example ! i) \<or> i_ref (inodes itable_example ! i) = 0"
    using n [of 1] by (intro exI [of _ 1]) simp
  ultimately show ?thesis using iget_spec [of itable_example 1 9] by (metis (no_types, lifting))
qed

text \<open>The loop of \<open>namex\<close> sees the components of the path: for a path without NUL bytes, the names that \<open>skipelem\<close> extracts one after the other are exactly
  the non-empty strings between the slashes, in order, each cut off after \<open>DIRSIZ\<close> bytes, whatever the name buffer held before.\<close>

theorem path_names_components:
  assumes "0 \<notin> set pth"
  shows "path_names pth name = map (take DIRSIZ) (components pth)"
  using assms
proof (induction pth name rule: path_names.induct)
  case (1 pth name)
  show ?case
  proof (cases "skipelem pth name")
    case None
    then show ?thesis using skipelem_cases(1) [of pth name] by (subst path_names.simps) simp
  next
    case (Some r)
    obtain pth2 name' where r: "r = (pth2, name')" by (cases r)
    note s = skipelem_cases(2) [OF Some [unfolded r]]
    have "0 \<notin> set pth2" "0 \<notin> set (hd (components pth))" using s 1(2) by auto
    moreover have "name_of name' = take DIRSIZ (hd (components pth))" using s name_of_skipelem [OF calculation(2), of name] by simp
    ultimately have "path_names pth name = take DIRSIZ (hd (components pth)) # map (take DIRSIZ) (components pth2)"
      using 1(1) [OF Some r [symmetric]] Some r by (subst path_names.simps) simp
    moreover obtain e where "components pth = e # components pth2" using s by blast
    ultimately show ?thesis by simp
  qed
qed

theorem path_names_components_witness:
  "path_names [47, 47, 97, 47, 98, 98, 47] (replicate 14 7) = [[97], [98, 98]]"
  using path_names_components [of "[47, 47, 97, 47, 98, 98, 47]" "replicate 14 7"] by (simp add: components_def SLASH_def)

end
