(* ===== verification/KV_FileData.thy ===== *)
theory KV_FileData
  imports KV_Inode
begin

text \<open>
  File contents: what \<open>readi\<close> and \<open>writei\<close> of kernel/fs.c do to the bytes of a file, seen as the sequence
  of the blocks that the inode's direct and indirect addresses name.
\<close>

section \<open>The blocks and bytes of a file\<close>

definition faddr :: "(u32 \<Rightarrow> u8 list) \<Rightarrow> inode \<Rightarrow> nat \<Rightarrow> u32" where
  "faddr v x bn = (if bn < NDIRECT then i_addrs x ! bn else get32 (v (i_addrs x ! NDIRECT)) (4 * (bn - NDIRECT)))"

definition fbyte :: "(u32 \<Rightarrow> u8 list) \<Rightarrow> inode \<Rightarrow> nat \<Rightarrow> u8" where
  "fbyte v x k = v (faddr v x (k div BSIZE)) ! (k mod BSIZE)"

text \<open>The first \<open>nb\<close> blocks of the file are allocated, whole and different from each other and from the block of
  indirect addresses.\<close>
definition file_ok :: "(u32 \<Rightarrow> u8 list) \<Rightarrow> inode \<Rightarrow> nat \<Rightarrow> bool" where
  "file_ok v x nb \<longleftrightarrow> nb \<le> MAXFILE \<and> inj_on (faddr v x) {..<nb}
     \<and> (\<forall>bn < nb. faddr v x bn \<noteq> 0 \<and> length (v (faddr v x bn)) = BSIZE)
     \<and> (NDIRECT < nb \<longrightarrow> i_addrs x ! NDIRECT \<noteq> 0 \<and> i_addrs x ! NDIRECT \<notin> faddr v x ` {..<nb})"

definition patch :: "nat \<Rightarrow> u8 list \<Rightarrow> u8 list \<Rightarrow> u8 list" where
  "patch o' bs d = take o' d @ bs @ drop (o' + length bs) d"

lemma length_patch: "o' + length bs \<le> length d \<Longrightarrow> length (patch o' bs d) = length d"
  by (simp add: patch_def)

lemma nth_patch:
  assumes "o' + length bs \<le> length d" "k < length d"
  shows "patch o' bs d ! k = (if o' \<le> k \<and> k < o' + length bs then bs ! (k - o') else d ! k)"
  using assms by (auto simp: patch_def nth_append)

lemma faddr_upd:
  assumes "file_ok v x nb" "b < nb" "bn < nb"
  shows "faddr (v(faddr v x b := d)) x bn = faddr v x bn"
  using assms by (auto simp: file_ok_def faddr_def)

lemma file_ok_upd:
  assumes ok: "file_ok v x nb" and b: "b < nb" and d: "length d = BSIZE"
  shows "file_ok (v(faddr v x b := d)) x nb"
proof -
  note f = faddr_upd [OF ok b]
  have "inj_on (faddr (v(faddr v x b := d)) x) {..<nb}"
    using ok f by (auto simp: file_ok_def inj_on_def)
  moreover have "faddr (v(faddr v x b := d)) x ` {..<nb} = faddr v x ` {..<nb}"
    using f by (intro image_cong) auto
  ultimately show ?thesis using ok f d unfolding file_ok_def by auto
qed

lemma fbyte_patch:
  assumes ok: "file_ok v x nb" and b: "b < nb" and o: "o' + length bs \<le> BSIZE" and k: "k < nb * BSIZE"
  shows "fbyte (v(faddr v x b := patch o' bs (v (faddr v x b)))) x k =
    (if b * BSIZE + o' \<le> k \<and> k < b * BSIZE + o' + length bs then bs ! (k - (b * BSIZE + o')) else fbyte v x k)"
proof -
  have kb: "k div BSIZE < nb" using k by (simp add: less_mult_imp_div_less)
  have len: "length (v (faddr v x b)) = BSIZE" using ok b by (simp add: file_ok_def)
  note f = faddr_upd [OF ok b kb]
  have k2: "k = k div BSIZE * BSIZE + k mod BSIZE" by simp
  show ?thesis
  proof (cases "k div BSIZE = b")
    case True
    define r where "r = k mod BSIZE"
    have r: "k = b * BSIZE + r" "r < BSIZE" using k2 True by (simp_all add: r_def)
    have "b * BSIZE + o' \<le> k \<longleftrightarrow> o' \<le> r" "k < b * BSIZE + o' + length bs \<longleftrightarrow> r < o' + length bs"
      "k - (b * BSIZE + o') = r - o'" unfolding r(1) by linarith+
    then show ?thesis using True f nth_patch [of o' bs "v (faddr v x b)" r] o len r(2)
      by (simp add: fbyte_def flip: r_def)
  next
    case False
    then have "faddr v x (k div BSIZE) \<noteq> faddr v x b" using ok kb b by (auto simp: file_ok_def inj_on_def)
    moreover have "\<not> (b * BSIZE + o' \<le> k \<and> k < b * BSIZE + o' + length bs)"
    proof
      assume a: "b * BSIZE + o' \<le> k \<and> k < b * BSIZE + o' + length bs"
      then have "b * BSIZE \<le> k" "k < b * BSIZE + BSIZE" using o by linarith+
      then have "k div BSIZE = b" by (intro div_nat_eqI) simp_all
      then show False using False by simp
    qed
    ultimately show ?thesis using f by (auto simp: fbyte_def)
  qed
qed

section \<open>Looking up a block\<close>

lemma bmap_mapped:
  assumes tx: "log_tx pid blks {} s" and n: "length blks < LOGBLOCKS" and dev: "i_dev (inodes s ! ip) = ROOTDEV"
    and ok: "file_ok (view s) (inodes s ! ip) nb" and bn: "bn < nb"
  shows "\<exists>t. bmap ip bn s = Ok (faddr (view s) (inodes s ! ip) bn) t \<and> log_tx pid blks {} t \<and> view t = view s
    \<and> tx_rest t = tx_rest s"
proof (cases "bn < NDIRECT")
  case True
  then have "i_addrs (inodes s ! ip) ! bn \<noteq> 0" using ok bn by (auto simp: file_ok_def faddr_def)
  then show ?thesis using True tx by (simp add: bmap_def bmap_slot_def faddr_def)
next
  case False
  let ?x = "inodes s ! ip" and ?ind = "i_addrs (inodes s ! ip) ! NDIRECT"
  have i0: "?ind \<noteq> 0" and mx: "bn - NDIRECT < NINDIRECT" using ok bn False by (auto simp: file_ok_def)
  have a0: "get32 (view s ?ind) (4 * (bn - NDIRECT)) \<noteq> 0" using ok bn False by (auto simp: file_ok_def faddr_def)
  have "card (set blks) < NBUF" using n card_length [of blks] by simp
  then obtain i t u where t: "bread ROOTDEV ?ind s = Ok i t" "b_data (bufs t ! i) = view s ?ind" "brelse i t = Ok () u"
    "log_tx pid blks {} u" "view u = view s" "tx_rest u = tx_rest s"
    using tx_peek [OF tx, of ?ind] by auto
  have "bmap ip bn s = Ok (faddr (view s) ?x bn) u"
    using False i0 mx a0 t dev by (simp add: bmap_def bmap_slot_def faddr_def)
  then show ?thesis using t by blast
qed

section \<open>Reading\<close>

text \<open>A piece of a file that lies in one block.\<close>
lemma file_piece:
  assumes "off mod BSIZE + m \<le> BSIZE" "length (v (faddr v x (off div BSIZE))) = BSIZE"
  shows "take m (drop (off mod BSIZE) (v (faddr v x (off div BSIZE)))) = map (fbyte v x) [off..<off + m]"
proof (rule nth_equalityI)
  fix i assume i: "i < length (take m (drop (off mod BSIZE) (v (faddr v x (off div BSIZE)))))"
  then have im: "i < m" "off mod BSIZE + i < BSIZE" using assms by auto
  have d: "off + i = off div BSIZE * BSIZE + (off mod BSIZE + i)" by simp
  have "off + i < off div BSIZE * BSIZE + BSIZE" "off div BSIZE * BSIZE \<le> off + i" using d im(2) by linarith+
  then have "(off + i) div BSIZE = off div BSIZE" by (intro div_nat_eqI) simp_all
  moreover have "(off + i) mod BSIZE = off mod BSIZE + i"
    using d im(2) by (metis mod_less mod_mult_self3)
  ultimately show "take m (drop (off mod BSIZE) (v (faddr v x (off div BSIZE)))) ! i = map (fbyte v x) [off..<off + m] ! i"
    using im assms by (simp add: fbyte_def)
qed (use assms in simp)

lemma readi_loop_spec:
  assumes "log_tx pid blks {} s" "length blks < LOGBLOCKS" "i_dev (inodes s ! ip) = ROOTDEV"
    "file_ok (view s) (inodes s ! ip) nb" "tot \<le> n" "off + (n - tot) \<le> nb * BSIZE"
  shows "\<exists>t. readi_loop ip (KernObj old) off tot n s =
      Ok (as_int n, map (fbyte (view s) (inodes s ! ip)) [off..<off + (n - tot)]) t
    \<and> log_tx pid blks {} t \<and> view t = view s \<and> tx_rest t = tx_rest s"
  using assms
proof (induction "n - tot" arbitrary: off tot s old rule: less_induct)
  case less
  let ?x = "inodes s ! ip"
  show ?case
  proof (cases "tot < n")
    case False
    then show ?thesis using less.prems by (simp add: readi_loop.simps)
  next
    case True
    define m where "m = min (n - tot) (BSIZE - off mod BSIZE)"
    have m: "0 < m" "m \<le> n - tot" "off mod BSIZE + m \<le> BSIZE" using True by (auto simp: m_def min_def)
    have mm: "n - (tot + m) < n - tot" "tot + m \<le> n" using m True by linarith+
    have b: "off div BSIZE < nb" using less.prems(6) True by (intro less_mult_imp_div_less) linarith
    define a where "a = faddr (view s) ?x (off div BSIZE)"
    have ok: "a \<noteq> 0" "length (view s a) = BSIZE" using less.prems(4) b by (auto simp: file_ok_def a_def)
    obtain s1 where s1: "bmap ip (off div BSIZE) s = Ok a s1" "log_tx pid blks {} s1" "view s1 = view s" "tx_rest s1 = tx_rest s"
      using bmap_mapped [OF less.prems(1-4) b] by (auto simp: a_def)
    have "card (set blks) < NBUF" using less.prems(2) card_length [of blks] by simp
    then obtain i t u where t: "bread ROOTDEV a s1 = Ok i t" "b_data (bufs t ! i) = view s a" "brelse i t = Ok () u"
      "log_tx pid blks {} u" "view u = view s" "tx_rest u = tx_rest s"
      using tx_peek [OF s1(2), of a] s1(3,4) by auto
    note f = tx_rest_fields [OF t(6)] tx_rest_fields [OF s1(4)]
    obtain w where w: "readi_loop ip (KernObj (drop m old)) (off + m) (tot + m) n u =
        Ok (as_int n, map (fbyte (view s) ?x) [off + m..<off + m + (n - (tot + m))]) w"
      "log_tx pid blks {} w" "view w = view s" "tx_rest w = tx_rest s"
      using less.hyps [of "tot + m" u "off + m" "drop m old"] less.prems t m mm f by auto
    have bs: "take m (drop (off mod BSIZE) (view s a)) = map (fbyte (view s) ?x) [off..<off + m]"
      unfolding a_def by (rule file_piece [OF m(3)]) (use ok(2) in \<open>simp add: a_def\<close>)
    have spl: "[off..<off + (n - tot)] = [off..<off + m] @ [off + m..<off + m + (n - (tot + m))]"
    proof -
      have "off + (n - tot) = off + m + (n - (tot + m))" using mm m(2) by linarith
      then show ?thesis using upt_add_eq_append [of off "off + m" "n - (tot + m)"] by (simp only: le_add1)
    qed
    have "readi_loop ip (KernObj old) off tot n s =
        Ok (as_int n, map (fbyte (view s) ?x) [off..<off + (n - tot)]) w"
      unfolding spl using True s1(1) ok(1) f less.prems(3) t(1-3) w(1) bs
      by (subst readi_loop.simps) (simp add: Let_def flip: m_def)
    then show ?thesis using w by blast
  qed
qed

section \<open>Writing\<close>

lemma kdo3_then: "kdo [a, b, c] s = Ok () t \<Longrightarrow> kbind a (\<lambda>_. kbind b (\<lambda>_. kbind c (\<lambda>_. f))) s = f t"
  by (auto split: outcome.splits)

text \<open>The number of blocks that \<open>m\<close> bytes from \<open>off\<close> on touch.\<close>
definition span :: "nat \<Rightarrow> nat \<Rightarrow> nat" where
  "span off m = (if m = 0 then 0 else (off + m - 1) div BSIZE - off div BSIZE + 1)"

lemma span_step:
  assumes "0 < m" "m \<le> k" "m = min k (BSIZE - off mod BSIZE)"
  shows "span (off + m) (k - m) + 1 = span off k"
proof (cases "m = k")
  case True
  then have k: "k \<le> BSIZE - off mod BSIZE" using assms(3) by simp
  have d: "off = off div BSIZE * BSIZE + off mod BSIZE" by simp
  have "off + k - 1 < off div BSIZE * BSIZE + BSIZE" "off div BSIZE * BSIZE \<le> off + k - 1"
    using k d assms(1) True mod_less_divisor [of BSIZE off] by linarith+
  then have "(off + k - 1) div BSIZE = off div BSIZE" by (intro div_nat_eqI) simp_all
  then show ?thesis using True assms(1) by (simp add: span_def)
next
  case False
  then have m: "m = BSIZE - off mod BSIZE" "m < k" using assms by auto
  have "off mod BSIZE < BSIZE" by simp
  then have "off + m = off div BSIZE * BSIZE + BSIZE" using m(1) div_mult_mod_eq [of off BSIZE] by linarith
  then have o: "(off + m) div BSIZE = off div BSIZE + 1" by (intro div_nat_eqI) simp_all
  have "(off + m) div BSIZE \<le> (off + k - 1) div BSIZE" using m(2) by (intro div_le_mono) simp
  moreover have "off + m + (k - m) - 1 = off + k - 1" using m(2) by simp
  ultimately show ?thesis using m(2) o assms(1) unfolding span_def by simp linarith
qed

lemma writei_step:
  assumes tx: "log_tx pid blks {} s" and n: "length blks < LOGBLOCKS" and dev: "i_dev (inodes s ! ip) = ROOTDEV"
    and ok: "file_ok (view s) (inodes s ! ip) nb" and b: "off div BSIZE < nb"
  defines "a \<equiv> faddr (view s) (inodes s ! ip) (off div BSIZE)"
  shows "\<exists>s1 i t u. bmap ip (off div BSIZE) s = Ok a s1 \<and> inodes s1 = inodes s \<and> bread ROOTDEV a s1 = Ok i t
    \<and> kdo [bmodify i f, log_write i, brelse i] t = Ok () u
    \<and> log_tx pid (logged a blks) {} u \<and> view u = (view s)(a := f (view s a)) \<and> tx_rest u = tx_rest s"
proof -
  obtain s1 where s1: "bmap ip (off div BSIZE) s = Ok a s1" "log_tx pid blks {} s1" "view s1 = view s" "tx_rest s1 = tx_rest s"
    using bmap_mapped [OF tx n dev ok b] by (auto simp: a_def)
  have "card (set blks) < NBUF" using n card_length [of blks] by simp
  then obtain i t where t: "bread ROOTDEV a s1 = Ok i t" "log_tx pid blks (insert a {}) t" "holds t i a (view s1 a)" "view t = view s1"
    "tx_rest t = tx_rest s1"
    using tx_read [OF s1(2), of a] by auto
  obtain u where u: "kdo [bmodify i f, log_write i, brelse i] t = Ok () u" "log_tx pid (logged a blks) {} u"
    "view u = (view t)(a := f (view s1 a))" "tx_rest u = tx_rest t"
    using tx_modify [OF t(2,3) _ n, of f] by auto
  show ?thesis using s1 t u tx_rest_fields(2) [OF s1(4)] by auto
qed

text \<open>What a patch inside one block of the file does to the file.\<close>
lemma file_patch:
  assumes ok: "file_ok v x nb" and b: "off div BSIZE < nb" and m: "off mod BSIZE + length bs \<le> BSIZE"
    and w: "w = v(faddr v x (off div BSIZE) := patch (off mod BSIZE) bs (v (faddr v x (off div BSIZE))))"
  shows "file_ok w x nb" "faddr w x ` {..<nb} = faddr v x ` {..<nb}"
    "k < nb * BSIZE \<Longrightarrow> fbyte w x k = (if off \<le> k \<and> k < off + length bs then bs ! (k - off) else fbyte v x k)"
    "c \<notin> faddr v x ` {..<nb} \<Longrightarrow> w c = v c"
proof -
  have len: "length (v (faddr v x (off div BSIZE))) = BSIZE" using ok b by (simp add: file_ok_def)
  show "file_ok w x nb" unfolding w by (rule file_ok_upd [OF ok b]) (use m len in \<open>simp add: length_patch\<close>)
  show "faddr w x ` {..<nb} = faddr v x ` {..<nb}" unfolding w using faddr_upd [OF ok b] by (intro image_cong) auto
  have "off div BSIZE * BSIZE + off mod BSIZE = off" by simp
  then show "k < nb * BSIZE \<Longrightarrow> fbyte w x k = (if off \<le> k \<and> k < off + length bs then bs ! (k - off) else fbyte v x k)"
    unfolding w using fbyte_patch [OF ok b m] by simp
  show "c \<notin> faddr v x ` {..<nb} \<Longrightarrow> w c = v c" unfolding w using b by auto
qed

lemma writei_loop_spec:
  assumes "log_tx pid blks {} s" "i_dev (inodes s ! ip) = ROOTDEV" "file_ok (view s) (inodes s ! ip) nb" "tot \<le> n"
    "off + (n - tot) \<le> nb * BSIZE" "n - tot \<le> length src" "length blks + span off (n - tot) \<le> LOGBLOCKS"
  shows "\<exists>t blks'. writei_loop ip (KernObj src) off tot n s = Ok (n, off + (n - tot)) t \<and> log_tx pid blks' {} t
    \<and> length blks' \<le> length blks + span off (n - tot) \<and> tx_rest t = tx_rest s \<and> file_ok (view t) (inodes s ! ip) nb
    \<and> (\<forall>k < nb * BSIZE. fbyte (view t) (inodes s ! ip) k =
          (if off \<le> k \<and> k < off + (n - tot) then src ! (k - off) else fbyte (view s) (inodes s ! ip) k))
    \<and> faddr (view t) (inodes s ! ip) ` {..<nb} = faddr (view s) (inodes s ! ip) ` {..<nb}
    \<and> (\<forall>b. b \<notin> faddr (view s) (inodes s ! ip) ` {..<nb} \<longrightarrow> view t b = view s b)"
  using assms
proof (induction "n - tot" arbitrary: off tot s src blks rule: less_induct)
  case less
  let ?x = "inodes s ! ip"
  show ?case
  proof (cases "tot < n")
    case False
    then show ?thesis using less.prems
      by (intro exI [of _ s] exI [of _ blks]) (auto simp: writei_loop.simps)
  next
    case True
    define m where "m = min (n - tot) (BSIZE - off mod BSIZE)"
    have m: "0 < m" "m \<le> n - tot" "off mod BSIZE + m \<le> BSIZE" using True by (auto simp: m_def min_def)
    have mm: "n - (tot + m) < n - tot" "tot + m \<le> n" "m \<le> length src" "n - (tot + m) = n - tot - m" using m True less.prems(6) by linarith+
    have sp: "span (off + m) (n - (tot + m)) + 1 = span off (n - tot)" unfolding mm(4) by (rule span_step [OF m(1,2) m_def])
    have lb: "length blks < LOGBLOCKS" using less.prems(7) sp by linarith
    have b: "off div BSIZE < nb" using less.prems(5) True by (intro less_mult_imp_div_less) linarith
    define a where "a = faddr (view s) ?x (off div BSIZE)"
    define f where "f = patch (off mod BSIZE) (take m src)"
    have ok: "a \<noteq> 0" "length (view s a) = BSIZE" using less.prems(3) b by (auto simp: file_ok_def a_def)
    obtain s1 i t u where u: "bmap ip (off div BSIZE) s = Ok a s1" "inodes s1 = inodes s" "bread ROOTDEV a s1 = Ok i t"
      "kdo [bmodify i f, log_write i, brelse i] t = Ok () u" "log_tx pid (logged a blks) {} u"
      "view u = (view s)(a := f (view s a))" "tx_rest u = tx_rest s"
      using writei_step [OF less.prems(1) lb less.prems(2,3) b, of f] by (auto simp: a_def)
    have iu: "inodes u = inodes s" by (rule tx_rest_fields(2) [OF u(7)])
    have "off mod BSIZE + length (take m src) \<le> BSIZE" using m(3) by simp
    note fp = file_patch [OF less.prems(3) b this, of "view u", folded a_def f_def, OF u(6)]
    have ll: "length (logged a blks) \<le> length blks + 1" by (simp add: logged_def)
    have h: "i_dev (inodes u ! ip) = ROOTDEV" "file_ok (view u) (inodes u ! ip) nb" using less.prems(2) fp(1) iu by simp_all
    have h': "off + m + (n - (tot + m)) \<le> nb * BSIZE" "length (logged a blks) + span (off + m) (n - (tot + m)) \<le> LOGBLOCKS"
      using less.prems(5,7) mm m sp ll by linarith+
    have h'': "n - (tot + m) \<le> length (drop m src)" unfolding length_drop using less.prems(6) mm m by linarith
    obtain w blks' where w: "writei_loop ip (KernObj (drop m src)) (off + m) (tot + m) n u = Ok (n, off + m + (n - (tot + m))) w"
      "log_tx pid blks' {} w" "length blks' \<le> length (logged a blks) + span (off + m) (n - (tot + m))" "tx_rest w = tx_rest u"
      "file_ok (view w) ?x nb"
      "\<forall>k < nb * BSIZE. fbyte (view w) ?x k =
          (if off + m \<le> k \<and> k < off + m + (n - (tot + m)) then drop m src ! (k - (off + m)) else fbyte (view u) ?x k)"
      "faddr (view w) ?x ` {..<nb} = faddr (view u) ?x ` {..<nb}"
      "\<forall>b. b \<notin> faddr (view u) ?x ` {..<nb} \<longrightarrow> view w b = view u b"
      using less.hyps [OF mm(1) u(5) h(1,2) mm(2) h'(1) h'' h'(2), unfolded iu] by blast
    have pf: "f = (\<lambda>d. take (off mod BSIZE) d @ take m src @ drop (off mod BSIZE + min (length src) m) d)"
      by (simp add: f_def patch_def fun_eq_iff)
    have run: "writei_loop ip (KernObj src) off tot n s = Ok (n, off + (n - tot)) w"
      using True u(1-3) ok(1) less.prems(2) kdo3_then [OF u(4) [unfolded pf], of "writei_loop ip (KernObj (drop m src)) (off + m) (tot + m) n"] w(1) mm(2) m
      by (subst writei_loop.simps) (simp add: Let_def flip: m_def)
    have "fbyte (view w) ?x k = (if off \<le> k \<and> k < off + (n - tot) then src ! (k - off) else fbyte (view s) ?x k)"
      if "k < nb * BSIZE" for k
      using w(6) [rule_format, OF that] fp(3) [OF that] mm(2,3) m by (auto simp: add.commute)
    moreover have "view w c = view s c" if "c \<notin> faddr (view s) ?x ` {..<nb}" for c
      using w(8) fp(2,4) that by simp
    moreover have "length blks' \<le> length blks + span off (n - tot)" using w(3) ll sp mm(4) by linarith
    ultimately show ?thesis using run w(2,4,5,7) fp(2) u(7) by auto
  qed
qed

section \<open>A block outside the file, the size of the file\<close>

lemma file_frame:
  assumes ok: "file_ok v x nb" and c: "c \<notin> faddr v x ` {..<nb}" and i: "NDIRECT < nb \<Longrightarrow> c \<noteq> i_addrs x ! NDIRECT"
  shows "file_ok (v(c := d)) x nb" "k < nb * BSIZE \<Longrightarrow> fbyte (v(c := d)) x k = fbyte v x k"
proof -
  have f: "faddr (v(c := d)) x bn = faddr v x bn" if "bn < nb" for bn using i that by (auto simp: faddr_def)
  have "faddr (v(c := d)) x ` {..<nb} = faddr v x ` {..<nb}" using f by (intro image_cong) auto
  moreover have "inj_on (faddr (v(c := d)) x) {..<nb}" using ok f by (auto simp: file_ok_def inj_on_def)
  ultimately show "file_ok (v(c := d)) x nb" using ok f c unfolding file_ok_def by auto
  show "fbyte (v(c := d)) x k = fbyte v x k" if "k < nb * BSIZE"
  proof -
    have "k div BSIZE < nb" using that by (simp add: less_mult_imp_div_less)
    then show ?thesis using f c by (auto simp: fbyte_def)
  qed
qed

lemma faddr_size [simp]: "faddr v (x\<lparr>i_size := z\<rparr>) = faddr v x"
  by (auto simp: faddr_def fun_eq_iff)

lemma file_size [simp]: "fbyte v (x\<lparr>i_size := z\<rparr>) = fbyte v x" "file_ok v (x\<lparr>i_size := z\<rparr>) nb = file_ok v x nb"
  by (simp_all add: fbyte_def file_ok_def fun_eq_iff)

lemma log_tx_inodes [simp]: "log_tx pid blks L (s\<lparr>inodes := l\<rparr>) = log_tx pid blks L s" "view (s\<lparr>inodes := l\<rparr>) = view s"
  by (simp_all add: log_tx_def bc_inv_def calm_def view_def)

lemma as_int_small: "n < 2 ^ 31 \<Longrightarrow> as_int n = int n"
  by (simp add: as_int_def sint_32 uint_nat unat_of_nat_32)

lemma readi_spec:
  assumes tx: "log_tx pid blks {} s" "length blks < LOGBLOCKS" "i_dev (inodes s ! ip) = ROOTDEV" "file_ok (view s) (inodes s ! ip) nb"
    and n: "unat off + unat n \<le> nb * BSIZE" "unat off + unat n \<le> unat (i_size (inodes s ! ip))"
  shows "\<exists>t. readi ip (KernObj old) off n s =
      Ok (int (unat n), map (fbyte (view s) (inodes s ! ip)) [unat off..<unat off + unat n]) t
    \<and> log_tx pid blks {} t \<and> view t = view s \<and> tx_rest t = tx_rest s"
proof -
  have nb: "nb \<le> MAXFILE" using tx(4) by (simp add: file_ok_def)
  have "unat (off + n) = unat off + unat n" using n(1) nb by (simp add: unat_add_32)
  then have c: "\<not> (off > i_size (inodes s ! ip) \<or> off + n < off)" "\<not> off + n > i_size (inodes s ! ip)"
    using n(2) by (auto simp: word_less_nat_alt)
  have "unat n < 2 ^ 31" using n(1) nb by simp
  then show ?thesis
    using readi_loop_spec [OF tx, of 0 "unat n" "unat off" old] n(1) c as_int_small [of "unat n"] by (simp add: readi_def)
qed

lemma writei_spec:
  assumes tx: "log_tx pid blks {} s" and ip: "ip < length (inodes s)" and dev: "i_dev (inodes s ! ip) = ROOTDEV"
    and ok: "file_ok (view s) (inodes s ! ip) nb" and off: "off \<le> i_size (inodes s ! ip)"
    and n: "unat off + unat n \<le> nb * BSIZE" "unat n = length bs" and room: "length blks + span (unat off) (unat n) < LOGBLOCKS"
    and ib: "IBLOCK (i_inum (inodes s ! ip)) (sb s) \<notin> faddr (view s) (inodes s ! ip) ` {..<nb}"
      "NDIRECT < nb \<Longrightarrow> IBLOCK (i_inum (inodes s ! ip)) (sb s) \<noteq> i_addrs (inodes s ! ip) ! NDIRECT"
  shows "\<exists>t blks'. writei ip (KernObj bs) off n s = Ok (int (unat n)) t \<and> log_tx pid blks' {} t
    \<and> length blks' \<le> length blks + span (unat off) (unat n) + 1 \<and> file_ok (view t) (inodes t ! ip) nb
    \<and> inodes t = (inodes s)[ip := (inodes s ! ip)\<lparr>i_size := max (i_size (inodes s ! ip)) (off + n)\<rparr>]
    \<and> (\<forall>k < nb * BSIZE. fbyte (view t) (inodes t ! ip) k =
          (if unat off \<le> k \<and> k < unat off + unat n then bs ! (k - unat off) else fbyte (view s) (inodes s ! ip) k))"
proof -
  let ?x = "inodes s ! ip"
  let ?z = "max (i_size ?x) (off + n)"
  have nb: "nb \<le> MAXFILE" using ok by (simp add: file_ok_def)
  have un: "unat (off + n) = unat off + unat n" "of_nat (unat off + unat n) = off + n" using n(1) nb by (simp_all add: unat_add_32)
  have c: "\<not> (off > i_size ?x \<or> off + n < off)" "\<not> off + n > of_nat (MAXFILE * BSIZE)"
    using off un n(1) nb by (auto simp: word_less_nat_alt not_le word_le_nat_alt)
  obtain t1 bl where t1: "writei_loop ip (KernObj bs) (unat off) 0 (unat n) s = Ok (unat n, unat off + unat n) t1" "log_tx pid bl {} t1"
    "length bl \<le> length blks + span (unat off) (unat n)" "tx_rest t1 = tx_rest s" "file_ok (view t1) ?x nb"
    "\<forall>k < nb * BSIZE. fbyte (view t1) ?x k = (if unat off \<le> k \<and> k < unat off + unat n then bs ! (k - unat off) else fbyte (view s) ?x k)"
    "faddr (view t1) ?x ` {..<nb} = faddr (view s) ?x ` {..<nb}"
    using writei_loop_spec [OF tx dev ok, of 0 "unat n" "unat off" bs] n room by auto
  note f1 = tx_rest_fields [OF t1(4)]
  define t2 where "t2 = t1\<lparr>inodes := (inodes s)[ip := ?x\<lparr>i_size := ?z\<rparr>]\<rparr>"
  have w: "kwhen (off + n > i_size ?x) (kmod (upd_inode ip (\<lambda>x. x\<lparr>i_size := off + n\<rparr>))) t1 = Ok () t2"
  proof (cases "off + n > i_size ?x")
    case True
    then show ?thesis by (simp add: t2_def upd_inode_def f1 max_def)
  next
    case False
    then have "?x\<lparr>i_size := ?z\<rparr> = ?x" by (simp add: max_def)
    then have "t2 = t1" by (simp add: t2_def f1(2) [symmetric])
    then show ?thesis using False by simp
  qed
  have x2: "inodes t2 ! ip = ?x\<lparr>i_size := ?z\<rparr>" "view t2 = view t1" "sb t2 = sb s" "log_tx pid bl {} t2"
    using ip t1(2) by (simp_all add: t2_def f1)
  let ?ib = "IBLOCK (i_inum ?x) (sb s)"
  obtain t d where t: "iupdate ip t2 = Ok () t" "log_tx pid (logged ?ib bl) {} t" "view t = (view t2)(?ib := d)" "tx_rest t = tx_rest t2"
    using iupdate_tx [OF x2(4), of ip] t1(3) room x2 dev by auto
  have fr: "file_ok ((view t1)(?ib := d)) ?x nb" "\<forall>k < nb * BSIZE. fbyte ((view t1)(?ib := d)) ?x k = fbyte (view t1) ?x k"
    using file_frame [OF t1(5), of ?ib] ib t1(7) by auto
  have it: "inodes t = (inodes s)[ip := ?x\<lparr>i_size := ?z\<rparr>]" using tx_rest_fields(2) [OF t(4)] by (simp add: t2_def)
  have "unat n < 2 ^ 31" using n(1) nb by simp
  then have "writei ip (KernObj bs) off n s = Ok (int (unat n)) t"
    using c t1(1) w t(1) un(2) as_int_small [of "unat n"] by (simp add: writei_def)
  moreover have "length (logged ?ib bl) \<le> length blks + span (unat off) (unat n) + 1" using t1(3) by (simp add: logged_def)
  ultimately show ?thesis using t(2,3) it ip fr x2(2) t1(6) by (intro exI [of _ t] exI [of _ "logged ?ib bl"]) simp
qed

section \<open>Properties\<close>

text \<open>(C4) What \<open>writei\<close> writes, \<open>readi\<close> reads.  For a file whose blocks under the range are allocated, directly or through
  the indirect block, a write inside a transaction that has room for the blocks it touches returns the full count; reading the
  same range back returns the same bytes, also across block boundaries; every other byte of the file is unchanged, and the size of the
  file grows exactly when the range ends behind it.\<close>

theorem readi_after_writei:
  assumes "log_tx pid blks {} s" "ip < length (inodes s)" "i_dev (inodes s ! ip) = ROOTDEV"
    "file_ok (view s) (inodes s ! ip) nb" "off \<le> i_size (inodes s ! ip)" "unat off + unat n \<le> nb * BSIZE" "unat n = length bs"
    "length blks + span (unat off) (unat n) + 2 \<le> LOGBLOCKS"
    "IBLOCK (i_inum (inodes s ! ip)) (sb s) \<notin> faddr (view s) (inodes s ! ip) ` {..<nb}"
    "NDIRECT < nb \<Longrightarrow> IBLOCK (i_inum (inodes s ! ip)) (sb s) \<noteq> i_addrs (inodes s ! ip) ! NDIRECT"
  shows "\<exists>t u. writei ip (KernObj bs) off n s = Ok (int (unat n)) t \<and> readi ip (KernObj old) off n t = Ok (int (unat n), bs) u
    \<and> inodes t = (inodes s)[ip := (inodes s ! ip)\<lparr>i_size := max (i_size (inodes s ! ip)) (off + n)\<rparr>]
    \<and> (\<forall>k < nb * BSIZE. k < unat off \<or> unat off + unat n \<le> k \<longrightarrow>
          fbyte (view t) (inodes t ! ip) k = fbyte (view s) (inodes s ! ip) k)"
proof -
  have room: "length blks + span (unat off) (unat n) < LOGBLOCKS" using assms(8) by simp
  obtain t bl where t: "writei ip (KernObj bs) off n s = Ok (int (unat n)) t" "log_tx pid bl {} t"
    "length bl \<le> length blks + span (unat off) (unat n) + 1" "file_ok (view t) (inodes t ! ip) nb"
    "inodes t = (inodes s)[ip := (inodes s ! ip)\<lparr>i_size := max (i_size (inodes s ! ip)) (off + n)\<rparr>]"
    "\<forall>k < nb * BSIZE. fbyte (view t) (inodes t ! ip) k =
        (if unat off \<le> k \<and> k < unat off + unat n then bs ! (k - unat off) else fbyte (view s) (inodes s ! ip) k)"
    using writei_spec [OF assms(1-7) room assms(9,10)] by blast
  have x: "i_dev (inodes t ! ip) = ROOTDEV" "i_size (inodes t ! ip) = max (i_size (inodes s ! ip)) (off + n)"
    using t(5) assms(2,3) by simp_all
  have "nb \<le> MAXFILE" using assms(4) by (simp add: file_ok_def)
  then have "unat (off + n) = unat off + unat n" using assms(6) by (simp add: unat_add_32)
  then have sz: "unat off + unat n \<le> unat (i_size (inodes t ! ip))" unfolding x(2) by (simp add: max_def word_le_nat_alt)
  have lb: "length bl < LOGBLOCKS" using t(3) assms(8) by simp
  have "map (fbyte (view t) (inodes t ! ip)) [unat off..<unat off + unat n] = bs"
    using t(6) assms(6,7) by (intro nth_equalityI) auto
  then obtain u where "readi ip (KernObj old) off n t = Ok (int (unat n), bs) u"
    using readi_spec [OF t(2) lb x(1) t(4) assms(6) sz, of old] by auto
  then show ?thesis using t(1,5,6) by (intro exI [of _ t] exI [of _ u]) auto
qed

lemma file_ok_example: "file_ok (view itable_example) inode_example 2" "faddr (view itable_example) inode_example ` {..<2} = {300, 301}"
proof -
  have two: "{..<2 :: nat} = {0, 1}" by auto
  have a: "faddr (view itable_example) inode_example 0 = 300" "faddr (view itable_example) inode_example 1 = 301"
    by (simp_all add: faddr_def inode_example_def)
  then show "faddr (view itable_example) inode_example ` {..<2} = {300, 301}" unfolding two by simp
  show "file_ok (view itable_example) inode_example 2"
    using a itable_example_view unfolding file_ok_def two by (auto simp: less_2_cases_iff)
qed

theorem readi_after_writei_witness:
  "\<exists>t u. writei 0 (KernObj [1, 2, 3, 4]) 510 4 itable_example = Ok 4 t \<and> readi 0 (KernObj []) 510 4 t = Ok (4, [1, 2, 3, 4]) u"
proof -
  have x: "inodes itable_example ! 0 = inode_example" "0 < length (inodes itable_example)" by (simp_all add: itable_example_def)
  have i: "i_dev inode_example = ROOTDEV" "(510 :: u32) \<le> i_size inode_example" "i_inum inode_example = 9"
    by (simp_all add: inode_example_def)
  have "IBLOCK 9 (sb itable_example) \<notin> {300, 301}"
    by (simp add: IBLOCK_def itable_example_def alloc_example_def blank_kstate_def)
  moreover have "span 510 4 = 2" by (simp add: span_def)
  ultimately show ?thesis
    using readi_after_writei [OF itable_example_tx x(2), unfolded x(1), OF i(1) file_ok_example(1) i(2), of 4 "[1, 2, 3, 4]" "[]"]
    by (auto simp: i(3) file_ok_example(2))
qed

end
