(* ===== verification/KV_Printf.thy ===== *)
theory KV_Printf
  imports KV_Prelude
begin

text \<open>
  The formatted output of the kernel (kernel/printf.c), as a function from a format and its arguments to the bytes that
  go to \<open>consputc\<close>.  \<open>None\<close> stands for an argument list that does not fit the format.
\<close>

section \<open>Numbers\<close>

definition digit :: "nat \<Rightarrow> u8" where
  "digit d = (if d < 10 then 48 + of_nat d else 87 + of_nat d)"

text \<open>The digits as the \<open>do\<close> loop stores them in \<open>buf\<close>, the least significant first.\<close>
function digits_rev :: "nat \<Rightarrow> nat \<Rightarrow> u8 list" where
  "digits_rev b x = digit (x mod b) # (if b < 2 \<or> x div b = 0 then [] else digits_rev b (x div b))"
  by pat_completeness auto
termination
  by (relation "measure snd") (auto intro!: div_less_dividend simp: div_greater_zero_iff)

declare digits_rev.simps [simp del]

text \<open>\<open>printint(xx, base, sign)\<close>: \<open>long\<close> has 32 bits, and \<open>-xx\<close> of the least one is itself.\<close>
definition printint :: "u32 \<Rightarrow> nat \<Rightarrow> bool \<Rightarrow> u8 list" where
  "printint xx base sign =
     (let neg = (sign \<and> sint xx < 0);
          x = (if neg then - xx else xx);
          buf = digits_rev base (unat x) @ (if neg then [45] else [])
      in rev buf)"

text \<open>\<open>for(i = 0; i < 8; i++, x <<= 4) consputc(digits[x >> 28])\<close>.\<close>
primrec printptr_loop :: "nat \<Rightarrow> u32 \<Rightarrow> u8 list" where
  "printptr_loop 0 x = []"
| "printptr_loop (Suc k) x = digit (unat (drop_bit 28 x)) # printptr_loop k (push_bit 4 x)"

definition printptr :: "u32 \<Rightarrow> u8 list" where
  "printptr x = [48, 120] @ printptr_loop 8 x"

section \<open>Formats\<close>

datatype parg = PInt u32 | PStr "u8 list option"

fun put_str :: "u8 list option \<Rightarrow> u8 list" where
  "put_str None = [40, 110, 117, 108, 108, 41]"
| "put_str (Some s) = cstr s"

text \<open>What the conversion that starts with \<open>c0 c1 c2\<close> prints and how many characters of the format it uses: an integer conversion
  of base and sign, \<open>%p\<close>, \<open>%c\<close>, \<open>%s\<close>, \<open>%%\<close>, or an unknown sequence.\<close>
datatype conv = CInt nat bool nat | CPtr | CChar | CStr | CPct | CBad

definition classify :: "u8 \<Rightarrow> u8 \<Rightarrow> u8 \<Rightarrow> conv" where
  "classify c0 c1 c2 =
     (if c0 = 100 then CInt 10 True 1
      else if c0 = 108 \<and> c1 = 100 then CInt 10 True 2
      else if c0 = 108 \<and> c1 = 108 \<and> c2 = 100 then CInt 10 True 3
      else if c0 = 117 then CInt 10 False 1
      else if c0 = 108 \<and> c1 = 117 then CInt 10 False 2
      else if c0 = 108 \<and> c1 = 108 \<and> c2 = 117 then CInt 10 False 3
      else if c0 = 120 then CInt 16 False 1
      else if c0 = 108 \<and> c1 = 120 then CInt 16 False 2
      else if c0 = 108 \<and> c1 = 108 \<and> c2 = 120 then CInt 16 False 3
      else if c0 = 112 then CPtr
      else if c0 = 99 then CChar
      else if c0 = 115 then CStr
      else if c0 = 37 then CPct
      else CBad)"

definition fmt_at :: "u8 list \<Rightarrow> nat \<Rightarrow> u8" where
  "fmt_at fmt k = (if k < length fmt then fmt ! k else 0)"

definition arg_int :: "parg list \<Rightarrow> (u32 \<times> parg list) option" where
  "arg_int as = (case as of PInt v # rest \<Rightarrow> Some (v, rest) | _ \<Rightarrow> None)"

definition arg_str :: "parg list \<Rightarrow> (u8 list option \<times> parg list) option" where
  "arg_str as = (case as of PStr v # rest \<Rightarrow> Some (v, rest) | _ \<Rightarrow> None)"

definition emit :: "u8 list \<Rightarrow> u8 list option \<Rightarrow> u8 list option" where
  "emit out r = map_option (\<lambda>rest. out @ rest) r"

text \<open>The format loop; the format is the bytes of the C string without its NUL.\<close>
function printf_loop :: "u8 list \<Rightarrow> parg list \<Rightarrow> u8 list option" where
  "printf_loop fmt as =
     (case fmt of
        [] \<Rightarrow> Some []
      | cx # fmt1 \<Rightarrow>
          if cx \<noteq> 37 then emit [cx] (printf_loop fmt1 as)
          else if fmt1 = [] then Some []
          else case classify (hd fmt1) (fmt_at fmt1 1) (fmt_at fmt1 2) of
              CInt base sign used \<Rightarrow>
                (case arg_int as of None \<Rightarrow> None
                 | Some (v, rest) \<Rightarrow> emit (printint v base sign) (printf_loop (drop used fmt1) rest))
            | CPtr \<Rightarrow> (case arg_int as of None \<Rightarrow> None | Some (v, rest) \<Rightarrow> emit (printptr v) (printf_loop (tl fmt1) rest))
            | CChar \<Rightarrow> (case arg_int as of None \<Rightarrow> None | Some (v, rest) \<Rightarrow> emit [ucast v] (printf_loop (tl fmt1) rest))
            | CStr \<Rightarrow> (case arg_str as of None \<Rightarrow> None | Some (v, rest) \<Rightarrow> emit (put_str v) (printf_loop (tl fmt1) rest))
            | CPct \<Rightarrow> emit [37] (printf_loop (tl fmt1) as)
            | CBad \<Rightarrow> emit [37, hd fmt1] (printf_loop (tl fmt1) as))"
  by pat_completeness auto
termination
  by (relation "measure (\<lambda>(fmt, _). length fmt)") (auto simp: less_Suc_eq_le)

declare printf_loop.simps [simp del]


section \<open>Reading back what was printed\<close>

definition undigit :: "u8 \<Rightarrow> nat" where
  "undigit c = (if c < 58 then unat c - 48 else unat c - 87)"

definition value_of :: "nat \<Rightarrow> u8 list \<Rightarrow> nat" where
  "value_of b ds = foldl (\<lambda>v c. v * b + undigit c) 0 ds"

text \<open>The integer that a reader of the output sees.\<close>
definition int_value :: "nat \<Rightarrow> u8 list \<Rightarrow> int" where
  "int_value b out = (if out \<noteq> [] \<and> hd out = 45 then - int (value_of b (tl out)) else int (value_of b out))"

lemma undigit_digit:
  assumes "d < 16"
  shows "undigit (digit d) = d \<and> digit d \<noteq> 45"
proof -
  have "\<forall>d \<in> set [0..<16]. undigit (digit d) = d \<and> digit d \<noteq> 45"
    unfolding undigit_def digit_def by code_simp
  then show ?thesis using assms by simp
qed

lemma digits_rev_ne [simp]: "digits_rev b x \<noteq> []"
  by (subst digits_rev.simps) simp

lemma value_of_digits:
  assumes "2 \<le> b" "b \<le> 16"
  shows "value_of b (rev (digits_rev b x)) = x \<and> (\<forall>c \<in> set (digits_rev b x). c \<noteq> 45)"
  using assms
proof (induction b x rule: digits_rev.induct)
  case (1 b x)
  have m: "x mod b < 16" using 1(2,3) mod_less_divisor [of b x] by linarith
  show ?case
  proof (cases "x div b = 0")
    case True
    then have "x mod b = x" using 1(2) by (metis div_mult_mod_eq add_0 mult_zero_left)
    then show ?thesis using undigit_digit [OF m] True by (subst (1 2) digits_rev.simps) (simp add: value_of_def)
  next
    case False
    have ih: "value_of b (rev (digits_rev b (x div b))) = x div b" "\<forall>c \<in> set (digits_rev b (x div b)). c \<noteq> 45"
      using 1(1) [OF _ 1(2,3)] False 1(2) by auto
    have st: "digits_rev b x = digit (x mod b) # digits_rev b (x div b)"
      using False 1(2) by (subst digits_rev.simps) simp
    show ?thesis unfolding st using ih undigit_digit [OF m] div_mult_mod_eq [of x b] by (simp add: value_of_def)
  qed
qed

lemma digits_rev_length:
  assumes "2 \<le> b" "x < b ^ Suc k"
  shows "length (digits_rev b x) \<le> Suc k"
  using assms
proof (induction k arbitrary: x)
  case 0
  then have "x div b = 0" by simp
  then show ?case by (subst digits_rev.simps) simp
next
  case (Suc k)
  have "x div b < b ^ Suc k" using Suc.prems by (simp add: less_mult_imp_div_less mult.commute)
  then have "length (digits_rev b (x div b)) \<le> Suc k" using Suc by blast
  then show ?case by (subst digits_rev.simps) simp
qed

lemma printint_nonneg:
  assumes "2 \<le> b" "b \<le> 16"
  shows "int_value b (rev (digits_rev b x)) = int x"
proof -
  have "hd (rev (digits_rev b x)) \<noteq> 45" using value_of_digits [OF assms, of x] by (metis digits_rev_ne hd_in_set rev_is_Nil_conv set_rev)
  then show ?thesis using value_of_digits [OF assms, of x] by (simp add: int_value_def)
qed

lemma printint_neg:
  assumes "2 \<le> b" "b \<le> 16"
  shows "int_value b (45 # rev (digits_rev b x)) = - int x"
  using value_of_digits [OF assms, of x] by (simp add: int_value_def)

lemma unat_uminus_neg: "sint (x :: u32) < 0 \<Longrightarrow> int (unat (- x)) = - sint x"
  using uint_bounded [of x] by (simp add: sint_32 uint_word_ariths zmod_zminus1_eq_if split: if_splits)

section \<open>Properties\<close>

text \<open>\<open>printint\<close> prints the number it was given: reading the output back gives the signed value for \<open>%d\<close> and the unsigned one for
  \<open>%u\<close> and \<open>%x\<close>, for every 32-bit value including the least one, and the digits always fit the local buffer of 20 bytes.\<close>

theorem printint_roundtrip:
  assumes "base = 10 \<or> base = 16"
  shows "int_value base (printint xx base sign) = (if sign then sint xx else uint xx) \<and> length (printint xx base sign) \<le> 20"
proof -
  have b: "2 \<le> base" "base \<le> 16" using assms by auto
  have len: "length (digits_rev base (unat y)) \<le> 10" for y :: u32
  proof -
    have "unat y < 4294967296" using unsigned_less [where w = y and ?'a = nat] by simp
    then show ?thesis using digits_rev_length [of base "unat y" 9] assms by auto
  qed
  show ?thesis
  proof (cases "sign \<and> sint xx < 0")
    case True
    then show ?thesis using printint_neg [OF b, of "unat (- xx)"] unat_uminus_neg [of xx] len [of "- xx"] by (simp add: printint_def)
  next
    case False
    have "sign \<Longrightarrow> sint xx = uint xx" using False uint_bounded [of xx] by (simp add: sint_32 split: if_splits)
    then show ?thesis using False printint_nonneg [OF b, of "unat xx"] len [of xx] by (auto simp: printint_def)
  qed
qed

theorem printint_roundtrip_witness:
  "int_value 10 (printint 0x80000000 10 True) = - 2147483648 \<and> int_value 16 (printint 0xBEEF 16 False) = 48879"
  using printint_roundtrip [of 10 "0x80000000" True] printint_roundtrip [of 16 "0xBEEF" False] by simp

end
