(* ===== verification/KV_Console.thy ===== *)
theory KV_Console
  imports KV_Fs KV_Printf
begin

text \<open>
  The console (kernel/console.c), its 16550a driver (kernel/uart.c), and the output of \<open>printf\<close> and \<open>procdump\<close>.  The bytes written to the transmit register
  are \<open>uart_out\<close>; the bytes an interrupt finds in the receive FIFO are an argument of \<open>uartintr\<close>, as is whether the
  transmitter is idle.
\<close>

abbreviation INPUT_BUF_SIZE :: nat where "INPUT_BUF_SIZE \<equiv> 128"

section \<open>Output\<close>

definition uartputc_sync :: "u8 \<Rightarrow> unit K" where
  "uartputc_sync c = kmod (\<lambda>s. s\<lparr>uart_out := uart_out s @ [c]\<rparr>)"

text \<open>\<open>consputc(c)\<close> for a character, and \<open>consputc(BACKSPACE)\<close>.\<close>
definition consputc :: "u8 \<Rightarrow> unit K" where
  "consputc c = uartputc_sync c"

definition consputc_backspace :: "unit K" where
  "consputc_backspace = kdo [uartputc_sync 8, uartputc_sync 32, uartputc_sync 8]"

definition printf :: "u8 list \<Rightarrow> parg list \<Rightarrow> unit K" where
  "printf fmt as = kdo [
     acquire LK_pr,
     case printf_loop fmt as of Some out \<Rightarrow> kfor out consputc | None \<Rightarrow> kpanic ''va_arg'',
     release LK_pr]"

definition state_name :: "procstate \<Rightarrow> u8 list" where
  "state_name st = (case st of
       UNUSED \<Rightarrow> [117, 110, 117, 115, 101, 100]
     | USED \<Rightarrow> [117, 115, 101, 100]
     | SLEEPING \<Rightarrow> [115, 108, 101, 101, 112, 32]
     | RUNNABLE \<Rightarrow> [114, 117, 110, 98, 108, 101]
     | RUNNING \<Rightarrow> [114, 117, 110, 32, 32, 32]
     | ZOMBIE \<Rightarrow> [122, 111, 109, 98, 105, 101])"

definition procdump :: "unit K" where
  "procdump = kdo [
     printf [10] [],
     kfor [0..<NPROC] (\<lambda>p.
       kbind (kget (\<lambda>s. procs s ! p)) (\<lambda>x.
       kwhen (p_state x \<noteq> UNUSED) (kdo [
         printf [37, 100, 32, 37, 115, 32, 37, 115] [PInt (p_pid x), PStr (Some (state_name (p_state x))), PStr (Some (p_name x))],
         printf [10] []])))]"

text \<open>\<open>uartwrite\<close> from its loop on, with \<open>tx_lock\<close> held; a process that slept enters it again with the bytes that are left.\<close>
primrec uartwrite_loop :: "u8 list \<Rightarrow> unit K" where
  "uartwrite_loop [] = release LK_tx"
| "uartwrite_loop (c # cs) =
     kbind (kget tx_busy) (\<lambda>busy.
     if busy then kblock CH_tx LK_tx
     else kbind (kmod (\<lambda>s. s\<lparr>uart_out := uart_out s @ [c], tx_busy := True\<rparr>)) (\<lambda>_. uartwrite_loop cs))"

definition uartwrite :: "u8 list \<Rightarrow> unit K" where
  "uartwrite bs = kbind (acquire LK_tx) (\<lambda>_. uartwrite_loop bs)"

definition uartwrite_resume :: "u8 list \<Rightarrow> unit K" where
  "uartwrite_resume bs = kbind (sleep_resume LK_tx) (\<lambda>_. uartwrite_loop bs)"

text \<open>Chunks of at most 32 bytes, the size of the local buffer.\<close>
function consolewrite_loop :: "kptr \<Rightarrow> int \<Rightarrow> int \<Rightarrow> int K" where
  "consolewrite_loop src i n =
     (if i < n
      then let nn = min 32 (n - i) in
        kbind (either_copyin src (nat nn)) (\<lambda>(r, bs).
        if r = -1 then kret i
        else kbind (uartwrite bs) (\<lambda>_. consolewrite_loop (kptr_add src (nat nn)) (i + nn) n))
      else kret i)"
  by pat_completeness auto
termination
  by (relation "measure (\<lambda>(_, i, n). nat (n - i))") auto

declare consolewrite_loop.simps [simp del]

definition consolewrite :: "kptr \<Rightarrow> int \<Rightarrow> int K" where
  "consolewrite src n = consolewrite_loop src 0 n"

section \<open>Input\<close>

definition upd_cons :: "(cons \<Rightarrow> cons) \<Rightarrow> kstate \<Rightarrow> kstate" where
  "upd_cons f s = s\<lparr>kcons := f (kcons s)\<rparr>"

definition cons_at :: "cons \<Rightarrow> u32 \<Rightarrow> u8" where
  "cons_at c i = c_buf c ! (unat i mod INPUT_BUF_SIZE)"

text \<open>\<open>consoleread\<close> from its loop on, with \<open>cons.lock\<close> held; \<open>n\<close> bytes of \<open>target\<close> are still wanted.\<close>
function consoleread_loop :: "kptr \<Rightarrow> nat \<Rightarrow> nat \<Rightarrow> int K" where
  "consoleread_loop dst target n =
     (if n = 0 then kbind (release LK_cons) (\<lambda>_. kret (int (target - n)))
      else kbind (kget kcons) (\<lambda>c.
        if c_r c = c_w c then
          kbind myproc (\<lambda>me. case me of
            None \<Rightarrow> kpanic ''null proc''
          | Some p \<Rightarrow> kbind (killed p) (\<lambda>k.
              if k then kbind (release LK_cons) (\<lambda>_. kret (-1)) else kblock CH_cons LK_cons))
        else let ch = cons_at c (c_r c) in
          kbind (kmod (upd_cons (\<lambda>c. c\<lparr>c_r := c_r c + 1\<rparr>))) (\<lambda>_.
          if ch = 4 then
            kbind (kwhen (n < target) (kmod (upd_cons (\<lambda>c. c\<lparr>c_r := c_r c - 1\<rparr>)))) (\<lambda>_.
            kbind (release LK_cons) (\<lambda>_. kret (int (target - n))))
          else kbind (either_copyout dst [ch]) (\<lambda>r.
            if r = -1 then kbind (release LK_cons) (\<lambda>_. kret (int (target - n)))
            else if ch = 10 then kbind (release LK_cons) (\<lambda>_. kret (int (target - (n - 1))))
            else consoleread_loop (kptr_add dst 1) target (n - 1)))))"
  by pat_completeness auto
termination
  by (relation "measure (\<lambda>(_, _, n). n)") auto

declare consoleread_loop.simps [simp del]

definition consoleread :: "kptr \<Rightarrow> int \<Rightarrow> int K" where
  "consoleread dst n = kbind (acquire LK_cons) (\<lambda>_. consoleread_loop dst (nat n) (nat n))"

text \<open>The kill-line loop of \<open>consoleintr\<close>; \<open>k\<close> bounds the number of characters between \<open>w\<close> and \<open>e\<close>.\<close>
primrec killline :: "nat \<Rightarrow> unit K" where
  "killline 0 = kret ()"
| "killline (Suc k) =
     kbind (kget kcons) (\<lambda>c.
     kwhen (c_e c \<noteq> c_w c \<and> cons_at c (c_e c - 1) \<noteq> 10) (kdo [
       kmod (upd_cons (\<lambda>c. c\<lparr>c_e := c_e c - 1\<rparr>)),
       consputc_backspace,
       killline k]))"

definition cons_store :: "u8 \<Rightarrow> cons \<Rightarrow> cons" where
  "cons_store ch c = c\<lparr>c_buf := (c_buf c)[unat (c_e c) mod INPUT_BUF_SIZE := ch], c_e := c_e c + 1\<rparr>"

definition consoleintr :: "u8 \<Rightarrow> unit K" where
  "consoleintr ch = kdo [
     acquire LK_cons,
     if ch = 16 then procdump
     else if ch = 21 then kbind (kget kcons) (\<lambda>c. killline (unat (c_e c - c_w c)))
     else if ch = 8 \<or> ch = 127 then
       kbind (kget kcons) (\<lambda>c.
       kwhen (c_e c \<noteq> c_w c) (kdo [
         kmod (upd_cons (\<lambda>c. c\<lparr>c_e := c_e c - 1\<rparr>)),
         consputc_backspace]))
     else
       kbind (kget kcons) (\<lambda>c.
       kwhen (ch \<noteq> 0 \<and> c_e c - c_r c < of_nat INPUT_BUF_SIZE)
         (let ch = (if ch = 13 then 10 else ch) in kdo [
           consputc ch,
           kmod (upd_cons (cons_store ch)),
           kbind (kget kcons) (\<lambda>c.
             kwhen (ch = 10 \<or> ch = 4 \<or> c_e c - c_r c = of_nat INPUT_BUF_SIZE) (kdo [
               kmod (upd_cons (\<lambda>c. c\<lparr>c_w := c_e c\<rparr>)),
               wakeup CH_cons]))])),
     release LK_cons]"

definition uartintr :: "bool \<Rightarrow> u8 list \<Rightarrow> unit K" where
  "uartintr tx_idle rx = kdo [
     acquire LK_tx,
     kwhen tx_idle (kdo [kmod (\<lambda>s. s\<lparr>tx_busy := False\<rparr>), wakeup CH_tx]),
     release LK_tx,
     kfor rx consoleintr]"


section \<open>The input buffer\<close>

text \<open>The indices run through all 32-bit values; the lines that are complete lie between \<open>r\<close> and \<open>w\<close>, the line being edited between \<open>w\<close> and \<open>e\<close>.\<close>

definition cons_inv :: "cons \<Rightarrow> bool" where
  "cons_inv c \<longleftrightarrow> length (c_buf c) = INPUT_BUF_SIZE \<and> c_w c - c_r c \<le> c_e c - c_r c \<and> c_e c - c_r c \<le> of_nat INPUT_BUF_SIZE"

definition complete :: "cons \<Rightarrow> u8 list" where
  "complete c = map (\<lambda>i. cons_at c (c_r c + of_nat i)) [0..<unat (c_w c - c_r c)]"

lemma unat_index_128: "unat (r + of_nat i :: u32) mod 128 = (unat r + i) mod 128"
proof -
  have "unat (r + of_nat i) = (unat r + i mod 4294967296) mod 4294967296" by (simp add: unat_add_32 unat_of_nat take_bit_eq_mod)
  also have "\<dots> = (unat r + i) mod 4294967296" by (simp add: mod_add_right_eq)
  finally show ?thesis by (simp add: mod_mod_cancel)
qed

lemma ring_index_neq:
  assumes "i < n" "n < 128"
  shows "unat (r + of_nat n :: u32) mod 128 \<noteq> unat (r + of_nat i) mod 128"
proof
  assume "unat (r + of_nat n) mod 128 = unat (r + of_nat i) mod 128"
  then have "(unat r + n) mod 128 = (unat r + i) mod 128" by (simp only: unat_index_128)
  then have "128 dvd (unat r + n) - (unat r + i)" using mod_eq_dvd_iff_nat assms(1) by (metis add_left_mono less_imp_le)
  then show False using assms by (auto dest: dvd_imp_le)
qed

lemma cons_inv_erase:
  assumes "cons_inv c" "c_e c \<noteq> c_w c"
  shows "cons_inv (c\<lparr>c_e := c_e c - 1\<rparr>)" "complete (c\<lparr>c_e := c_e c - 1\<rparr>) = complete c"
proof -
  let ?a = "c_w c - c_r c" and ?b = "c_e c - c_r c"
  have lt: "?a < ?b" using assms by (auto simp: cons_inv_def order.strict_iff_order)
  then have "?b \<noteq> 0" by auto
  then have "unat (?b - 1) = unat ?b - 1" by (rule unat_minus_one)
  then have "unat (c_e c - 1 - c_r c) = unat ?b - 1" unfolding cancel_ab_semigroup_add_class.diff_right_commute [of "c_e c" 1 "c_r c"] .
  then show "cons_inv (c\<lparr>c_e := c_e c - 1\<rparr>)" using assms(1) lt by (auto simp: cons_inv_def word_less_nat_alt word_le_nat_alt)
qed (simp add: complete_def cons_at_def)

lemma cons_inv_store:
  assumes "cons_inv c" "c_e c - c_r c < of_nat INPUT_BUF_SIZE"
  shows "cons_inv (cons_store ch c)" "complete (cons_store ch c) = complete c"
proof -
  let ?n = "unat (c_e c - c_r c)"
  have n: "?n < INPUT_BUF_SIZE" using assms(2) by (simp add: word_less_nat_alt)
  have e1: "unat (c_e c + 1 - c_r c) = Suc ?n" by (rule unat_diff_Suc) (use n in simp)
  show "cons_inv (cons_store ch c)" using assms(1) n e1 by (auto simp: cons_inv_def cons_store_def word_le_nat_alt)
  have "unat (c_e c) mod 128 \<noteq> unat (c_r c + of_nat i) mod 128" if "i < unat (c_w c - c_r c)" for i
  proof -
    have "i < ?n" using that assms(1) by (auto simp: cons_inv_def word_le_nat_alt)
    from ring_index_neq [OF this, of "c_r c"] n show ?thesis by simp
  qed
  then show "complete (cons_store ch c) = complete c"
    by (auto simp: complete_def cons_store_def cons_at_def)
qed

lemma cons_inv_commit:
  assumes "cons_inv c"
  shows "cons_inv (c\<lparr>c_w := c_e c\<rparr>)" "\<exists>rest. complete (c\<lparr>c_w := c_e c\<rparr>) = complete c @ rest"
proof -
  show "cons_inv (c\<lparr>c_w := c_e c\<rparr>)" using assms by (simp add: cons_inv_def)
  let ?f = "\<lambda>i. cons_at c (c_r c + of_nat i)" and ?m = "unat (c_w c - c_r c)" and ?n = "unat (c_e c - c_r c)"
  have "?m \<le> ?n" using assms by (simp add: cons_inv_def word_le_nat_alt)
  then have "[0..<?n] = [0..<?m] @ [?m..<?n]" by (metis le_add_diff_inverse upt_add_eq_append zero_le)
  then have "map ?f [0..<?n] = complete c @ map ?f [?m..<?n]" by (simp only: complete_def map_append)
  moreover have "c_r (c\<lparr>c_w := c_e c\<rparr>) = c_r c" "c_buf (c\<lparr>c_w := c_e c\<rparr>) = c_buf c" "c_w (c\<lparr>c_w := c_e c\<rparr>) = c_e c" by simp_all
  then have "complete (c\<lparr>c_w := c_e c\<rparr>) = map ?f [0..<?n]" by (simp only: complete_def cons_at_def)
  ultimately show "\<exists>rest. complete (c\<lparr>c_w := c_e c\<rparr>) = complete c @ rest" by metis
qed

lemma preserves_kcons [preserves_intros]:
  "preserves kcons (acquire lk)" "preserves kcons (release lk)" "preserves kcons (wakeup ch)" "preserves kcons (consputc c)"
  "preserves kcons consputc_backspace" "preserves kcons (printf fmt as)" "preserves kcons procdump"
proof -
  show l: "preserves kcons (acquire lk)" "preserves kcons (release lk)" "preserves kcons (wakeup ch)" for lk
    by (auto intro!: preserves_locks preserves_wakeup)
  have u: "preserves kcons (uartputc_sync c)" for c unfolding uartputc_sync_def by (rule preserves_kmod) simp
  show c: "preserves kcons (consputc c)" for c unfolding consputc_def by (rule u)
  show "preserves kcons consputc_backspace" unfolding consputc_backspace_def by (intro preserves_intros u)
  show p: "preserves kcons (printf fmt as)" for fmt as unfolding printf_def by (intro preserves_intros l c)
  show "preserves kcons procdump" unfolding procdump_def by (intro preserves_intros p)
qed

lemma killline_keeps:
  "killline k s = Ok () t \<Longrightarrow> cons_inv (kcons s) \<Longrightarrow> cons_inv (kcons t) \<and> complete (kcons t) = complete (kcons s)"
proof (induction k arbitrary: s)
  case (Suc k)
  show ?case
  proof (cases "c_e (kcons s) \<noteq> c_w (kcons s) \<and> cons_at (kcons s) (c_e (kcons s) - 1) \<noteq> 10")
    case True
    then obtain u where u: "consputc_backspace (upd_cons (\<lambda>c. c\<lparr>c_e := c_e c - 1\<rparr>) s) = Ok () u" "killline k u = Ok () t"
      using Suc.prems(1) by (auto split: outcome.splits)
    have "kcons u = (kcons s)\<lparr>c_e := c_e (kcons s) - 1\<rparr>"
      using preservesD [OF preserves_kcons(5) u(1)] by (simp add: upd_cons_def)
    then show ?thesis using Suc.IH [OF u(2)] cons_inv_erase [OF Suc.prems(2)] True by simp
  next
    case False
    then show ?thesis using Suc.prems by auto
  qed
qed simp


lemma killline_stops:
  "killline k s = Ok () t \<Longrightarrow> unat (c_e (kcons s) - c_w (kcons s)) \<le> k \<Longrightarrow>
     c_e (kcons t) = c_w (kcons t) \<or> cons_at (kcons t) (c_e (kcons t) - 1) = 10"
proof (induction k arbitrary: s)
  case 0
  then have "c_e (kcons s) - c_w (kcons s) = 0" by (simp add: unat_eq_0)
  then show ?case using 0 by simp
next
  case (Suc k)
  show ?case
  proof (cases "c_e (kcons s) \<noteq> c_w (kcons s) \<and> cons_at (kcons s) (c_e (kcons s) - 1) \<noteq> 10")
    case True
    then obtain u where u: "consputc_backspace (upd_cons (\<lambda>c. c\<lparr>c_e := c_e c - 1\<rparr>) s) = Ok () u" "killline k u = Ok () t"
      using Suc.prems(1) by (auto split: outcome.splits)
    have ku: "kcons u = (kcons s)\<lparr>c_e := c_e (kcons s) - 1\<rparr>"
      using preservesD [OF preserves_kcons(5) u(1)] by (simp add: upd_cons_def)
    have "c_e (kcons s) - c_w (kcons s) \<noteq> 0" using True by simp
    then have "unat (c_e (kcons s) - c_w (kcons s) - 1) = unat (c_e (kcons s) - c_w (kcons s)) - 1" by (rule unat_minus_one)
    then have "unat (c_e (kcons s) - 1 - c_w (kcons s)) \<le> k" using Suc.prems(2)
      unfolding cancel_ab_semigroup_add_class.diff_right_commute [of "c_e (kcons s)" 1] by simp
    then show ?thesis using Suc.IH [OF u(2)] ku by simp
  next
    case False
    then show ?thesis using Suc.prems by auto
  qed
qed

lemma consoleintr_default:
  assumes "kbind (kget kcons) (\<lambda>c.
       kwhen (ch \<noteq> 0 \<and> c_e c - c_r c < of_nat INPUT_BUF_SIZE)
         (let ch = (if ch = 13 then 10 else ch) in kdo [
           consputc ch,
           kmod (upd_cons (cons_store ch)),
           kbind (kget kcons) (\<lambda>c.
             kwhen (ch = 10 \<or> ch = 4 \<or> c_e c - c_r c = of_nat INPUT_BUF_SIZE) (kdo [
               kmod (upd_cons (\<lambda>c. c\<lparr>c_w := c_e c\<rparr>)),
               wakeup CH_cons]))])) s = Ok () t" and inv: "cons_inv (kcons s)"
  shows "cons_inv (kcons t) \<and> (\<exists>rest. complete (kcons t) = complete (kcons s) @ rest)"
proof (cases "ch \<noteq> 0 \<and> c_e (kcons s) - c_r (kcons s) < of_nat INPUT_BUF_SIZE")
  case True
  define ch' where "ch' = (if ch = 13 then 10 else ch)"
  obtain u where u: "consputc ch' s = Ok () u"
    "kbind (kmod (upd_cons (cons_store ch'))) (\<lambda>_. kbind (kget kcons) (\<lambda>c.
       kwhen (ch' = 10 \<or> ch' = 4 \<or> c_e c - c_r c = of_nat INPUT_BUF_SIZE) (kdo [
         kmod (upd_cons (\<lambda>c. c\<lparr>c_w := c_e c\<rparr>)), wakeup CH_cons]))) u = Ok () t"
    using assms(1) True by (auto simp: Let_def ch'_def split: outcome.splits)
  have ku: "kcons u = kcons s" using preservesD [OF preserves_kcons(4) u(1)] .
  let ?c = "cons_store ch' (kcons s)"
  have st: "cons_inv ?c" "complete ?c = complete (kcons s)" using cons_inv_store [OF inv] True by auto
  have "kcons t = ?c \<or> kcons t = ?c\<lparr>c_w := c_e ?c\<rparr>"
    using u(2) ku preservesD [OF preserves_kcons(3)] by (fastforce simp: upd_cons_def split: if_splits outcome.splits)
  then show ?thesis using st cons_inv_commit [OF st(1)] by auto
next
  case False
  then show ?thesis using assms by (auto split: if_splits)
qed

section \<open>Properties\<close>

text \<open>(C24) Input editing never touches a line that is already complete.  Whatever character arrives, \<open>consoleintr\<close> keeps the ring buffer's
  indices in order (at most \<open>INPUT_BUF_SIZE\<close> characters between \<open>r\<close> and \<open>e\<close>, with \<open>w\<close> in between, also when the counters
  wrap around), and the characters that a reader may already take stay the same, with possibly more behind them.\<close>

theorem consoleintr_keeps_lines:
  assumes "consoleintr ch s = Ok () t" "cons_inv (kcons s)"
  shows "cons_inv (kcons t) \<and> (\<exists>rest. complete (kcons t) = complete (kcons s) @ rest)"
proof -
  note k = preserves_kcons [THEN preservesD]
  obtain s1 t1 where s1: "acquire LK_cons s = Ok () s1" and t1: "release LK_cons t1 = Ok () t"
    and body: "(if ch = 16 then procdump
     else if ch = 21 then kbind (kget kcons) (\<lambda>c. killline (unat (c_e c - c_w c)))
     else if ch = 8 \<or> ch = 127 then
       kbind (kget kcons) (\<lambda>c.
       kwhen (c_e c \<noteq> c_w c) (kdo [
         kmod (upd_cons (\<lambda>c. c\<lparr>c_e := c_e c - 1\<rparr>)),
         consputc_backspace]))
     else
       kbind (kget kcons) (\<lambda>c.
       kwhen (ch \<noteq> 0 \<and> c_e c - c_r c < of_nat INPUT_BUF_SIZE)
         (let ch = (if ch = 13 then 10 else ch) in kdo [
           consputc ch,
           kmod (upd_cons (cons_store ch)),
           kbind (kget kcons) (\<lambda>c.
             kwhen (ch = 10 \<or> ch = 4 \<or> c_e c - c_r c = of_nat INPUT_BUF_SIZE) (kdo [
               kmod (upd_cons (\<lambda>c. c\<lparr>c_w := c_e c\<rparr>)),
               wakeup CH_cons]))]))) s1 = Ok () t1"
    using assms(1) unfolding consoleintr_def kdo.simps kbind_ok_iff by auto
  have ks: "kcons s1 = kcons s" "kcons t = kcons t1" using k(1) [OF s1] k(2) [OF t1] by simp_all
  have inv: "cons_inv (kcons s1)" using assms(2) ks by simp
  consider "ch = 16" | "ch = 21" | "ch = 8 \<or> ch = 127" | "ch \<noteq> 16" "ch \<noteq> 21" "ch \<noteq> 8" "ch \<noteq> 127" by blast
  then have "cons_inv (kcons t1) \<and> (\<exists>rest. complete (kcons t1) = complete (kcons s1) @ rest)"
  proof cases
    case 1
    then show ?thesis using body k(7) inv by auto
  next
    case 2
    then show ?thesis using body killline_keeps inv by auto
  next
    case 3
    have "kcons t1 = kcons s1 \<or> c_e (kcons s1) \<noteq> c_w (kcons s1) \<and> kcons t1 = (kcons s1)\<lparr>c_e := c_e (kcons s1) - 1\<rparr>"
      using body 3 k(5) by (fastforce simp: upd_cons_def split: if_splits outcome.splits)
    then show ?thesis using inv cons_inv_erase [OF inv] by auto
  next
    case 4
    then show ?thesis using body consoleintr_default [OF _ inv, of ch t1] by auto
  qed
  then show ?thesis using ks by simp
qed

definition cons_example :: kstate where
  "cons_example = blank_kstate\<lparr>procs := replicate 64 proc_example,
     kcons := \<lparr>c_buf = (replicate 128 0)[127 := 104, 0 := 105], c_r = 0xFFFFFFFF, c_w = 0xFFFFFFFF, c_e = 1\<rparr>\<rparr>"

theorem consoleintr_keeps_lines_witness:
  "\<exists>t. consoleintr 10 cons_example = Ok () t \<and> cons_inv (kcons t)"
proof -
  have inv: "cons_inv (kcons cons_example)" by (simp add: cons_inv_def cons_example_def)
  have w: "no_proc_lock s \<Longrightarrow> length (procs s) = NPROC \<Longrightarrow> \<exists>t. wakeup ch s = Ok () t \<and> held t = held s" for ch s
    using wakeup_run by auto
  let ?u = "cons_example\<lparr>held := {LK_cons}, uart_out := [10],
    kcons := \<lparr>c_buf = (replicate 128 0)[127 := 104, 0 := 105, 1 := 10], c_r = 0xFFFFFFFF, c_w = 2, c_e = 2\<rparr>\<rparr>"
  obtain t where t: "wakeup CH_cons ?u = Ok () t" "held t = {LK_cons}"
    using w [of ?u CH_cons] by (auto simp: no_proc_lock_def cons_example_def)
  have "consoleintr 10 cons_example = Ok () (t\<lparr>held := {}\<rparr>)"
    using t by (simp add: consoleintr_def cons_example_def blank_kstate_def consputc_def uartputc_sync_def upd_cons_def cons_store_def Let_def)
  then show ?thesis using consoleintr_keeps_lines [OF _ inv] by blast
qed


text \<open>(C25) The kill-line loop of \<open>consoleintr\<close> always finishes its work: after control-U the line being edited is empty, or it ends
  just behind a newline, however many characters it had and also when the indices have wrapped around.\<close>

theorem killline_erases_line:
  assumes "consoleintr 21 s = Ok () t"
  shows "c_e (kcons t) = c_w (kcons t) \<or> cons_at (kcons t) (c_e (kcons t) - 1) = 10"
proof -
  obtain s1 t1 where "acquire LK_cons s = Ok () s1" "killline (unat (c_e (kcons s1) - c_w (kcons s1))) s1 = Ok () t1"
    "release LK_cons t1 = Ok () t"
    using assms by (auto simp: consoleintr_def split: outcome.splits if_splits)
  then show ?thesis using killline_stops preservesD [OF preserves_kcons(2), of LK_cons t1 "()" t] by simp
qed

theorem killline_erases_line_witness:
  "\<exists>t. consoleintr 21 cons_example = Ok () t \<and> (c_e (kcons t) = c_w (kcons t) \<or> cons_at (kcons t) (c_e (kcons t) - 1) = 10)"
proof -
  have two: "killline 2 s = killline (Suc (Suc 0)) s" for s by (simp only: numeral_2_eq_2)
  have "\<exists>t. consoleintr 21 cons_example = Ok () t"
    by (simp add: consoleintr_def cons_example_def blank_kstate_def consputc_backspace_def uartputc_sync_def upd_cons_def cons_at_def two)
  then show ?thesis using killline_erases_line by blast
qed

end
