(* ===== verification/KV_File.thy ===== *)
theory KV_File
  imports KV_Console
begin

text \<open>
  The open-file table (kernel/file.c) and \<open>pipealloc\<close> (kernel/pipe.c).  An open file is named by its index in \<open>ftable\<close>.  The device
  switch \<open>devsw\<close> is as \<open>consoleinit\<close> leaves it: the console is the only device with functions.
\<close>

abbreviation CONSOLE :: nat where "CONSOLE \<equiv> 1"

section \<open>Operations\<close>

definition upd_file :: "nat \<Rightarrow> (kfile \<Rightarrow> kfile) \<Rightarrow> kstate \<Rightarrow> kstate" where
  "upd_file f g s = s\<lparr>files := (files s)[f := g (files s ! f)]\<rparr>"

definition filealloc :: "nat option K" where
  "filealloc =
     kbind (acquire LK_ftable) (\<lambda>_.
     kbind (kget (\<lambda>s. find (\<lambda>f. f_ref (files s ! f) = 0) [0..<NFILE])) (\<lambda>r.
     kbind (case r of Some f \<Rightarrow> kmod (upd_file f (\<lambda>x. x\<lparr>f_ref := 1\<rparr>)) | None \<Rightarrow> kret ()) (\<lambda>_.
     kbind (release LK_ftable) (\<lambda>_. kret r))))"

definition filedup :: "nat \<Rightarrow> nat K" where
  "filedup f =
     kbind (acquire LK_ftable) (\<lambda>_.
     kbind (kget (\<lambda>s. f_ref (files s ! f))) (\<lambda>ref.
     if ref < 1 then kpanic ''filedup''
     else kbind (kmod (upd_file f (\<lambda>x. x\<lparr>f_ref := f_ref x + 1\<rparr>))) (\<lambda>_.
       kbind (release LK_ftable) (\<lambda>_. kret f))))"

definition fileclose :: "nat \<Rightarrow> unit K" where
  "fileclose f =
     kbind (acquire LK_ftable) (\<lambda>_.
     kbind (kget (\<lambda>s. f_ref (files s ! f))) (\<lambda>ref.
     if ref < 1 then kpanic ''fileclose''
     else kbind (kmod (upd_file f (\<lambda>x. x\<lparr>f_ref := f_ref x - 1\<rparr>))) (\<lambda>_.
       if ref - 1 > 0 then release LK_ftable
       else kbind (kget (\<lambda>s. files s ! f)) (\<lambda>ff. kdo [
         kmod (upd_file f (\<lambda>x. x\<lparr>f_ref := 0, f_type := FD_NONE\<rparr>)),
         release LK_ftable,
         if f_type ff = FD_PIPE then pipeclose (f_pipe ff) (f_writable ff)
         else kwhen (f_type ff = FD_INODE \<or> f_type ff = FD_DEVICE) (kdo [
           begin_op,
           case f_ip ff of Some ip \<Rightarrow> iput ip | None \<Rightarrow> kpanic ''null inode'',
           end_op])]))))"

text \<open>\<open>struct stat\<close> as it lies in memory.\<close>
definition stat_bytes :: "stat \<Rightarrow> u8 list" where
  "stat_bytes st = put32 (put16 (put16 (put32 (put32 (replicate 16 0) 0 (st_dev st)) 4 (st_ino st))
     8 (st_type st)) 10 (st_nlink st)) 12 (st_size st)"

definition my_pagetable :: "u32 K" where
  "my_pagetable = kbind myproc (\<lambda>me. case me of
       None \<Rightarrow> kpanic ''null proc''
     | Some p \<Rightarrow> kget (\<lambda>s. p_pagetable (procs s ! p)))"

definition with_ip :: "nat \<Rightarrow> (nat \<Rightarrow> 'a K) \<Rightarrow> 'a K" where
  "with_ip f m = kbind (kget (\<lambda>s. f_ip (files s ! f))) (\<lambda>r. case r of Some ip \<Rightarrow> m ip | None \<Rightarrow> kpanic ''ilock'')"

definition filestat :: "nat \<Rightarrow> u32 \<Rightarrow> int K" where
  "filestat f addr =
     kbind (kget (\<lambda>s. f_type (files s ! f))) (\<lambda>ty.
     if ty = FD_INODE \<or> ty = FD_DEVICE then
       with_ip f (\<lambda>ip.
       kbind (ilock ip) (\<lambda>_.
       kbind (stati ip) (\<lambda>st.
       kbind (iunlock ip) (\<lambda>_.
       kbind my_pagetable (\<lambda>pt.
       kbind (copyout pt addr (stat_bytes st)) (\<lambda>r.
       kret (if r < 0 then -1 else 0)))))))
     else kret (-1))"

definition fileread :: "nat \<Rightarrow> u32 \<Rightarrow> int \<Rightarrow> int K" where
  "fileread f addr n =
     kbind (kget (\<lambda>s. files s ! f)) (\<lambda>x.
     if \<not> f_readable x then kret (-1)
     else case f_type x of
       FD_PIPE \<Rightarrow> piperead (f_pipe x) addr n
     | FD_DEVICE \<Rightarrow>
         if sint (f_major x) < 0 \<or> sint (f_major x) \<ge> int NDEV \<or> f_major x \<noteq> of_nat CONSOLE then kret (-1)
         else consoleread (UserVA addr) n
     | FD_INODE \<Rightarrow>
         with_ip f (\<lambda>ip.
         kbind (ilock ip) (\<lambda>_.
         kbind (readi ip (UserVA addr) (f_off x) (of_int n)) (\<lambda>(r, _).
         kbind (kwhen (r > 0) (kmod (upd_file f (\<lambda>x. x\<lparr>f_off := f_off x + of_int r\<rparr>)))) (\<lambda>_.
         kbind (iunlock ip) (\<lambda>_. kret r)))))
     | FD_NONE \<Rightarrow> kpanic ''fileread'')"

text \<open>\<open>((MAXOPBLOCKS-1-1-2) / 2) * BSIZE\<close>\<close>
abbreviation WRITE_MAX :: int where "WRITE_MAX \<equiv> 1536"

function filewrite_loop :: "nat \<Rightarrow> nat \<Rightarrow> u32 \<Rightarrow> int \<Rightarrow> int \<Rightarrow> int K" where
  "filewrite_loop f ip addr i n =
     (if i < n
      then let n1 = min WRITE_MAX (n - i) in
        kbind begin_op (\<lambda>_.
        kbind (ilock ip) (\<lambda>_.
        kbind (kget (\<lambda>s. f_off (files s ! f))) (\<lambda>off.
        kbind (writei ip (UserVA (addr + of_int i)) off (of_int n1)) (\<lambda>r.
        kbind (kwhen (r > 0) (kmod (upd_file f (\<lambda>x. x\<lparr>f_off := f_off x + of_int r\<rparr>)))) (\<lambda>_.
        kbind (iunlock ip) (\<lambda>_.
        kbind end_op (\<lambda>_.
        if r \<noteq> n1 then kret i else filewrite_loop f ip addr (i + r) n)))))))
      else kret i)"
  by pat_completeness auto
termination
  by (relation "measure (\<lambda>(_, _, _, i, n). nat (n - i))") auto

declare filewrite_loop.simps [simp del]

definition filewrite :: "nat \<Rightarrow> u32 \<Rightarrow> int \<Rightarrow> int K" where
  "filewrite f addr n =
     kbind (kget (\<lambda>s. files s ! f)) (\<lambda>x.
     if \<not> f_writable x then kret (-1)
     else case f_type x of
       FD_PIPE \<Rightarrow> pipewrite (f_pipe x) addr n
     | FD_DEVICE \<Rightarrow>
         if sint (f_major x) < 0 \<or> sint (f_major x) \<ge> int NDEV \<or> f_major x \<noteq> of_nat CONSOLE then kret (-1)
         else consolewrite (UserVA addr) n
     | FD_INODE \<Rightarrow> with_ip f (\<lambda>ip. kbind (filewrite_loop f ip addr 0 n) (\<lambda>i. kret (if i = n then n else -1)))
     | FD_NONE \<Rightarrow> kpanic ''filewrite'')"

text \<open>\<open>kalloc\<close> filled the page with 5s, so that is what the data array of a new pipe holds.\<close>
definition pipealloc :: "(nat \<times> nat) option K" where
  "pipealloc =
     kbind filealloc (\<lambda>r0. case r0 of
       None \<Rightarrow> kret None
     | Some f0 \<Rightarrow> kbind filealloc (\<lambda>r1. case r1 of
         None \<Rightarrow> kbind (fileclose f0) (\<lambda>_. kret None)
       | Some f1 \<Rightarrow> kbind kalloc (\<lambda>pi.
           if pi = 0 then kbind (kdo [fileclose f0, fileclose f1]) (\<lambda>_. kret None)
           else kbind (kdo [
             kmod (upd_pipe pi (\<lambda>_. \<lparr>pi_data = replicate PIPESIZE 5, pi_nread = 0, pi_nwrite = 0, pi_readopen = True, pi_writeopen = True\<rparr>)),
             kmod (upd_file f0 (\<lambda>x. x\<lparr>f_type := FD_PIPE, f_readable := True, f_writable := False, f_pipe := pi\<rparr>)),
             kmod (upd_file f1 (\<lambda>x. x\<lparr>f_type := FD_PIPE, f_readable := False, f_writable := True, f_pipe := pi\<rparr>))]) (\<lambda>_.
             kret (Some (f0, f1))))))"

end
