(* ===== verification/KV_Proc.thy ===== *)
theory KV_Proc
  imports KV_File
begin

text \<open>
  Processes (kernel/proc.c): the process table, creation and destruction, fork, exit, wait, kill and the scheduler.
  A process is named by its index in \<open>proc[]\<close>.  The trapframe of a process is the page \<open>p_trapframe\<close>, and its fields are words
  of that page (\<open>struct trapframe\<close> of kernel/proc.h).
\<close>

section \<open>Trapframe fields\<close>

abbreviation TF_kernel_satp :: u32 where "TF_kernel_satp \<equiv> 0"
abbreviation TF_kernel_sp :: u32 where "TF_kernel_sp \<equiv> 4"
abbreviation TF_kernel_trap :: u32 where "TF_kernel_trap \<equiv> 8"
abbreviation TF_epc :: u32 where "TF_epc \<equiv> 12"
abbreviation TF_kernel_hartid :: u32 where "TF_kernel_hartid \<equiv> 16"
abbreviation TF_sp :: u32 where "TF_sp \<equiv> 24"
abbreviation TF_a0 :: u32 where "TF_a0 \<equiv> 56"
abbreviation TF_a1 :: u32 where "TF_a1 \<equiv> 60"
abbreviation TF_a7 :: u32 where "TF_a7 \<equiv> 84"
abbreviation TF_size :: nat where "TF_size \<equiv> 144"

definition tf_get :: "nat \<Rightarrow> u32 \<Rightarrow> u32 K" where
  "tf_get p fld = kget (\<lambda>s. load32 (mem s) (p_trapframe (procs s ! p) + fld))"

definition tf_set :: "nat \<Rightarrow> u32 \<Rightarrow> u32 \<Rightarrow> unit K" where
  "tf_set p fld v = kmod (\<lambda>s. s\<lparr>mem := store32 (mem s) (p_trapframe (procs s ! p) + fld) v\<rparr>)"

definition the_proc :: "nat K" where
  "the_proc = kbind myproc (\<lambda>me. case me of None \<Rightarrow> kpanic ''null proc'' | Some p \<Rightarrow> kret p)"

text \<open>\<open>safestrcpy\<close> into an object of the process table.\<close>
definition safestrcpy_obj :: "nat \<Rightarrow> u8 list \<Rightarrow> u8 list \<Rightarrow> u8 list" where
  "safestrcpy_obj n t old =
     (if n = 0 then old
      else let e = take (n - 1) (cstr t) in e @ [0] @ drop (length e + 1) old)"

section \<open>Creation and destruction\<close>

definition procinit :: "unit K" where
  "procinit = kfor [0..<NPROC] (\<lambda>p. kmod (upd_proc p (\<lambda>x. x\<lparr>p_state := UNUSED, p_kstack := KSTACK p\<rparr>)))"

definition allocpid :: "u32 K" where
  "allocpid =
     kbind (acquire LK_pid) (\<lambda>_.
     kbind (kget nextpid) (\<lambda>pid.
     kbind (kmod (\<lambda>s. s\<lparr>nextpid := nextpid s + 1\<rparr>)) (\<lambda>_.
     kbind (release LK_pid) (\<lambda>_. kret pid))))"

definition proc_freepagetable :: "u32 \<Rightarrow> u32 \<Rightarrow> unit K" where
  "proc_freepagetable pagetable sz = kdo [
     uvmunmap pagetable TRAMPOLINE 1 False,
     uvmunmap pagetable TRAPFRAME 1 False,
     uvmfree pagetable sz]"

definition proc_pagetable :: "nat \<Rightarrow> u32 K" where
  "proc_pagetable p =
     kbind uvmcreate (\<lambda>pagetable.
     if pagetable = 0 then kret 0
     else
       kbind (kget (\<lambda>s. sym_trampoline (link s))) (\<lambda>tramp.
       kbind (mappages pagetable TRAMPOLINE PGSIZE tramp (PTE_R OR PTE_X)) (\<lambda>r.
       if r < 0 then kbind (uvmfree pagetable 0) (\<lambda>_. kret 0)
       else
         kbind (kget (\<lambda>s. p_trapframe (procs s ! p))) (\<lambda>tf.
         kbind (mappages pagetable TRAPFRAME PGSIZE tf (PTE_R OR PTE_W)) (\<lambda>r.
         if r < 0 then
           kbind (kdo [uvmunmap pagetable TRAMPOLINE 1 False, uvmfree pagetable 0]) (\<lambda>_. kret 0)
         else kret pagetable)))))"

definition freeproc :: "nat \<Rightarrow> unit K" where
  "freeproc p =
     kbind (kget (\<lambda>s. procs s ! p)) (\<lambda>x. kdo [
       kwhen (p_trapframe x \<noteq> 0) (kfree (p_trapframe x)),
       kmod (upd_proc p (\<lambda>x. x\<lparr>p_trapframe := 0\<rparr>)),
       kwhen (p_pagetable x \<noteq> 0) (proc_freepagetable (p_pagetable x) (p_sz x)),
       kmod (upd_proc p (\<lambda>x. x\<lparr>p_pagetable := 0, p_sz := 0, p_pid := 0, p_parent := None, p_name := (p_name x)[0 := 0],
         p_chan := None, p_killed := False, p_xstate := 0, p_state := UNUSED\<rparr>))])"

definition allocproc :: "nat option K" where
  "allocproc =
     kbind (ksearch [0..<NPROC] (\<lambda>p.
       kbind (acquire (LK_proc p)) (\<lambda>_.
       kbind (kget (\<lambda>s. p_state (procs s ! p))) (\<lambda>st.
       if st = UNUSED then kret (Some p)
       else kbind (release (LK_proc p)) (\<lambda>_. kret None))))) (\<lambda>r. case r of
       None \<Rightarrow> kret None
     | Some p \<Rightarrow>
         kbind allocpid (\<lambda>pid.
         kbind (kmod (upd_proc p (\<lambda>x. x\<lparr>p_pid := pid, p_state := USED\<rparr>))) (\<lambda>_.
         kbind kalloc (\<lambda>tf.
         kbind (kmod (upd_proc p (\<lambda>x. x\<lparr>p_trapframe := tf\<rparr>))) (\<lambda>_.
         if tf = 0 then kbind (kdo [freeproc p, release (LK_proc p)]) (\<lambda>_. kret None)
         else
           kbind (proc_pagetable p) (\<lambda>pt.
           kbind (kmod (upd_proc p (\<lambda>x. x\<lparr>p_pagetable := pt\<rparr>))) (\<lambda>_.
           if pt = 0 then kbind (kdo [freeproc p, release (LK_proc p)]) (\<lambda>_. kret None)
           else
             kbind (kmod (\<lambda>s. upd_proc p (\<lambda>x. x\<lparr>p_context := \<lparr>ctx_ra = sym_forkret (link s),
               ctx_sp = p_kstack x + PGSIZE, ctx_s = replicate 12 0\<rparr>\<rparr>) s)) (\<lambda>_.
             kret (Some p)))))))))"

definition userinit :: "unit K" where
  "userinit =
     kbind allocproc (\<lambda>r.
     kbind (kmod (\<lambda>s. s\<lparr>initproc := r\<rparr>)) (\<lambda>_.
     case r of
       None \<Rightarrow> kpanic ''null proc''
     | Some p \<Rightarrow>
         kbind (namei [SLASH]) (\<lambda>ip. kdo [
           kmod (upd_proc p (\<lambda>x. x\<lparr>p_cwd := ip\<rparr>)),
           kmod (upd_proc p (\<lambda>x. x\<lparr>p_state := RUNNABLE\<rparr>)),
           release (LK_proc p)])))"

definition growproc :: "int \<Rightarrow> int K" where
  "growproc n =
     kbind the_proc (\<lambda>p.
     kbind (kget (\<lambda>s. procs s ! p)) (\<lambda>x.
     let sz = p_sz x in
     if n > 0 then
       kbind (uvmalloc (p_pagetable x) sz (sz + of_int n) PTE_W) (\<lambda>sz.
       if sz = 0 then kret (-1)
       else kbind (kmod (upd_proc p (\<lambda>x. x\<lparr>p_sz := sz\<rparr>))) (\<lambda>_. kret 0))
     else
       kbind (if n < 0 then uvmdealloc (p_pagetable x) sz (sz + of_int n) else kret sz) (\<lambda>sz.
       kbind (kmod (upd_proc p (\<lambda>x. x\<lparr>p_sz := sz\<rparr>))) (\<lambda>_. kret 0))))"

section \<open>fork, exit, wait\<close>

text \<open>The loop that duplicates the open files: slot \<open>i\<close> of the parent into slot \<open>i\<close> of the child.\<close>
definition fork_files :: "nat \<Rightarrow> nat \<Rightarrow> unit K" where
  "fork_files p np = kfor [0..<NOFILE] (\<lambda>i.
     kbind (kget (\<lambda>s. p_ofile (procs s ! p) ! i)) (\<lambda>r. case r of
       None \<Rightarrow> kret ()
     | Some f \<Rightarrow> kbind (filedup f) (\<lambda>f. kmod (upd_proc np (\<lambda>x. x\<lparr>p_ofile := (p_ofile x)[i := Some f]\<rparr>)))))"

definition kfork :: "int K" where
  "kfork =
     kbind the_proc (\<lambda>p.
     kbind allocproc (\<lambda>r. case r of
       None \<Rightarrow> kret (-1)
     | Some np \<Rightarrow>
         kbind (kget (\<lambda>s. procs s ! p)) (\<lambda>x.
         kbind (kget (\<lambda>s. procs s ! np)) (\<lambda>y.
         kbind (uvmcopy (p_pagetable x) (p_pagetable y) (p_sz x)) (\<lambda>r.
         if r < 0 then kbind (kdo [freeproc np, release (LK_proc np)]) (\<lambda>_. kret (-1))
         else kbind (kdo [
           kmod (upd_proc np (\<lambda>y. y\<lparr>p_sz := p_sz x\<rparr>)),
           kmem_upd (\<lambda>m. write_bytes (p_trapframe y) (read_bytes m (p_trapframe x) TF_size) m),
           tf_set np TF_a0 0,
           fork_files p np,
           kbind (case p_cwd x of Some c \<Rightarrow> idup c | None \<Rightarrow> kpanic ''null cwd'') (\<lambda>c.
             kmod (upd_proc np (\<lambda>y. y\<lparr>p_cwd := Some c\<rparr>))),
           kmod (upd_proc np (\<lambda>y. y\<lparr>p_name := safestrcpy_obj 16 (p_name x) (p_name y)\<rparr>))]) (\<lambda>_.
           kbind (kget (\<lambda>s. p_pid (procs s ! np))) (\<lambda>pid.
           kbind (kdo [
             release (LK_proc np),
             acquire LK_wait,
             kmod (upd_proc np (\<lambda>y. y\<lparr>p_parent := Some p\<rparr>)),
             release LK_wait,
             acquire (LK_proc np),
             kmod (upd_proc np (\<lambda>y. y\<lparr>p_state := RUNNABLE\<rparr>)),
             release (LK_proc np)]) (\<lambda>_.
           kret (sint pid)))))))))"

text \<open>\<open>wakeup\<close> on the address of a process; nobody sleeps on the null pointer.\<close>
definition wakeup_proc :: "nat option \<Rightarrow> unit K" where
  "wakeup_proc r = (case r of Some q \<Rightarrow> wakeup (CH_proc q) | None \<Rightarrow> kret ())"

definition reparent :: "nat \<Rightarrow> unit K" where
  "reparent p = kfor [0..<NPROC] (\<lambda>pp.
     kbind (kget (\<lambda>s. p_parent (procs s ! pp))) (\<lambda>par.
     kwhen (par = Some p) (kbind (kget initproc) (\<lambda>ini. kdo [
       kmod (upd_proc pp (\<lambda>x. x\<lparr>p_parent := ini\<rparr>)),
       wakeup_proc ini]))))"

definition close_files :: "nat \<Rightarrow> unit K" where
  "close_files p = kfor [0..<NOFILE] (\<lambda>fd.
     kbind (kget (\<lambda>s. p_ofile (procs s ! p) ! fd)) (\<lambda>r. case r of
       None \<Rightarrow> kret ()
     | Some f \<Rightarrow> kdo [
         fileclose f,
         kmod (upd_proc p (\<lambda>x. x\<lparr>p_ofile := (p_ofile x)[fd := None]\<rparr>))]))"

definition kexit :: "u32 \<Rightarrow> unit K" where
  "kexit status =
     kbind the_proc (\<lambda>p.
     kbind (kget initproc) (\<lambda>ini.
     if ini = Some p then kpanic ''init exiting''
     else kdo [
       close_files p,
       begin_op,
       kbind (kget (\<lambda>s. p_cwd (procs s ! p))) (\<lambda>r. case r of Some c \<Rightarrow> iput c | None \<Rightarrow> kpanic ''null cwd''),
       end_op,
       kmod (upd_proc p (\<lambda>x. x\<lparr>p_cwd := None\<rparr>)),
       acquire LK_wait,
       reparent p,
       kbind (kget (\<lambda>s. p_parent (procs s ! p))) wakeup_proc,
       acquire (LK_proc p),
       kmod (upd_proc p (\<lambda>x. x\<lparr>p_xstate := status\<rparr>)),
       kmod (upd_proc p (\<lambda>x. x\<lparr>p_state := ZOMBIE\<rparr>)),
       release LK_wait,
       sched,
       kpanic ''zombie exit'']))"

definition word_bytes :: "u32 \<Rightarrow> u8 list" where
  "word_bytes v = put32 [0, 0, 0, 0] 0 v"

text \<open>One round of the scan of \<open>kwait\<close> for the entry \<open>pp\<close>.\<close>
definition kwait_one :: "nat \<Rightarrow> u32 \<Rightarrow> nat \<Rightarrow> int option K" where
  "kwait_one p addr pp =
     kbind (kget (\<lambda>s. p_parent (procs s ! pp))) (\<lambda>par.
     if par \<noteq> Some p then kret None
     else
       kbind (acquire (LK_proc pp)) (\<lambda>_.
       kbind (kget (\<lambda>s. procs s ! pp)) (\<lambda>x.
       if p_state x = ZOMBIE then
         kbind (if addr \<noteq> 0
                then kbind (kget (\<lambda>s. p_pagetable (procs s ! p))) (\<lambda>pt. copyout pt addr (word_bytes (p_xstate x)))
                else kret 0) (\<lambda>r.
         if r < 0 then kbind (kdo [release (LK_proc pp), release LK_wait]) (\<lambda>_. kret (Some (-1)))
         else kbind (kdo [freeproc pp, release (LK_proc pp), release LK_wait]) (\<lambda>_. kret (Some (sint (p_pid x)))))
       else kbind (release (LK_proc pp)) (\<lambda>_. kret None))))"

text \<open>\<open>kwait\<close> from its loop on, with \<open>wait_lock\<close> held; a process that slept enters it again.\<close>
definition kwait_loop :: "nat \<Rightarrow> u32 \<Rightarrow> int K" where
  "kwait_loop p addr =
     kbind (ksearch [0..<NPROC] (kwait_one p addr)) (\<lambda>r. case r of
       Some pid \<Rightarrow> kret pid
     | None \<Rightarrow>
         kbind (kget (\<lambda>s. \<exists>pp \<in> set [0..<NPROC]. p_parent (procs s ! pp) = Some p)) (\<lambda>havekids.
         kbind (if havekids then killed p else kret True) (\<lambda>stop.
         if stop then kbind (release LK_wait) (\<lambda>_. kret (-1))
         else kblock (CH_proc p) LK_wait)))"

definition kwait :: "u32 \<Rightarrow> int K" where
  "kwait addr = kbind the_proc (\<lambda>p. kbind (acquire LK_wait) (\<lambda>_. kwait_loop p addr))"

definition kwait_resume :: "u32 \<Rightarrow> int K" where
  "kwait_resume addr = kbind the_proc (\<lambda>p. kbind (sleep_resume LK_wait) (\<lambda>_. kwait_loop p addr))"

section \<open>Scheduling\<close>

text \<open>The inner loop of \<open>scheduler\<close> from the entry \<open>p\<close> on, up to the \<open>swtch\<close> to the process it chose, which then runs with its lock held; \<open>None\<close> is
  the end of the table.\<close>
definition scheduler_scan :: "nat \<Rightarrow> nat option K" where
  "scheduler_scan p = ksearch [p..<NPROC] (\<lambda>p.
     kbind (acquire (LK_proc p)) (\<lambda>_.
     kbind (kget (\<lambda>s. p_state (procs s ! p))) (\<lambda>st.
     if st = RUNNABLE then
       kbind (kmod (upd_proc p (\<lambda>x. x\<lparr>p_state := RUNNING\<rparr>))) (\<lambda>_.
       kbind (kmod (\<lambda>s. s\<lparr>cur := Some p\<rparr>)) (\<lambda>_. kret (Some p)))
     else kbind (release (LK_proc p)) (\<lambda>_. kret None))))"

text \<open>What follows the \<open>swtch\<close> when the process comes back to the scheduler.\<close>
definition scheduler_back :: "nat \<Rightarrow> unit K" where
  "scheduler_back p = kdo [kmod (\<lambda>s. s\<lparr>cur := None\<rparr>), release (LK_proc p)]"

text \<open>\<open>yield\<close> up to the switch, and from it on.\<close>
definition yield :: "unit K" where
  "yield = kbind the_proc (\<lambda>p. kdo [
     acquire (LK_proc p),
     kmod (upd_proc p (\<lambda>x. x\<lparr>p_state := RUNNABLE\<rparr>)),
     sched])"

definition yield_resume :: "unit K" where
  "yield_resume = kbind the_proc (\<lambda>p. release (LK_proc p))"

definition kkill :: "u32 \<Rightarrow> int K" where
  "kkill pid =
     kbind (ksearch [0..<NPROC] (\<lambda>p.
       kbind (acquire (LK_proc p)) (\<lambda>_.
       kbind (kget (\<lambda>s. procs s ! p)) (\<lambda>x.
       if p_pid x = pid then
         kbind (kdo [
           kmod (upd_proc p (\<lambda>x. x\<lparr>p_killed := True\<rparr>)),
           kwhen (p_state x = SLEEPING) (kmod (upd_proc p (\<lambda>x. x\<lparr>p_state := RUNNABLE\<rparr>))),
           release (LK_proc p)]) (\<lambda>_. kret (Some 0))
       else kbind (release (LK_proc p)) (\<lambda>_. kret None))))) (\<lambda>r. case r of
       Some v \<Rightarrow> kret v
     | None \<Rightarrow> kret (-1))"


section \<open>One pass of the scheduler\<close>

lemma ksearch_upt_unfold: "k < n \<Longrightarrow> ksearch [k..<n] f = ksearch (k # [Suc k..<n]) f"
  by (simp add: upt_conv_Cons)

text \<open>The scan stops at the first runnable process.\<close>

lemma scheduler_scan_run:
  assumes "no_proc_lock s" "length (procs s) = NPROC"
  shows "(\<forall>q. k \<le> q \<and> q < NPROC \<longrightarrow> p_state (procs s ! q) \<noteq> RUNNABLE) \<and> scheduler_scan k s = Ok None s
    \<or> (\<exists>p t. k \<le> p \<and> p < NPROC \<and> p_state (procs s ! p) = RUNNABLE \<and> (\<forall>q. k \<le> q \<and> q < p \<longrightarrow> p_state (procs s ! q) \<noteq> RUNNABLE)
      \<and> scheduler_scan k s = Ok (Some p) t \<and> p_state (procs t ! p) = RUNNING \<and> cur t = Some p \<and> held t = insert (LK_proc p) (held s)
      \<and> length (procs t) = NPROC \<and> (\<forall>q. q \<noteq> p \<longrightarrow> procs t ! q = procs s ! q))"
proof (induction "NPROC - k" arbitrary: k)
  case 0
  then show ?case by (auto simp: scheduler_scan_def)
next
  case (Suc d)
  then have k: "k < NPROC" by simp
  have lk: "LK_proc k \<notin> held s" using assms(1) by (simp add: no_proc_lock_def)
  show ?case
  proof (cases "p_state (procs s ! k) = RUNNABLE")
    case True
    then have "scheduler_scan k s = Ok (Some k) (upd_proc k (\<lambda>x. x\<lparr>p_state := RUNNING\<rparr>) s\<lparr>held := insert (LK_proc k) (held s), cur := Some k\<rparr>)"
      using lk k unfolding scheduler_scan_def ksearch_upt_unfold [OF k] by (simp add: upd_proc_def)
    then show ?thesis using True k assms(2) by (intro disjI2 exI [of _ k]) (auto simp: upd_proc_def)
  next
    case False
    have st: "scheduler_scan k s = scheduler_scan (Suc k) s"
      using lk False unfolding scheduler_scan_def ksearch_upt_unfold [OF k] by simp
    have "d = NPROC - Suc k" using Suc(2) by simp
    from Suc(1) [OF this] show ?thesis
    proof (elim disjE exE conjE)
      assume "\<forall>q. Suc k \<le> q \<and> q < NPROC \<longrightarrow> p_state (procs s ! q) \<noteq> RUNNABLE" "scheduler_scan (Suc k) s = Ok None s"
      then show ?thesis using False st by (metis le_antisym not_less_eq_eq)
    next
      fix p t assume a: "Suc k \<le> p" "p < NPROC" "p_state (procs s ! p) = RUNNABLE" "\<forall>q. Suc k \<le> q \<and> q < p \<longrightarrow> p_state (procs s ! q) \<noteq> RUNNABLE"
        "scheduler_scan (Suc k) s = Ok (Some p) t" "p_state (procs t ! p) = RUNNING" "cur t = Some p"
        "held t = insert (LK_proc p) (held s)" "length (procs t) = NPROC" "\<forall>q. q \<noteq> p \<longrightarrow> procs t ! q = procs s ! q"
      moreover have "\<forall>q. k \<le> q \<and> q < p \<longrightarrow> p_state (procs s ! q) \<noteq> RUNNABLE" using a(4) False by (metis le_antisym not_less_eq_eq)
      ultimately show ?thesis using st by (intro disjI2 exI [of _ p] exI [of _ t]) simp
    qed
  qed
qed

text \<open>What a process may do between the \<open>swtch\<close> to it and the one back: anything, but only the scheduler takes a runnable process off that state, and the process
  comes back with its own lock held and no other process's.\<close>
definition proc_run :: "nat \<Rightarrow> kstate \<Rightarrow> kstate \<Rightarrow> bool" where
  "proc_run p t u \<longleftrightarrow> (\<forall>q. q \<noteq> p \<and> p_state (procs t ! q) = RUNNABLE \<longrightarrow> p_state (procs u ! q) = RUNNABLE)
     \<and> held u = {LK_proc p} \<and> length (procs u) = length (procs t)"

text \<open>The rest of a pass of the scheduler's inner loop from table entry \<open>k\<close> on, and the processes it runs.\<close>
inductive sched_pass :: "nat \<Rightarrow> kstate \<Rightarrow> nat list \<Rightarrow> kstate \<Rightarrow> bool" where
  pass_end: "scheduler_scan k s = Ok None t \<Longrightarrow> sched_pass k s [] t"
| pass_run: "scheduler_scan k s = Ok (Some p) t \<Longrightarrow> proc_run p t u \<Longrightarrow> scheduler_back p u = Ok () v \<Longrightarrow>
    sched_pass (Suc p) v ps w \<Longrightarrow> sched_pass k s (p # ps) w"

section \<open>Properties\<close>

text \<open>(C22) Round robin: a pass of the scheduler runs every process that is runnable when the pass reaches the part of the table in front of it, in the order of
  the table and each one at most once, whatever the processes do while they run.  So no runnable process waits for more than one pass.\<close>

theorem scheduler_runs_every_runnable:
  assumes "sched_pass k s ps w" "no_proc_lock s" "length (procs s) = NPROC"
  shows "sorted ps \<and> distinct ps \<and> set ps \<subseteq> {k..<NPROC} \<and> {q. k \<le> q \<and> q < NPROC \<and> p_state (procs s ! q) = RUNNABLE} \<subseteq> set ps"
  using assms
proof (induction rule: sched_pass.induct)
  case (pass_end k s t)
  then show ?case using scheduler_scan_run [OF pass_end(2,3), of k] by auto
next
  case (pass_run k s p t u v ps w)
  have t: "k \<le> p" "p < NPROC" "\<forall>q. k \<le> q \<and> q < p \<longrightarrow> p_state (procs s ! q) \<noteq> RUNNABLE" "length (procs t) = NPROC"
    "\<forall>q. q \<noteq> p \<longrightarrow> procs t ! q = procs s ! q"
    using scheduler_scan_run [OF pass_run(6,7), of k] pass_run(1) by auto
  have v: "v = u\<lparr>cur := None, held := {}\<rparr>" using pass_run(2,3) by (auto simp: scheduler_back_def proc_run_def split: if_splits)
  have nv: "no_proc_lock v" "length (procs v) = NPROC" using v t(4) pass_run(2) by (auto simp: no_proc_lock_def proc_run_def)
  note ih = pass_run.IH [OF nv]
  have run: "p_state (procs v ! q) = RUNNABLE" if "q \<noteq> p" "p_state (procs s ! q) = RUNNABLE" for q
    using that t(5) pass_run(2) v by (simp add: proc_run_def)
  have "q \<in> set (p # ps)" if "k \<le> q" "q < NPROC" "p_state (procs s ! q) = RUNNABLE" for q
  proof (cases "q = p")
    case False
    have "\<not> q < p" using t(3) that by blast
    then have "Suc p \<le> q" using False by simp
    then show ?thesis using ih that(2) run [OF False that(3)] by auto
  qed simp
  then show ?case using ih t(1,2) by auto
qed

definition sched_example :: kstate where
  "sched_example = blank_kstate\<lparr>procs := (replicate 64 (proc_example\<lparr>p_state := UNUSED\<rparr>))[3 := proc_example\<lparr>p_state := RUNNABLE\<rparr>]\<rparr>"

theorem scheduler_runs_every_runnable_witness:
  "\<exists>ps w. sched_pass 0 sched_example ps w \<and> 3 \<in> set ps"
proof -
  have n: "no_proc_lock sched_example" "length (procs sched_example) = NPROC" "p_state (procs sched_example ! 3) = RUNNABLE"
    by (simp_all add: no_proc_lock_def sched_example_def blank_kstate_def)
  have other: "p_state (procs sched_example ! q) \<noteq> RUNNABLE" if "q < NPROC" "q \<noteq> 3" for q
    using that by (simp add: sched_example_def)
  obtain t where t: "scheduler_scan 0 sched_example = Ok (Some 3) t" "held t = {LK_proc 3}" "length (procs t) = NPROC"
    "\<forall>q. q \<noteq> 3 \<longrightarrow> procs t ! q = procs sched_example ! q"
  proof -
    from scheduler_scan_run [OF n(1,2), of 0] obtain p t where p: "p < NPROC" "p_state (procs sched_example ! p) = RUNNABLE"
      "scheduler_scan 0 sched_example = Ok (Some p) t" "held t = insert (LK_proc p) (held sched_example)" "length (procs t) = NPROC"
      "\<forall>q. q \<noteq> p \<longrightarrow> procs t ! q = procs sched_example ! q" using n(3) by auto
    moreover have "p = 3" using other p(1,2) by blast
    moreover have "held sched_example = {}" by (simp add: sched_example_def blank_kstate_def)
    ultimately show thesis using that by simp
  qed
  let ?v = "t\<lparr>cur := None, held := {}\<rparr>"
  have bk: "proc_run 3 t t" "scheduler_back 3 t = Ok () ?v" using t(2) by (simp_all add: proc_run_def scheduler_back_def)
  have v: "no_proc_lock ?v" "length (procs ?v) = NPROC" using t(3) by (simp_all add: no_proc_lock_def)
  have "scheduler_scan (Suc 3) ?v = Ok None ?v"
    using scheduler_scan_run [OF v, of "Suc 3"]
  proof (elim disjE exE conjE)
    fix p w assume p: "Suc 3 \<le> p" "p < NPROC" "p_state (procs ?v ! p) = RUNNABLE"
    have "p \<noteq> 3" using p(1) by simp
    then have "p_state (procs sched_example ! p) = RUNNABLE" using p(3) t(4) by simp
    then show ?thesis using other [OF p(2) \<open>p \<noteq> 3\<close>] by simp
  qed
  then have "sched_pass 0 sched_example [3] ?v" using pass_run [OF t(1) bk pass_end] by blast
  then show ?thesis using scheduler_runs_every_runnable [OF _ n(1,2)] n(3) by fastforce
qed

end
