(* ===== verification/KV_Exec.thy ===== *)
theory KV_Exec
  imports KV_Proc
begin

text \<open>
  \<open>exec\<close> (kernel/exec.c): loading an ELF image into a fresh page table and building the argument stack.  The arguments are the
  C strings \<open>argv[0], argv[1], \<dots>\<close> without their NULs.
\<close>

abbreviation ELF_MAGIC :: u32 where "ELF_MAGIC \<equiv> 0x464C457F"
abbreviation ELF_PROG_LOAD :: u32 where "ELF_PROG_LOAD \<equiv> 1"
abbreviation USERSTACK :: u32 where "USERSTACK \<equiv> 1"

section \<open>ELF structures\<close>

record elfhdr =
  eh_magic :: u32
  eh_entry :: u32
  eh_phoff :: u32
  eh_phnum :: u16

definition get_elfhdr :: "u8 list \<Rightarrow> elfhdr" where
  "get_elfhdr bs = \<lparr>eh_magic = get32 bs 0, eh_entry = get32 bs 24, eh_phoff = get32 bs 28, eh_phnum = get16 bs 44\<rparr>"

record proghdr =
  ph_type :: u32
  ph_off :: u32
  ph_vaddr :: u32
  ph_filesz :: u32
  ph_memsz :: u32
  ph_flags :: u32

definition get_proghdr :: "u8 list \<Rightarrow> proghdr" where
  "get_proghdr bs = \<lparr>ph_type = get32 bs 0, ph_off = get32 bs 4, ph_vaddr = get32 bs 8, ph_filesz = get32 bs 16,
     ph_memsz = get32 bs 20, ph_flags = get32 bs 24\<rparr>"

definition flags2perm :: "u32 \<Rightarrow> u32" where
  "flags2perm flags =
     (let perm = (if flags AND 1 \<noteq> 0 then PTE_X else 0)
      in if flags AND 2 \<noteq> 0 then perm OR PTE_W else perm)"

section \<open>Loading\<close>

definition loadseg :: "u32 \<Rightarrow> u32 \<Rightarrow> nat \<Rightarrow> u32 \<Rightarrow> u32 \<Rightarrow> int K" where
  "loadseg pagetable va ip offset sz =
     kbind (ksearch (map (\<lambda>k. 4096 * k) [0..<(unat sz + 4095) div 4096]) (\<lambda>i.
       kbind (walkaddr pagetable (va + of_nat i)) (\<lambda>pa.
       if pa = 0 then kpanic ''loadseg: address should exist''
       else let n = min (unat sz - i) 4096 in
         kbind (readi ip (KernPA pa) (offset + of_nat i) (of_nat n)) (\<lambda>(c, _).
         kret (if c \<noteq> int n then Some () else None))))) (\<lambda>r.
     kret (case r of Some _ \<Rightarrow> -1 | None \<Rightarrow> 0))"

text \<open>The loop over the program headers, with \<open>k\<close> of them left: the size reached, and whether none was bad.\<close>
primrec exec_load :: "nat \<Rightarrow> nat \<Rightarrow> u32 \<Rightarrow> u32 \<Rightarrow> u32 \<Rightarrow> (u32 \<times> bool) K" where
  "exec_load 0 ip pagetable off sz = kret (sz, True)"
| "exec_load (Suc k) ip pagetable off sz =
     kbind (readi ip (KernObj []) off 32) (\<lambda>(c, bs).
     if c \<noteq> 32 then kret (sz, False)
     else let ph = get_proghdr bs in
       if ph_type ph \<noteq> ELF_PROG_LOAD then exec_load k ip pagetable (off + 32) sz
       else if ph_memsz ph < ph_filesz ph then kret (sz, False)
       else if ph_vaddr ph + ph_memsz ph < ph_vaddr ph then kret (sz, False)
       else if ph_vaddr ph mod PGSIZE \<noteq> 0 then kret (sz, False)
       else kbind (uvmalloc pagetable sz (ph_vaddr ph + ph_memsz ph) (flags2perm (ph_flags ph))) (\<lambda>sz1.
         if sz1 = 0 then kret (sz, False)
         else kbind (loadseg pagetable (ph_vaddr ph) ip (ph_off ph) (ph_filesz ph)) (\<lambda>r.
           if r < 0 then kret (sz1, False)
           else exec_load k ip pagetable (off + 32) sz1)))"

section \<open>The argument stack\<close>

text \<open>\<open>sp -= n; sp -= sp % 16\<close>\<close>
definition push_aligned :: "u32 \<Rightarrow> u32 \<Rightarrow> u32" where
  "push_aligned sp n = (let sp = sp - n in sp - sp mod 16)"

text \<open>The loop that copies the strings; \<open>us\<close> is \<open>ustack\<close> so far.  \<open>None\<close> is \<open>goto bad\<close>.\<close>
primrec exec_args :: "u8 list list \<Rightarrow> u32 \<Rightarrow> u32 \<Rightarrow> u32 \<Rightarrow> u32 list \<Rightarrow> (u32 \<times> u32 list) option K" where
  "exec_args [] pagetable sp stackbase us = kret (Some (sp, us))"
| "exec_args (a # as) pagetable sp stackbase us =
     (if length us \<ge> MAXARG then kret None
      else let sp = push_aligned sp (of_nat (length a) + 1) in
        if sp < stackbase then kret None
        else kbind (copyout pagetable sp (a @ [0])) (\<lambda>r.
          if r < 0 then kret None
          else exec_args as pagetable sp stackbase (us @ [sp])))"

definition exec_name :: "u8 list \<Rightarrow> u8 list" where
  "exec_name pth = rev (takeWhile (\<lambda>c. c \<noteq> SLASH) (rev pth))"

text \<open>\<open>bad:\<close> before the inode is released, and after.\<close>
definition exec_bad_ip :: "u32 \<Rightarrow> u32 \<Rightarrow> nat \<Rightarrow> int K" where
  "exec_bad_ip pagetable sz ip =
     kbind (kdo [
       kwhen (pagetable \<noteq> 0) (proc_freepagetable pagetable sz),
       iunlockput ip,
       end_op]) (\<lambda>_. kret (-1))"

definition exec_bad :: "u32 \<Rightarrow> u32 \<Rightarrow> int K" where
  "exec_bad pagetable sz = kbind (proc_freepagetable pagetable sz) (\<lambda>_. kret (-1))"

text \<open>From the guard page on: stack, arguments, and the commit to the new image.\<close>
definition exec_stack :: "nat \<Rightarrow> u8 list \<Rightarrow> u8 list list \<Rightarrow> u32 \<Rightarrow> u32 \<Rightarrow> u32 \<Rightarrow> int K" where
  "exec_stack p pth argv entry pagetable sz =
     kbind (kget (\<lambda>s. p_sz (procs s ! p))) (\<lambda>oldsz.
     let sz = PGROUNDUP sz in
     kbind (uvmalloc pagetable sz (sz + (USERSTACK + 1) * PGSIZE) PTE_W) (\<lambda>sz1.
     if sz1 = 0 then exec_bad pagetable sz
     else
       kbind (uvmclear pagetable (sz1 - (USERSTACK + 1) * PGSIZE)) (\<lambda>_.
       let stackbase = sz1 - USERSTACK * PGSIZE in
       kbind (exec_args argv pagetable sz1 stackbase []) (\<lambda>r. case r of
         None \<Rightarrow> exec_bad pagetable sz1
       | Some (sp, us) \<Rightarrow>
           let argc = length us; sp = push_aligned sp (of_nat (4 * (argc + 1))) in
           if sp < stackbase then exec_bad pagetable sz1
           else kbind (copyout pagetable sp (concat (map word_bytes (us @ [0])))) (\<lambda>r.
             if r < 0 then exec_bad pagetable sz1
             else
               kbind (kget (\<lambda>s. p_pagetable (procs s ! p))) (\<lambda>oldpagetable.
               kbind (kdo [
                 tf_set p TF_a1 sp,
                 kmod (upd_proc p (\<lambda>x. x\<lparr>p_name := safestrcpy_obj 16 (exec_name pth) (p_name x)\<rparr>)),
                 kmod (upd_proc p (\<lambda>x. x\<lparr>p_pagetable := pagetable, p_sz := sz1\<rparr>)),
                 tf_set p TF_epc entry,
                 tf_set p TF_sp sp,
                 proc_freepagetable oldpagetable oldsz]) (\<lambda>_.
               kret (int argc))))))))"

definition kexec :: "u8 list \<Rightarrow> u8 list list \<Rightarrow> int K" where
  "kexec pth argv =
     kbind the_proc (\<lambda>p.
     kbind begin_op (\<lambda>_.
     kbind (namei pth) (\<lambda>r. case r of
       None \<Rightarrow> kbind end_op (\<lambda>_. kret (-1))
     | Some ip \<Rightarrow>
         kbind (ilock ip) (\<lambda>_.
         kbind (readi ip (KernObj []) 0 52) (\<lambda>(c, bs).
         let elf = get_elfhdr bs in
         if c \<noteq> 52 then exec_bad_ip 0 0 ip
         else if eh_magic elf \<noteq> ELF_MAGIC then exec_bad_ip 0 0 ip
         else kbind (proc_pagetable p) (\<lambda>pagetable.
           if pagetable = 0 then exec_bad_ip 0 0 ip
           else kbind (exec_load (unat (eh_phnum elf)) ip pagetable (eh_phoff elf) 0) (\<lambda>(sz, ok).
             if \<not> ok then exec_bad_ip pagetable sz ip
             else kbind (kdo [iunlockput ip, end_op]) (\<lambda>_.
               exec_stack p pth argv (eh_entry elf) pagetable sz))))))))"


section \<open>The layout of the argument stack\<close>

text \<open>String after string going down from \<open>sp\<close>: each one is aligned, lies above the stack base and ends below the one before it.\<close>
fun stack_ok :: "u32 \<Rightarrow> u32 \<Rightarrow> u8 list list \<Rightarrow> u32 list \<Rightarrow> bool" where
  "stack_ok base sp [] [] = True"
| "stack_ok base sp (a # as) (v # vs) \<longleftrightarrow> base \<le> v \<and> v mod 16 = 0 \<and> unat v + length a + 1 \<le> unat sp \<and> stack_ok base v as vs"
| "stack_ok base sp _ _ = False"

lemma stack_ok_length: "stack_ok base sp as vs \<Longrightarrow> length vs = length as"
  by (induction base sp as vs rule: stack_ok.induct) auto

lemma push_aligned_mod: "push_aligned sp n mod 16 = 0"
proof -
  let ?x = "sp - n"
  have "?x mod 16 \<le> ?x" by (simp add: word_le_nat_alt unat_mod_distrib)
  then have "unat (?x - ?x mod 16) = unat ?x - unat ?x mod 16" by (simp add: unat_sub unat_mod_distrib)
  moreover have "(unat ?x - unat ?x mod 16) mod 16 = 0" by (simp add: minus_mod_eq_mult_div)
  ultimately have "unat ((?x - ?x mod 16) mod 16) = 0" by (simp add: unat_mod_distrib)
  then show ?thesis by (simp add: push_aligned_def Let_def unat_eq_0)
qed

lemma push_aligned_le:
  assumes "unat n \<le> unat sp"
  shows "unat (push_aligned sp n) + unat n \<le> unat sp"
proof -
  have a: "unat (sp - n) = unat sp - unat n" using assms by (simp add: unat_sub word_le_nat_alt)
  have "(sp - n) mod 16 \<le> sp - n" by (simp add: word_le_nat_alt unat_mod_distrib)
  then have "unat (sp - n - (sp - n) mod 16) \<le> unat (sp - n)" by (simp add: unat_sub)
  then show ?thesis using a assms by (simp add: push_aligned_def Let_def)
qed

lemma exec_args_layout:
  assumes "exec_args as pt sp base us s = Ok (Some (sp', us')) t" "base \<le> sp" "4096 \<le> base" "\<forall>a \<in> set as. length a < 4096"
  shows "\<exists>vs. us' = us @ vs \<and> stack_ok base sp as vs \<and> sp' = (if vs = [] then sp else last vs) \<and> (as \<noteq> [] \<longrightarrow> length us' \<le> MAXARG)"
  using assms
proof (induction as arbitrary: sp us s)
  case (Cons a as)
  let ?sp = "push_aligned sp (of_nat (length a) + 1)"
  obtain u where u: "\<not> length us \<ge> MAXARG" "\<not> ?sp < base" "exec_args as pt ?sp base (us @ [?sp]) u = Ok (Some (sp', us')) t"
    using Cons.prems(1) by (auto simp: Let_def split: if_splits outcome.splits)
  have n: "unat (of_nat (length a) + 1 :: u32) = length a + 1"
    using Cons.prems(4) unat_of_nat_32 [of "length a + 1"] by (simp add: add.commute)
  have "unat (of_nat (length a) + 1 :: u32) \<le> unat sp"
    using n Cons.prems(2-4) by (auto simp: word_le_nat_alt)
  from push_aligned_le [OF this] have le: "unat ?sp + length a + 1 \<le> unat sp" using n by simp
  obtain vs where vs: "us' = us @ [?sp] @ vs" "stack_ok base ?sp as vs" "sp' = (if vs = [] then ?sp else last vs)" "as \<noteq> [] \<longrightarrow> length us' \<le> MAXARG"
    using Cons.IH [OF u(3) u(2) [unfolded not_less] Cons.prems(3)] Cons.prems(4) by auto
  have "length us' \<le> MAXARG"
  proof (cases "as = []")
    case True
    then have "vs = []" using stack_ok_length [OF vs(2)] by simp
    then show ?thesis using vs(1) u(1) by simp
  qed (use vs(4) in simp)
  then show ?case using vs le u(2) push_aligned_mod by (intro exI [of _ "?sp # vs"]) simp
qed simp

section \<open>Properties\<close>

text \<open>(C23) The argument strings of \<open>exec\<close> stay inside the stack page: whenever the copying loop succeeds, there are at most \<open>MAXARG\<close> strings, one for each argument and in
  order; every string starts at a multiple of 16, at or above the stack base, and ends at or below the start of the one before it (the first one at or
  below the top of the stack), so that no two overlap and the guard page is never written.\<close>

theorem exec_args_bounds:
  assumes "exec_args argv pagetable sp stackbase [] s = Ok (Some (sp', ustack)) t" "stackbase \<le> sp" "PGSIZE \<le> stackbase"
    "\<forall>a \<in> set argv. length a < 4096"
  shows "stack_ok stackbase sp argv ustack \<and> length ustack = length argv \<and> length argv \<le> MAXARG \<and> stackbase \<le> sp'"
proof -
  obtain vs where vs: "ustack = vs" "stack_ok stackbase sp argv vs" "sp' = (if vs = [] then sp else last vs)" "argv \<noteq> [] \<longrightarrow> length ustack \<le> MAXARG"
    using exec_args_layout [OF assms] by auto
  have low: "stack_ok b q as xs \<Longrightarrow> x \<in> set xs \<Longrightarrow> b \<le> x" for b q as xs x
    by (induction b q as xs rule: stack_ok.induct) auto
  then have "stackbase \<le> sp'" using vs(2,3) assms(2) by (auto simp: last_in_set)
  then show ?thesis using vs stack_ok_length [OF vs(2)] by (cases "argv = []") auto
qed

text \<open>A page table that maps one stack page at \<open>0x2000\<close>.\<close>
definition stack_example :: kstate where
  "stack_example = blank_kstate\<lparr>mem := (\<lambda>_. 0)(0x80100000 := 0x01, 0x80100001 := 0x04, 0x80100002 := 0x04, 0x80100003 := 0x20,
     0x80101008 := 0x17, 0x80101009 := 0x08, 0x8010100A := 0x04, 0x8010100B := 0x20)\<rparr>"

lemma stack_example_pages: "load32 (mem stack_example) 0x80100000 = 0x20040401" "load32 (mem stack_example) 0x80101008 = 0x20040817"
  by (simp_all add: load32_def stack_example_def)

lemma stack_example_px: "PX 0 0x2000 = 2" "PX 1 0x2000 = 0" "PX (Suc 0) 0x2000 = 0" "PTE2PA 0x20040401 = 0x80101000" "PTE2PA 0x20040817 = 0x80102000"
  by (simp_all add: PX_def PTE2PA_def)

lemma stack_example_walk: "walk 0x80100000 0x2000 False stack_example = Ok 0x80101008 stack_example"
  by (simp add: walk_def stack_example_pages stack_example_px)

lemma stack_example_walkaddr: "walkaddr 0x80100000 0x2000 stack_example = Ok 0x80102000 stack_example"
  by (simp add: walkaddr_def stack_example_walk stack_example_pages stack_example_px)

lemma stack_example_push: "push_aligned 0x3000 2 = 0x2FF0"
  unfolding push_aligned_def Let_def by code_simp

lemma stack_example_chunk: "PGROUNDDOWN 0x2FF0 = 0x2000" "chunk 0x2FF0 2 = 2" "chunk 0x2FF0 (Suc (Suc 0)) = 2"
  by (simp_all add: PGROUNDDOWN_def chunk_def)

theorem exec_args_bounds_witness:
  "\<exists>t. exec_args [[65]] 0x80100000 0x3000 0x2000 [] stack_example = Ok (Some (0x2FF0, [0x2FF0])) t \<and> stack_ok 0x2000 0x3000 [[65]] [0x2FF0]"
proof -
  have "\<exists>t. exec_args [[65]] 0x80100000 0x3000 0x2000 [] stack_example = Ok (Some (0x2FF0, [0x2FF0])) t"
    by (simp add: stack_example_push copyout.simps user_page_def stack_example_walk stack_example_walkaddr stack_example_chunk stack_example_pages Let_def)
  then show ?thesis using exec_args_bounds [of "[[65]]" "0x80100000" "0x3000" "0x2000" stack_example "0x2FF0" "[0x2FF0]"] by auto
qed

end
