(* ===== verification/KV_Syscall.thy ===== *)
theory KV_Syscall
  imports KV_Exec
begin

text \<open>
  The system calls: argument fetching and dispatch (kernel/syscall.c), process calls (kernel/sysproc.c) and file-system calls
  (kernel/sysfile.c).  A result is the word that goes to the register \<open>a0\<close>; \<open>-1\<close> is the error.
\<close>

section \<open>Arguments (kernel/syscall.c)\<close>

definition fetchaddr :: "u32 \<Rightarrow> (int \<times> u32) K" where
  "fetchaddr addr =
     kbind the_proc (\<lambda>p.
     kbind (kget (\<lambda>s. procs s ! p)) (\<lambda>x.
     if addr \<ge> p_sz x \<or> addr + 4 > p_sz x then kret (-1, 0)
     else kbind (copyin (p_pagetable x) addr 4) (\<lambda>(r, bs).
       kret (if r \<noteq> 0 then (-1, 0) else (0, get32 bs 0)))))"

text \<open>The status or the length, and the string without its NUL.\<close>
definition fetchstr :: "u32 \<Rightarrow> nat \<Rightarrow> (int \<times> u8 list) K" where
  "fetchstr addr mx =
     kbind the_proc (\<lambda>p.
     kbind (kget (\<lambda>s. p_pagetable (procs s ! p))) (\<lambda>pt.
     kbind (copyinstr pt addr mx) (\<lambda>(r, bs).
     kret (if r < 0 then (-1, []) else (int (length (cstr bs)), cstr bs)))))"

definition argraw :: "nat \<Rightarrow> u32 K" where
  "argraw n =
     kbind the_proc (\<lambda>p.
     if n \<le> 5 then tf_get p (TF_a0 + of_nat (4 * n)) else kpanic ''argraw'')"

definition argint :: "nat \<Rightarrow> int K" where
  "argint n = kbind (argraw n) (\<lambda>v. kret (sint v))"

definition argaddr :: "nat \<Rightarrow> u32 K" where
  "argaddr n = argraw n"

definition argstr :: "nat \<Rightarrow> nat \<Rightarrow> (int \<times> u8 list) K" where
  "argstr n mx = kbind (argaddr n) (\<lambda>addr. fetchstr addr mx)"

section \<open>Process calls (kernel/sysproc.c)\<close>

definition sys_exit :: "u32 K" where
  "sys_exit = kbind (argint 0) (\<lambda>n. kbind (kexit (of_int n)) (\<lambda>_. kret 0))"

definition sys_getpid :: "u32 K" where
  "sys_getpid = kbind the_proc (\<lambda>p. kget (\<lambda>s. p_pid (procs s ! p)))"

definition sys_fork :: "u32 K" where
  "sys_fork = kbind kfork (\<lambda>r. kret (of_int r))"

definition sys_wait :: "u32 K" where
  "sys_wait = kbind (argaddr 0) (\<lambda>p. kbind (kwait p) (\<lambda>r. kret (of_int r)))"

abbreviation SBRK_EAGER :: int where "SBRK_EAGER \<equiv> 1"

definition sys_sbrk :: "u32 K" where
  "sys_sbrk =
     kbind (argint 0) (\<lambda>n.
     kbind (argint 1) (\<lambda>t.
     kbind the_proc (\<lambda>p.
     kbind (kget (\<lambda>s. p_sz (procs s ! p))) (\<lambda>addr.
     if t = SBRK_EAGER \<or> n < 0
     then kbind (growproc n) (\<lambda>r. kret (if r < 0 then -1 else addr))
     else if addr + of_int n < addr then kret (-1)
     else kbind (kmod (upd_proc p (\<lambda>x. x\<lparr>p_sz := p_sz x + of_int n\<rparr>))) (\<lambda>_. kret addr)))))"

text \<open>\<open>sys_pause\<close> from its loop on, with \<open>tickslock\<close> held; a process that slept enters it again.\<close>
definition sys_pause_loop :: "nat \<Rightarrow> u32 \<Rightarrow> u32 \<Rightarrow> u32 K" where
  "sys_pause_loop p n ticks0 =
     kbind (kget ticks) (\<lambda>now.
     if now - ticks0 < n then
       kbind (killed p) (\<lambda>k.
       if k then kbind (release LK_ticks) (\<lambda>_. kret (-1))
       else kblock CH_ticks LK_ticks)
     else kbind (release LK_ticks) (\<lambda>_. kret 0))"

definition sys_pause :: "u32 K" where
  "sys_pause =
     kbind (argint 0) (\<lambda>n.
     let n = (if n < 0 then 0 else n) in
     kbind the_proc (\<lambda>p.
     kbind (acquire LK_ticks) (\<lambda>_.
     kbind (kget ticks) (\<lambda>ticks0. sys_pause_loop p (of_int n) ticks0))))"

definition sys_pause_resume :: "u32 \<Rightarrow> u32 \<Rightarrow> u32 K" where
  "sys_pause_resume n ticks0 =
     kbind the_proc (\<lambda>p. kbind (sleep_resume LK_ticks) (\<lambda>_. sys_pause_loop p n ticks0))"

definition sys_kill :: "u32 K" where
  "sys_kill = kbind (argint 0) (\<lambda>pid. kbind (kkill (of_int pid)) (\<lambda>r. kret (of_int r)))"

definition sys_uptime :: "u32 K" where
  "sys_uptime =
     kbind (acquire LK_ticks) (\<lambda>_.
     kbind (kget ticks) (\<lambda>xticks.
     kbind (release LK_ticks) (\<lambda>_. kret xticks)))"

section \<open>File calls (kernel/sysfile.c)\<close>

abbreviation O_RDONLY :: u32 where "O_RDONLY \<equiv> 0"
abbreviation O_WRONLY :: u32 where "O_WRONLY \<equiv> 1"
abbreviation O_RDWR :: u32 where "O_RDWR \<equiv> 2"
abbreviation O_CREATE :: u32 where "O_CREATE \<equiv> 0x200"
abbreviation O_TRUNC :: u32 where "O_TRUNC \<equiv> 0x400"

definition argfd :: "nat \<Rightarrow> (nat \<times> nat) option K" where
  "argfd n =
     kbind (argint n) (\<lambda>fd.
     if fd < 0 \<or> fd \<ge> int NOFILE then kret None
     else kbind the_proc (\<lambda>p.
       kbind (kget (\<lambda>s. p_ofile (procs s ! p) ! nat fd)) (\<lambda>r.
       kret (map_option (\<lambda>f. (nat fd, f)) r))))"

definition set_fd :: "nat \<Rightarrow> nat \<Rightarrow> nat option \<Rightarrow> unit K" where
  "set_fd p fd r = kmod (upd_proc p (\<lambda>x. x\<lparr>p_ofile := (p_ofile x)[fd := r]\<rparr>))"

definition fdalloc :: "nat \<Rightarrow> nat option K" where
  "fdalloc f =
     kbind the_proc (\<lambda>p.
     kbind (kget (\<lambda>s. find (\<lambda>fd. p_ofile (procs s ! p) ! fd = None) [0..<NOFILE])) (\<lambda>r.
     case r of
       None \<Rightarrow> kret None
     | Some fd \<Rightarrow> kbind (set_fd p fd (Some f)) (\<lambda>_. kret (Some fd))))"

definition sys_dup :: "u32 K" where
  "sys_dup =
     kbind (argfd 0) (\<lambda>r. case r of
       None \<Rightarrow> kret (-1)
     | Some (_, f) \<Rightarrow> kbind (fdalloc f) (\<lambda>r. case r of
         None \<Rightarrow> kret (-1)
       | Some fd \<Rightarrow> kbind (filedup f) (\<lambda>_. kret (of_nat fd))))"

definition sys_read :: "u32 K" where
  "sys_read =
     kbind (argaddr 1) (\<lambda>p.
     kbind (argint 2) (\<lambda>n.
     kbind (argfd 0) (\<lambda>r. case r of
       None \<Rightarrow> kret (-1)
     | Some (_, f) \<Rightarrow> kbind (fileread f p n) (\<lambda>c. kret (of_int c)))))"

definition sys_write :: "u32 K" where
  "sys_write =
     kbind (argaddr 1) (\<lambda>p.
     kbind (argint 2) (\<lambda>n.
     kbind (argfd 0) (\<lambda>r. case r of
       None \<Rightarrow> kret (-1)
     | Some (_, f) \<Rightarrow> kbind (filewrite f p n) (\<lambda>c. kret (of_int c)))))"

definition sys_close :: "u32 K" where
  "sys_close =
     kbind (argfd 0) (\<lambda>r. case r of
       None \<Rightarrow> kret (-1)
     | Some (fd, f) \<Rightarrow>
         kbind the_proc (\<lambda>p.
         kbind (kdo [set_fd p fd None, fileclose f]) (\<lambda>_. kret 0)))"

definition sys_fstat :: "u32 K" where
  "sys_fstat =
     kbind (argaddr 1) (\<lambda>st.
     kbind (argfd 0) (\<lambda>r. case r of
       None \<Rightarrow> kret (-1)
     | Some (_, f) \<Rightarrow> kbind (filestat f st) (\<lambda>c. kret (of_int c))))"

text \<open>\<open>iunlockput(ip); end_op(); return -1\<close>, and \<open>end_op(); return -1\<close>.\<close>
definition fail_ip :: "nat \<Rightarrow> u32 K" where
  "fail_ip ip = kbind (kdo [iunlockput ip, end_op]) (\<lambda>_. kret (-1))"

definition fail_op :: "u32 K" where
  "fail_op = kbind end_op (\<lambda>_. kret (-1))"

definition add_nlink :: "nat \<Rightarrow> u16 \<Rightarrow> unit K" where
  "add_nlink ip d = kdo [kmod (upd_inode ip (\<lambda>x. x\<lparr>i_nlink := i_nlink x + d\<rparr>)), iupdate ip]"

definition sys_link :: "u32 K" where
  "sys_link =
     kbind (argstr 0 MAXPATH) (\<lambda>(r0, old).
     if r0 < 0 then kret (-1)
     else kbind (argstr 1 MAXPATH) (\<lambda>(r1, new).
     if r1 < 0 then kret (-1)
     else kbind begin_op (\<lambda>_.
       kbind (namei old) (\<lambda>r. case r of
         None \<Rightarrow> fail_op
       | Some ip \<Rightarrow>
           kbind (ilock ip) (\<lambda>_.
           kbind (kget (\<lambda>s. i_type (inodes s ! ip))) (\<lambda>ty.
           if ty = T_DIR then fail_ip ip
           else
             let bad = kbind (kdo [ilock ip, add_nlink ip (-1)]) (\<lambda>_. fail_ip ip) in
             kbind (kdo [add_nlink ip 1, iunlock ip]) (\<lambda>_.
             kbind (nameiparent new) (\<lambda>(r, name). case r of
               None \<Rightarrow> bad
             | Some dp \<Rightarrow>
                 kbind (ilock dp) (\<lambda>_.
                 kbind (kget (\<lambda>s. i_dev (inodes s ! dp) \<noteq> i_dev (inodes s ! ip))) (\<lambda>otherdev.
                 kbind (if otherdev then kret (-1)
                        else kbind (kget (\<lambda>s. i_inum (inodes s ! ip))) (\<lambda>inum. dirlink dp name inum)) (\<lambda>r.
                 if r < 0 then kbind (iunlockput dp) (\<lambda>_. bad)
                 else kbind (kdo [iunlockput dp, iput ip, end_op]) (\<lambda>_. kret 0))))))))))))"

definition isdirempty :: "nat \<Rightarrow> bool K" where
  "isdirempty dp =
     kbind (kget (\<lambda>s. i_size (inodes s ! dp))) (\<lambda>sz.
     kbind (ksearch (drop 2 (dir_offsets sz)) (\<lambda>off.
       kbind (read_dirent ''isdirempty: readi'' dp off) (\<lambda>de.
       kret (if de_inum de \<noteq> 0 then Some () else None)))) (\<lambda>r.
     kret (r = None)))"

definition sys_unlink :: "u32 K" where
  "sys_unlink =
     kbind (argstr 0 MAXPATH) (\<lambda>(r0, pth).
     if r0 < 0 then kret (-1)
     else kbind begin_op (\<lambda>_.
       kbind (nameiparent pth) (\<lambda>(r, name). case r of
         None \<Rightarrow> fail_op
       | Some dp \<Rightarrow>
           kbind (ilock dp) (\<lambda>_.
           if namecmp name [46] = 0 \<or> namecmp name [46, 46] = 0 then fail_ip dp
           else kbind (dirlookup dp name) (\<lambda>r. case r of
             None \<Rightarrow> fail_ip dp
           | Some (ip, off) \<Rightarrow>
               kbind (ilock ip) (\<lambda>_.
               kbind (kget (\<lambda>s. inodes s ! ip)) (\<lambda>x.
               if sint (i_nlink x) < 1 then kpanic ''unlink: nlink < 1''
               else kbind (if i_type x = T_DIR then isdirempty ip else kret True) (\<lambda>emp.
                 if \<not> emp then kbind (iunlockput ip) (\<lambda>_. fail_ip dp)
                 else kbind (writei dp (KernObj (replicate 16 0)) (of_nat off) 16) (\<lambda>c.
                   if c \<noteq> 16 then kpanic ''unlink: writei''
                   else kbind (kdo [
                     kwhen (i_type x = T_DIR) (add_nlink dp (-1)),
                     iunlockput dp,
                     add_nlink ip (-1),
                     iunlockput ip,
                     end_op]) (\<lambda>_. kret 0))))))))))"

text \<open>\<open>create\<close>: the inode, locked, or \<open>None\<close>.\<close>
definition create :: "u8 list \<Rightarrow> u16 \<Rightarrow> u16 \<Rightarrow> u16 \<Rightarrow> nat option K" where
  "create pth ty maj mnr =
     kbind (nameiparent pth) (\<lambda>(r, name). case r of
       None \<Rightarrow> kret None
     | Some dp \<Rightarrow>
         kbind (ilock dp) (\<lambda>_.
         kbind (dirlookup dp name) (\<lambda>r. case r of
           Some (ip, _) \<Rightarrow>
             kbind (kdo [iunlockput dp, ilock ip]) (\<lambda>_.
             kbind (kget (\<lambda>s. i_type (inodes s ! ip))) (\<lambda>ity.
             if ty = T_FILE \<and> (ity = T_FILE \<or> ity = T_DEVICE) then kret (Some ip)
             else kbind (iunlockput ip) (\<lambda>_. kret None)))
         | None \<Rightarrow>
             kbind (kget (\<lambda>s. i_dev (inodes s ! dp))) (\<lambda>dev.
             kbind (ialloc dev ty) (\<lambda>r. case r of
               None \<Rightarrow> kbind (iunlockput dp) (\<lambda>_. kret None)
             | Some ip \<Rightarrow>
                 kbind (kdo [
                   ilock ip,
                   kmod (upd_inode ip (\<lambda>x. x\<lparr>i_major := maj, i_minor := mnr, i_nlink := 1\<rparr>)),
                   iupdate ip]) (\<lambda>_.
                 kbind (kget (\<lambda>s. (i_inum (inodes s ! ip), i_inum (inodes s ! dp)))) (\<lambda>(inum, dinum).
                 kbind (if ty = T_DIR
                        then kbind (dirlink ip [46] inum) (\<lambda>r. if r < 0 then kret r else dirlink ip [46, 46] dinum)
                        else kret 0) (\<lambda>r.
                 kbind (if r < 0 then kret r else dirlink dp name inum) (\<lambda>r.
                 if r < 0 then
                   kbind (kdo [
                     kmod (upd_inode ip (\<lambda>x. x\<lparr>i_nlink := 0\<rparr>)),
                     iupdate ip,
                     iunlockput ip,
                     iunlockput dp]) (\<lambda>_. kret None)
                 else
                   kbind (kdo [
                     kwhen (ty = T_DIR) (add_nlink dp 1),
                     iunlockput dp]) (\<lambda>_. kret (Some ip)))))))))))"

text \<open>The first half of \<open>sys_open\<close>: the inode to open, locked.\<close>
definition open_inode :: "u8 list \<Rightarrow> u32 \<Rightarrow> nat option K" where
  "open_inode pth omode =
     (if omode AND O_CREATE \<noteq> 0 then create pth T_FILE 0 0
      else kbind (namei pth) (\<lambda>r. case r of
        None \<Rightarrow> kret None
      | Some ip \<Rightarrow>
          kbind (ilock ip) (\<lambda>_.
          kbind (kget (\<lambda>s. i_type (inodes s ! ip))) (\<lambda>ty.
          if ty = T_DIR \<and> omode \<noteq> O_RDONLY then kbind (iunlockput ip) (\<lambda>_. kret None)
          else kret (Some ip)))))"

definition open_file :: "nat \<Rightarrow> u32 \<Rightarrow> inode \<Rightarrow> kfile \<Rightarrow> kfile" where
  "open_file ip omode x fl =
     (let fl = (if i_type x = T_DEVICE then fl\<lparr>f_type := FD_DEVICE, f_major := i_major x\<rparr>
                else fl\<lparr>f_type := FD_INODE, f_off := 0\<rparr>)
      in fl\<lparr>f_ip := Some ip, f_readable := (omode AND O_WRONLY = 0),
            f_writable := (omode AND O_WRONLY \<noteq> 0 \<or> omode AND O_RDWR \<noteq> 0)\<rparr>)"

definition sys_open :: "u32 K" where
  "sys_open =
     kbind (argraw 1) (\<lambda>omode.
     kbind (argstr 0 MAXPATH) (\<lambda>(n, pth).
     if n < 0 then kret (-1)
     else kbind begin_op (\<lambda>_.
       kbind (open_inode pth omode) (\<lambda>r. case r of
         None \<Rightarrow> fail_op
       | Some ip \<Rightarrow>
           kbind (kget (\<lambda>s. inodes s ! ip)) (\<lambda>x.
           if i_type x = T_DEVICE \<and> (sint (i_major x) < 0 \<or> sint (i_major x) \<ge> int NDEV) then fail_ip ip
           else kbind filealloc (\<lambda>r. case r of
             None \<Rightarrow> fail_ip ip
           | Some f \<Rightarrow> kbind (fdalloc f) (\<lambda>r. case r of
               None \<Rightarrow> kbind (fileclose f) (\<lambda>_. fail_ip ip)
             | Some fd \<Rightarrow>
                 kbind (kdo [
                   kmod (upd_file f (open_file ip omode x)),
                   kwhen (omode AND O_TRUNC \<noteq> 0 \<and> i_type x = T_FILE) (itrunc ip),
                   iunlock ip,
                   end_op]) (\<lambda>_. kret (of_nat fd)))))))))"

definition sys_mkdir :: "u32 K" where
  "sys_mkdir =
     kbind begin_op (\<lambda>_.
     kbind (argstr 0 MAXPATH) (\<lambda>(n, pth).
     if n < 0 then fail_op
     else kbind (create pth T_DIR 0 0) (\<lambda>r. case r of
         None \<Rightarrow> fail_op
       | Some ip \<Rightarrow> kbind (kdo [iunlockput ip, end_op]) (\<lambda>_. kret 0))))"

definition sys_mknod :: "u32 K" where
  "sys_mknod =
     kbind begin_op (\<lambda>_.
     kbind (argraw 1) (\<lambda>maj.
     kbind (argraw 2) (\<lambda>mnr.
     kbind (argstr 0 MAXPATH) (\<lambda>(n, pth).
     if n < 0 then fail_op
     else kbind (create pth T_DEVICE (ucast maj) (ucast mnr)) (\<lambda>r. case r of
         None \<Rightarrow> fail_op
       | Some ip \<Rightarrow> kbind (kdo [iunlockput ip, end_op]) (\<lambda>_. kret 0))))))"

definition sys_chdir :: "u32 K" where
  "sys_chdir =
     kbind the_proc (\<lambda>p.
     kbind begin_op (\<lambda>_.
     kbind (argstr 0 MAXPATH) (\<lambda>(n, pth).
     if n < 0 then fail_op
     else kbind (namei pth) (\<lambda>r. case r of
         None \<Rightarrow> fail_op
       | Some ip \<Rightarrow>
           kbind (ilock ip) (\<lambda>_.
           kbind (kget (\<lambda>s. i_type (inodes s ! ip))) (\<lambda>ty.
           if ty \<noteq> T_DIR then fail_ip ip
           else kbind (kdo [
             iunlock ip,
             kbind (kget (\<lambda>s. p_cwd (procs s ! p))) (\<lambda>r. case r of Some c \<Rightarrow> iput c | None \<Rightarrow> kpanic ''null cwd''),
             end_op,
             kmod (upd_proc p (\<lambda>x. x\<lparr>p_cwd := Some ip\<rparr>))]) (\<lambda>_. kret 0)))))))"

text \<open>The loop of \<open>sys_exec\<close> that fetches the arguments into fresh pages, with \<open>k\<close> entries of \<open>argv\<close> left: the pages, and
  the strings unless something went wrong.\<close>
primrec exec_argv :: "nat \<Rightarrow> u32 \<Rightarrow> (u32 list \<times> u8 list list option) K" where
  "exec_argv 0 uargv = kret ([], None)"
| "exec_argv (Suc k) uargv =
     kbind (fetchaddr uargv) (\<lambda>(r, uarg).
     if r < 0 then kret ([], None)
     else if uarg = 0 then kret ([], Some [])
     else kbind kalloc (\<lambda>page.
       if page = 0 then kret ([], None)
       else kbind (fetchstr uarg 4096) (\<lambda>(n, str).
         if n < 0 then kret ([page], None)
         else kbind (kmem_upd (write_bytes page (str @ [0]))) (\<lambda>_.
           kbind (exec_argv k (uargv + 4)) (\<lambda>(pages, r).
           kret (page # pages, map_option (\<lambda>strs. str # strs) r))))))"

definition sys_exec :: "u32 K" where
  "sys_exec =
     kbind (argaddr 1) (\<lambda>uargv.
     kbind (argstr 0 MAXPATH) (\<lambda>(n, pth).
     if n < 0 then kret (-1)
     else kbind (exec_argv MAXARG uargv) (\<lambda>(pages, r).
       kbind (case r of None \<Rightarrow> kret (-1) | Some argv \<Rightarrow> kexec pth argv) (\<lambda>ret.
       kbind (kfor pages kfree) (\<lambda>_. kret (of_int ret))))))"

definition sys_pipe :: "u32 K" where
  "sys_pipe =
     kbind the_proc (\<lambda>p.
     kbind (argaddr 0) (\<lambda>fdarray.
     kbind pipealloc (\<lambda>r. case r of
       None \<Rightarrow> kret (-1)
     | Some (rfl, wfl) \<Rightarrow>
         let closeall = (\<lambda>fds :: nat list. kbind (kdo [kfor fds (\<lambda>fd. set_fd p fd None), fileclose rfl, fileclose wfl]) (\<lambda>_. kret (-1))) in
         kbind (fdalloc rfl) (\<lambda>r0. case r0 of
           None \<Rightarrow> closeall []
         | Some fd0 \<Rightarrow> kbind (fdalloc wfl) (\<lambda>r1. case r1 of
             None \<Rightarrow> closeall [fd0]
           | Some fd1 \<Rightarrow>
               kbind my_pagetable (\<lambda>pt.
               kbind (copyout pt fdarray (word_bytes (of_nat fd0))) (\<lambda>c0.
               kbind (if c0 < 0 then kret c0 else copyout pt (fdarray + 4) (word_bytes (of_nat fd1))) (\<lambda>c.
               if c < 0 then closeall [fd0, fd1] else kret 0))))))))"

section \<open>Dispatch\<close>

definition syscalls :: "u32 \<Rightarrow> u32 K option" where
  "syscalls num =
     (if num = 1 then Some sys_fork else if num = 2 then Some sys_exit else if num = 3 then Some sys_wait
      else if num = 4 then Some sys_pipe else if num = 5 then Some sys_read else if num = 6 then Some sys_kill
      else if num = 7 then Some sys_exec else if num = 8 then Some sys_fstat else if num = 9 then Some sys_chdir
      else if num = 10 then Some sys_dup else if num = 11 then Some sys_getpid else if num = 12 then Some sys_sbrk
      else if num = 13 then Some sys_pause else if num = 14 then Some sys_uptime else if num = 15 then Some sys_open
      else if num = 16 then Some sys_write else if num = 17 then Some sys_mknod else if num = 18 then Some sys_unlink
      else if num = 19 then Some sys_link else if num = 20 then Some sys_mkdir else if num = 21 then Some sys_close
      else None)"

text \<open>\<open>"%d %s: unknown sys call %d\n"\<close>\<close>
definition unknown_fmt :: "u8 list" where
  "unknown_fmt = [37, 100, 32, 37, 115, 58, 32, 117, 110, 107, 110, 111, 119, 110, 32, 115, 121, 115, 32, 99, 97, 108, 108, 32, 37, 100, 10]"

definition syscall :: "unit K" where
  "syscall =
     kbind the_proc (\<lambda>p.
     kbind (tf_get p TF_a7) (\<lambda>num.
     case syscalls num of
       Some f \<Rightarrow> kbind f (\<lambda>r. tf_set p TF_a0 r)
     | None \<Rightarrow>
         kbind (kget (\<lambda>s. procs s ! p)) (\<lambda>x. kdo [
           printf unknown_fmt [PInt (p_pid x), PStr (Some (p_name x)), PInt num],
           tf_set p TF_a0 (-1)])))"


section \<open>Arguments and descriptors\<close>

text \<open>The word that the running process passed as argument \<open>n\<close>.\<close>
definition arg_word :: "kstate \<Rightarrow> nat \<Rightarrow> nat \<Rightarrow> u32" where
  "arg_word s p n = load32 (mem s) (p_trapframe (procs s ! p) + (TF_a0 + of_nat (4 * n)))"

lemma the_proc_run: "cur s = Some p \<Longrightarrow> the_proc s = Ok p s"
  by (simp add: the_proc_def myproc_def)

lemma argraw_run: "cur s = Some p \<Longrightarrow> n \<le> 5 \<Longrightarrow> argraw n s = Ok (arg_word s p n) s"
  by (simp add: argraw_def the_proc_run tf_get_def arg_word_def)

lemma argint_run: "cur s = Some p \<Longrightarrow> n \<le> 5 \<Longrightarrow> argint n s = Ok (sint (arg_word s p n)) s"
  by (simp add: argint_def argraw_run)

text \<open>The file behind a descriptor, if it is one.\<close>
definition fd_lookup :: "kstate \<Rightarrow> nat \<Rightarrow> int \<Rightarrow> nat option" where
  "fd_lookup s p fd = (if fd < 0 \<or> fd \<ge> int NOFILE then None else p_ofile (procs s ! p) ! nat fd)"

lemma argfd_run:
  assumes "cur s = Some p" "n \<le> 5"
  shows "argfd n s = Ok (map_option (\<lambda>f. (nat (sint (arg_word s p n)), f)) (fd_lookup s p (sint (arg_word s p n)))) s"
  using assms by (simp add: argfd_def argint_run fd_lookup_def the_proc_run)

definition free_fd :: "kstate \<Rightarrow> nat \<Rightarrow> nat option" where
  "free_fd s p = find (\<lambda>fd. p_ofile (procs s ! p) ! fd = None) [0..<NOFILE]"

lemma fdalloc_run:
  assumes "cur s = Some p"
  shows "fdalloc f s = (case free_fd s p of
      None \<Rightarrow> Ok None s
    | Some fd \<Rightarrow> Ok (Some fd) (upd_proc p (\<lambda>x. x\<lparr>p_ofile := (p_ofile x)[fd := Some f]\<rparr>) s))"
  unfolding fdalloc_def free_fd_def kbind_run the_proc_run [OF assms] outcome.case kget_run
  by (simp only: set_fd_def split: option.split) simp

section \<open>Properties\<close>

text \<open>\<open>dup\<close>: on a descriptor that is not open, or with no free slot left, it returns -1 and changes nothing; otherwise it returns the lowest free descriptor, which
  then refers to the same open file, whose reference count grows by one; no other descriptor and no other file changes.\<close>

theorem sys_dup_spec:
  assumes "cur s = Some p" "p < length (procs s)" "LK_ftable \<notin> held s"
    "\<forall>fd f. fd_lookup s p fd = Some f \<longrightarrow> f < length (files s) \<and> 1 \<le> f_ref (files s ! f)"
  shows "case fd_lookup s p (sint (arg_word s p 0)) of
      None \<Rightarrow> sys_dup s = Ok (-1) s
    | Some f \<Rightarrow> (case free_fd s p of
        None \<Rightarrow> sys_dup s = Ok (-1) s
      | Some fd \<Rightarrow> \<exists>t. sys_dup s = Ok (of_nat fd) t
          \<and> procs t = (procs s)[p := (procs s ! p)\<lparr>p_ofile := (p_ofile (procs s ! p))[fd := Some f]\<rparr>]
          \<and> files t = (files s)[f := (files s ! f)\<lparr>f_ref := f_ref (files s ! f) + 1\<rparr>] \<and> held t = held s)"
proof (cases "fd_lookup s p (sint (arg_word s p 0))")
  case None
  then show ?thesis using argfd_run [OF assms(1), of 0] by (simp add: sys_dup_def)
next
  case (Some f)
  have f: "f < length (files s)" "1 \<le> f_ref (files s ! f)" using assms(4) Some by auto
  show ?thesis
  proof (cases "free_fd s p")
    case None
    then show ?thesis using Some argfd_run [OF assms(1), of 0] fdalloc_run [OF assms(1), of f] by (simp add: sys_dup_def)
  next
    case (Some fd)
    let ?s1 = "upd_proc p (\<lambda>x. x\<lparr>p_ofile := (p_ofile x)[fd := Some f]\<rparr>) s"
    have "filedup f ?s1 = Ok f (upd_file f (\<lambda>x. x\<lparr>f_ref := f_ref x + 1\<rparr>) ?s1)"
      using f assms(3) by (simp add: filedup_def upd_proc_def upd_file_def)
    then have "sys_dup s = Ok (of_nat fd) (upd_file f (\<lambda>x. x\<lparr>f_ref := f_ref x + 1\<rparr>) ?s1)"
      using Some \<open>fd_lookup s p (sint (arg_word s p 0)) = Some f\<close> argfd_run [OF assms(1), of 0] fdalloc_run [OF assms(1), of f]
      by (simp add: sys_dup_def)
    then show ?thesis using Some \<open>fd_lookup s p (sint (arg_word s p 0)) = Some f\<close> by (simp add: upd_proc_def upd_file_def)
  qed
qed

definition fd_example :: kstate where
  "fd_example = blank_kstate\<lparr>procs := [proc_example\<lparr>p_ofile := (replicate 16 None)[0 := Some 5], p_trapframe := 0x80100000\<rparr>], cur := Some 0,
     files := replicate 100 \<lparr>f_type = FD_INODE, f_ref = 1, f_readable = True, f_writable = True, f_pipe = 0, f_ip = Some 0, f_off = 0, f_major = 0\<rparr>\<rparr>"

theorem sys_dup_spec_witness:
  "\<exists>t. sys_dup fd_example = Ok 1 t \<and> f_ref (files t ! 5) = 2"
proof -
  have a: "arg_word fd_example 0 0 = 0" by (simp add: arg_word_def fd_example_def blank_kstate_def load32_def)
  have l: "fd_lookup fd_example 0 fd = (if fd = 0 then Some 5 else None)" for fd
    by (auto simp: fd_lookup_def fd_example_def nth_list_update)
  have "[0..<NOFILE] = 0 # 1 # [2..<NOFILE]" by (simp add: upt_rec)
  then have ff: "free_fd fd_example 0 = Some 1" by (simp only: free_fd_def) (simp add: fd_example_def)
  have st: "cur fd_example = Some 0" "0 < length (procs fd_example)" "LK_ftable \<notin> held fd_example" "length (files fd_example) = 100"
    "f_ref (files fd_example ! 5) = 1"
    by (simp_all add: fd_example_def blank_kstate_def)
  have "\<forall>fd f. fd_lookup fd_example 0 fd = Some f \<longrightarrow> f < length (files fd_example) \<and> 1 \<le> f_ref (files fd_example ! f)"
    using l st(4,5) by auto
  from sys_dup_spec [OF st(1-3) this] show ?thesis using a ff l st(4,5) by fastforce
qed

text \<open>The lazy branch of \<open>sbrk\<close>.\<close>
lemma sys_sbrk_lazy:
  assumes "cur s = Some p" "p < length (procs s)" "0 \<le> sint (arg_word s p 0)" "sint (arg_word s p 1) \<noteq> SBRK_EAGER"
    "p_sz (procs s ! p) \<le> p_sz (procs s ! p) + arg_word s p 0"
  shows "sys_sbrk s = Ok (p_sz (procs s ! p)) (s\<lparr>procs := (procs s)[p := (procs s ! p)\<lparr>p_sz := p_sz (procs s ! p) + arg_word s p 0\<rparr>]\<rparr>)"
proof -
  have "of_int (sint (arg_word s p 0)) = arg_word s p 0" by simp
  then show ?thesis
    using argint_run [OF assms(1), of 0] argint_run [OF assms(1), of 1] the_proc_run [OF assms(1)] assms(3,4,5)
    by (simp add: sys_sbrk_def upd_proc_def linorder_not_less [symmetric])
qed

text \<open>The address space of a process whose size is in the last page cannot be freed.\<close>
lemma proc_freepagetable_wrapped:
  assumes ok: "vm_ok s pt ps" and sz: "4294963200 < unat sz" and va: "unat va < 4194304" "pte_at (mem s) pt va AND PTE_V \<noteq> 0"
    and lf: "proper_leaves (mem s) pt"
  shows "\<exists>t. proc_freepagetable pt sz s = Panic ''freewalk: leaf'' t"
proof -
  obtain u where u: "uvmunmap pt TRAMPOLINE 1 False s = Ok () u" "vm_ok u pt ps" "pte_at (mem u) pt = unmap_range 1048575 1 (pte_at (mem s) pt)"
    using uvmunmap_range [OF ok, of TRAMPOLINE 1048575 1 False] by auto
  obtain t where t: "uvmunmap pt TRAPFRAME 1 False u = Ok () t" "vm_ok t pt ps" "pte_at (mem t) pt = unmap_range 1048574 1 (pte_at (mem u) pt)"
    using uvmunmap_range [OF u(2), of TRAPFRAME 1048574 1 False] by auto
  have low: "pte_at (mem t) pt vb = pte_at (mem s) pt vb" if "unat vb < 4194304" for vb
  proof -
    have "unat vb div 4096 < 1024" using that by (simp add: less_mult_imp_div_less)
    then show ?thesis by (simp add: t(3) u(3) unmap_range_def)
  qed
  have "pte_at (mem t) pt va AND PTE_V \<noteq> 0" "proper_leaves (mem t) pt" using va lf low by auto
  then have "uvmfree pt sz t = Panic ''freewalk: leaf'' t"
    using freewalk_leaf [of "sym_end (link t)" t pt va] va(1) t(2) by (simp add: uvmfree_wrapped [OF sz] vm_ok_def)
  then show ?thesis using u(1) t(1) by (simp add: proc_freepagetable_def)
qed

text \<open>(C37) The lazy \<open>sbrk\<close> has no bound but the wrap of 32 bits, and a process can use it to stop the kernel.  When the increment brings the size of a
  process into the last page of the address space (over \<open>TRAPFRAME\<close> and \<open>TRAMPOLINE\<close>), \<open>sbrk\<close> succeeds; but \<open>PGROUNDUP\<close> of
  that size is 0, so that when the process is gone and \<open>proc_freepagetable\<close> takes down its address space, no page of it is unmapped, and \<open>freewalk\<close> panics
  at the first page of the program.\<close>

theorem sbrk_lazy_panics_at_exit:
  assumes "cur s = Some p" "p < length (procs s)" "0 \<le> sint (arg_word s p 0)" "sint (arg_word s p 1) \<noteq> SBRK_EAGER"
    "4294963200 < unat (p_sz (procs s ! p)) + unat (arg_word s p 0)" "unat (p_sz (procs s ! p)) + unat (arg_word s p 0) < 2 ^ 32"
    and "vm_ok s (p_pagetable (procs s ! p)) ps" "unat va < 4194304" "pte_at (mem s) (p_pagetable (procs s ! p)) va AND PTE_V \<noteq> 0"
    "\<forall>vb. unat vb < 4194304 \<and> pte_at (mem s) (p_pagetable (procs s ! p)) vb AND PTE_V \<noteq> 0 \<longrightarrow>
       pte_at (mem s) (p_pagetable (procs s ! p)) vb AND (PTE_R OR PTE_W OR PTE_X) \<noteq> 0"
  shows "\<exists>t. sys_sbrk s = Ok (p_sz (procs s ! p)) t
    \<and> (\<exists>u. proc_freepagetable (p_pagetable (procs t ! p)) (p_sz (procs t ! p)) t = Panic ''freewalk: leaf'' u)"
proof -
  let ?x = "procs s ! p" and ?n = "arg_word s p 0"
  let ?t = "s\<lparr>procs := (procs s)[p := ?x\<lparr>p_sz := p_sz ?x + ?n\<rparr>]\<rparr>"
  have sz: "unat (p_sz ?x + ?n) = unat (p_sz ?x) + unat ?n" using assms(6) by (simp add: unat_add_32)
  then have "p_sz ?x \<le> p_sz ?x + ?n" by (simp add: word_le_nat_alt)
  from sys_sbrk_lazy [OF assms(1-4) this] have run: "sys_sbrk s = Ok (p_sz ?x) ?t" .
  have ok: "vm_ok ?t (p_pagetable ?x) ps" using assms(7) by (simp add: vm_ok_def free_pages_def)
  have big: "4294963200 < unat (p_sz ?x + ?n)" using sz assms(5) by simp
  have "\<exists>u. proc_freepagetable (p_pagetable ?x) (p_sz ?x + ?n) ?t = Panic ''freewalk: leaf'' u"
    by (rule proc_freepagetable_wrapped [OF ok big assms(8)]) (use assms(9,10) in simp_all)
  then show ?thesis using run assms(2) by simp
qed

text \<open>A process with the page of \<open>vm_mapped_example\<close> and the size 0x80000000 that asks for 0x7FFFFFFF bytes.\<close>
definition sbrk_example :: kstate where
  "sbrk_example = vm_mapped_example\<lparr>procs := [proc_example\<lparr>p_sz := 0x80000000, p_pagetable := ex_root, p_trapframe := 0x80100000\<rparr>], cur := Some 0,
     mem := store32 (store32 (mem vm_mapped_example) (slot 0x80100000 14) 0x7FFFFFFF) (slot 0x80100000 15) 2\<rparr>"

theorem sbrk_lazy_panics_at_exit_witness:
  "\<exists>t. sys_sbrk sbrk_example = Ok 0x80000000 t
    \<and> (\<exists>u. proc_freepagetable (p_pagetable (procs t ! 0)) (p_sz (procs t ! 0)) t = Panic ''freewalk: leaf'' u)"
proof -
  let ?v = "mem vm_mapped_example" and ?m = "mem sbrk_example"
  have ok: "free_pages vm_mapped_example [0x80052000]" "pt_ok (sym_end (link vm_mapped_example)) ?v ex_root"
    using vm_mapped_ok by (simp_all add: vm_ok_def)
  have m: "?m = store32 (store32 ?v (slot 0x80100000 14) 0x7FFFFFFF) (slot 0x80100000 15) 2" by (simp add: sbrk_example_def)
  have off: "off_page 0x80100000 ?v ?m" unfolding m by (rule off_page_trans [OF off_page_store off_page_store]) simp_all
  note vs = vspace_off_page [OF ok(2) off, unfolded vm_mapped_tables(1), simplified]
  have "free_pages (vm_mapped_example\<lparr>mem := ?m\<rparr>) [0x80052000]" by (rule free_pages_off_page [OF ok(1) off]) simp_all
  then have "vm_ok sbrk_example ex_root [0x80052000]"
    using vs(3,4) by (simp add: vm_ok_def free_pages_def sbrk_example_def)
  moreover have "arg_word sbrk_example 0 0 = 0x7FFFFFFF" "arg_word sbrk_example 0 1 = 2"
    unfolding arg_word_def m by (simp_all add: sbrk_example_def slot_def load32_store32_same load32_store32_other)
  moreover have "procs sbrk_example = [proc_example\<lparr>p_sz := 0x80000000, p_pagetable := ex_root, p_trapframe := 0x80100000\<rparr>]" "cur sbrk_example = Some 0"
    by (simp_all add: sbrk_example_def)
  moreover have "pte_at ?m ex_root 0x1000 AND PTE_V \<noteq> 0"
    "\<forall>vb. unat vb < 4194304 \<and> pte_at ?m ex_root vb AND PTE_V \<noteq> 0 \<longrightarrow> pte_at ?m ex_root vb AND (PTE_R OR PTE_W OR PTE_X) \<noteq> 0"
    by (simp_all add: vs(2) vm_mapped_leaf PA2PTE_def)
  ultimately show ?thesis using sbrk_lazy_panics_at_exit [of sbrk_example 0 "[0x80052000]" "0x1000"] by simp
qed

end
