(* ===== verification/KV_Trap.thy ===== *)
theory KV_Trap
  imports KV_Syscall
begin

text \<open>
  Traps (kernel/trap.c), the interrupt controller (kernel/plic.c) as far as \<open>devintr\<close> uses it, and \<open>forkret\<close> (kernel/proc.c).  The
  control and status registers of the hart are the record \<open>csr\<close>, which the handlers take and return; what the devices present
  to an interrupt handler is the record \<open>hwinput\<close>.  The message that \<open>kerneltrap\<close> prints before its last panic is left out.
\<close>

record csr =
  r_sstatus :: u32
  r_sepc :: u32
  r_scause :: u32
  r_stval :: u32
  r_stvec :: u32
  r_satp :: u32
  r_tp :: u32
  timer_set :: bool

record hwinput =
  plic_irq :: u32
  uart_tx_idle :: bool
  uart_rx :: "u8 list"

abbreviation SSTATUS_SPP :: u32 where "SSTATUS_SPP \<equiv> 0x100"
abbreviation SSTATUS_SPIE :: u32 where "SSTATUS_SPIE \<equiv> 0x20"
abbreviation SSTATUS_SIE :: u32 where "SSTATUS_SIE \<equiv> 0x2"
abbreviation UART0_IRQ :: u32 where "UART0_IRQ \<equiv> 10"

section \<open>Interrupts\<close>

definition clockintr :: "csr \<Rightarrow> csr K" where
  "clockintr c =
     kbind (kwhen (r_tp c = 0) (kdo [
       acquire LK_ticks,
       kmod (\<lambda>s. s\<lparr>ticks := ticks s + 1\<rparr>),
       wakeup CH_ticks,
       release LK_ticks])) (\<lambda>_.
     kret (c\<lparr>timer_set := True\<rparr>))"

text \<open>\<open>"unexpected interrupt irq=%d\n"\<close>\<close>
definition irq_fmt :: "u8 list" where
  "irq_fmt = [117, 110, 101, 120, 112, 101, 99, 116, 101, 100, 32, 105, 110, 116, 101, 114, 114, 117, 112, 116, 32, 105, 114, 113, 61, 37, 100, 10]"

text \<open>\<open>plic_complete\<close> only tells the controller that the interrupt has been served.\<close>
definition devintr :: "hwinput \<Rightarrow> csr \<Rightarrow> (nat \<times> csr) K" where
  "devintr hw c =
     (if r_scause c = 0x80000009 then
        kbind (if plic_irq hw = UART0_IRQ then uartintr (uart_tx_idle hw) (uart_rx hw)
               else kwhen (plic_irq hw \<noteq> 0) (printf irq_fmt [PInt (plic_irq hw)])) (\<lambda>_.
        kret (1, c))
      else if r_scause c = 0x80000005 then kbind (clockintr c) (\<lambda>c. kret (2, c))
      else kret (0, c))"

section \<open>Traps from the kernel\<close>

definition kerneltrap :: "hwinput \<Rightarrow> csr \<Rightarrow> csr K" where
  "kerneltrap hw c =
     (if r_sstatus c AND SSTATUS_SPP = 0 then kpanic ''kerneltrap: not from supervisor mode''
      else if r_sstatus c AND SSTATUS_SIE \<noteq> 0 then kpanic ''kerneltrap: interrupts enabled''
      else kbind (devintr hw c) (\<lambda>(which_dev, c1).
        if which_dev = 0 then kpanic ''kerneltrap''
        else kbind myproc (\<lambda>me.
          kbind (kwhen (which_dev = 2 \<and> me \<noteq> None) yield) (\<lambda>_.
          kret (c1\<lparr>r_sepc := r_sepc c, r_sstatus := r_sstatus c\<rparr>)))))"

section \<open>Traps from user space\<close>

definition prepare_return :: "csr \<Rightarrow> csr K" where
  "prepare_return c =
     kbind the_proc (\<lambda>p.
     kbind (kget link) (\<lambda>l.
     kbind (kget (\<lambda>s. p_kstack (procs s ! p))) (\<lambda>kstack.
     kbind (kdo [
       tf_set p TF_kernel_satp (r_satp c),
       tf_set p TF_kernel_sp (kstack + PGSIZE),
       tf_set p TF_kernel_trap (sym_usertrap l),
       tf_set p TF_kernel_hartid (r_tp c)]) (\<lambda>_.
     kbind (tf_get p TF_epc) (\<lambda>epc.
     kret (c\<lparr>r_stvec := TRAMPOLINE + (sym_uservec l - sym_trampoline l),
       r_sstatus := (r_sstatus c AND NOT SSTATUS_SIE AND NOT SSTATUS_SPP) OR SSTATUS_SPIE,
       r_sepc := epc\<rparr>))))))"

text \<open>The end of \<open>usertrap\<close>, where a process that yielded goes on.\<close>
definition usertrap_return :: "nat \<Rightarrow> csr \<Rightarrow> (csr \<times> u32) K" where
  "usertrap_return p c =
     kbind (prepare_return c) (\<lambda>c.
     kbind (kget (\<lambda>s. p_pagetable (procs s ! p))) (\<lambda>pt. kret (c, MAKE_SATP pt)))"

text \<open>\<open>"usertrap(): unexpected scause 0x%x pid=%d\n"\<close> and \<open>"            sepc=0x%x stval=0x%x\n"\<close>\<close>
definition scause_fmt :: "u8 list" where
  "scause_fmt = [117, 115, 101, 114, 116, 114, 97, 112, 40, 41, 58, 32, 117, 110, 101, 120, 112, 101, 99, 116, 101, 100, 32,
     115, 99, 97, 117, 115, 101, 32, 48, 120, 37, 120, 32, 112, 105, 100, 61, 37, 100, 10]"

definition sepc_fmt :: "u8 list" where
  "sepc_fmt = replicate 12 32 @ [115, 101, 112, 99, 61, 48, 120, 37, 120, 32, 115, 116, 118, 97, 108, 61, 48, 120, 37, 120, 10]"

text \<open>What the trap was: the device number of an interrupt, 0 otherwise.\<close>
definition usertrap_body :: "nat \<Rightarrow> hwinput \<Rightarrow> csr \<Rightarrow> (nat \<times> csr) K" where
  "usertrap_body p hw c =
     (if r_scause c = 8 then
        kbind (killed p) (\<lambda>k.
        kbind (kwhen k (kexit (-1))) (\<lambda>_.
        kbind (tf_get p TF_epc) (\<lambda>epc.
        kbind (kdo [tf_set p TF_epc (epc + 4), syscall]) (\<lambda>_.
        kret (0, c\<lparr>r_sstatus := r_sstatus c OR SSTATUS_SIE\<rparr>)))))
      else kbind (devintr hw c) (\<lambda>(which_dev, c).
        if which_dev \<noteq> 0 then kret (which_dev, c)
        else
          kbind (if r_scause c = 15 \<or> r_scause c = 13
                 then kbind (kget (\<lambda>s. p_pagetable (procs s ! p))) (\<lambda>pt. vmfault pt (r_stval c))
                 else kret 0) (\<lambda>pa.
          if pa \<noteq> 0 then kret (0, c)
          else kbind (kget (\<lambda>s. p_pid (procs s ! p))) (\<lambda>pid.
            kbind (kdo [
              printf scause_fmt [PInt (r_scause c), PInt pid],
              printf sepc_fmt [PInt (r_sepc c), PInt (r_stval c)],
              setkilled p]) (\<lambda>_.
            kret (0, c))))))"

definition usertrap :: "hwinput \<Rightarrow> csr \<Rightarrow> (csr \<times> u32) K" where
  "usertrap hw c =
     (if r_sstatus c AND SSTATUS_SPP \<noteq> 0 then kpanic ''usertrap: not from user mode''
      else
        kbind (kget link) (\<lambda>l.
        kbind the_proc (\<lambda>p.
        kbind (tf_set p TF_epc (r_sepc c)) (\<lambda>_.
        kbind (usertrap_body p hw (c\<lparr>r_stvec := sym_kernelvec l\<rparr>)) (\<lambda>(which_dev, c).
        kbind (killed p) (\<lambda>k.
        kbind (kwhen k (kexit (-1))) (\<lambda>_.
        kbind (kwhen (which_dev = 2) yield) (\<lambda>_.
        usertrap_return p c))))))))"

definition usertrap_resume :: "csr \<Rightarrow> (csr \<times> u32) K" where
  "usertrap_resume c = kbind the_proc (\<lambda>p. kbind yield_resume (\<lambda>_. usertrap_return p c))"

text \<open>\<open>forkret\<close>; \<open>first\<close> is its static variable.  The result is the \<open>satp\<close> that it passes to \<open>userret\<close>.\<close>
definition forkret :: "bool \<Rightarrow> csr \<Rightarrow> (csr \<times> u32) K" where
  "forkret first c =
     kbind the_proc (\<lambda>p.
     kbind (release (LK_proc p)) (\<lambda>_.
     kbind (kwhen first
       (kbind (fsinit ROOTDEV) (\<lambda>_.
        kbind (kexec [47, 105, 110, 105, 116] [[47, 105, 110, 105, 116]]) (\<lambda>r.
        kbind (tf_set p TF_a0 (of_int r)) (\<lambda>_.
        if r = -1 then kpanic ''exec'' else kret ()))))) (\<lambda>_.
     usertrap_return p c)))"

end
