(* ===== verification/KV_Boot.thy ===== *)
theory KV_Boot
  imports KV_Vm
begin

text \<open>
  The boot path of the KianV systems: the run-length encoder that prepares a boot image
  (os/xv6/rle_encoder.c), the image loaders of the two boot ROMs
  (kianv_mc_rv32ima_sv32 and LinuxSoC_v2, engineering/bootloader/bootloader.c), and the 64-bit division the
  second one is linked with (kianv_io_utils.c).  \<open>sd_readsector\<close> is an argument of the loaders:
  \<open>Some\<close> of the 512 bytes it stores in the buffer, or \<open>None\<close> when it reports an error.  The
  progress messages are left out.
\<close>

abbreviation SDRAM_START :: u32 where "SDRAM_START \<equiv> 0x80000000"
abbreviation CHUNK_SIZE :: nat where "CHUNK_SIZE \<equiv> 512"
abbreviation SD_BLOCK_OFFSET :: u32 where "SD_BLOCK_OFFSET \<equiv> 2048"
abbreviation IMAGE_BYTES :: nat where "IMAGE_BYTES \<equiv> 20971520"

section \<open>Encoder\<close>

text \<open>The reading loop of \<open>rle_encode\<close>, with the write after it.\<close>
fun rle_loop :: "u8 list \<Rightarrow> u8 \<Rightarrow> nat \<Rightarrow> u8 list" where
  "rle_loop [] lastValue cnt = [lastValue, of_nat cnt]"
| "rle_loop (val # vs) lastValue cnt =
     (if val = lastValue \<and> cnt < 255 then rle_loop vs lastValue (cnt + 1)
      else lastValue # of_nat cnt # rle_loop vs val 1)"

fun rle_encode :: "u8 list \<Rightarrow> u8 list" where
  "rle_encode [] = []"
| "rle_encode (v # vs) = rle_loop vs v 1"

section \<open>Loaders\<close>

text \<open>A loader returns whether it goes on to the next pair or sector, the memory, and \<open>sdram_offset\<close>.\<close>
type_synonym loadst = "bool \<times> memory \<times> u32"

text \<open>The loop over \<open>count\<close> of LinuxSoC_v2, which stops at the end of memory.\<close>
primrec put_run :: "nat \<Rightarrow> u8 \<Rightarrow> u32 \<Rightarrow> memory \<Rightarrow> u32 \<Rightarrow> loadst" where
  "put_run 0 val sdram_size m off = (True, m, off)"
| "put_run (Suc cnt) val sdram_size m off =
     (if off \<ge> sdram_size then (False, m, off)
      else put_run cnt val sdram_size (m(SDRAM_START + off := val)) (off + 1))"

fun decode_chunk :: "u8 list \<Rightarrow> u32 \<Rightarrow> memory \<Rightarrow> u32 \<Rightarrow> loadst" where
  "decode_chunk (val # cnt # buffer) sdram_size m off =
     (if cnt = 0 then (False, m, off)
      else case put_run (unat cnt) val sdram_size m off of
        (go, m, off) \<Rightarrow> if go then decode_chunk buffer sdram_size m off else (False, m, off))"
| "decode_chunk _ sdram_size m off = (True, m, off)"

primrec load_sectors :: "nat \<Rightarrow> (u32 \<Rightarrow> u8 list option) \<Rightarrow> u32 \<Rightarrow> u32 \<Rightarrow> memory \<Rightarrow> u32 \<Rightarrow> memory \<times> u32" where
  "load_sectors 0 rd sdram_size block_index m off = (m, off)"
| "load_sectors (Suc n) rd sdram_size block_index m off =
     (case rd (SD_BLOCK_OFFSET + block_index) of
        None \<Rightarrow> (m, off)
      | Some buffer \<Rightarrow> (case decode_chunk buffer sdram_size m off of
          (go, m, off) \<Rightarrow> if go then load_sectors n rd sdram_size (block_index + 1) m off else (m, off)))"

definition load_image :: "(u32 \<Rightarrow> u8 list option) \<Rightarrow> u32 \<Rightarrow> memory \<Rightarrow> memory \<times> u32" where
  "load_image rd sdram_size m = load_sectors (IMAGE_BYTES div CHUNK_SIZE) rd sdram_size 0 m 0"

text \<open>The loader of kianv_mc_rv32ima_sv32 does not look at the size of the memory.\<close>
primrec put_run_mc :: "nat \<Rightarrow> u8 \<Rightarrow> memory \<Rightarrow> u32 \<Rightarrow> memory \<times> u32" where
  "put_run_mc 0 val m off = (m, off)"
| "put_run_mc (Suc cnt) val m off = put_run_mc cnt val (m(SDRAM_START + off := val)) (off + 1)"

fun decode_chunk_mc :: "u8 list \<Rightarrow> memory \<Rightarrow> u32 \<Rightarrow> loadst" where
  "decode_chunk_mc (val # cnt # buffer) m off =
     (if cnt = 0 then (False, m, off)
      else case put_run_mc (unat cnt) val m off of (m, off) \<Rightarrow> decode_chunk_mc buffer m off)"
| "decode_chunk_mc _ m off = (True, m, off)"

primrec load_sectors_mc :: "nat \<Rightarrow> (u32 \<Rightarrow> u8 list option) \<Rightarrow> u32 \<Rightarrow> memory \<Rightarrow> u32 \<Rightarrow> memory \<times> u32" where
  "load_sectors_mc 0 rd block_index m off = (m, off)"
| "load_sectors_mc (Suc n) rd block_index m off =
     (case rd (SD_BLOCK_OFFSET + block_index) of
        None \<Rightarrow> (m, off)
      | Some buffer \<Rightarrow> (case decode_chunk_mc buffer m off of
          (go, m, off) \<Rightarrow> if go then load_sectors_mc n rd (block_index + 1) m off else (m, off)))"

definition load_image_mc :: "(u32 \<Rightarrow> u8 list option) \<Rightarrow> memory \<Rightarrow> memory \<times> u32" where
  "load_image_mc rd m = load_sectors_mc (IMAGE_BYTES div CHUNK_SIZE) rd 0 m 0"

section \<open>64-bit division\<close>

definition clz32 :: "u32 \<Rightarrow> u32" where
  "clz32 x =
     (if x = 0 then 32
      else let (n, x) = (if x AND 0xFFFF0000 = 0 then (16, push_bit 16 x) else (0, x));
               (n, x) = (if x AND 0xFF000000 = 0 then (n + 8, push_bit 8 x) else (n, x));
               (n, x) = (if x AND 0xF0000000 = 0 then (n + 4, push_bit 4 x) else (n, x));
               (n, x) = (if x AND 0xC0000000 = 0 then (n + 2, push_bit 2 x) else (n, x))
           in if x AND 0x80000000 = 0 then n + 1 else n)"

primrec udiv_loop :: "nat \<Rightarrow> u64 \<Rightarrow> u64 \<Rightarrow> u64 \<Rightarrow> u64" where
  "udiv_loop 0 num den quot = quot"
| "udiv_loop (Suc i) num den quot =
     (if num \<ge> den then udiv_loop i (num - den) (drop_bit 1 den) (push_bit 1 quot OR 1)
      else udiv_loop i num (drop_bit 1 den) (push_bit 1 quot))"

definition udivdi3 :: "u64 \<Rightarrow> u64 \<Rightarrow> u64" where
  "udivdi3 num den =
     (if den = 0 then 0xFFFFFFFFFFFFFFFF
      else if den > num then 0
      else if den = num then 1
      else let shift = unat (clz32 (if drop_bit 32 den \<noteq> 0 then ucast (drop_bit 32 den) else ucast den))
           in udiv_loop (shift + 1) num (push_bit shift den) 0)"

definition umoddi3 :: "u64 \<Rightarrow> u64 \<Rightarrow> u64" where
  "umoddi3 num den = (if den = 0 then num else num - udivdi3 num den * den)"

section \<open>Division: proofs\<close>

lemma high_mask_32: "k \<le> 32 \<Longrightarrow> x AND push_bit k (mask (32 - k)) = 0 \<longleftrightarrow> unat (x :: u32) < 2 ^ k"
proof -
  assume k: "k \<le> 32"
  have "x AND push_bit k (mask (32 - k)) = push_bit k (drop_bit k x)"
    by (rule bit_word_eqI) (use k in \<open>auto simp: bit_simps\<close>)
  moreover have "push_bit k (drop_bit k x) = 0 \<longleftrightarrow> drop_bit k x = 0"
  proof
    assume z: "push_bit k (drop_bit k x) = 0"
    show "drop_bit k x = 0"
    proof (rule bit_word_eqI)
      fix n assume "n < LENGTH(32)"
      have "bit (push_bit k (drop_bit k x)) (k + n) = False" using z by simp
      then show "bit (drop_bit k x) n = bit 0 n"
        by (auto simp: bit_simps dest: bit_imp_le_length)
    qed
  qed simp
  moreover have "drop_bit k x = 0 \<longleftrightarrow> unat x div 2 ^ k = 0"
    using unat_drop_bit_eq [of k x] by (metis drop_bit_eq_div unat_eq_zero)
  ultimately show ?thesis by (simp add: div_eq_0_iff)
qed

lemma clz_masks:
  "x AND 0xFFFF0000 = 0 \<longleftrightarrow> unat (x :: u32) < 2 ^ 16" "x AND 0xFF000000 = 0 \<longleftrightarrow> unat x < 2 ^ 24"
  "x AND 0xF0000000 = 0 \<longleftrightarrow> unat x < 2 ^ 28" "x AND 0xC0000000 = 0 \<longleftrightarrow> unat x < 2 ^ 30"
  "x AND 0x80000000 = 0 \<longleftrightarrow> unat x < 2 ^ 31"
  using high_mask_32 [of 16 x] high_mask_32 [of 24 x] high_mask_32 [of 28 x] high_mask_32 [of 30 x] high_mask_32 [of 31 x]
  by (simp_all add: mask_eq_exp_minus_1)

lemma unat_push_bit_less:
  assumes "unat (x :: 'a::len word) * 2 ^ k < 2 ^ LENGTH('a)"
  shows "unat (push_bit k x) = unat x * 2 ^ k"
proof -
  have "push_bit k x = of_nat (unat x * 2 ^ k)" by (simp add: push_bit_eq_mult)
  then show ?thesis using assms by (simp only: unat_of_nat mod_less)
qed

text \<open>One stage of the binary search: after the test for \<open>k\<close> zero bits at the top, fewer than \<open>k\<close> are left.\<close>
lemma clz_stage:
  assumes "unat (x :: u32) = y * 2 ^ unat (n :: u32)" "unat n \<le> 31 - k" "k \<le> 16" "y > 0" "unat x < 2 ^ 32"
    and "(n', x') = (if unat x < 2 ^ (32 - k) then (n + of_nat k, push_bit k x) else (n, x))"
  shows "unat x' = y * 2 ^ unat n' \<and> unat n' \<le> unat n + k \<and> (unat x < 2 ^ (32 - k) \<longrightarrow> unat x' = unat x * 2 ^ k)
    \<and> (\<not> unat x < 2 ^ (32 - k) \<longrightarrow> x' = x)"
proof (cases "unat x < 2 ^ (32 - k)")
  case True
  have "unat x * 2 ^ k < 2 ^ (32 - k) * 2 ^ k" using True by simp
  also have "\<dots> = (2 :: nat) ^ 32" using assms(3) by (simp flip: power_add)
  finally have p: "unat (push_bit k x) = unat x * 2 ^ k" by (intro unat_push_bit_less) simp
  have "unat (n + of_nat k) = unat n + k"
    using assms(2,3) by (simp add: unat_add_32 unat_of_nat_32)
  then show ?thesis using True p assms by (simp add: power_add)
next
  case False
  then show ?thesis using assms by simp
qed

lemma clz32_spec:
  assumes "x \<noteq> 0"
  shows "2 ^ 31 \<le> unat x * 2 ^ unat (clz32 x) \<and> unat x * 2 ^ unat (clz32 x) < 2 ^ 32 \<and> unat (clz32 x) < 32"
proof -
  have x0: "unat x > 0" using assms by (simp add: unat_gt_0)
  have lt: "unat z < 2 ^ 32" for z :: u32 using unat_less_32 [of z] by simp
  obtain n1 x1 where e1: "(n1 :: u32, x1) = (if unat x < 2 ^ (32 - 16) then (0 + of_nat 16, push_bit 16 x) else (0, x))" by (metis surj_pair)
  obtain n2 x2 where e2: "(n2, x2) = (if unat x1 < 2 ^ (32 - 8) then (n1 + of_nat 8, push_bit 8 x1) else (n1, x1))" by (metis surj_pair)
  obtain n3 x3 where e3: "(n3, x3) = (if unat x2 < 2 ^ (32 - 4) then (n2 + of_nat 4, push_bit 4 x2) else (n2, x2))" by (metis surj_pair)
  obtain n4 x4 where e4: "(n4, x4) = (if unat x3 < 2 ^ (32 - 2) then (n3 + of_nat 2, push_bit 2 x3) else (n3, x3))" by (metis surj_pair)
  have s1: "unat x1 = unat x * 2 ^ unat n1 \<and> unat n1 \<le> 16 \<and> 2 ^ 16 \<le> unat x1"
    using clz_stage [OF _ _ _ x0 lt e1] x0 by (cases "unat x < 2 ^ (32 - 16)") auto
  have s2: "unat x2 = unat x * 2 ^ unat n2 \<and> unat n2 \<le> 24 \<and> 2 ^ 24 \<le> unat x2"
    using clz_stage [OF _ _ _ x0 lt e2] s1 by (cases "unat x1 < 2 ^ (32 - 8)") auto
  have s3: "unat x3 = unat x * 2 ^ unat n3 \<and> unat n3 \<le> 28 \<and> 2 ^ 28 \<le> unat x3"
    using clz_stage [OF _ _ _ x0 lt e3] s2 by (cases "unat x2 < 2 ^ (32 - 4)") auto
  have s4: "unat x4 = unat x * 2 ^ unat n4 \<and> unat n4 \<le> 30 \<and> 2 ^ 30 \<le> unat x4"
    using clz_stage [OF _ _ _ x0 lt e4] s3 by (cases "unat x3 < 2 ^ (32 - 2)") auto
  have "(if x AND 0xFFFF0000 = 0 then (16, push_bit 16 x) else (0, x)) = (n1, x1)"
    "(if x1 AND 0xFF000000 = 0 then (n1 + 8, push_bit 8 x1) else (n1, x1)) = (n2, x2)"
    "(if x2 AND 0xF0000000 = 0 then (n2 + 4, push_bit 4 x2) else (n2, x2)) = (n3, x3)"
    "(if x3 AND 0xC0000000 = 0 then (n3 + 2, push_bit 2 x3) else (n3, x3)) = (n4, x4)"
    using e1 e2 e3 e4 by (simp_all add: clz_masks)
  then have "clz32 x = (if unat x4 < 2 ^ 31 then n4 + 1 else n4)"
    using assms by (simp only: clz32_def Let_def prod.case if_False) (simp only: clz_masks)
  moreover have "unat (n4 + 1) = unat n4 + 1" using s4 by (simp add: unat_add_32)
  ultimately show ?thesis using s4 lt [of x4] by (cases "unat x4 < 2 ^ 31") auto
qed

lemma udiv_loop_spec:
  assumes "d > 0" "n > 0 \<Longrightarrow> unat den = d * 2 ^ (n - 1)" "(unat quot + 1) * 2 ^ n \<le> 2 ^ 64"
  shows "unat (udiv_loop n num den quot) = unat quot * 2 ^ n + min (unat num div d) (2 ^ n - 1)"
  using assms(2,3)
proof (induction n arbitrary: num den quot)
  case (Suc i)
  have den: "unat den = d * 2 ^ i" using Suc.prems(1) by simp
  have dd: "i > 0 \<Longrightarrow> unat (drop_bit 1 den) = d * 2 ^ (i - 1)"
  proof -
    assume "i > 0"
    moreover have "unat (drop_bit 1 den) = unat den div 2"
      using unat_drop_bit_eq [of 1 den] by (simp only: drop_bit_eq_div power_one_right)
    ultimately show "unat (drop_bit 1 den) = d * 2 ^ (i - 1)" using den by (cases i) simp_all
  qed
  have "2 * unat quot + 2 \<le> (unat quot + 1) * 2 ^ Suc i"
    using mult_le_mono2 [of 1 "2 ^ i" "2 * unat quot + 2"] by simp
  then have q2: "2 * unat quot + 1 < 2 ^ 64" using Suc.prems(2) by linarith
  have pq: "unat (push_bit 1 quot) = 2 * unat quot"
    using q2 unat_push_bit_less [of quot 1] by simp
  have "push_bit 1 quot AND 1 = 0" by (simp add: and_one_eq flip: even_iff_mod_2_eq_zero)
  then have "push_bit 1 quot OR 1 = push_bit 1 quot + 1" by (simp add: disjunctive_add_eq_or)
  then have pq1: "unat (push_bit 1 quot OR 1) = 2 * unat quot + 1"
    using pq q2 by (simp add: unat_word_ariths)
  show ?case
  proof (cases "num \<ge> den")
    case True
    then have le: "d * 2 ^ i \<le> unat num" using den by (simp add: word_le_nat_alt)
    have "unat (num - den) = unat num - d * 2 ^ i" using True den by (simp add: unat_sub)
    then have "unat (num - den) div d + 2 ^ i = unat num div d"
      using div_mult_self2 [of d "unat num - d * 2 ^ i" "2 ^ i"] le assms(1) by simp
    then show ?thesis
      using Suc.IH [of "drop_bit 1 den" "push_bit 1 quot OR 1" "num - den"] dd pq1 Suc.prems(2) True by (simp add: algebra_simps)
  next
    case False
    then have "unat num div d < 2 ^ i" using den assms(1) by (simp add: word_le_nat_alt less_mult_imp_div_less mult.commute)
    moreover have "(2 * unat quot + 1) * 2 ^ i \<le> 2 ^ 64" using Suc.prems(2) by (simp add: algebra_simps)
    ultimately show ?thesis
      using Suc.IH [of "drop_bit 1 den" "push_bit 1 quot" num] dd pq False by (simp add: algebra_simps)
  qed
qed simp

lemma ucast_shift_zero: "drop_bit 32 (den :: u64) = 0 \<longleftrightarrow> unat den < 2 ^ 32"
proof -
  have "unat (drop_bit 32 den) = unat den div 2 ^ 32"
    using unat_drop_bit_eq [of 32 den] by (simp only: drop_bit_eq_div)
  then show ?thesis by (metis div_eq_0_iff nat_less_le unat_eq_zero zero_less_numeral zero_less_power)
qed

lemma udiv_shift:
  assumes "(den :: u64) \<noteq> 0"
  defines "w \<equiv> (if drop_bit 32 den \<noteq> 0 then ucast (drop_bit 32 den) else ucast den) :: u32"
  shows "w \<noteq> 0" "unat w = (if unat den < 2 ^ 32 then unat den else unat den div 2 ^ 32)"
proof -
  have "unat (drop_bit 32 den) = unat den div 2 ^ 32"
    using unat_drop_bit_eq [of 32 den] by (simp only: drop_bit_eq_div)
  moreover have "unat den < 2 ^ 64" using unsigned_less [of den] by simp
  ultimately show u: "unat w = (if unat den < 2 ^ 32 then unat den else unat den div 2 ^ 32)"
    by (auto simp: w_def ucast_shift_zero unsigned_ucast_eq take_bit_eq_mod less_mult_imp_div_less)
  have "unat den > 0" using assms(1) by (simp add: unat_gt_0)
  then have "unat w > 0" using u by (auto simp: div_greater_zero_iff)
  then show "w \<noteq> 0" by auto
qed

lemma shift_fits:
  assumes "w * 2 ^ k < (2 :: nat) ^ 32" "k < 32" "w = d div 2 ^ 32"
  shows "d * 2 ^ k < 2 ^ 64"
proof -
  have "2 ^ k dvd (2 :: nat) ^ 32" by (rule le_imp_power_dvd) (use assms(2) in simp)
  then obtain c where c: "(2 :: nat) ^ 32 = c * 2 ^ k" by (metis dvd_def mult.commute)
  then have "w * 2 ^ k < c * 2 ^ k" using assms(1) by simp
  then have "w + 1 \<le> c" by simp
  then have wc: "(w + 1) * 2 ^ k \<le> 2 ^ 32" using c mult_le_mono1 by metis
  have "d < (w + 1) * 2 ^ 32" using assms(3) div_mult_mod_eq [of d "2 ^ 32"] by simp
  then have "d * 2 ^ k < (w + 1) * 2 ^ 32 * 2 ^ k" by (rule mult_strict_right_mono) simp
  also have "\<dots> = (w + 1) * 2 ^ k * 2 ^ 32" by (simp only: mult.assoc mult.commute [of "2 ^ 32"])
  also have "\<dots> \<le> 2 ^ 32 * 2 ^ 32" using wc by (rule mult_le_mono1)
  finally show ?thesis by simp
qed

lemma quotient_fits:
  assumes "2 ^ 31 \<le> w * 2 ^ k" "w = d div 2 ^ 32" "n < (2 :: nat) ^ 64"
  shows "n div d \<le> 2 * 2 ^ k - 1"
proof -
  have "(2 :: nat) ^ 63 = 2 ^ 31 * 2 ^ 32" by simp
  also have "\<dots> \<le> w * 2 ^ k * 2 ^ 32" using assms(1) by (rule mult_le_mono1)
  also have "\<dots> = (d div 2 ^ 32 * 2 ^ 32) * 2 ^ k" using assms(2) by simp
  also have "\<dots> \<le> d * 2 ^ k" by (intro mult_le_mono1 div_times_less_eq_dividend)
  finally have "n < d * (2 * 2 ^ k)" using assms(3) by simp
  then have "n div d < 2 * 2 ^ k" by (simp add: less_mult_imp_div_less mult.commute)
  then show ?thesis by simp
qed

lemma udivdi3_exact:
  assumes "den \<noteq> 0"
  shows "unat (udivdi3 num den) = (if unat den < 2 ^ 32
      then min (unat num div unat den) (2 * 2 ^ unat (clz32 (ucast den)) - 1) else unat num div unat den)"
proof -
  define w :: u32 where "w = (if drop_bit 32 den \<noteq> 0 then ucast (drop_bit 32 den) else ucast den)"
  note w = udiv_shift [OF assms, folded w_def]
  define k where "k = unat (clz32 w)"
  have k: "2 ^ 31 \<le> unat w * 2 ^ k" "unat w * 2 ^ k < 2 ^ 32" "k < 32"
    using clz32_spec [OF w(1)] by (simp_all add: k_def)
  have d0: "unat den > 0" using assms by (simp add: unat_gt_0)
  have n64: "unat num < 2 ^ 64" using unsigned_less [of num] by simp
  have small: "unat den < 2 ^ 32 \<Longrightarrow> w = ucast den" by (simp add: w_def ucast_shift_zero)
  have fit: "unat den * 2 ^ k < 2 ^ 64"
    using shift_fits [OF k(2,3)] k(2) w(2) by (cases "unat den < 2 ^ 32") auto
  have "(2 :: nat) ^ (k + 1) \<le> 2 ^ 64" using k(3) by (intro power_increasing) auto
  then have loop: "unat (udiv_loop (k + 1) num (push_bit k den) 0) = min (unat num div unat den) (2 * 2 ^ k - 1)"
    using udiv_loop_spec [OF d0, of "k + 1" "push_bit k den" 0 num] unat_push_bit_less [of den k] fit by simp
  consider "den > num" | "den = num" | "den < num" by force
  then show ?thesis
  proof cases
    case 1
    then have "unat num div unat den = 0" by (simp add: word_less_nat_alt)
    then show ?thesis using 1 assms by (simp add: udivdi3_def)
  next
    case 2
    moreover have "1 \<le> 2 * (2 :: nat) ^ unat (clz32 (ucast num)) - 1"
      using one_le_power [of "2 :: nat" "unat (clz32 (ucast num))"] by linarith
    ultimately show ?thesis using assms d0 by (auto simp: udivdi3_def min_def)
  next
    case 3
    then have "udivdi3 num den = udiv_loop (k + 1) num (push_bit k den) 0"
      using assms by (auto simp: udivdi3_def w_def k_def Let_def)
    then show ?thesis using loop small quotient_fits [OF k(1) _ n64] w(2) by (auto simp: k_def)
  qed
qed

text \<open>The quotient is exact when the dividend has 32 bits.\<close>
lemma udivdi3_quotient:
  assumes "den \<noteq> 0" "unat num < 2 ^ 32 \<or> 2 ^ 32 \<le> unat den"
  shows "unat (udivdi3 num den) = unat num div unat den"
proof (cases "unat den < 2 ^ 32")
  case True
  then have "(ucast den :: u32) \<noteq> 0" "unat (ucast den :: u32) = unat den"
    using assms(1) udiv_shift [of den] by (simp_all add: ucast_shift_zero)
  then have "2 ^ 31 \<le> unat den * 2 ^ unat (clz32 (ucast den))" using clz32_spec [of "ucast den"] by metis
  then have "unat num < unat den * (2 * 2 ^ unat (clz32 (ucast den)))" using assms(2) True by simp
  then have "unat num div unat den < 2 * 2 ^ unat (clz32 (ucast den))"
    by (simp add: less_mult_imp_div_less mult.commute)
  then show ?thesis using udivdi3_exact [OF assms(1), of num] True by simp
next
  case False
  then show ?thesis using udivdi3_exact [OF assms(1), of num] by simp
qed

section \<open>Image: proofs\<close>

lemma write_bytes_append:
  "write_bytes a (xs @ ys) m = write_bytes (a + of_nat (length xs)) ys (write_bytes a xs m)"
  by (induction xs arbitrary: a m) (simp_all add: add.assoc)

lemma write_bytes_outside:
  assumes "length xs \<le> unat (b - a)"
  shows "write_bytes a xs m b = m b"
  using assms
proof (induction xs arbitrary: a m)
  case (Cons x xs)
  have "b \<noteq> a" using Cons.prems by auto
  moreover have "unat (b - (a + 1)) = unat (b - a) - 1"
    using \<open>b \<noteq> a\<close> unat_minus_one [of "b - a"] by (simp add: diff_diff_eq)
  ultimately show ?case using Cons by simp
qed simp

lemma read_write_bytes:
  assumes "length xs \<le> 2 ^ 32"
  shows "read_bytes (write_bytes a xs m) a (length xs) = xs"
  using assms
proof (induction xs arbitrary: a m)
  case (Cons x xs)
  have "unat (a - (a + 1)) = 2 ^ 32 - 1" by (simp add: unsigned_minus_1_eq_mask mask_eq_exp_minus_1)
  then have "write_bytes (a + 1) xs (m(a := x)) a = x"
    using Cons.prems by (subst write_bytes_outside) simp_all
  moreover have "read_bytes (write_bytes (a + 1) xs (m(a := x))) (a + 1) (length xs) = xs" using Cons by simp
  ultimately show ?case
    by (simp add: read_bytes_def upt_conv_Cons map_Suc_upt [symmetric] comp_def add.assoc del: upt_Suc)
qed (simp add: read_bytes_def)

text \<open>What a sequence of pairs stands for, up to the pair with count 0, and whether there is such a pair.\<close>
fun rle_expand :: "u8 list \<Rightarrow> u8 list" where
  "rle_expand (v # c # bs) = (if c = 0 then [] else replicate (unat c) v @ rle_expand bs)"
| "rle_expand _ = []"

fun rle_stops :: "u8 list \<Rightarrow> bool" where
  "rle_stops (v # c # bs) \<longleftrightarrow> c = 0 \<or> rle_stops bs"
| "rle_stops _ \<longleftrightarrow> False"

lemma rle_expand_append:
  "even (length xs) \<Longrightarrow> rle_expand (xs @ ys) = (if rle_stops xs then rle_expand xs else rle_expand xs @ rle_expand ys)"
  by (induction xs rule: rle_expand.induct) auto

lemma rle_stops_append: "even (length xs) \<Longrightarrow> rle_stops (xs @ ys) \<longleftrightarrow> rle_stops xs \<or> rle_stops ys"
  by (induction xs rule: rle_expand.induct) auto

lemma count_byte: "1 \<le> k \<Longrightarrow> k \<le> 255 \<Longrightarrow> unat (of_nat k :: u8) = k"
  by (simp add: unsigned_of_nat take_bit_nat_eq_self)

lemma rle_loop_expand:
  assumes "1 \<le> k" "k \<le> 255"
  shows "rle_expand (rle_loop xs l k @ ys) = replicate k l @ xs @ rle_expand ys \<and> (rle_stops (rle_loop xs l k @ ys) \<longleftrightarrow> rle_stops ys)"
  using assms
proof (induction xs l k rule: rle_loop.induct)
  case (1 l k)
  have "(of_nat k :: u8) \<noteq> 0" using count_byte [OF 1] 1 by auto
  then show ?case using count_byte [OF 1] by simp
next
  case (2 v vs l k)
  have "(of_nat k :: u8) \<noteq> 0" using count_byte [OF 2(3,4)] 2(3) by auto
  then show ?case using 2 count_byte [OF 2(3,4)] by (auto simp: replicate_append_same)
qed

lemma rle_encode_expand:
  "rle_expand (rle_encode xs @ ys) = xs @ rle_expand ys" "rle_stops (rle_encode xs @ ys) \<longleftrightarrow> rle_stops ys"
  by (cases xs; simp add: rle_loop_expand)+

lemma put_run_mc_spec:
  "put_run_mc n v m off = (write_bytes (SDRAM_START + off) (replicate n v) m, off + of_nat n)"
  by (induction n arbitrary: m off) (simp_all add: add.assoc)

lemma put_run_spec:
  "unat off + n \<le> unat sz \<Longrightarrow>
     put_run n v sz m off = (True, write_bytes (SDRAM_START + off) (replicate n v) m, off + of_nat n)"
proof (induction n arbitrary: m off)
  case (Suc n)
  then have "off < sz" by (simp add: word_less_nat_alt)
  moreover have "unat (off + 1) = unat off + 1" using Suc.prems unat_less_32 [of sz] by (simp add: unat_add_32)
  ultimately show ?case using Suc by (simp add: add.assoc not_le fun_upd_def)
qed simp

lemma decode_chunk_mc_spec:
  "decode_chunk_mc ch m off = (\<not> rle_stops ch, write_bytes (SDRAM_START + off) (rle_expand ch) m,
     off + of_nat (length (rle_expand ch)))"
  by (induction ch arbitrary: m off rule: rle_expand.induct)
    (auto simp: put_run_mc_spec write_bytes_append add.assoc)

lemma decode_chunk_spec:
  "unat off + length (rle_expand ch) \<le> unat sz \<Longrightarrow>
   decode_chunk ch sz m off = (\<not> rle_stops ch, write_bytes (SDRAM_START + off) (rle_expand ch) m,
     off + of_nat (length (rle_expand ch)))"
proof (induction ch arbitrary: m off rule: rle_expand.induct)
  case (1 v c bs)
  show ?case
  proof (cases "c = 0")
    case False
    have "unat off + unat c < 4294967296" using 1(2) False unat_less_32 [of sz] by simp
    moreover from this have "unat (of_nat (unat c) :: u32) = unat c" by (intro unat_of_nat_32) simp
    ultimately have "unat (off + of_nat (unat c)) = unat off + unat c" by (simp only: unat_add_32 mod_less)
    then show ?thesis using False 1 by (simp add: put_run_spec write_bytes_append add.assoc)
  qed simp
qed simp_all

text \<open>What the two loaders have in common: they read sectors in order and decode each, as long as the image fits.\<close>

locale rle_loader =
  fixes decode :: "u8 list \<Rightarrow> memory \<Rightarrow> u32 \<Rightarrow> loadst"
    and sectors :: "nat \<Rightarrow> (u32 \<Rightarrow> u8 list option) \<Rightarrow> u32 \<Rightarrow> memory \<Rightarrow> u32 \<Rightarrow> memory \<times> u32"
    and cap :: nat
  assumes decode: "unat off + length (rle_expand ch) \<le> cap \<Longrightarrow>
      decode ch m off = (\<not> rle_stops ch, write_bytes (SDRAM_START + off) (rle_expand ch) m, off + of_nat (length (rle_expand ch)))"
    and sectors: "sectors (Suc n) rd i m off = (case rd (SD_BLOCK_OFFSET + i) of
        None \<Rightarrow> (m, off)
      | Some ch \<Rightarrow> (case decode ch m off of (go, m, off) \<Rightarrow> if go then sectors n rd (i + 1) m off else (m, off)))"
    and cap: "cap < 2 ^ 32"
begin

lemma load:
  assumes "\<forall>j < length chs. rd (SD_BLOCK_OFFSET + i + of_nat j) = Some (chs ! j)" "\<forall>ch \<in> set chs. even (length ch)"
    "rle_stops (concat chs)" "length chs \<le> n" "unat off + length (rle_expand (concat chs)) \<le> cap"
  shows "sectors n rd i m off = (write_bytes (SDRAM_START + off) (rle_expand (concat chs)) m,
    off + of_nat (length (rle_expand (concat chs))))"
  using assms
proof (induction chs arbitrary: i m off n)
  case (Cons ch chs)
  obtain k where n: "n = Suc k" using Cons.prems(4) by (cases n) auto
  have ev: "even (length ch)" using Cons.prems(2) by simp
  note app = rle_expand_append [OF ev, of "concat chs"] rle_stops_append [OF ev, of "concat chs"]
  have rd: "rd (SD_BLOCK_OFFSET + i) = Some ch" using Cons.prems(1) by force
  have fit: "unat off + length (rle_expand ch) \<le> cap" using Cons.prems(5) app(1) by (simp split: if_splits)
  show ?case
  proof (cases "rle_stops ch")
    case True
    then show ?thesis using n rd app by (simp add: sectors decode [OF fit])
  next
    case False
    let ?o = "off + of_nat (length (rle_expand ch))"
    have "unat ?o = unat off + length (rle_expand ch)" using fit cap by (simp add: unat_add_32 unat_of_nat_32)
    moreover have "\<forall>j < length chs. rd (SD_BLOCK_OFFSET + (i + 1) + of_nat j) = Some (chs ! j)"
      using Cons.prems(1) by (auto simp: add.assoc)
    ultimately have "sectors k rd (i + 1) m' ?o = (write_bytes (SDRAM_START + ?o) (rle_expand (concat chs)) m',
        ?o + of_nat (length (rle_expand (concat chs))))" for m'
      using Cons.prems app False n by (intro Cons.IH) auto
    then show ?thesis using n rd app False by (simp add: sectors decode [OF fit] write_bytes_append add.assoc)
  qed
qed simp

end

interpretation ldr: rle_loader "\<lambda>ch. decode_chunk ch sz" "\<lambda>n rd. load_sectors n rd sz" "unat sz" for sz
  using unat_less_32 [of sz] by unfold_locales (simp_all add: decode_chunk_spec)

text \<open>The offset of the older loader is an \<open>int\<close>.\<close>
interpretation ldr_mc: rle_loader decode_chunk_mc load_sectors_mc "2 ^ 31 - 1"
  by unfold_locales (simp_all add: decode_chunk_mc_spec)

lemma concat_sectors: "concat (map (\<lambda>i. take k (drop (k * i) bs)) [0..<n]) = take (k * n) bs"
  proof (induction n)
  case (Suc n)
  have "take (k * Suc n) bs = take (k * n) bs @ take k (drop (k * n) bs)" by (metis add.commute mult_Suc_right take_add)
  then show ?case using Suc by simp
qed simp

text \<open>The sectors from \<open>SD_BLOCK_OFFSET\<close> on hold the bytes \<open>bs\<close>.\<close>
definition on_card :: "(u32 \<Rightarrow> u8 list option) \<Rightarrow> u8 list \<Rightarrow> bool" where
  "on_card rd bs \<longleftrightarrow> (\<forall>i < length bs div CHUNK_SIZE.
     rd (SD_BLOCK_OFFSET + of_nat i) = Some (take CHUNK_SIZE (drop (CHUNK_SIZE * i) bs)))"

lemma even_sector:
  assumes "i < length bs div CHUNK_SIZE"
  shows "length (take CHUNK_SIZE (drop (CHUNK_SIZE * i) bs)) = CHUNK_SIZE"
proof -
  have "CHUNK_SIZE * (i + 1) \<le> CHUNK_SIZE * (length bs div CHUNK_SIZE)" using assms by (intro mult_le_mono2) simp
  also have "\<dots> \<le> length bs" by simp
  finally show ?thesis by simp
qed

context rle_loader
begin

lemma load_card:
  assumes "on_card rd bs" "length bs mod CHUNK_SIZE = 0" "length bs \<le> IMAGE_BYTES" "rle_stops bs"
    "length (rle_expand bs) \<le> cap"
  shows "sectors (IMAGE_BYTES div CHUNK_SIZE) rd 0 m 0 = (write_bytes SDRAM_START (rle_expand bs) m, of_nat (length (rle_expand bs)))"
proof -
  let ?n = "length bs div CHUNK_SIZE"
  define chs where "chs = map (\<lambda>i. take CHUNK_SIZE (drop (CHUNK_SIZE * i) bs)) [0..<?n]"
  have "CHUNK_SIZE * ?n = length bs" using mult_div_mod_eq [of CHUNK_SIZE "length bs"] assms(2) by simp
  then have c: "concat chs = bs" unfolding chs_def concat_sectors by simp
  have "?n \<le> IMAGE_BYTES div CHUNK_SIZE" using assms(3) by (rule div_le_mono)
  then show ?thesis
    using load [of chs rd 0 "IMAGE_BYTES div CHUNK_SIZE" 0 m] assms(1,4,5) even_sector [of _ bs]
    unfolding c by (auto simp: chs_def on_card_def)
qed

end

section \<open>Properties\<close>

text \<open>(C32) A boot image survives compression and loading.  If the sectors of the card hold the output of the run-length
  encoder followed by a pair with count 0, within the 20 MiB the loaders read, then both boot
  loaders leave exactly the original image at the start of the memory, touch nothing else, and report its length; the newer
  one needs the image to fit in the memory, the older one that its length is an \<open>int\<close>.\<close>

theorem rle_boot_roundtrip:
  assumes "on_card rd (rle_encode img @ v # 0 # pad)" "length (rle_encode img @ v # 0 # pad) mod CHUNK_SIZE = 0"
    "length (rle_encode img @ v # 0 # pad) \<le> IMAGE_BYTES" "length img \<le> unat sdram_size" "length img < 2 ^ 31"
  shows "load_image rd sdram_size m = load_image_mc rd m
    \<and> snd (load_image rd sdram_size m) = of_nat (length img)
    \<and> read_bytes (fst (load_image rd sdram_size m)) SDRAM_START (length img) = img
    \<and> (\<forall>a. length img \<le> unat (a - SDRAM_START) \<longrightarrow> fst (load_image rd sdram_size m) a = m a)"
proof -
  let ?bs = "rle_encode img @ v # 0 # pad"
  have e: "rle_expand ?bs = img" "rle_stops ?bs" by (simp_all add: rle_encode_expand)
  have "load_image rd sdram_size m = (write_bytes SDRAM_START img m, of_nat (length img))"
    using ldr.load_card [OF assms(1-3) e(2), of sdram_size m] e(1) assms(4) unfolding load_image_def by metis
  moreover have "load_image_mc rd m = (write_bytes SDRAM_START img m, of_nat (length img))"
    using ldr_mc.load_card [OF assms(1-3) e(2), of m] e(1) assms(5) unfolding load_image_mc_def by simp
  ultimately show ?thesis using read_write_bytes [of img] write_bytes_outside [of img] assms(5) by simp
qed

theorem rle_boot_roundtrip_witness:
  "\<exists>rd. load_image rd 0x800000 (\<lambda>_. 0) = load_image_mc rd (\<lambda>_. 0)
     \<and> read_bytes (fst (load_image rd 0x800000 (\<lambda>_. 0))) SDRAM_START 4 = [1, 1, 1, 2]"
proof -
  let ?bs = "rle_encode [1, 1, 1, 2] @ 9 # 0 # replicate 506 0"
  have l: "length ?bs = CHUNK_SIZE" by simp
  then have c: "on_card (\<lambda>_. Some ?bs) ?bs" unfolding on_card_def l by simp
  have four: "length [1, 1, 1, 2 :: u8] = 4" by simp
  note rle_boot_roundtrip [OF c, unfolded l four, of "0x800000" "\<lambda>_. 0"]
  then show ?thesis by (auto intro!: exI [of _ "\<lambda>_. Some ?bs"])
qed

lemma put_run_bounds:
  assumes "put_run n v sz m off = (go, m', off')" "off \<le> sz" "unat sz \<le> unat (a - SDRAM_START)"
  shows "m' a = m a \<and> off' \<le> sz"
  using assms(1,2)
proof (induction n arbitrary: m off)
  case (Suc n)
  show ?case
  proof (cases "off \<ge> sz")
    case False
    then have "off + 1 \<le> sz" by (simp add: inc_le not_le)
    moreover have "a \<noteq> SDRAM_START + off" using False assms(3) by (auto simp: word_le_nat_alt)
    ultimately show ?thesis using Suc.IH [of "m(SDRAM_START + off := v)" "off + 1"] Suc.prems(1) False by (simp add: fun_upd_def)
  qed (use Suc.prems in auto)
qed auto

lemma decode_chunk_bounds:
  assumes "decode_chunk ch sz m off = (go, m', off')" "off \<le> sz" "unat sz \<le> unat (a - SDRAM_START)"
  shows "m' a = m a \<and> off' \<le> sz"
  using assms(1,2)
proof (induction ch arbitrary: m off rule: rle_expand.induct)
  case (1 v c bs)
  then show ?case
    using put_run_bounds [OF _ _ assms(3), of "unat c" v m off] by (fastforce split: if_splits prod.splits)
qed auto

lemma load_sectors_bounds:
  assumes "load_sectors n rd sz i m off = (m', off')" "off \<le> sz" "unat sz \<le> unat (a - SDRAM_START)"
  shows "m' a = m a \<and> off' \<le> sz"
  using assms(1,2)
proof (induction n arbitrary: i m off)
  case (Suc n)
  then show ?case
    using decode_chunk_bounds [OF _ _ assms(3), of _ m off] by (fastforce split: if_splits prod.splits option.splits)
qed auto

text \<open>(C38) Whatever the card holds, the newer boot loader writes only inside the memory it was told the
  size of, and the size it reports for the image is at most that.\<close>

theorem load_image_in_bounds:
  assumes "unat sdram_size \<le> unat (a - SDRAM_START)"
  shows "fst (load_image rd sdram_size m) a = m a \<and> snd (load_image rd sdram_size m) \<le> sdram_size"
proof -
  obtain m' off' where l: "load_image rd sdram_size m = (m', off')" by fastforce
  then show ?thesis using load_sectors_bounds [OF _ _ assms] by (simp add: load_image_def)
qed

theorem load_image_in_bounds_witness:
  "fst (load_image (\<lambda>_. Some (replicate 512 255)) 0x1000 (\<lambda>_. 0)) 0x80001000 = 0"
  using load_image_in_bounds [of "0x1000" "0x80001000" "\<lambda>_. Some (replicate 512 255)" "\<lambda>_. 0"] by simp

text \<open>(C39) The 64-bit division of the boot loader, for every divisor but 0: with a divisor of 32 bits or fewer the result is
  the quotient cut off at \<open>2 * 2 ^ clz32 den - 1\<close>, with a larger divisor it is the quotient.  So it divides, and
  \<open>__umoddi3\<close> gives the remainder, whenever the dividend has 32 bits or the divisor more than 32; for a
  large dividend and a small divisor it does not.\<close>

theorem udivdi3_spec:
  assumes "den \<noteq> 0"
  shows "unat (udivdi3 num den) = (if unat den < 2 ^ 32
      then min (unat num div unat den) (2 * 2 ^ unat (clz32 (ucast den)) - 1) else unat num div unat den)
    \<and> (unat num < 2 ^ 32 \<or> 2 ^ 32 \<le> unat den \<longrightarrow> udivdi3 num den = num div den \<and> umoddi3 num den = num mod den)"
proof -
  have "udivdi3 num den = num div den \<and> umoddi3 num den = num mod den"
    if "unat num < 2 ^ 32 \<or> 2 ^ 32 \<le> unat den"
  proof -
    have e: "udivdi3 num den = num div den" using udivdi3_quotient [OF assms that] by (simp add: word_unat_eq_iff unat_div)
    moreover have "num mod den = num - num div den * den" by (metis add_diff_cancel_left' div_mult_mod_eq)
    ultimately show ?thesis using assms by (simp add: umoddi3_def)
  qed
  then show ?thesis using udivdi3_exact [OF assms] by blast
qed

theorem udivdi3_spec_witness:
  "udivdi3 1000 7 = 142 \<and> umoddi3 1000 7 = 6 \<and> unat (udivdi3 0x10000000000 1) = 2 ^ 32 - 1"
  using udivdi3_spec [of 7 1000] udivdi3_spec [of 1 "0x10000000000"]
  by (simp add: clz32_def)

end
