(* ===== verification/KV_Shell.thy ===== *)
theory KV_Shell
  imports KV_Prelude
begin

text \<open>
  The shell (user/sh.c).  The parser works on the line \<open>s\<close>, the bytes before its terminating NUL; a pointer into the
  line is a position, and \<open>es\<close> is \<open>length s\<close>.  A parsed command keeps the positions of its words, as
  the C structures do; \<open>nulterminate\<close> then writes into the line.  Running a command is the tree of
  system calls \<open>runcmd\<close> makes in the process and in the children it forks.
\<close>

section \<open>Parser\<close>

abbreviation MAXARGS :: nat where "MAXARGS \<equiv> 10"

definition whitespace :: "u8 list" where
  "whitespace = [32, 9, 13, 10, 11]"

definition symbols :: "u8 list" where
  "symbols = [60, 124, 62, 38, 59, 40, 41]"

datatype cmd =
    EXEC "(nat \<times> nat) list"
  | REDIR cmd nat nat nat nat
  | PIPE cmd cmd
  | LIST cmd cmd
  | BACK cmd

datatype 'a presult = POk 'a | PPanic string | PFuel

definition at :: "u8 list \<Rightarrow> nat \<Rightarrow> u8" where
  "at s i = (if i < length s then s ! i else 0)"

function skip_while :: "(u8 \<Rightarrow> bool) \<Rightarrow> u8 list \<Rightarrow> nat \<Rightarrow> nat" where
  "skip_while P s i = (if i < length s \<and> P (at s i) then skip_while P s (i + 1) else i)"
  by pat_completeness auto
termination by (relation "measure (\<lambda>(_, s, i). length s - i)") auto

declare skip_while.simps [simp del]

definition is_white :: "u8 \<Rightarrow> bool" where
  "is_white c \<longleftrightarrow> c \<in> set whitespace"

definition is_word :: "u8 \<Rightarrow> bool" where
  "is_word c \<longleftrightarrow> c \<notin> set whitespace \<and> c \<notin> set symbols"

text \<open>The token, the beginning and the end of its text, and the position after it.\<close>
definition gettoken :: "u8 list \<Rightarrow> nat \<Rightarrow> u8 \<times> nat \<times> nat \<times> nat" where
  "gettoken s ps =
     (let q = skip_while is_white s ps; c = at s q;
          (ret, eq) =
            (if c = 0 then (c, q)
             else if c \<in> {124, 40, 41, 59, 38, 60} then (c, q + 1)
             else if c = 62 then (if at s (q + 1) = 62 then (43, q + 2) else (c, q + 1))
             else (97, skip_while is_word s q))
      in (ret, q, eq, skip_while is_white s eq))"

definition peek :: "u8 list \<Rightarrow> nat \<Rightarrow> u8 list \<Rightarrow> nat \<times> bool" where
  "peek s ps toks = (let q = skip_while is_white s ps in (q, at s q \<noteq> 0 \<and> at s q \<in> set toks))"

definition after_token :: "u8 list \<Rightarrow> nat \<Rightarrow> nat" where
  "after_token s ps = snd (snd (snd (gettoken s ps)))"

abbreviation O_RDONLY :: nat where "O_RDONLY \<equiv> 0"
abbreviation O_WRONLY :: nat where "O_WRONLY \<equiv> 1"
abbreviation O_CREATE :: nat where "O_CREATE \<equiv> 0x200"
abbreviation O_TRUNC :: nat where "O_TRUNC \<equiv> 0x400"

lemma skip_while_bounds: "i \<le> skip_while P s i" "i \<le> length s \<Longrightarrow> skip_while P s i \<le> length s"
proof (induction P s i rule: skip_while.induct)
  case (1 P s i)
  { case 1 then show ?case using "1.IH"(1) by (subst skip_while.simps) auto }
  { case 2 then show ?case using "1.IH"(2) by (subst skip_while.simps) auto }
qed

lemma at_nonzero: "at s i \<noteq> 0 \<Longrightarrow> i < length s"
  by (simp add: at_def split: if_splits)

lemma skip_while_stop: "skip_while P s i < length s \<Longrightarrow> \<not> P (at s (skip_while P s i))"
proof (induction P s i rule: skip_while.induct)
  case (1 P s i)
  show ?case
  proof (cases "i < length s \<and> P (at s i)")
    case True
    then have "skip_while P s i = skip_while P s (i + 1)" by (subst skip_while.simps) simp
    then show ?thesis using 1 True by simp
  next
    case False
    then have "skip_while P s i = i" by (subst skip_while.simps) auto
    then show ?thesis using False 1(2) by auto
  qed
qed

lemma skip_while_range: "i \<le> j \<Longrightarrow> j < skip_while P s i \<Longrightarrow> j < length s \<and> P (at s j)"
proof (induction P s i rule: skip_while.induct)
  case (1 P s i)
  show ?case
  proof (cases "i < length s \<and> P (at s i)")
    case True
    then have "skip_while P s i = skip_while P s (i + 1)" by (subst skip_while.simps) simp
    then show ?thesis using 1 True by (cases "j = i") auto
  next
    case False
    then have "skip_while P s i = i" by (subst skip_while.simps) auto
    then show ?thesis using 1(2,3) by simp
  qed
qed

lemma skip_while_idem: "skip_while P s (skip_while P s i) = skip_while P s i"
  using skip_while_stop [of P s i] by (subst skip_while.simps) auto

lemma skip_while_step: "i < length s \<Longrightarrow> P (at s i) \<Longrightarrow> i < skip_while P s i"
  using skip_while_bounds(1) [of "i + 1" P s] by (subst skip_while.simps) auto

lemma gettoken_bounds:
  assumes "gettoken s ps = (t, q, eq, ps')"
  shows "ps \<le> q \<and> q \<le> eq \<and> eq \<le> ps' \<and> (t \<noteq> 0 \<longrightarrow> q < eq) \<and> (ps \<le> length s \<longrightarrow> ps' \<le> length s)"
proof -
  let ?q = "skip_while is_white s ps"
  have q: "q = ?q" "ps' = skip_while is_white s eq" using assms by (auto simp: gettoken_def Let_def split: prod.splits)
  have e: "q \<le> eq \<and> (t \<noteq> 0 \<longrightarrow> q < eq) \<and> (q \<le> length s \<longrightarrow> eq \<le> length s)"
  proof (cases "at s q = 0")
    case True
    then show ?thesis using assms unfolding gettoken_def Let_def q(1) [symmetric] by auto
  next
    case False
    then have l: "q < length s" by (rule at_nonzero)
    then have nw: "\<not> is_white (at s q)" using skip_while_stop [of is_white s ps] q(1) by simp
    have "is_word (at s q)" if "at s q \<notin> {124, 40, 41, 59, 38, 60}" "at s q \<noteq> 62"
      using nw that by (auto simp: is_word_def is_white_def symbols_def)
    then have w: "q < skip_while is_word s q" if "at s q \<notin> {124, 40, 41, 59, 38, 60}" "at s q \<noteq> 62"
      using that l by (intro skip_while_step) auto
    have "at s (q + 1) = 62 \<Longrightarrow> q + 2 \<le> length s" using at_nonzero [of s "q + 1"] by simp
    then show ?thesis
      using assms False l w skip_while_bounds(2) [of q s is_word] unfolding gettoken_def Let_def q(1) [symmetric] by (auto split: if_splits)
  qed
  then show ?thesis using q skip_while_bounds(1) [of ps is_white s] skip_while_bounds(2) [of ps s is_white]
      skip_while_bounds(1) [of eq is_white s] skip_while_bounds(2) [of eq s is_white] by auto
qed

lemma peek_token:
  assumes "peek s ps toks = (ps1, True)" "gettoken s ps1 = (t, q, eq, ps2)"
  shows "ps \<le> ps1 \<and> ps1 < ps2 \<and> ps1 < length s \<and> ps2 \<le> length s"
proof -
  have p: "ps1 = skip_while is_white s ps" "at s ps1 \<noteq> 0" using assms(1) by (auto simp: peek_def Let_def)
  then have "skip_while is_white s ps1 = ps1" using skip_while_idem by simp
  then have "t \<noteq> 0" using assms(2) p(2) by (auto simp: gettoken_def Let_def split: if_splits)
  then show ?thesis using gettoken_bounds [OF assms(2)] at_nonzero [OF p(2)] skip_while_bounds(1) p(1) by auto
qed

lemma redir_progress:
  assumes "(ps1, found) = peek s ps toks" "\<not> \<not> found" "(t, q, eq, ps2) = gettoken s ps1" "(t', q', eq', ps3) = gettoken s ps2"
  shows "length s - ps3 < length s - ps"
  using peek_token [of s ps toks ps1 t q eq ps2] gettoken_bounds [of s ps2 t' q' eq' ps3] assms by auto

function parseredirs :: "u8 list \<Rightarrow> cmd \<Rightarrow> nat \<Rightarrow> (cmd \<times> nat) presult" where
  "parseredirs s c ps =
     (case peek s ps [60, 62] of (ps1, found) \<Rightarrow>
        if \<not> found then POk (c, ps1)
        else case gettoken s ps1 of (tok, _, _, ps2) \<Rightarrow>
          case gettoken s ps2 of (tok2, q, eq, ps3) \<Rightarrow>
            if tok2 \<noteq> 97 then PPanic ''missing file for redirection''
            else if tok = 60 then parseredirs s (REDIR c q eq O_RDONLY 0) ps3
            else if tok = 62 then parseredirs s (REDIR c q eq (O_WRONLY + O_CREATE + O_TRUNC) 1) ps3
            else if tok = 43 then parseredirs s (REDIR c q eq (O_WRONLY + O_CREATE) 1) ps3
            else parseredirs s c ps3)"
  by pat_completeness auto
termination
  by (relation "measure (\<lambda>(s, _, ps). length s - ps)") (auto dest: redir_progress)

declare parseredirs.simps [simp del]

text \<open>\<open>cmd->argv[argc] = q; cmd->eargv[argc] = eq\<close>: the \<open>execcmd\<close> is inside the redirections already wrapped around it.\<close>
fun add_arg :: "nat \<times> nat \<Rightarrow> cmd \<Rightarrow> cmd" where
  "add_arg a (EXEC args) = EXEC (args @ [a])"
| "add_arg a (REDIR c q eq mode fd) = REDIR (add_arg a c) q eq mode fd"
| "add_arg a c = c"

text \<open>The loop of \<open>parseexec\<close>.\<close>
function exec_loop :: "u8 list \<Rightarrow> cmd \<Rightarrow> nat \<Rightarrow> nat \<Rightarrow> (cmd \<times> nat) presult" where
  "exec_loop s ret argc ps =
     (case peek s ps [124, 41, 38, 59] of (ps1, found) \<Rightarrow>
        if found then POk (ret, ps1)
        else case gettoken s ps1 of (tok, q, eq, ps2) \<Rightarrow>
          if tok = 0 then POk (ret, ps2)
          else if tok \<noteq> 97 then PPanic ''syntax''
          else if argc + 1 \<ge> MAXARGS then PPanic ''too many args''
          else case parseredirs s (add_arg (q, eq) ret) ps2 of
              POk (ret, ps3) \<Rightarrow> exec_loop s ret (argc + 1) ps3
            | PPanic e \<Rightarrow> PPanic e
            | PFuel \<Rightarrow> PFuel)"
  by pat_completeness auto
termination by (relation "measure (\<lambda>(_, _, argc, _). MAXARGS - argc)") auto

declare exec_loop.simps [simp del]

lemma back_progress:
  assumes "(ps1, found) = peek s ps toks" "found" "(t, q, eq, ps2) = gettoken s ps1"
  shows "length s - ps2 < length s - ps"
  using peek_token [of s ps toks ps1 t q eq ps2] assms by auto

text \<open>\<open>while(peek(ps, es, "&"))\<close> of \<open>parseline\<close>.\<close>
function back_loop :: "u8 list \<Rightarrow> cmd \<Rightarrow> nat \<Rightarrow> cmd \<times> nat" where
  "back_loop s c ps =
     (case peek s ps [38] of (ps1, found) \<Rightarrow>
        if found then (case gettoken s ps1 of (_, _, _, ps2) \<Rightarrow> back_loop s (BACK c) ps2)
        else (c, ps1))"
  by pat_completeness auto
termination
  by (relation "measure (\<lambda>(s, _, ps). length s - ps)") (auto dest: back_progress)

declare back_loop.simps [simp del]

text \<open>The recursive descent.  Every call takes one unit of fuel; \<open>parsecmd\<close> supplies enough for any line.\<close>
fun parseline :: "nat \<Rightarrow> u8 list \<Rightarrow> nat \<Rightarrow> (cmd \<times> nat) presult"
  and parsepipe :: "nat \<Rightarrow> u8 list \<Rightarrow> nat \<Rightarrow> (cmd \<times> nat) presult"
  and parseexec :: "nat \<Rightarrow> u8 list \<Rightarrow> nat \<Rightarrow> (cmd \<times> nat) presult"
  and parseblock :: "nat \<Rightarrow> u8 list \<Rightarrow> nat \<Rightarrow> (cmd \<times> nat) presult" where
  "parseline 0 s ps = PFuel"
| "parseline (Suc n) s ps =
     (case parsepipe n s ps of
        POk (c, ps) \<Rightarrow> (case back_loop s c ps of (c, ps) \<Rightarrow>
          case peek s ps [59] of (ps, found) \<Rightarrow>
            if found then (case gettoken s ps of (_, _, _, ps) \<Rightarrow>
              case parseline n s ps of
                POk (c2, ps) \<Rightarrow> POk (LIST c c2, ps)
              | PPanic e \<Rightarrow> PPanic e
              | PFuel \<Rightarrow> PFuel)
            else POk (c, ps))
      | PPanic e \<Rightarrow> PPanic e
      | PFuel \<Rightarrow> PFuel)"
| "parsepipe 0 s ps = PFuel"
| "parsepipe (Suc n) s ps =
     (case parseexec n s ps of
        POk (c, ps) \<Rightarrow> (case peek s ps [124] of (ps, found) \<Rightarrow>
          if found then (case gettoken s ps of (_, _, _, ps) \<Rightarrow>
            case parsepipe n s ps of
              POk (c2, ps) \<Rightarrow> POk (PIPE c c2, ps)
            | PPanic e \<Rightarrow> PPanic e
            | PFuel \<Rightarrow> PFuel)
          else POk (c, ps))
      | PPanic e \<Rightarrow> PPanic e
      | PFuel \<Rightarrow> PFuel)"
| "parseexec 0 s ps = PFuel"
| "parseexec (Suc n) s ps =
     (case peek s ps [40] of (ps, found) \<Rightarrow>
        if found then parseblock n s ps
        else case parseredirs s (EXEC []) ps of
            POk (ret, ps) \<Rightarrow> exec_loop s ret 0 ps
          | PPanic e \<Rightarrow> PPanic e
          | PFuel \<Rightarrow> PFuel)"
| "parseblock 0 s ps = PFuel"
| "parseblock (Suc n) s ps =
     (case peek s ps [40] of (ps, found) \<Rightarrow>
        if \<not> found then PPanic ''parseblock''
        else case gettoken s ps of (_, _, _, ps) \<Rightarrow>
          case parseline n s ps of
            POk (c, ps) \<Rightarrow> (case peek s ps [41] of (ps, found) \<Rightarrow>
              if \<not> found then PPanic ''syntax - missing )''
              else case gettoken s ps of (_, _, _, ps) \<Rightarrow> parseredirs s c ps)
          | PPanic e \<Rightarrow> PPanic e
          | PFuel \<Rightarrow> PFuel)"

text \<open>\<open>nulterminate\<close> on the line with its terminating NUL.\<close>
primrec nulterminate :: "cmd \<Rightarrow> u8 list \<Rightarrow> u8 list" where
  "nulterminate (EXEC args) b = foldl (\<lambda>b a. b[snd a := 0]) b args"
| "nulterminate (REDIR c q eq mode fd) b = (nulterminate c b)[eq := 0]"
| "nulterminate (PIPE c d) b = nulterminate d (nulterminate c b)"
| "nulterminate (LIST c d) b = nulterminate d (nulterminate c b)"
| "nulterminate (BACK c) b = nulterminate c b"

definition parsecmd :: "u8 list \<Rightarrow> (cmd \<times> u8 list) presult" where
  "parsecmd s =
     (case parseline (4 * length s + 4) s 0 of
        POk (c, ps) \<Rightarrow> (case peek s ps [] of (ps, _) \<Rightarrow>
          if ps \<noteq> length s then PPanic ''syntax'' else POk (c, nulterminate c (s @ [0])))
      | PPanic e \<Rightarrow> PPanic e
      | PFuel \<Rightarrow> PFuel)"

section \<open>Every line parses or is refused\<close>

text \<open>A word of the line: characters that are neither white space nor operators, and not followed by another one.\<close>
definition word_at :: "u8 list \<Rightarrow> nat \<times> nat \<Rightarrow> bool" where
  "word_at s w \<longleftrightarrow> fst w < snd w \<and> snd w \<le> length s \<and> (\<forall>i. fst w \<le> i \<and> i < snd w \<longrightarrow> is_word (at s i))
     \<and> (snd w < length s \<longrightarrow> \<not> is_word (at s (snd w)))"

primrec good :: "u8 list \<Rightarrow> cmd \<Rightarrow> bool" where
  "good s (EXEC args) \<longleftrightarrow> (\<forall>a \<in> set args. word_at s a) \<and> length args < MAXARGS"
| "good s (REDIR c q eq mode fd) \<longleftrightarrow> good s c \<and> word_at s (q, eq) \<and> fd < 2"
| "good s (PIPE c d) \<longleftrightarrow> good s c \<and> good s d"
| "good s (LIST c d) \<longleftrightarrow> good s c \<and> good s d"
| "good s (BACK c) \<longleftrightarrow> good s c"

fun nargs :: "cmd \<Rightarrow> nat" where
  "nargs (EXEC args) = length args"
| "nargs (REDIR c q eq mode fd) = nargs c"
| "nargs c = 0"

text \<open>A parser result: a good command and a position further on, or a refusal.\<close>
definition parsed :: "u8 list \<Rightarrow> nat \<Rightarrow> (cmd \<times> nat) presult \<Rightarrow> bool" where
  "parsed s ps r \<longleftrightarrow> (case r of POk (c, ps') \<Rightarrow> good s c \<and> ps \<le> ps' \<and> ps' \<le> length s | PPanic e \<Rightarrow> True | PFuel \<Rightarrow> False)"

lemma parsed_simps [simp]:
  "parsed s ps (POk (c, ps')) \<longleftrightarrow> good s c \<and> ps \<le> ps' \<and> ps' \<le> length s" "parsed s ps (PPanic e)" "\<not> parsed s ps PFuel"
  by (simp_all add: parsed_def)

lemma parsed_mono: "parsed s ps r \<Longrightarrow> ps0 \<le> ps \<Longrightarrow> parsed s ps0 r"
  by (auto simp: parsed_def split: presult.splits)

lemma gettoken_word: "gettoken s ps = (97, q, eq, ps') \<Longrightarrow> word_at s (q, eq)"
proof -
  assume g: "gettoken s ps = (97, q, eq, ps')"
  have q: "q = skip_while is_white s ps" using g by (auto simp: gettoken_def Let_def split: prod.splits)
  have e: "eq = skip_while is_word s q"
    using g unfolding gettoken_def Let_def q [symmetric] by (auto split: if_splits)
  have lt: "q < eq" using gettoken_bounds [OF g] by simp
  have "q < length s" using skip_while_range [of q q is_word s] lt e by simp
  then have "eq \<le> length s" using skip_while_bounds(2) [of q s is_word] e by simp
  then show ?thesis
    using lt e skip_while_range [of q _ is_word s] skip_while_stop [of is_word s q] by (auto simp: word_at_def)
qed

lemma add_arg_good: "good s c \<Longrightarrow> word_at s a \<Longrightarrow> nargs c + 1 < MAXARGS \<Longrightarrow> good s (add_arg a c)"
  by (induction a c rule: add_arg.induct) auto

lemma nargs_add_arg: "nargs (add_arg a c) \<le> nargs c + 1"
  by (induction a c rule: add_arg.induct) auto

lemma peek_bounds: "peek s ps toks = (ps1, f) \<Longrightarrow> ps \<le> ps1 \<and> (ps \<le> length s \<longrightarrow> ps1 \<le> length s)"
  using skip_while_bounds(1) [of ps is_white s] skip_while_bounds(2) [of ps s is_white] by (auto simp: peek_def Let_def)

lemma parseredirs_parsed:
  "good s c \<Longrightarrow> ps \<le> length s \<Longrightarrow>
   parsed s ps (parseredirs s c ps) \<and> (\<forall>c' ps'. parseredirs s c ps = POk (c', ps') \<longrightarrow> nargs c' = nargs c)"
proof (induction "length s - ps" arbitrary: c ps rule: less_induct)
  case less
  obtain ps1 f where p: "peek s ps [60, 62] = (ps1, f)" by fastforce
  note pb = peek_bounds [OF p]
  show ?case
  proof (cases f)
    case False
    then show ?thesis using p pb less.prems by (simp add: parseredirs.simps [of s c ps])
  next
    case True
    then have p1: "peek s ps [60, 62] = (ps1, True)" using p by simp
    obtain t q1 e1 ps2 where g1: "gettoken s ps1 = (t, q1, e1, ps2)" by (metis prod_cases4)
    obtain t2 q eq ps3 where g2: "gettoken s ps2 = (t2, q, eq, ps3)" by (metis prod_cases4)
    have le: "ps \<le> ps3" "ps3 \<le> length s" "length s - ps3 < length s - ps"
      using peek_token [OF p1 g1] gettoken_bounds [OF g2] by auto
    show ?thesis
    proof (cases "t2 = 97")
      case False
      then show ?thesis using p g1 g2 True by (simp add: parseredirs.simps [of s c ps])
    next
      case t2: True
      have w: "word_at s (q, eq)" using gettoken_word g2 t2 by blast
      define c' where "c' = (if t = 60 then REDIR c q eq O_RDONLY 0 else if t = 62 then REDIR c q eq (O_WRONLY + O_CREATE + O_TRUNC) 1
        else if t = 43 then REDIR c q eq (O_WRONLY + O_CREATE) 1 else c)"
      have c': "good s c'" "nargs c' = nargs c" using less.prems(1) w by (simp_all add: c'_def)
      have step: "parseredirs s c ps = parseredirs s c' ps3"
        using p g1 g2 True t2 by (simp add: parseredirs.simps [of s c ps] c'_def)
      have "parsed s ps3 (parseredirs s c' ps3) \<and> (\<forall>c'' ps'. parseredirs s c' ps3 = POk (c'', ps') \<longrightarrow> nargs c'' = nargs c')"
        by (rule less.hyps [OF le(3) c'(1) le(2)])
      then show ?thesis using step c'(2) le(1) parsed_mono by auto
    qed
  qed
qed

lemma exec_loop_parsed:
  "good s ret \<Longrightarrow> nargs ret \<le> argc \<Longrightarrow> ps \<le> length s \<Longrightarrow> parsed s ps (exec_loop s ret argc ps)"
proof (induction "MAXARGS - argc" arbitrary: argc ret ps rule: less_induct)
  case less
  obtain ps1 f where p: "peek s ps [124, 41, 38, 59] = (ps1, f)" by fastforce
  obtain t q eq ps2 where g: "gettoken s ps1 = (t, q, eq, ps2)" by (metis prod_cases4)
  have le: "ps \<le> ps1" "ps1 \<le> length s" "ps1 \<le> ps2" "ps2 \<le> length s"
    using peek_bounds [OF p] gettoken_bounds [OF g] less.prems(3) by auto
  note unf = exec_loop.simps [of s ret argc ps] p g
  consider "f \<or> t = 0" | "\<not> f" "t \<noteq> 0" "t \<noteq> 97 \<or> argc + 1 \<ge> MAXARGS" | "\<not> f" "t = 97" "argc + 1 < MAXARGS" by fastforce
  then show ?case
  proof cases
    case 1
    then show ?thesis using le less.prems(1) by (auto simp: unf)
  next
    case 2
    then show ?thesis by (auto simp: unf)
  next
    case 3
    have w: "word_at s (q, eq)" using gettoken_word g 3(2) by blast
    have ga: "good s (add_arg (q, eq) ret)" using add_arg_good [OF less.prems(1) w] less.prems(2) 3(3) by simp
    note r = parseredirs_parsed [OF ga le(4)]
    show ?thesis
    proof (cases "parseredirs s (add_arg (q, eq) ret) ps2")
      case (POk x)
      obtain ret' ps3 where x: "x = (ret', ps3)" by fastforce
      have r': "good s ret'" "ps2 \<le> ps3" "ps3 \<le> length s" "nargs ret' = nargs (add_arg (q, eq) ret)"
        using r POk x by auto
      have "parsed s ps3 (exec_loop s ret' (argc + 1) ps3)"
        using less.hyps [of "argc + 1" ret' ps3] 3(3) r' nargs_add_arg [of "(q, eq)" ret] less.prems(2) by auto
      then have "parsed s ps (exec_loop s ret' (argc + 1) ps3)" using parsed_mono le r'(2) by auto
      then show ?thesis using 3 POk x by (simp add: unf)
    qed (use 3 r in \<open>auto simp: unf\<close>)
  qed
qed

lemma back_loop_parsed:
  "good s c \<Longrightarrow> ps \<le> length s \<Longrightarrow> parsed s ps (POk (back_loop s c ps))"
proof (induction "length s - ps" arbitrary: c ps rule: less_induct)
  case less
  obtain ps1 f where p: "peek s ps [38] = (ps1, f)" by fastforce
  show ?case
  proof (cases f)
    case False
    then show ?thesis using less.prems p peek_bounds [OF p] by (simp add: back_loop.simps [of s c ps])
  next
    case True
    then have p1: "peek s ps [38] = (ps1, True)" using p by simp
    obtain t q eq ps2 where g: "gettoken s ps1 = (t, q, eq, ps2)" by (metis prod_cases4)
    have le: "ps \<le> ps2" "ps2 \<le> length s" "length s - ps2 < length s - ps" using peek_token [OF p1 g] by auto
    have "parsed s ps2 (POk (back_loop s (BACK c) ps2))" using less.hyps [OF le(3)] less.prems le by simp
    then have "parsed s ps (POk (back_loop s (BACK c) ps2))" using parsed_mono le by blast
    then show ?thesis using p g True by (simp add: back_loop.simps [of s c ps])
  qed
qed

text \<open>What an operator between two commands leaves to parse: less than before.\<close>
lemma operator_progress:
  assumes "peek s ps toks = (ps1, f)" "f" "gettoken s ps1 = (t, q, eq, ps2)" "ps0 \<le> ps"
  shows "ps2 \<le> length s" "ps0 \<le> ps2" "4 * (length s - ps2) + 4 \<le> 4 * (length s - ps0)"
proof -
  have "ps \<le> ps1 \<and> ps1 < ps2 \<and> ps1 < length s \<and> ps2 \<le> length s"
    using peek_token [of s ps toks ps1 t q eq ps2] assms by auto
  then show "ps2 \<le> length s" "ps0 \<le> ps2" "4 * (length s - ps2) + 4 \<le> 4 * (length s - ps0)" using assms(4) by auto
qed

text \<open>One level of each parser, given what it calls: \<open>shorter\<close> is what the calls after an operator may rely on.\<close>
definition shorter :: "u8 list \<Rightarrow> nat \<Rightarrow> (u8 list \<Rightarrow> nat \<Rightarrow> (cmd \<times> nat) presult) \<Rightarrow> bool" where
  "shorter s ps f \<longleftrightarrow> (\<forall>p \<le> length s. 4 * (length s - p) + 4 \<le> 4 * (length s - ps) \<longrightarrow> parsed s p (f s p))"

lemma shorter_operator:
  assumes "shorter s ps0 h" "peek s ps toks = (ps1, f)" "f" "gettoken s ps1 = (t, q, eq, ps2)" "ps0 \<le> ps"
  shows "parsed s ps0 (h s ps2)"
  using assms(1) operator_progress [OF assms(2-5)] parsed_mono [of s ps2 "h s ps2" ps0] unfolding shorter_def by blast

lemma parseline_step:
  assumes pp: "parsed s ps (parsepipe n s ps)" and sh: "shorter s ps (parseline n)"
  shows "parsed s ps (parseline (Suc n) s ps)"
proof (cases "parsepipe n s ps")
  case (POk x)
  obtain c ps1 where x: "x = (c, ps1)" by fastforce
  obtain c2 ps2 where b: "back_loop s c ps1 = (c2, ps2)" by fastforce
  have c2: "good s c2" "ps \<le> ps2" "ps2 \<le> length s" using back_loop_parsed [of s c ps1] pp POk x b by auto
  obtain ps3 f where p: "peek s ps2 [59] = (ps3, f)" by fastforce
  obtain t q eq ps4 where g: "gettoken s ps3 = (t, q, eq, ps4)" by (metis prod_cases4)
  show ?thesis
  proof (cases f)
    case True
    then show ?thesis using shorter_operator [OF sh p True g c2(2)] POk x b p g c2 by (auto split: presult.splits)
  qed (use POk x b p c2 peek_bounds [OF p] in simp)
qed (use pp in auto)

lemma parsepipe_step:
  assumes pp: "parsed s ps (parseexec n s ps)" and sh: "shorter s ps (parsepipe n)"
  shows "parsed s ps (parsepipe (Suc n) s ps)"
proof (cases "parseexec n s ps")
  case (POk x)
  obtain c ps2 where x: "x = (c, ps2)" by fastforce
  have c2: "good s c" "ps \<le> ps2" "ps2 \<le> length s" using pp POk x by auto
  obtain ps3 f where p: "peek s ps2 [124] = (ps3, f)" by fastforce
  obtain t q eq ps4 where g: "gettoken s ps3 = (t, q, eq, ps4)" by (metis prod_cases4)
  show ?thesis
  proof (cases f)
    case True
    then show ?thesis using shorter_operator [OF sh p True g c2(2)] POk x p g c2 by (auto split: presult.splits)
  qed (use POk x p c2 peek_bounds [OF p] in simp)
qed (use pp in auto)

lemma parseexec_step:
  assumes ps: "ps \<le> length s" and pb: "\<And>p. ps \<le> p \<Longrightarrow> p \<le> length s \<Longrightarrow> parsed s p (parseblock n s p)"
  shows "parsed s ps (parseexec (Suc n) s ps)"
proof -
  obtain ps1 f where p: "peek s ps [40] = (ps1, f)" by fastforce
  have le: "ps \<le> ps1" "ps1 \<le> length s" using peek_bounds [OF p] ps by auto
  have r: "parsed s ps1 (parseredirs s (EXEC []) ps1)" "\<forall>c' ps'. parseredirs s (EXEC []) ps1 = POk (c', ps') \<longrightarrow> nargs c' = 0"
    using parseredirs_parsed [of s "EXEC []" ps1] le(2) by auto
  have "parsed s ps (exec_loop s c 0 ps2)" if "parseredirs s (EXEC []) ps1 = POk (c, ps2)" for c ps2
    using r that exec_loop_parsed [of s c 0 ps2] le(1) parsed_mono [of s ps2 _ ps] by auto
  then show ?thesis using p r(1) parsed_mono [OF pb [OF le]] le(1) by (auto split: presult.splits)
qed

lemma parseblock_step:
  assumes sh: "shorter s ps (parseline n)"
  shows "parsed s ps (parseblock (Suc n) s ps)"
proof -
  obtain ps1 f where p: "peek s ps [40] = (ps1, f)" by fastforce
  obtain t q eq ps2 where g: "gettoken s ps1 = (t, q, eq, ps2)" by (metis prod_cases4)
  have block: "parsed s ps (parseblock (Suc n) s ps)" if f and x: "parseline n s ps2 = POk (c, ps3)" for c ps3
  proof -
    have c: "good s c" "ps \<le> ps3" "ps3 \<le> length s" using shorter_operator [OF sh p \<open>f\<close> g order.refl] x by auto
    obtain ps4 f' where p': "peek s ps3 [41] = (ps4, f')" by fastforce
    obtain t' q' eq' ps5 where g': "gettoken s ps4 = (t', q', eq', ps5)" by (metis prod_cases4)
    have "parsed s ps (parseredirs s c ps5)" if f'
      using parseredirs_parsed [OF c(1) operator_progress(1) [OF p' that g' c(2)]] operator_progress(2) [OF p' that g' c(2)] parsed_mono by blast
    then show ?thesis using p g x p' g' by simp
  qed
  show ?thesis
  proof (cases "parseline n s ps2")
    case (POk x)
    then show ?thesis using block p by (cases x; cases f) auto
  qed (use shorter_operator [OF sh p _ g order.refl] p g in \<open>auto split: if_splits\<close>)
qed

lemma parser_parsed:
  "ps \<le> length s \<Longrightarrow>
     (4 * (length s - ps) + 4 \<le> n \<longrightarrow> parsed s ps (parseline n s ps))
   \<and> (4 * (length s - ps) + 3 \<le> n \<longrightarrow> parsed s ps (parsepipe n s ps))
   \<and> (4 * (length s - ps) + 2 \<le> n \<longrightarrow> parsed s ps (parseexec n s ps))
   \<and> (4 * (length s - ps) + 1 \<le> n \<longrightarrow> parsed s ps (parseblock n s ps))"
proof (induction n arbitrary: ps)
  case (Suc n)
  have "shorter s ps (parseline n)" "shorter s ps (parsepipe n)" if "4 * (length s - ps) \<le> n"
    using Suc.IH that unfolding shorter_def by (meson add_leD1 le_trans numeral_le_iff add_le_mono order.refl, fastforce)
  moreover have "parsed s p (parseblock n s p)" if "ps \<le> p" "p \<le> length s" "4 * (length s - ps) + 1 \<le> n" for p
    using Suc.IH [OF that(2)] that by simp
  ultimately show ?case
    using Suc.IH [OF Suc.prems] parseline_step parsepipe_step parseexec_step [OF Suc.prems] parseblock_step by simp
qed simp

section \<open>The words survive their terminators\<close>

primrec cmd_words :: "cmd \<Rightarrow> (nat \<times> nat) set" where
  "cmd_words (EXEC args) = set args"
| "cmd_words (REDIR c q eq mode fd) = insert (q, eq) (cmd_words c)"
| "cmd_words (PIPE c d) = cmd_words c \<union> cmd_words d"
| "cmd_words (LIST c d) = cmd_words c \<union> cmd_words d"
| "cmd_words (BACK c) = cmd_words c"

lemma good_words: "good s c \<Longrightarrow> w \<in> cmd_words c \<Longrightarrow> word_at s w"
  by (induction c) auto

lemma nth_upd: "xs[i := v] ! j = (if i = j \<and> j < length xs then v else xs ! j)"
  by (cases "i < length xs") (auto simp: list_update_beyond)

lemma nth_cut: "(foldl (\<lambda>b a. b[snd a := 0]) b args) ! i = (if i \<in> snd ` set args \<and> i < length b then 0 else b ! i)"
  "length (foldl (\<lambda>b a. b[snd a := (0 :: u8)]) b args) = length b"
  by (induction args arbitrary: b) (auto simp: nth_upd)

lemma nulterminate_nth:
  "nulterminate c b ! i = (if i \<in> snd ` cmd_words c \<and> i < length b then 0 else b ! i) \<and> length (nulterminate c b) = length b"
  by (induction c arbitrary: b) (auto simp: nth_cut nth_upd)

lemma word_not_cut:
  assumes "word_at s (q, eq)" "word_at s w" "q \<le> i" "i < eq"
  shows "i \<noteq> snd w"
  using assms by (fastforce simp: word_at_def)

lemma word_text:
  assumes g: "good s c" and w: "(q, eq) \<in> cmd_words c" and z: "0 \<notin> set s"
  shows "cstr (drop q (nulterminate c (s @ [0]))) = take (eq - q) (drop q s)"
proof -
  let ?b = "nulterminate c (s @ [0])"
  have wa: "word_at s (q, eq)" by (rule good_words [OF g w])
  then have qe: "q < eq" "eq \<le> length s" by (auto simp: word_at_def)
  have lb: "length ?b = length s + 1" using nulterminate_nth [of c "s @ [0]"] by simp
  have same: "?b ! i = s ! i" if "q \<le> i" "i < eq" for i
  proof -
    have "i \<notin> snd ` cmd_words c" using word_not_cut [OF wa _ that] good_words [OF g] by blast
    then show ?thesis using nulterminate_nth [of c "s @ [0]" i] that qe by (simp add: nth_append)
  qed
  have "eq \<in> snd ` cmd_words c" using w by force
  then have "?b ! eq = 0" using nulterminate_nth [of c "s @ [0]" eq] qe by (simp add: nth_append)
  then have d: "drop eq ?b = 0 # drop (eq + 1) ?b" using lb qe Cons_nth_drop_Suc [of eq ?b] by simp
  have t: "take (eq - q) (drop q ?b) = take (eq - q) (drop q s)" using same lb qe by (intro nth_equalityI) auto
  have "drop (eq - q) (drop q ?b) = drop eq ?b" using qe by simp
  then have "drop q ?b = take (eq - q) (drop q s) @ 0 # drop (eq + 1) ?b"
    using append_take_drop_id [of "eq - q" "drop q ?b"] t d by metis
  moreover have "\<forall>x \<in> set (take (eq - q) (drop q s)). x \<noteq> 0" using z set_take_subset [of "eq - q" "drop q s"] set_drop_subset [of q s] by auto
  ultimately show ?thesis by (simp add: cstr_def takeWhile_append2)
qed

section \<open>Running\<close>

text \<open>The system calls of \<open>runcmd\<close>, as a tree: \<open>SFork\<close> has the child and the parent, \<open>SOpen\<close> and \<open>SExec\<close> what happens on
  success and on failure, \<open>SPipe\<close> what happens with the two new descriptors.\<close>
datatype script =
    SExit int
  | SExec "nat \<times> nat" "(nat \<times> nat) list" script
  | SClose nat script
  | SOpen "nat \<times> nat" nat script script
  | SDup nat script
  | SPipe "nat \<Rightarrow> nat \<Rightarrow> script" script
  | SFork script script script
  | SWait script

text \<open>\<open>fork1\<close> ends the process when \<open>fork\<close> fails, as \<open>panic\<close> does.\<close>
definition fork1 :: "script \<Rightarrow> script \<Rightarrow> script" where
  "fork1 child parent = SFork child parent (SExit 1)"

primrec runcmd :: "cmd \<Rightarrow> script" where
  "runcmd (EXEC args) = (case args of [] \<Rightarrow> SExit 1 | a # _ \<Rightarrow> SExec a args (SExit 0))"
| "runcmd (REDIR c q eq mode fd) = SClose fd (SOpen (q, eq) mode (runcmd c) (SExit 1))"
| "runcmd (LIST c d) = fork1 (runcmd c) (SWait (runcmd d))"
| "runcmd (PIPE c d) =
     SPipe (\<lambda>p0 p1.
       fork1 (SClose 1 (SDup p1 (SClose p0 (SClose p1 (runcmd c)))))
        (fork1 (SClose 0 (SDup p0 (SClose p0 (SClose p1 (runcmd d)))))
          (SClose p0 (SClose p1 (SWait (SWait (SExit 0)))))))
      (SExit 1)"
| "runcmd (BACK c) = fork1 (runcmd c) (SExit 0)"

text \<open>What a descriptor refers to: something the shell started with, a file it opened, or an end of a pipe.\<close>
datatype desc = Inherited nat | Opened "nat \<times> nat" nat | ReadEnd nat | WriteEnd nat

type_synonym fdtable = "nat \<Rightarrow> desc option"

definition lowest :: "fdtable \<Rightarrow> nat" where
  "lowest t = (LEAST i. t i = None)"

text \<open>\<open>runs sc t n L n'\<close>: a process with the descriptors \<open>t\<close> executes the script; \<open>L\<close> lists the programs started by it and its children, with their arguments and
  descriptors, and \<open>n\<close> and \<open>n'\<close> count the pipes made before and after, so that each pipe has a number of its own.  The calls may fail or succeed;
  \<open>open\<close>, \<open>dup\<close> and \<open>pipe\<close> take the lowest free descriptors.  The pipes of the child are numbered before those of the parent, which is
  a choice of names only.\<close>
inductive runs :: "script \<Rightarrow> fdtable \<Rightarrow> nat \<Rightarrow> ((nat \<times> nat) list \<times> fdtable) list \<Rightarrow> nat \<Rightarrow> bool" where
  r_exit: "runs (SExit k) t n [] n"
| r_exec: "runs (SExec f args k) t n [(args, t)] n"
| r_exec_fails: "runs k t n L n' \<Longrightarrow> runs (SExec f args k) t n L n'"
| r_close: "runs k (t(fd := None)) n L n' \<Longrightarrow> runs (SClose fd k) t n L n'"
| r_open: "runs k (t(lowest t := Some (Opened f mode))) n L n' \<Longrightarrow> runs (SOpen f mode k k') t n L n'"
| r_open_fails: "runs k' t n L n' \<Longrightarrow> runs (SOpen f mode k k') t n L n'"
| r_dup: "runs k (t(lowest t := t fd)) n L n' \<Longrightarrow> runs (SDup fd k) t n L n'"
| r_pipe: "p0 = lowest t \<Longrightarrow> p1 = lowest (t(p0 := Some (ReadEnd n))) \<Longrightarrow>
     runs (k p0 p1) (t(p0 := Some (ReadEnd n), p1 := Some (WriteEnd n))) (Suc n) L n' \<Longrightarrow> runs (SPipe k k') t n L n'"
| r_pipe_fails: "runs k' t n L n' \<Longrightarrow> runs (SPipe k k') t n L n'"
| r_fork: "runs c t n L n1 \<Longrightarrow> runs p t n1 M n' \<Longrightarrow> runs (SFork c p f) t n (L @ M) n'"
| r_fork_fails: "runs f t n L n' \<Longrightarrow> runs (SFork c p f) t n L n'"
| r_wait: "runs k t n L n' \<Longrightarrow> runs (SWait k) t n L n'"

inductive_simps runs_simps:
  "runs (SExit k) t n L n'" "runs (SExec f args k) t n L n'" "runs (SClose fd k) t n L n'" "runs (SOpen f mode k k') t n L n'"
  "runs (SDup fd k) t n L n'" "runs (SPipe k k') t n L n'" "runs (SFork c p f) t n L n'" "runs (SWait k) t n L n'"

text \<open>What the command line means: the programs it starts and the descriptors they get.  A redirection replaces its descriptor, a pipeline makes one pipe that is the
  output of the left side and the input of the right side; any part may fail to start.\<close>
inductive plumbed :: "cmd \<Rightarrow> fdtable \<Rightarrow> nat \<Rightarrow> ((nat \<times> nat) list \<times> fdtable) list \<Rightarrow> nat \<Rightarrow> bool" where
  p_fail: "plumbed c t n [] n"
| p_exec: "args \<noteq> [] \<Longrightarrow> plumbed (EXEC args) t n [(args, t)] n"
| p_redir: "plumbed c (t(fd := Some (Opened (q, eq) mode))) n L n' \<Longrightarrow> plumbed (REDIR c q eq mode fd) t n L n'"
| p_pipe: "plumbed c (t(1 := Some (WriteEnd n))) (Suc n) L n1 \<Longrightarrow> plumbed d (t(0 := Some (ReadEnd n))) n1 M n' \<Longrightarrow>
     plumbed (PIPE c d) t n (L @ M) n'"
| p_list: "plumbed c t n L n1 \<Longrightarrow> plumbed d t n1 M n' \<Longrightarrow> plumbed (LIST c d) t n (L @ M) n'"
| p_back: "plumbed c t n L n' \<Longrightarrow> plumbed (BACK c) t n L n'"

inductive_simps plumbed_EXEC: "plumbed (EXEC args) t n L n'"
inductive_simps plumbed_PIPE: "plumbed (PIPE c d) t n L n'"

text \<open>The case that nothing fails.\<close>
primrec plumb :: "cmd \<Rightarrow> fdtable \<Rightarrow> nat \<Rightarrow> ((nat \<times> nat) list \<times> fdtable) list \<times> nat" where
  "plumb (EXEC args) t n = (if args = [] then [] else [(args, t)], n)"
| "plumb (REDIR c q eq mode fd) t n = plumb c (t(fd := Some (Opened (q, eq) mode))) n"
| "plumb (PIPE c d) t n = (case plumb c (t(1 := Some (WriteEnd n))) (Suc n) of (L, n1) \<Rightarrow>
     case plumb d (t(0 := Some (ReadEnd n))) n1 of (M, n') \<Rightarrow> (L @ M, n'))"
| "plumb (LIST c d) t n = (case plumb c t n of (L, n1) \<Rightarrow> case plumb d t n1 of (M, n') \<Rightarrow> (L @ M, n'))"
| "plumb (BACK c) t n = plumb c t n"

lemma lowest_eq: "t n = None \<Longrightarrow> (\<And>i. i < n \<Longrightarrow> t i \<noteq> None) \<Longrightarrow> lowest t = n"
  unfolding lowest_def by (rule Least_equality, assumption) (metis not_less)

text \<open>The standard descriptors are open, and nothing else.\<close>
definition std_fds :: "fdtable \<Rightarrow> bool" where
  "std_fds t \<longleftrightarrow> (\<forall>i < 3. t i \<noteq> None) \<and> (\<forall>i \<ge> 3. t i = None)"

lemma std_lowest:
  assumes "std_fds t"
  shows "lowest t = 3" "lowest (t(3 := Some x)) = 4" "fd < 2 \<Longrightarrow> lowest (t(fd := None)) = fd"
    "fd < 2 \<Longrightarrow> lowest (t(3 := Some x, 4 := Some y, fd := None)) = fd"
proof -
  have t: "i < 3 \<Longrightarrow> t i \<noteq> None" "3 \<le> i \<Longrightarrow> t i = None" for i using assms by (simp_all add: std_fds_def)
  show "lowest t = 3" by (rule lowest_eq) (simp_all add: t)
  show "lowest (t(3 := Some x)) = 4" using t by (intro lowest_eq) (auto simp: less_Suc_eq_le numeral_eq_Suc le_Suc_eq)
  show "fd < 2 \<Longrightarrow> lowest (t(fd := None)) = fd" using t by (intro lowest_eq) auto
  show "fd < 2 \<Longrightarrow> lowest (t(3 := Some x, 4 := Some y, fd := None)) = fd" using t by (intro lowest_eq) auto
qed

lemma std_upd: "std_fds t \<Longrightarrow> fd < 3 \<Longrightarrow> std_fds (t(fd := Some x))"
  by (auto simp: std_fds_def)

lemma std_pipe_ends:
  assumes "std_fds t" "fd < 2"
  shows "t(3 := Some x, 4 := Some y, fd := z, 3 := None, 4 := None) = t(fd := z)"
  using assms by (auto simp: std_fds_def fun_eq_iff)

lemma runs_fork1: "runs (fork1 c p) t n L n' \<longleftrightarrow> (\<exists>A M n1. L = A @ M \<and> runs c t n A n1 \<and> runs p t n1 M n') \<or> L = [] \<and> n' = n"
  by (auto simp: fork1_def runs_simps)

text \<open>The two sides of a pipeline.\<close>
lemma runs_pipe:
  assumes "std_fds t"
  shows "runs (runcmd (PIPE c d)) t n L n' \<longleftrightarrow> L = [] \<and> n' \<in> {n, Suc n} \<or>
    (\<exists>A M n1. L = A @ M \<and> runs (runcmd c) (t(1 := Some (WriteEnd n))) (Suc n) A n1
       \<and> (runs (runcmd d) (t(0 := Some (ReadEnd n))) n1 M n' \<or> M = [] \<and> n' = n1))"
proof -
  let ?t = "t(3 := Some (ReadEnd n), 4 := Some (WriteEnd n))"
  have l: "runs (SClose 1 (SDup 4 (SClose 3 (SClose 4 k)))) ?t m L m' \<longleftrightarrow> runs k (t(1 := Some (WriteEnd n))) m L m'" for k m L m'
    using std_lowest(4) [OF assms, of 1] std_pipe_ends [OF assms, of 1] by (simp add: runs_simps)
  have r: "runs (SClose 0 (SDup 3 (SClose 3 (SClose 4 k)))) ?t m L m' \<longleftrightarrow> runs k (t(0 := Some (ReadEnd n))) m L m'" for k m L m'
    using std_lowest(4) [OF assms, of 0] std_pipe_ends [OF assms, of 0] by (simp add: runs_simps)
  have e: "runs (SClose 3 (SClose 4 (SWait (SWait (SExit 0))))) ?t m L m' \<longleftrightarrow> L = [] \<and> m' = m" for m L m'
    by (auto simp: runs_simps)
  show ?thesis
    using std_lowest(1,2) [OF assms] by (auto simp: runs_simps(6) runs_simps(1) runs_fork1 l r e simp del: One_nat_def)
qed

lemma runs_plumbed:
  "good s c \<Longrightarrow> std_fds t \<Longrightarrow> runs (runcmd c) t n L n' \<Longrightarrow> plumbed c t n L n'"
proof (induction c arbitrary: t n L n')
  case (EXEC args)
  then show ?case by (auto simp: runs_simps intro: plumbed.intros split: list.splits)
next
  case (REDIR c q eq mode fd)
  then have fd: "fd < 2" "good s c" by simp_all
  have u: "std_fds (t(fd := Some (Opened (q, eq) mode)))" by (rule std_upd [OF REDIR.prems(2)]) (use fd(1) in simp)
  show ?case using REDIR.prems REDIR.IH [OF fd(2) u] std_lowest(3) [OF REDIR.prems(2) fd(1)]
    by (auto simp: runs_simps intro: plumbed.intros simp del: fun_upd_apply)
next
  case (PIPE c d)
  have u: "std_fds (t(1 := Some x))" "std_fds (t(0 := Some x))" for x using std_upd [OF PIPE.prems(2)] by simp_all
  have g: "good s c" "good s d" using PIPE.prems(1) by simp_all
  from PIPE.prems(3) [unfolded runs_pipe [OF PIPE.prems(2)]] show ?case
  proof (elim disjE exE conjE)
    assume "L = []" "n' \<in> {n, Suc n}"
    then show ?thesis using p_fail [of "PIPE c d"] p_pipe [OF p_fail p_fail, of c d t n] by auto
  next
    fix A M n1 assume a: "L = A @ M" "runs (runcmd c) (t(1 := Some (WriteEnd n))) (Suc n) A n1"
      "runs (runcmd d) (t(0 := Some (ReadEnd n))) n1 M n'"
    then show ?thesis using p_pipe [OF PIPE.IH(1) [OF g(1) u(1)] PIPE.IH(2) [OF g(2) u(2)]] by blast
  next
    fix A M n1 assume a: "L = A @ M" "runs (runcmd c) (t(1 := Some (WriteEnd n))) (Suc n) A n1" "M = []" "n' = n1"
    then show ?thesis using p_pipe [OF PIPE.IH(1) [OF g(1) u(1)] p_fail] by blast
  qed
next
  case (LIST c d)
  have g: "good s c" "good s d" using LIST.prems(1) by simp_all
  show ?case using LIST.prems(3) p_list [OF LIST.IH(1) [OF g(1) LIST.prems(2)] LIST.IH(2) [OF g(2) LIST.prems(2)]] p_fail
    by (auto simp: runs_fork1 runs_simps)
next
  case (BACK c)
  then show ?case by (auto simp: runs_fork1 runs_simps intro: plumbed.intros)
qed

lemma runs_complete:
  "good s c \<Longrightarrow> std_fds t \<Longrightarrow> plumb c t n = (L, n') \<Longrightarrow> runs (runcmd c) t n L n'"
proof (induction c arbitrary: t n L n')
  case (EXEC args)
  then show ?case by (auto simp: runs_simps split: list.splits if_splits)
next
  case (REDIR c q eq mode fd)
  then have fd: "fd < 2" "good s c" by simp_all
  have u: "std_fds (t(fd := Some (Opened (q, eq) mode)))" by (rule std_upd [OF REDIR.prems(2)]) (use fd(1) in simp)
  show ?case using REDIR.prems(3) REDIR.IH [OF fd(2) u] std_lowest(3) [OF REDIR.prems(2) fd(1)]
    by (simp add: runs_simps del: fun_upd_apply)
next
  case (PIPE c d)
  have u: "std_fds (t(1 := Some x))" "std_fds (t(0 := Some x))" for x using std_upd [OF PIPE.prems(2)] by simp_all
  have g: "good s c" "good s d" using PIPE.prems(1) by simp_all
  show ?case using PIPE.prems(3) PIPE.IH(1) [OF g(1) u(1)] PIPE.IH(2) [OF g(2) u(2)]
    unfolding runs_pipe [OF PIPE.prems(2)] by (fastforce split: prod.splits)
next
  case (LIST c d)
  then show ?case by (fastforce simp: runs_fork1 runs_simps split: prod.splits)
next
  case (BACK c)
  then show ?case by (auto simp: runs_fork1 runs_simps)
qed

lemma plumbed_std: "plumbed c t n L n' \<Longrightarrow> good s c \<Longrightarrow> std_fds t \<Longrightarrow> (a, t') \<in> set L \<Longrightarrow> std_fds t' \<and> t' 2 = t 2"
proof (induction rule: plumbed.induct)
  case (p_redir c t fd q eq mode n L n')
  then have "fd < 2" "good s c" "std_fds (t(fd := Some (Opened (q, eq) mode)))" using std_upd [of t fd] by simp_all
  then show ?case using p_redir.IH p_redir.prems(3) by (simp del: fun_upd_apply) (simp add: fun_upd_other)
next
  case (p_pipe c t n L n1 d M n')
  have u: "std_fds (t(1 := Some x))" "std_fds (t(0 := Some x))" for x using std_upd [OF p_pipe.prems(2)] by simp_all
  have "std_fds t' \<and> t' 2 = (t(1 := Some (WriteEnd n))) 2" if "(a, t') \<in> set L"
    using p_pipe.IH(1) [OF _ u(1) that] p_pipe.prems(1) by simp
  moreover have "std_fds t' \<and> t' 2 = (t(0 := Some (ReadEnd n))) 2" if "(a, t') \<in> set M"
    using p_pipe.IH(2) [OF _ u(2) that] p_pipe.prems(1) by simp
  ultimately show ?case using p_pipe.prems(3) by auto
qed auto

lemma parsecmd_good:
  "parsecmd s \<noteq> PFuel" "parsecmd s = POk (c, b) \<Longrightarrow> good s c \<and> b = nulterminate c (s @ [0])"
  using parser_parsed [of 0 s "4 * length s + 4"] by (auto simp: parsecmd_def split: presult.splits if_splits prod.splits)

section \<open>Properties\<close>

text \<open>(C27) The parser handles every line: it ends with a command or a refusal, four recursive calls per byte of the
  line being enough; a command has at most nine arguments per program, redirects only descriptors 0 and 1, and each of its words is a
  maximal run of word characters of the line.\<close>

theorem parsecmd_total:
  "parsecmd s \<noteq> PFuel \<and> (\<forall>c b. parsecmd s = POk (c, b) \<longrightarrow> good s c \<and> length b = length s + 1)"
  using parsecmd_good nulterminate_nth by fastforce

text \<open>The line \<open>a>b\<close>.\<close>
definition line_example :: "u8 list" where
  "line_example = [97, 62, 98]"

lemma parsecmd_example: "parsecmd line_example = POk (REDIR (EXEC [(0, 1)]) 2 3 1537 1, [97, 0, 98, 0])"
  by code_simp

theorem parsecmd_total_witness:
  "\<exists>c b. parsecmd line_example = POk (c, b) \<and> good line_example c \<and> length b = 4"
  using parsecmd_total [of line_example] parsecmd_example by (auto simp: line_example_def)

text \<open>(C28) Cutting the line into C strings loses nothing: after \<open>nulterminate\<close> has written a NUL behind every word of the command, the
  C string at the beginning of each word is exactly that word as typed, also where words stand next to operators without a blank.\<close>

theorem nulterminate_keeps_words:
  assumes "parsecmd s = POk (c, b)" "0 \<notin> set s" "(q, eq) \<in> cmd_words c"
  shows "cstr (drop q b) = take (eq - q) (drop q s) \<and> word_at s (q, eq)"
  using parsecmd_good(2) [OF assms(1)] word_text [OF _ assms(3,2)] good_words [OF _ assms(3)] by blast

theorem nulterminate_keeps_words_witness:
  "\<exists>c b. parsecmd line_example = POk (c, b) \<and> cstr (drop 0 b) = [97] \<and> cstr (drop 2 b) = [98]"
  using nulterminate_keeps_words [OF parsecmd_example, of 0 1] nulterminate_keeps_words [OF parsecmd_example, of 2 3] parsecmd_example
  by (simp add: line_example_def)

text \<open>(C26) The programs that a command line starts, and what they read and write.  Whichever calls fail on the way, every program has exactly the descriptors 0, 1
  and 2 open, with the shell's standard error as 2, and the programs are connected as the line says (\<open>plumbed\<close>): each pipeline has a pipe of its own, whose
  write end is the output of everything on its left and whose read end is the input of everything on its right.  In particular the two programs of \<open>a | b\<close> share
  one pipe.  When no call fails, every program of the line is started.\<close>

theorem shell_descriptors:
  assumes "parsecmd s = POk (c, b)" "std_fds t"
  shows "(\<forall>L n'. runs (runcmd c) t n L n' \<longrightarrow>
      plumbed c t n L n' \<and> (\<forall>(a, t') \<in> set L. std_fds t' \<and> t' 2 = t 2)
      \<and> (\<forall>as bs. c = PIPE (EXEC as) (EXEC bs) \<longrightarrow> set L \<subseteq> {(as, t(1 := Some (WriteEnd n))), (bs, t(0 := Some (ReadEnd n)))}))
    \<and> (case plumb c t n of (L, n') \<Rightarrow> runs (runcmd c) t n L n')"
proof -
  have g: "good s c" using parsecmd_good(2) [OF assms(1)] by simp
  have "plumbed c t n L n' \<and> (\<forall>(a, t') \<in> set L. std_fds t' \<and> t' 2 = t 2)
      \<and> (\<forall>as bs. c = PIPE (EXEC as) (EXEC bs) \<longrightarrow> set L \<subseteq> {(as, t(1 := Some (WriteEnd n))), (bs, t(0 := Some (ReadEnd n)))})"
    if "runs (runcmd c) t n L n'" for L n'
  proof -
    have p: "plumbed c t n L n'" by (rule runs_plumbed [OF g assms(2) that])
    have "set L \<subseteq> {(as, t(1 := Some (WriteEnd n))), (bs, t(0 := Some (ReadEnd n)))}" if "c = PIPE (EXEC as) (EXEC bs)" for as bs
      using p [unfolded that plumbed_PIPE plumbed_EXEC] by auto
    then show ?thesis using p plumbed_std [OF p g assms(2)] by blast
  qed
  then show ?thesis using runs_complete [OF g assms(2), of n] by (cases "plumb c t n") (simp only: prod.case, blast)
qed

lemma pipeline_example: "parsecmd [97, 124, 98] = POk (PIPE (EXEC [(0, 1)]) (EXEC [(2, 3)]), [97, 0, 98, 0])"
  by code_simp

text \<open>The line \<open>a|b\<close>: both programs are started, \<open>a\<close> with the write end of pipe 0 and \<open>b\<close> with its read end.\<close>
theorem shell_descriptors_witness:
  "runs (runcmd (PIPE (EXEC [(0, 1)]) (EXEC [(2, 3)]))) (\<lambda>i. if i < 3 then Some (Inherited i) else None) 0
     [([(0, 1)], (\<lambda>i. if i < 3 then Some (Inherited i) else None)(1 := Some (WriteEnd 0))),
      ([(2, 3)], (\<lambda>i. if i < 3 then Some (Inherited i) else None)(0 := Some (ReadEnd 0)))] 1"
proof -
  have "std_fds (\<lambda>i. if i < 3 then Some (Inherited i) else None)" by (simp add: std_fds_def)
  from shell_descriptors [OF pipeline_example this, of 0] show ?thesis by simp
qed

end
