(* ===== verification/KV_Grep.thy ===== *)
theory KV_Grep
  imports KV_Prelude
begin

text \<open>
  The user program grep (user/grep.c): its regular expression matcher and the loop that cuts the input into lines.
  A C string is the list of its bytes without the NUL; the pattern operators are the bytes of
  the characters \<open>^\<close>, \<open>.\<close>, \<open>*\<close> and \<open>$\<close>.
\<close>

abbreviation HAT :: u8 where "HAT \<equiv> 94"
abbreviation DOT :: u8 where "DOT \<equiv> 46"
abbreviation ASTERISK :: u8 where "ASTERISK \<equiv> 42"
abbreviation DOLLAR :: u8 where "DOLLAR \<equiv> 36"
abbreviation NEWLINE :: u8 where "NEWLINE \<equiv> 10"

section \<open>The matcher\<close>

fun matchhere :: "u8 list \<Rightarrow> u8 list \<Rightarrow> bool"
  and matchstar :: "u8 \<Rightarrow> u8 list \<Rightarrow> u8 list \<Rightarrow> bool" where
  "matchhere re str =
     (case re of
        [] \<Rightarrow> True
      | c # re1 \<Rightarrow>
          if re1 \<noteq> [] \<and> hd re1 = ASTERISK then matchstar c (tl re1) str
          else if c = DOLLAR \<and> re1 = [] then str = []
          else (case str of
              [] \<Rightarrow> False
            | x # str1 \<Rightarrow> (c = DOT \<or> c = x) \<and> matchhere re1 str1))"
| "matchstar c re str =
     (if matchhere re str then True
      else (case str of
          [] \<Rightarrow> False
        | x # str1 \<Rightarrow> (x = c \<or> c = DOT) \<and> matchstar c re str1))"

primrec match_from :: "u8 list \<Rightarrow> u8 list \<Rightarrow> bool" where
  "match_from re [] = matchhere re []"
| "match_from re (x # str) = (matchhere re (x # str) \<or> match_from re str)"

definition match :: "u8 list \<Rightarrow> u8 list \<Rightarrow> bool" where
  "match re str =
     (if re \<noteq> [] \<and> hd re = HAT then matchhere (tl re) str else match_from re str)"

section \<open>The lines of the input\<close>

text \<open>The C string at the beginning of some bytes: all of them up to the first NUL.\<close>
abbreviation cstring :: "u8 list \<Rightarrow> u8 list" where "cstring p \<equiv> takeWhile (\<lambda>c. c \<noteq> 0) p"

text \<open>The inner loop: the lines of the buffer from \<open>p\<close> on that match, and the rest after the last newline.  The buffer is \<open>p\<close> and
  the NUL behind it; \<open>strchr\<close> finds a newline only before the first NUL.\<close>
function grep_lines :: "u8 list \<Rightarrow> u8 list \<Rightarrow> u8 list \<times> u8 list" where
  "grep_lines pattern p =
     (if NEWLINE \<in> set (cstring p) then
        let q = takeWhile (\<lambda>c. c \<noteq> NEWLINE) p; (out, rest) = grep_lines pattern (drop (length q + 1) p)
        in ((if match pattern q then q @ [NEWLINE] else []) @ out, rest)
      else ([], p))"
  by pat_completeness auto
termination
proof (relation "measure (\<lambda>(_, p). length p)")
  fix pattern p x :: "u8 list"
  assume "NEWLINE \<in> set (cstring p)" "x = takeWhile (\<lambda>c. c \<noteq> NEWLINE) p"
  then show "((pattern, drop (length x + 1) p), pattern, p) \<in> measure (\<lambda>(_, p). length p)" by (cases p) auto
qed simp

declare grep_lines.simps [simp del]

text \<open>The outer loop.  \<open>buf\<close> are the \<open>m\<close> bytes kept in the buffer, \<open>input\<close> what is left to read, and the numbers how much each
  call of \<open>read\<close> is willing to deliver: at least one byte and at most the room in the buffer, or 0 at the end.\<close>
primrec grep_loop :: "nat list \<Rightarrow> u8 list \<Rightarrow> u8 list \<Rightarrow> u8 list \<Rightarrow> u8 list" where
  "grep_loop [] pattern buf input = []"
| "grep_loop (k # ks) pattern buf input =
     (let n = min (min (Suc k) (1023 - length buf)) (length input) in
      if n = 0 then []
      else let (out, rest) = grep_lines pattern (buf @ take n input)
           in out @ grep_loop ks pattern rest (drop n input))"

declare matchhere.simps [simp del] matchstar.simps [simp del]

section \<open>What a pattern means\<close>

datatype item = One u8 | Star u8

definition fits :: "u8 \<Rightarrow> u8 \<Rightarrow> bool" where
  "fits c x \<longleftrightarrow> c = DOT \<or> c = x"

text \<open>The items of a pattern after \<open>^\<close>, and whether it ends in the operator \<open>$\<close>.\<close>
function items :: "u8 list \<Rightarrow> item list \<times> bool" where
  "items [] = ([], False)"
| "items (c # re) =
     (if re \<noteq> [] \<and> hd re = ASTERISK then (Star c # fst (items (tl re)), snd (items (tl re)))
      else if c = DOLLAR \<and> re = [] then ([], True)
      else (One c # fst (items re), snd (items re)))"
  by pat_completeness auto
termination by (relation "measure length") auto

inductive denotes :: "item list \<Rightarrow> u8 list \<Rightarrow> bool" where
  den_nil: "denotes [] []"
| den_one: "fits c x \<Longrightarrow> denotes is u \<Longrightarrow> denotes (One c # is) (x # u)"
| den_star: "\<forall>x \<in> set w. fits c x \<Longrightarrow> denotes is u \<Longrightarrow> denotes (Star c # is) (w @ u)"

inductive_simps denotes_simps: "denotes [] u" "denotes (One c # is) u" "denotes (Star c # is) u"

text \<open>A prefix of the text is in the language, and all of it if the pattern ends in \<open>$\<close>.\<close>
definition prefix_in :: "item list \<times> bool \<Rightarrow> u8 list \<Rightarrow> bool" where
  "prefix_in p str \<longleftrightarrow> (\<exists>u v. str = u @ v \<and> denotes (fst p) u \<and> (snd p \<longrightarrow> v = []))"

lemma prefix_in_simps:
  "prefix_in ([], e) str \<longleftrightarrow> (e \<longrightarrow> str = [])"
  "prefix_in (One c # is, e) [] \<longleftrightarrow> False"
  "prefix_in (One c # is, e) (x # str) \<longleftrightarrow> fits c x \<and> prefix_in (is, e) str"
  by (auto simp: prefix_in_def denotes_simps Cons_eq_append_conv)

lemma prefix_in_star:
  "prefix_in (Star c # is, e) str \<longleftrightarrow> (\<exists>w t. str = w @ t \<and> (\<forall>x \<in> set w. fits c x) \<and> prefix_in (is, e) t)"
proof
  assume "prefix_in (Star c # is, e) str"
  then obtain u' v where u': "str = u' @ v" "denotes (Star c # is) u'" "e \<longrightarrow> v = []" unfolding prefix_in_def by auto
  then obtain w u where "u' = w @ u" "\<forall>x \<in> set w. fits c x" "denotes is u" by (auto simp: denotes_simps)
  then show "\<exists>w t. str = w @ t \<and> (\<forall>x \<in> set w. fits c x) \<and> prefix_in (is, e) t"
    using u' by (intro exI [of _ w] exI [of _ "u @ v"]) (auto simp: prefix_in_def)
next
  assume "\<exists>w t. str = w @ t \<and> (\<forall>x \<in> set w. fits c x) \<and> prefix_in (is, e) t"
  then obtain w t where w: "str = w @ t" "\<forall>x \<in> set w. fits c x" "prefix_in (is, e) t" by blast
  then obtain u v where u: "t = u @ v" "denotes is u" "e \<longrightarrow> v = []" unfolding prefix_in_def by auto
  have "denotes (Star c # is) (w @ u)" by (rule den_star [OF w(2) u(2)])
  then show "prefix_in (Star c # is, e) str" unfolding prefix_in_def using w(1) u by (intro exI [of _ "w @ u"] exI [of _ v]) simp
qed

lemma prefix_in_star_unfold:
  "prefix_in (Star c # is, e) str \<longleftrightarrow> prefix_in (is, e) str
     \<or> (\<exists>x t. str = x # t \<and> fits c x \<and> prefix_in (Star c # is, e) t)"
proof
  assume "prefix_in (Star c # is, e) str"
  then obtain w t where w: "str = w @ t" "\<forall>x \<in> set w. fits c x" "prefix_in (is, e) t" unfolding prefix_in_star by blast
  then show "prefix_in (is, e) str \<or> (\<exists>x t. str = x # t \<and> fits c x \<and> prefix_in (Star c # is, e) t)"
    by (cases w) (auto simp: prefix_in_star)
next
  assume "prefix_in (is, e) str \<or> (\<exists>x t. str = x # t \<and> fits c x \<and> prefix_in (Star c # is, e) t)"
  then show "prefix_in (Star c # is, e) str"
  proof (elim disjE exE conjE)
    assume "prefix_in (is, e) str"
    then show ?thesis unfolding prefix_in_star by (intro exI [of _ "[]"] exI [of _ str]) simp
  next
    fix x t assume t: "str = x # t" "fits c x" "prefix_in (Star c # is, e) t"
    then obtain w t' where "t = w @ t'" "\<forall>x \<in> set w. fits c x" "prefix_in (is, e) t'" unfolding prefix_in_star by blast
    then show ?thesis using t unfolding prefix_in_star by (intro exI [of _ "x # w"] exI [of _ t']) simp
  qed
qed

lemma matchhere_iff:
  "matchhere re str \<longleftrightarrow> prefix_in (items re) str"
  "matchstar c re' str' \<longleftrightarrow> prefix_in (Star c # fst (items re'), snd (items re')) str'"
proof (induction re str and c re' str' rule: matchhere_matchstar.induct)
  case (1 re str)
  then show ?case
    by (subst matchhere.simps) (auto simp: prefix_in_simps fits_def split: list.splits)
next
  case (2 c re str)
  then show ?case
    by (subst matchstar.simps, subst prefix_in_star_unfold) (auto simp: fits_def split: list.splits)
qed

lemma match_from_iff: "match_from re str \<longleftrightarrow> (\<exists>pre t. str = pre @ t \<and> matchhere re t)"
proof (induction str)
  case (Cons x str)
  then show ?case by (auto simp: Cons_eq_append_conv)
qed simp

section \<open>Lines\<close>

text \<open>The complete lines of a text, and the incomplete one after the last newline.\<close>
fun lines :: "u8 list \<Rightarrow> u8 list list \<times> u8 list" where
  "lines [] = ([], [])"
| "lines (c # cs) =
     (if c = NEWLINE then ([] # fst (lines cs), snd (lines cs))
      else case lines cs of ([], r) \<Rightarrow> ([], c # r) | (l # ls, r) \<Rightarrow> ((c # l) # ls, r))"

definition matching :: "u8 list \<Rightarrow> u8 list list \<Rightarrow> u8 list" where
  "matching pattern ls = concat (map (\<lambda>l. l @ [NEWLINE]) (filter (match pattern) ls))"

lemma lines_no_newline: "NEWLINE \<notin> set p \<Longrightarrow> lines p = ([], p)"
  by (induction p) auto

lemma lines_newline: "NEWLINE \<notin> set q \<Longrightarrow> lines (q @ NEWLINE # p) = (q # fst (lines p), snd (lines p))"
  by (induction q) auto

lemma lines_head: "NEWLINE \<notin> set p \<Longrightarrow> fst (lines (p @ r)) = [] \<or> (\<exists>l ls. fst (lines (p @ r)) = (p @ l) # ls)"
proof (induction p)
  case Nil
  then show ?case by (cases "fst (lines r)") auto
qed (auto split: list.splits prod.splits)

text \<open>A line cut off the front of the buffer.\<close>
lemma lines_cut:
  assumes "NEWLINE \<in> set (cstring p)"
  obtains q p' where "p = q @ NEWLINE # p'" "NEWLINE \<notin> set q" "0 \<notin> set q" "takeWhile (\<lambda>c. c \<noteq> NEWLINE) p = q"
    "\<And>r. lines (cstring (p @ r)) = (q # fst (lines (cstring (p' @ r))), snd (lines (cstring (p' @ r))))"
proof -
  obtain q r where q: "cstring p = q @ NEWLINE # r" "NEWLINE \<notin> set q" using assms by (meson split_list_first)
  have z: "0 \<notin> set q" using set_takeWhileD [of 0 "\<lambda>c. c \<noteq> 0" p] q(1) by auto
  have p: "p = q @ NEWLINE # r @ dropWhile (\<lambda>c. c \<noteq> 0) p" using takeWhile_dropWhile_id [of "\<lambda>c. c \<noteq> 0" p] q(1) by simp
  define p' where "p' = r @ dropWhile (\<lambda>c. c \<noteq> 0) p"
  have p': "p = q @ NEWLINE # p'" using p by (simp add: p'_def)
  have nz: "\<forall>c \<in> set q. c \<noteq> 0" "\<forall>c \<in> set q. c \<noteq> NEWLINE" using z q(2) by auto
  show thesis
  proof (rule that [OF p' q(2) z])
    show "takeWhile (\<lambda>c. c \<noteq> NEWLINE) p = q" unfolding p' using nz(2) by (subst takeWhile_append2) simp_all
    show "lines (cstring (p @ t)) = (q # fst (lines (cstring (p' @ t))), snd (lines (cstring (p' @ t))))" for t
      unfolding p' using nz(1) lines_newline [OF q(2)] by (simp add: takeWhile_append2)
  qed
qed

lemma grep_lines_ok:
  "grep_lines pattern p = (out, rest) \<Longrightarrow> out = matching pattern (fst (lines (cstring p))) \<and> NEWLINE \<notin> set (cstring rest) \<and> length rest \<le> length p
    \<and> fst (lines (cstring (p @ r))) = fst (lines (cstring p)) @ fst (lines (cstring (rest @ r))) \<and> (\<forall>l \<in> set (fst (lines (cstring p))). length l < length p)"
proof (induction pattern p arbitrary: out rest rule: grep_lines.induct)
  case (1 pattern p)
  show ?case
  proof (cases "NEWLINE \<in> set (cstring p)")
    case False
    then show ?thesis using 1(2) by (simp add: grep_lines.simps [of pattern p] lines_no_newline matching_def)
  next
    case True
    then obtain q p' where q: "p = q @ NEWLINE # p'" "NEWLINE \<notin> set q" "0 \<notin> set q" "takeWhile (\<lambda>c. c \<noteq> NEWLINE) p = q"
      and l: "\<And>r. lines (cstring (p @ r)) = (q # fst (lines (cstring (p' @ r))), snd (lines (cstring (p' @ r))))"
      by (rule lines_cut) (rule that)
    have d: "drop (length q + 1) p = p'" using q(1) by simp
    obtain o' where g: "grep_lines pattern p' = (o', rest)" and o: "out = (if match pattern q then q @ [NEWLINE] else []) @ o'"
      using 1(2) True unfolding grep_lines.simps [of pattern p] by (auto simp: Let_def q(4) d [simplified] split: prod.splits)
    note IH = 1(1) [OF True q(4) [symmetric], unfolded d, OF g]
    show ?thesis using IH l [of r] l [of "[]"] q(1) o by (auto simp: matching_def)
  qed
qed

lemma grep_lines_spec:
  assumes "grep_lines pattern p = (out, rest)"
  shows "out = matching pattern (fst (lines (cstring p)))" "NEWLINE \<notin> set (cstring rest)" "length rest \<le> length p"
    "fst (lines (cstring (p @ r))) = fst (lines (cstring p)) @ fst (lines (cstring (rest @ r)))" "\<forall>l \<in> set (fst (lines (cstring p))). length l < length p"
  using grep_lines_ok [OF assms] by blast+

text \<open>What grep reads: the lines before the first NUL, up to the first that does not fit the buffer.\<close>
definition readable :: "u8 list \<Rightarrow> u8 list list" where
  "readable input = takeWhile (\<lambda>l. length l < 1023) (fst (lines (cstring input)))"

text \<open>A buffer without a line either has no room left, or is at the end of the input.\<close>
lemma readable_stuck:
  assumes "NEWLINE \<notin> set (cstring buf)" "length buf = 1023"
  shows "readable (buf @ input) = []"
proof (cases "0 \<in> set buf")
  case True
  then have "cstring (buf @ input) = cstring buf" by (auto simp: takeWhile_append1)
  then show ?thesis using assms(1) by (simp add: readable_def lines_no_newline)
next
  case False
  then have c: "cstring buf = buf" "cstring (buf @ input) = buf @ cstring input"
    by (auto simp: takeWhile_eq_all_conv) (metis (mono_tags, lifting) takeWhile_append2)
  show ?thesis using lines_head [of buf "cstring input"] assms by (auto simp: readable_def c)
qed

lemma grep_loop_spec:
  assumes "length input < length ks" "NEWLINE \<notin> set (cstring buf)" "length buf \<le> 1023"
  shows "grep_loop ks pattern buf input = matching pattern (readable (buf @ input))"
  using assms
proof (induction ks arbitrary: buf input)
  case (Cons k ks)
  define n where "n = min (min (Suc k) (1023 - length buf)) (length input)"
  consider "input = []" | "length buf = 1023" | "0 < n" "n \<le> length input" using Cons.prems(3)
    by (cases "input = []"; cases "length buf = 1023") (simp_all add: n_def)
  then show ?case
  proof cases
    case 1
    then show ?thesis using Cons.prems(2) by (simp add: lines_no_newline matching_def readable_def)
  next
    case 2
    then show ?thesis using readable_stuck [OF Cons.prems(2) 2] by (simp add: matching_def)
  next
    case 3
    let ?b = "buf @ take n input"
    obtain out rest where g: "grep_lines pattern ?b = (out, rest)" by fastforce
    note sp = grep_lines_spec [OF g]
    have b: "length ?b \<le> 1023" using Cons.prems(3) by (simp add: n_def)
    have "grep_loop ks pattern rest (drop n input) = matching pattern (readable (rest @ drop n input))"
      using Cons.prems(1) 3 sp(2,3) b by (intro Cons.IH) auto
    moreover have "readable (buf @ input) = fst (lines (cstring ?b)) @ readable (rest @ drop n input)"
    proof -
      have "\<forall>l \<in> set (fst (lines (cstring ?b))). length l < 1023" using sp(5) b by fastforce
      then show ?thesis using sp(4) [of "drop n input"] unfolding readable_def by (simp add: takeWhile_append2)
    qed
    ultimately show ?thesis using 3 g sp(1) by (simp add: Let_def matching_def flip: n_def)
  qed
qed simp

section \<open>Properties\<close>

text \<open>(C29) The recursive matcher decides the language of the pattern: \<open>match\<close> holds exactly when some part of the text is a word of the
  sequence of items that the pattern denotes, where \<open>.\<close> is any character, \<open>c*\<close> any number of characters that fit \<open>c\<close>, a leading
  \<open>^\<close> ties the part to the beginning of the text and a final \<open>$\<close> to its end.\<close>

theorem match_decides_pattern:
  "match re str \<longleftrightarrow> (let anchored = (re \<noteq> [] \<and> hd re = HAT); (is, to_end) = items (if anchored then tl re else re) in
     \<exists>pre u post. str = pre @ u @ post \<and> denotes is u \<and> (anchored \<longrightarrow> pre = []) \<and> (to_end \<longrightarrow> post = []))"
  by (auto simp: match_def match_from_iff matchhere_iff prefix_in_def split: prod.splits)

theorem match_decides_pattern_witness:
  "match [97, DOT, ASTERISK, 99, DOLLAR] [120, 97, 98, 98, 99]"
proof -
  have "denotes [One 97, Star DOT, One 99] ([97] @ [98, 98] @ [99])"
    by (simp add: den_one den_nil fits_def den_star [where w = "[98, 98]", simplified])
  then have "\<exists>pre u. [120, 97, 98, 98, 99] = pre @ u \<and> denotes [One 97, Star DOT, One 99] u"
    by (intro exI [of _ "[120]"] exI [of _ "[97, 98, 98, 99]"]) simp
  then show ?thesis
    using match_decides_pattern [of "[97, DOT, ASTERISK, 99, DOLLAR]" "[120, 97, 98, 98, 99]"] by simp
qed

text \<open>(C31) What grep prints, for every input and however \<open>read\<close> cuts the input into pieces: exactly the complete lines that match, in order, of the part of
  the input that it handles.  That part ends at the first NUL byte, where \<open>strchr\<close> stops, and before the first line of 1023 bytes or more, which
  does not fit the buffer.  Of an input without NUL bytes and long lines it is every complete line; a last line without a newline is never printed.\<close>

theorem grep_prints_matching_lines:
  assumes "length input < length ks"
  shows "grep_loop ks pattern [] input = matching pattern (readable input)
    \<and> (0 \<notin> set input \<and> (\<forall>l \<in> set (fst (lines input)). length l < 1023) \<longrightarrow> readable input = fst (lines input))"
proof -
  have "readable input = fst (lines input)" if "0 \<notin> set input" "\<forall>l \<in> set (fst (lines input)). length l < 1023"
  proof -
    have "cstring input = input" unfolding takeWhile_eq_all_conv using that(1) by auto
    then have "readable input = takeWhile (\<lambda>l. length l < 1023) (fst (lines input))" by (simp only: readable_def)
    then show ?thesis using that(2) by (simp add: takeWhile_eq_all_conv)
  qed
  then show ?thesis using grep_loop_spec [of input ks "[]" pattern] assms by simp
qed

theorem grep_prints_matching_lines_witness:
  "grep_loop [0, 0, 0, 0, 0, 0, 0, 0] [HAT, 97, DOT, ASTERISK] [] [97, 98, 10, 98, 10, 97, 10] = [97, 98, 10, 97, 10]
    \<and> grep_loop [0, 0, 0, 0, 0, 0, 0, 0] [97] [] [97, 10, 97, 0, 97, 10] = [97, 10]"
proof
  show "grep_loop [0, 0, 0, 0, 0, 0, 0, 0] [HAT, 97, DOT, ASTERISK] [] [97, 98, 10, 98, 10, 97, 10] = [97, 98, 10, 97, 10]"
    using grep_prints_matching_lines [of "[97, 98, 10, 98, 10, 97, 10]" "[0, 0, 0, 0, 0, 0, 0, 0]" "[HAT, 97, DOT, ASTERISK]"]
    by (simp add: matching_def match_def matchhere.simps matchstar.simps)
  show "grep_loop [0, 0, 0, 0, 0, 0, 0, 0] [97] [] [97, 10, 97, 0, 97, 10] = [97, 10]"
    using grep_prints_matching_lines [of "[97, 10, 97, 0, 97, 10]" "[0, 0, 0, 0, 0, 0, 0, 0]" "[97]"]
    by (simp add: matching_def readable_def match_def matchhere.simps matchstar.simps)
qed

end
