(* ===== verification/KV_Memtest.thy ===== *)
theory KV_Memtest
  imports KV_Prelude
begin

text \<open>
  The SDRAM tests of the LinuxSoC_v2 boot ROM (engineering/bootloader/bootloader.c).  The memory under test is hardware: its
  read and write of a 32-bit word are arguments \<open>rd\<close> and \<open>wr\<close> of every test, over any type of memory states.  A
  test returns the memory it leaves, or nothing when it reports a failure.  The messages are left out, and so are the probes that only
  print after the first fill has failed (mem_stuck_mask_zero, mem_bit_toggle); the fences change nothing in this model, where an access
  takes effect at once.
\<close>

section \<open>Loops over the words of a range\<close>

text \<open>\<open>for (p = s; p < e; ++p)\<close>.  The ranges of the tests end well below the end of the address space, so the pointer does not wrap.\<close>
definition words_up :: "u32 \<Rightarrow> u32 \<Rightarrow> u32 list" where
  "words_up s e = map (\<lambda>i. s + 4 * of_nat i) [0..<(if s < e then (unat (e - s) + 3) div 4 else 0)]"

text \<open>A loop whose body may report a failure.\<close>
primrec sweep :: "('m \<Rightarrow> u32 \<Rightarrow> 'm option) \<Rightarrow> u32 list \<Rightarrow> 'm \<Rightarrow> 'm option" where
  "sweep f [] m = Some m"
| "sweep f (a # as) m = (case f m a of None \<Rightarrow> None | Some m \<Rightarrow> sweep f as m)"

definition expect :: "(u32 \<Rightarrow> 'm \<Rightarrow> u32) \<Rightarrow> u32 \<Rightarrow> u32 \<Rightarrow> 'm \<Rightarrow> 'm option" where
  "expect rd a v m = (if rd a m = v then Some m else None)"

text \<open>Reading a word, comparing it, and writing the next pattern.\<close>
definition read_write :: "(u32 \<Rightarrow> 'm \<Rightarrow> u32) \<Rightarrow> (u32 \<Rightarrow> u32 \<Rightarrow> 'm \<Rightarrow> 'm) \<Rightarrow> u32 \<Rightarrow> u32 \<Rightarrow> 'm \<Rightarrow> u32 \<Rightarrow> 'm option" where
  "read_write rd wr v w m a = (if rd a m \<noteq> v then None else Some (wr a w m))"

section \<open>The tests\<close>

definition fill :: "(u32 \<Rightarrow> u32 \<Rightarrow> 'm \<Rightarrow> 'm) \<Rightarrow> (u32 \<Rightarrow> u32) \<Rightarrow> u32 list \<Rightarrow> 'm \<Rightarrow> 'm" where
  "fill wr pat as m = foldl (\<lambda>m a. wr a (pat a) m) m as"

definition verify :: "(u32 \<Rightarrow> 'm \<Rightarrow> u32) \<Rightarrow> (u32 \<Rightarrow> u32) \<Rightarrow> u32 list \<Rightarrow> 'm \<Rightarrow> 'm option" where
  "verify rd pat as m = sweep (\<lambda>m a. expect rd a (pat a) m) as m"

definition mem_fill_verify_u32 :: "(u32 \<Rightarrow> 'm \<Rightarrow> u32) \<Rightarrow> (u32 \<Rightarrow> u32 \<Rightarrow> 'm \<Rightarrow> 'm) \<Rightarrow> u32 \<Rightarrow> u32 \<Rightarrow> u32 \<Rightarrow> 'm \<Rightarrow> 'm option" where
  "mem_fill_verify_u32 rd wr s e pat m =
     verify rd (\<lambda>_. pat) (words_up s e) (fill wr (\<lambda>_. pat) (words_up s e) m)"

definition checker :: "u32 \<Rightarrow> u32 \<Rightarrow> u32 \<Rightarrow> u32 \<Rightarrow> u32" where
  "checker s odd_pat even_pat p = (if drop_bit 2 (p - s) AND 1 \<noteq> 0 then odd_pat else even_pat)"

definition checkerboard :: "(u32 \<Rightarrow> 'm \<Rightarrow> u32) \<Rightarrow> (u32 \<Rightarrow> u32 \<Rightarrow> 'm \<Rightarrow> 'm) \<Rightarrow> u32 \<Rightarrow> u32 \<Rightarrow> u32 \<Rightarrow> u32 \<Rightarrow> 'm \<Rightarrow> 'm option" where
  "checkerboard rd wr s e odd_pat even_pat m =
     verify rd (checker s odd_pat even_pat) (words_up s e) (fill wr (checker s odd_pat even_pat) (words_up s e) m)"

abbreviation SDRAM_ROW_SIZE_BYTES :: u32 where "SDRAM_ROW_SIZE_BYTES \<equiv> 1024"

definition mem_row_pingpong :: "(u32 \<Rightarrow> 'm \<Rightarrow> u32) \<Rightarrow> (u32 \<Rightarrow> u32 \<Rightarrow> 'm \<Rightarrow> 'm) \<Rightarrow> u32 \<Rightarrow> u32 \<Rightarrow> 'm \<Rightarrow> 'm option" where
  "mem_row_pingpong rd wr base sz m =
     (let a0 = base; a1 = base + SDRAM_ROW_SIZE_BYTES in
      if a1 + 4 > base + sz then Some m
      else let m = foldl (\<lambda>m i. wr a1 (0x22220000 XOR push_bit 1 (of_nat i)) (wr a0 (0x11110000 XOR of_nat i) m)) m [0..<2048];
               v0 = rd a0 m; v1 = rd a1 m
           in if v0 \<noteq> 0x11110000 XOR 2047 \<or> v1 \<noteq> 0x22220000 XOR push_bit 1 2047 then None else Some m)"

definition data_bus_test32 :: "(u32 \<Rightarrow> 'm \<Rightarrow> u32) \<Rightarrow> (u32 \<Rightarrow> u32 \<Rightarrow> 'm \<Rightarrow> 'm) \<Rightarrow> u32 \<Rightarrow> 'm \<Rightarrow> 'm option" where
  "data_bus_test32 rd wr base m =
     (case sweep (\<lambda>m pat. expect rd base pat (wr base pat m)) (map (\<lambda>bit. push_bit bit 1) [0..<32]) m of
        None \<Rightarrow> None
      | Some m \<Rightarrow> sweep (\<lambda>m pat. expect rd base pat (wr base pat m)) (map (\<lambda>bit. NOT (push_bit bit 1)) [0..<32]) m)"

text \<open>\<open>for (off = 1; off < words; off <<= 1)\<close>.\<close>
definition powers_below :: "nat \<Rightarrow> u32 list" where
  "powers_below n = map (\<lambda>k. push_bit k 1) (filter (\<lambda>k. 2 ^ k < n) [0..<32])"

definition addr_bus_test32 :: "(u32 \<Rightarrow> 'm \<Rightarrow> u32) \<Rightarrow> (u32 \<Rightarrow> u32 \<Rightarrow> 'm \<Rightarrow> 'm) \<Rightarrow> u32 \<Rightarrow> u32 \<Rightarrow> 'm \<Rightarrow> 'm option" where
  "addr_bus_test32 rd wr base bytes m =
     (let n = unat (drop_bit 2 bytes); cells = map (\<lambda>i. base + 4 * of_nat i) [0..<n];
          m = fill wr (\<lambda>_. 0xAAAAAAAA) cells m in
      case sweep (\<lambda>m off. let tgt = base + 4 * off; m = wr tgt 0x55555555 m in
          if rd base m \<noteq> 0xAAAAAAAA then None
          else if rd tgt m \<noteq> 0x55555555 then None
          else Some (wr tgt 0xAAAAAAAA m)) (powers_below n) m of
        None \<Rightarrow> None
      | Some m \<Rightarrow> verify rd (\<lambda>_. 0xAAAAAAAA) cells m)"

text \<open>\<open>for (p = e - 4; p >= s; --p)\<close>, left at \<open>s\<close> by the \<open>break\<close>.\<close>
definition words_down :: "u32 \<Rightarrow> u32 \<Rightarrow> u32 list" where
  "words_down s e = map (\<lambda>i. e - 4 - 4 * of_nat i) [0..<(if e - 4 \<ge> s then unat (e - 4 - s) div 4 + 1 else 0)]"

definition march_c_minus :: "(u32 \<Rightarrow> 'm \<Rightarrow> u32) \<Rightarrow> (u32 \<Rightarrow> u32 \<Rightarrow> 'm \<Rightarrow> 'm) \<Rightarrow> u32 \<Rightarrow> u32 \<Rightarrow> 'm \<Rightarrow> 'm option" where
  "march_c_minus rd wr s e m =
     (let up = words_up s e; down = words_down s e; m = fill wr (\<lambda>_. 0) up m in
      case sweep (read_write rd wr 0 0xFFFFFFFF) up m of None \<Rightarrow> None | Some m \<Rightarrow>
      case sweep (read_write rd wr 0xFFFFFFFF 0) up m of None \<Rightarrow> None | Some m \<Rightarrow>
      case sweep (read_write rd wr 0 0xFFFFFFFF) down m of None \<Rightarrow> None | Some m \<Rightarrow>
      case sweep (read_write rd wr 0xFFFFFFFF 0) down m of None \<Rightarrow> None | Some m \<Rightarrow>
      verify rd (\<lambda>_. 0) down m)"

definition lfsr32_step :: "u32 \<Rightarrow> u32" where
  "lfsr32_step s =
     (let b = (s XOR drop_bit 1 s XOR drop_bit 21 s XOR drop_bit 31 s) AND 1
      in drop_bit 1 s OR push_bit 31 b)"

text \<open>The words of the stream, every \<open>stride\<close>-th one, with the state of the shift register at each.\<close>
primrec prbs :: "u32 list \<Rightarrow> u32 \<Rightarrow> (u32 \<times> u32) list" where
  "prbs [] st = []"
| "prbs (a # as) st = (a, st) # prbs as (lfsr32_step st)"

definition prbs_stream :: "(u32 \<Rightarrow> 'm \<Rightarrow> u32) \<Rightarrow> (u32 \<Rightarrow> u32 \<Rightarrow> 'm \<Rightarrow> 'm) \<Rightarrow> u32 \<Rightarrow> u32 \<Rightarrow> u32 \<Rightarrow> nat \<Rightarrow> 'm \<Rightarrow> 'm option" where
  "prbs_stream rd wr s e seed stride m =
     (let n = unat (drop_bit 2 (e - s));
          cells = map (\<lambda>i. s + 4 * of_nat i) (filter (\<lambda>i. i mod stride = 0) [0..<n]);
          st = (if seed \<noteq> 0 then seed else 1);
          m = foldl (\<lambda>m (a, v). wr a v m) m (prbs cells st)
      in if \<forall>(a, v) \<in> set (prbs cells st). rd a m = v then Some m else None)"

definition row_hammer_small :: "(u32 \<Rightarrow> 'm \<Rightarrow> u32) \<Rightarrow> (u32 \<Rightarrow> u32 \<Rightarrow> 'm \<Rightarrow> 'm) \<Rightarrow> u32 \<Rightarrow> u32 \<Rightarrow> nat \<Rightarrow> 'm \<Rightarrow> 'm option" where
  "row_hammer_small rd wr base row_sz iters m =
     (let victim = base + row_sz; agg0 = base; agg1 = base + 2 * row_sz;
          m = wr victim 0xCAFEBABE m;
          m = foldl (\<lambda>m i. wr agg1 (NOT (of_nat i)) (wr agg0 (of_nat i) m)) m [0..<iters]
      in if rd victim m \<noteq> 0xCAFEBABE then None else Some m)"

definition sdram_memtest :: "(u32 \<Rightarrow> 'm \<Rightarrow> u32) \<Rightarrow> (u32 \<Rightarrow> u32 \<Rightarrow> 'm \<Rightarrow> 'm) \<Rightarrow> u32 \<Rightarrow> 'm \<Rightarrow> 'm option" where
  "sdram_memtest rd wr tot_sz m =
     (let limit = (if 0x1000000 > tot_sz then tot_sz else 0x1000000); s = 0x80000000; e = s + limit in
      case mem_fill_verify_u32 rd wr s e 0 m of None \<Rightarrow> None | Some m \<Rightarrow>
      case mem_fill_verify_u32 rd wr s e 0xFFFFFFFF m of None \<Rightarrow> None | Some m \<Rightarrow>
      case checkerboard rd wr s e 0x55555555 0xAAAAAAAA m of None \<Rightarrow> None | Some m \<Rightarrow>
      case checkerboard rd wr s e 0xAAAAAAAA 0x55555555 m of None \<Rightarrow> None | Some m \<Rightarrow>
      case mem_row_pingpong rd wr s 0x10000 m of None \<Rightarrow> None | Some m \<Rightarrow>
      case data_bus_test32 rd wr s m of None \<Rightarrow> None | Some m \<Rightarrow>
      case addr_bus_test32 rd wr s 0x20000 m of None \<Rightarrow> None | Some m \<Rightarrow>
      case march_c_minus rd wr s e m of None \<Rightarrow> None | Some m \<Rightarrow>
      case prbs_stream rd wr s e 0x1D872B41 4 m of None \<Rightarrow> None | Some m \<Rightarrow>
      row_hammer_small rd wr s SDRAM_ROW_SIZE_BYTES 100000 m)"

section \<open>Memories\<close>

text \<open>A memory whose address decoder maps the address \<open>a\<close> to the cell \<open>dec a\<close>; a good memory has the identity.\<close>
definition decodes :: "(u32 \<Rightarrow> u32) \<Rightarrow> (u32 \<Rightarrow> 'm \<Rightarrow> u32) \<Rightarrow> (u32 \<Rightarrow> u32 \<Rightarrow> 'm \<Rightarrow> 'm) \<Rightarrow> bool" where
  "decodes dec rd wr \<longleftrightarrow> (\<forall>a b v m. rd a (wr b v m) = (if dec a = dec b then v else rd a m))"

text \<open>A bit of a word that always reads the same.\<close>
definition stuck :: "(u32 \<Rightarrow> 'm \<Rightarrow> u32) \<Rightarrow> u32 \<Rightarrow> nat \<Rightarrow> bool \<Rightarrow> bool" where
  "stuck rd a k v \<longleftrightarrow> k < 32 \<and> (\<forall>m. bit (rd a m) k = v)"

lemma verify_eq: "verify rd pat as m = (if \<forall>a \<in> set as. rd a m = pat a then Some m else None)"
  unfolding verify_def by (induction as) (auto simp: expect_def)

lemma sweep_inv:
  assumes "\<And>m a. I m \<Longrightarrow> a \<in> set as \<Longrightarrow> \<exists>m'. f m a = Some m' \<and> I m'" "I m"
  shows "\<exists>m'. sweep f as m = Some m' \<and> I m'"
  using assms by (induction as arbitrary: m) fastforce+

lemma fill_same:
  assumes "decodes dec rd wr" "\<forall>b \<in> set as. dec b = dec a \<longrightarrow> pat b = v" "a \<in> set as \<or> rd a m = v"
  shows "rd a (fill wr pat as m) = v"
  using assms(2,3)
proof (induction as arbitrary: m)
  case (Cons b as)
  have "a \<in> set as \<or> rd a (wr b (pat b) m) = v"
    using Cons.prems assms(1) by (auto simp: decodes_def)
  then show ?case using Cons by (simp add: fill_def)
qed (simp add: fill_def)

lemma fill_verify:
  assumes "decodes id rd wr"
  shows "\<exists>m'. verify rd pat as (fill wr pat as m) = Some m'"
  using fill_same [OF assms, of as _ pat] by (simp add: verify_eq)

text \<open>A pass of the march from the pattern \<open>v\<close> to \<open>w\<close>: one step of it, what it leaves, and what stops it.\<close>
lemma read_write_bind [simp]:
  "(case read_write rd wr v w m b of None \<Rightarrow> None | Some m \<Rightarrow> g m) = (if rd b m = v then g (wr b w m) else None)"
  by (simp add: read_write_def)

lemma decodes_keep: "decodes dec rd wr \<Longrightarrow> rd a m = w \<Longrightarrow> rd a (wr b w m) = w"
  by (simp add: decodes_def)

lemma pass_keeps:
  assumes d: "decodes dec rd wr"
  shows "sweep (read_write rd wr v w) as m = Some m' \<Longrightarrow> a \<in> set as \<or> rd a m = w \<Longrightarrow> rd a m' = w"
proof (induction as arbitrary: m)
  case (Cons b as)
  have "a \<in> set as \<or> rd a (wr b w m) = w"
    using Cons.prems(2) d decodes_keep [OF d] by (auto simp: decodes_def)
  then show ?case using Cons by (simp split: if_splits)
qed simp

lemma pass_good:
  assumes d: "decodes id rd wr"
  shows "\<forall>a \<in> set as. rd a m = v \<Longrightarrow> distinct as \<Longrightarrow>
    \<exists>m'. sweep (read_write rd wr v w) as m = Some m' \<and> (\<forall>a \<in> set as. rd a m' = w)"
proof -
  have "\<exists>m'. sweep (read_write rd wr v w) as m = Some m'" if "\<forall>a \<in> set as. rd a m = v" "distinct as"
    using that
  proof (induction as arbitrary: m)
    case (Cons b as)
    have "\<forall>a \<in> set as. rd a (wr b w m) = v" using Cons.prems d by (auto simp: decodes_def)
    then show ?case using Cons by simp
  qed simp
  then show "\<forall>a \<in> set as. rd a m = v \<Longrightarrow> distinct as \<Longrightarrow> ?thesis" using pass_keeps [OF d] by blast
qed

lemma pass_finds:
  assumes d: "decodes dec rd wr" and "v \<noteq> w"
  shows "c \<in> set as \<Longrightarrow> rd c m = w \<Longrightarrow> sweep (read_write rd wr v w) as m = None"
  using assms(2) by (induction as arbitrary: m) (auto simp: decodes_keep [OF d])

text \<open>Two addresses of one cell: the second visit finds the new pattern already there.\<close>
lemma pass_decodes_apart:
  assumes d: "decodes dec rd wr" and "v \<noteq> w"
  shows "sweep (read_write rd wr v w) as m = Some m' \<Longrightarrow> distinct (map dec as)"
proof (induction as arbitrary: m)
  case (Cons b as)
  then have s: "sweep (read_write rd wr v w) as (wr b w m) = Some m'" by (simp split: if_splits)
  have "dec c \<noteq> dec b" if "c \<in> set as" for c
    using pass_finds [OF assms that, of "wr b w m"] s d by (auto simp: decodes_def)
  then show ?case using Cons.IH [OF s] by force
qed simp

section \<open>The words of a range\<close>

lemma unat_of_nat_u32: "n < 2 ^ 32 \<Longrightarrow> unat (of_nat n :: u32) = n"
  by (simp add: unsigned_of_nat take_bit_nat_eq_self)

lemma unat_four_times: "k < 2 ^ 30 \<Longrightarrow> unat (4 * of_nat k :: u32) = 4 * k"
  using unat_of_nat_u32 [of "4 * k"] by simp

lemma words_inj:
  fixes s :: u32
  assumes "i < 2 ^ 30" "j < 2 ^ 30" "s + 4 * of_nat i = s + 4 * of_nat j"
  shows "i = j"
proof -
  have "4 * of_nat i = (4 * of_nat j :: u32)" using assms(3) by simp
  then have "4 * i = 4 * j" using assms(1,2) by (metis unat_four_times)
  then show ?thesis by simp
qed

lemma distinct_words: "set is \<subseteq> {..<2 ^ 30} \<Longrightarrow> distinct is \<Longrightarrow> distinct (map (\<lambda>i. s + 4 * of_nat i :: u32) is)"
  unfolding distinct_map by (blast intro: inj_onI words_inj)

lemma distinct_words_up: "distinct (words_up s e)"
proof -
  have "unat (e - s) < 2 ^ 32" using unsigned_less [of "e - s"] by simp
  then show ?thesis unfolding words_up_def by (intro distinct_words) auto
qed

lemma words_down_aligned:
  assumes "s < e" "4 dvd unat (e - s)"
  shows "words_down s e = rev (words_up s e)"
proof -
  obtain n where n: "unat (e - s) = 4 * n" using assms(2) by blast
  have "unat (e - s) = unat e - unat s" "unat s < unat e" using assms(1) by (auto simp: unat_sub word_less_nat_alt word_le_nat_alt)
  then have ne: "unat e = unat s + 4 * n" "0 < n" using n by auto
  then have e4: "unat (e - 4) = unat s + 4 * (n - 1)"
    by (simp add: unat_sub_if)
  then have le: "s \<le> e - 4" "unat (e - 4 - s) div 4 + 1 = n" using ne(2) by (auto simp: word_le_nat_alt unat_sub)
  have "e = s + 4 * of_nat n" using arg_cong [OF n, of "of_nat :: nat \<Rightarrow> u32"] by (simp add: algebra_simps)
  then have at: "e - 4 - 4 * of_nat i = s + 4 * of_nat (n - 1 - i)" if "i < n" for i
    using that by (simp add: of_nat_diff algebra_simps)
  show ?thesis
    by (rule nth_equalityI) (use assms(1) le n at in \<open>auto simp: words_down_def words_up_def rev_nth\<close>)
qed

section \<open>A good memory passes\<close>

lemma fill_last:
  assumes "decodes id rd wr" "a \<noteq> b"
  shows "rd a (foldl (\<lambda>m i. wr b (g i) (wr a (f i) m)) m [0..<Suc n]) = f n"
    and "rd b (foldl (\<lambda>m i. wr b (g i) (wr a (f i) m)) m [0..<Suc n]) = g n"
  using assms by (auto simp: decodes_def)

lemma row_pingpong_good:
  assumes "decodes id rd wr"
  shows "\<exists>m'. mem_row_pingpong rd wr base sz m = Some m'"
proof -
  have ne: "base \<noteq> base + SDRAM_ROW_SIZE_BYTES" by simp
  have n: "[0..<2048] = [0..<Suc 2047]" by simp
  show ?thesis
    unfolding mem_row_pingpong_def Let_def n using fill_last [OF assms ne, of _ _ m 2047] by (simp only: if_False) simp
qed

lemma data_bus_good:
  assumes "decodes id rd wr"
  shows "\<exists>m'. data_bus_test32 rd wr base m = Some m'"
proof -
  have "\<exists>m'. sweep (\<lambda>m pat. expect rd base pat (wr base pat m)) pats m = Some m' \<and> True" for pats m
    by (rule sweep_inv) (use assms in \<open>auto simp: expect_def decodes_def\<close>)
  then show ?thesis unfolding data_bus_test32_def by (metis option.simps(5))
qed

lemma powers_below_range:
  assumes "off \<in> set (powers_below n)"
  shows "0 < unat off \<and> unat off < n"
proof -
  obtain k where k: "off = of_nat (2 ^ k)" "k < 32" "2 ^ k < n" using assms by (auto simp: powers_below_def push_bit_eq_mult)
  have "(2::nat) ^ k < 2 ^ 32" using k(2) by (rule power_strict_increasing) simp
  then show ?thesis using k(3) unat_of_nat_u32 [of "2 ^ k"] unfolding k(1) by simp
qed

lemma addr_bus_good:
  assumes d: "decodes id rd wr" and n: "4 \<le> unat bytes"
  shows "\<exists>m'. addr_bus_test32 rd wr base bytes m = Some m'"
proof -
  define n where "n = unat (drop_bit 2 bytes)"
  define cells where "cells = map (\<lambda>i. base + 4 * of_nat i) [0..<n]"
  define I where "I m \<longleftrightarrow> (\<forall>a \<in> set cells. rd a m = 0xAAAAAAAA)" for m
  have n4: "n = unat bytes div 4" unfolding n_def unat_drop_bit_div by simp
  have n30: "n < 2 ^ 30" using unsigned_less [of bytes, where ?'a = nat] n4 by simp
  have base: "base \<in> set cells" using n n4 by (auto simp: cells_def image_iff intro!: bexI [of _ 0])
  have I0: "I (fill wr (\<lambda>_. 0xAAAAAAAA) cells m)" using fill_same [OF d, of cells] by (simp add: I_def)
  have ne: "base + 4 * off \<noteq> base" if "off \<in> set (powers_below n)" for off
    using words_inj [of "unat off" 0 base] powers_below_range [OF that] n30 by auto
  have "\<exists>m'. sweep (\<lambda>m off. let tgt = base + 4 * off; m = wr tgt 0x55555555 m in
          if rd base m \<noteq> 0xAAAAAAAA then None else if rd tgt m \<noteq> 0x55555555 then None
          else Some (wr tgt 0xAAAAAAAA m)) (powers_below n) (fill wr (\<lambda>_. 0xAAAAAAAA) cells m) = Some m' \<and> I m'"
    by (rule sweep_inv [where I = I]) (use I0 ne d base in \<open>auto simp: I_def decodes_def Let_def\<close>)
  then show ?thesis
    by (auto simp: addr_bus_test32_def Let_def verify_eq I_def simp flip: n_def cells_def)
qed

lemma march_good:
  assumes d: "decodes id rd wr" and r: "s < e" "4 dvd unat (e - s)"
  shows "\<exists>m'. march_c_minus rd wr s e m = Some m'"
proof -
  define up where "up = words_up s e"
  have dn: "words_down s e = rev up" "distinct up" using words_down_aligned [OF r] distinct_words_up by (auto simp: up_def)
  have f: "\<forall>a \<in> set up. rd a (fill wr (\<lambda>_. 0) up m) = 0" using fill_same [OF d, of up] by simp
  note pass = pass_good [OF d]
  obtain m1 where m1: "sweep (read_write rd wr 0 0xFFFFFFFF) up (fill wr (\<lambda>_. 0) up m) = Some m1" "\<forall>a \<in> set up. rd a m1 = 0xFFFFFFFF"
    using pass [OF f dn(2)] by blast
  obtain m2 where m2: "sweep (read_write rd wr 0xFFFFFFFF 0) up m1 = Some m2" "\<forall>a \<in> set (rev up). rd a m2 = 0"
    using pass [OF m1(2) dn(2)] by auto
  obtain m3 where m3: "sweep (read_write rd wr 0 0xFFFFFFFF) (rev up) m2 = Some m3" "\<forall>a \<in> set (rev up). rd a m3 = 0xFFFFFFFF"
    using pass [OF m2(2)] dn(2) by auto
  obtain m4 where m4: "sweep (read_write rd wr 0xFFFFFFFF 0) (rev up) m3 = Some m4" "\<forall>a \<in> set (rev up). rd a m4 = 0"
    using pass [OF m3(2)] dn(2) by auto
  show ?thesis using m4(2) by (simp add: march_c_minus_def Let_def dn m1(1) m2(1) m3(1) m4(1) verify_eq flip: up_def)
qed

lemma prbs_cells: "map fst (prbs as st) = as"
  by (induction as arbitrary: st) auto

lemma writes_read_back:
  assumes "decodes id rd wr"
  shows "distinct (map fst ws) \<Longrightarrow> (a, v) \<in> set ws \<or> a \<notin> fst ` set ws \<and> rd a m = v \<Longrightarrow>
    rd a (foldl (\<lambda>m (a, v). wr a v m) m ws) = v"
proof (induction ws arbitrary: m)
  case (Cons w ws)
  obtain b u where w: "w = (b, u)" by fastforce
  have "(a, v) \<in> set ws \<or> a \<notin> fst ` set ws \<and> rd a (wr b u m) = v"
    using Cons.prems assms by (auto simp: w decodes_def)
  then show ?case using Cons by (simp add: w)
qed simp

lemma prbs_good:
  assumes d: "decodes id rd wr"
  shows "\<exists>m'. prbs_stream rd wr s e seed stride m = Some m'"
proof -
  define cells where "cells = map (\<lambda>i. s + 4 * of_nat i) (filter (\<lambda>i. i mod stride = 0) [0..<unat (drop_bit 2 (e - s))])"
  have "unat (drop_bit 2 (e - s)) < 2 ^ 30" unfolding unat_drop_bit_div using unsigned_less [of "e - s", where ?'a = nat] by simp
  then have "distinct cells" unfolding cells_def by (intro distinct_words) auto
  then show ?thesis
    using writes_read_back [OF d, of "prbs cells _"] by (auto simp: prbs_stream_def Let_def prbs_cells simp flip: cells_def)
qed

lemma row_hammer_good:
  assumes d: "decodes id rd wr"
  shows "\<exists>m'. row_hammer_small rd wr base SDRAM_ROW_SIZE_BYTES iters m = Some m'"
proof -
  have "rd (base + 1024) (foldl (\<lambda>m i. wr (base + 2 * 1024) (g i) (wr base (f i) m)) (wr (base + 1024) v m) is) = v" for f g v "is"
    by (induction "is" rule: rev_induct) (use d in \<open>auto simp: decodes_def\<close>)
  then show ?thesis by (simp add: row_hammer_small_def Let_def)
qed

section \<open>What a pass means\<close>

definition sdram_end :: "u32 \<Rightarrow> u32" where
  "sdram_end tot_sz = 0x80000000 + (if 0x1000000 > tot_sz then tot_sz else 0x1000000)"

lemma sdram_end_range:
  assumes "0 < tot_sz" "4 dvd unat tot_sz"
  shows "0x80000000 < sdram_end tot_sz \<and> 4 dvd unat (sdram_end tot_sz - 0x80000000)"
  using assms by (auto simp: sdram_end_def u32_nat split: if_splits)

lemma memtest_passes_good:
  assumes d: "decodes id rd wr" and r: "0 < tot_sz" "4 dvd unat tot_sz"
  shows "\<exists>m'. sdram_memtest rd wr tot_sz m = Some m'"
proof -
  have bind: "\<exists>m'. (case x of None \<Rightarrow> None | Some m \<Rightarrow> g m) = Some m'" if "\<exists>m. x = Some m" "\<And>m. \<exists>m'. g m = Some m'" for x :: "'b option" and g :: "'b \<Rightarrow> 'b option"
    using that by auto
  show ?thesis
    unfolding sdram_memtest_def Let_def sdram_end_def [symmetric] mem_fill_verify_u32_def checkerboard_def
    by (intro bind fill_verify [OF d] row_pingpong_good [OF d] data_bus_good [OF d] addr_bus_good [OF d] march_good [OF d]
        prbs_good [OF d] row_hammer_good [OF d]) (use sdram_end_range [OF r] in auto)
qed

lemma memtest_some:
  assumes "sdram_memtest rd wr tot_sz m = Some m'"
  obtains m1 m2 m3 m4 m5 where
    "mem_fill_verify_u32 rd wr 0x80000000 (sdram_end tot_sz) 0 m = Some m1"
    "mem_fill_verify_u32 rd wr 0x80000000 (sdram_end tot_sz) 0xFFFFFFFF m1 = Some m2"
    "march_c_minus rd wr 0x80000000 (sdram_end tot_sz) m3 = Some m4"
  using assms unfolding sdram_memtest_def Let_def sdram_end_def [symmetric]
  by (auto split: option.splits)

lemma fill_verify_some:
  "mem_fill_verify_u32 rd wr s e pat m = Some m' \<Longrightarrow> a \<in> set (words_up s e) \<Longrightarrow> rd a m' = pat"
  by (simp add: mem_fill_verify_u32_def verify_eq split: if_splits)

lemma memtest_rejects_stuck:
  assumes "a \<in> set (words_up 0x80000000 (sdram_end tot_sz))" "stuck rd a k v"
  shows "sdram_memtest rd wr tot_sz m = None"
proof (rule ccontr)
  assume "sdram_memtest rd wr tot_sz m \<noteq> None"
  then obtain m1 m2 where "rd a m1 = 0" "rd a m2 = 0xFFFFFFFF"
    using fill_verify_some [OF _ assms(1)] memtest_some by (metis not_None_eq)
  moreover have "(0xFFFFFFFF :: u32) = - 1" by simp
  moreover have "bit (rd a m1) k = v" "bit (rd a m2) k = v" "k < 32" using assms(2) by (auto simp: stuck_def)
  ultimately show False by (simp only: bit_0_eq bit_minus_1_iff) auto
qed

lemma memtest_rejects_alias:
  assumes "a \<in> set (words_up 0x80000000 (sdram_end tot_sz))" "b \<in> set (words_up 0x80000000 (sdram_end tot_sz))"
    and "a \<noteq> b" "decodes dec rd wr" "dec a = dec b"
  shows "sdram_memtest rd wr tot_sz m = None"
proof (rule ccontr)
  let ?up = "words_up 0x80000000 (sdram_end tot_sz)"
  assume "sdram_memtest rd wr tot_sz m \<noteq> None"
  then obtain n n' where "march_c_minus rd wr 0x80000000 (sdram_end tot_sz) n = Some n'"
    using memtest_some by (metis not_None_eq)
  then obtain n1 where "sweep (read_write rd wr 0 0xFFFFFFFF) ?up (fill wr (\<lambda>_. 0) ?up n) = Some n1"
    by (auto simp: march_c_minus_def Let_def split: option.splits)
  then have "distinct (map dec ?up)" by (rule pass_decodes_apart [OF assms(4), rotated]) simp
  then show False using assms by (auto simp: distinct_map inj_on_def)
qed

text \<open>(C40) The SDRAM test of the boot ROM passes a memory in which every word reads back what was written to it last, and rejects a memory of
  which some bit of a tested word is stuck at 0 or at 1, whatever else it does, and a memory whose address decoder maps two tested
  addresses to one word.\<close>
theorem sdram_memtest_verdict:
  assumes "0 < tot_sz" "4 dvd unat tot_sz"
  shows "(decodes id rd wr \<longrightarrow> (\<exists>m'. sdram_memtest rd wr tot_sz m = Some m')) \<and>
    (\<forall>a k v. a \<in> set (words_up 0x80000000 (sdram_end tot_sz)) \<and> stuck rd a k v \<longrightarrow> sdram_memtest rd wr tot_sz m = None) \<and>
    (\<forall>dec a b. decodes dec rd wr \<and> {a, b} \<subseteq> set (words_up 0x80000000 (sdram_end tot_sz)) \<and> a \<noteq> b \<and> dec a = dec b \<longrightarrow>
       sdram_memtest rd wr tot_sz m = None)"
  using memtest_passes_good [OF _ assms] memtest_rejects_stuck memtest_rejects_alias by fastforce

text \<open>Three memories of 1 MiB: a good one, one with bit 5 of the third word stuck at 1, and one whose address line 4 is cut.\<close>
theorem sdram_memtest_verdict_witness:
  "(\<exists>m'. sdram_memtest (\<lambda>a m. m a) (\<lambda>a v m. m(a := v)) 0x100000 (\<lambda>_. 7) = Some m') \<and>
   sdram_memtest (\<lambda>a m. m a OR (if a = 0x80000008 then 0x20 else 0)) (\<lambda>a v m. m(a := v)) 0x100000 (\<lambda>_. 7) = None \<and>
   sdram_memtest (\<lambda>a m. m (a AND NOT 0x10)) (\<lambda>a v m. m(a AND NOT 0x10 := v)) 0x100000 (\<lambda>_. 7) = None"
proof (intro conjI)
  have at: "0x80000000 + 4 * of_nat i \<in> set (words_up 0x80000000 (sdram_end 0x100000))" if "i < 0x40000" for i
    using that by (simp add: words_up_def sdram_end_def)
  have sz: "0 < (0x100000 :: u32)" "4 dvd unat (0x100000 :: u32)" by simp_all
  note v = sdram_memtest_verdict [OF sz, of _ _ "\<lambda>_. 7"]
  show "\<exists>m'. sdram_memtest (\<lambda>a m. m a) (\<lambda>a v m. m(a := v)) 0x100000 (\<lambda>_. 7) = Some m'"
    by (rule v [THEN conjunct1, rule_format]) (simp add: decodes_def)
  have "stuck (\<lambda>a m. m a OR (if a = 0x80000008 then 0x20 else 0)) (0x80000008 :: u32) 5 True"
    by (simp add: stuck_def bit_or_iff bit_numeral_word_iff)
  then show "sdram_memtest (\<lambda>a m. m a OR (if a = 0x80000008 then 0x20 else 0)) (\<lambda>a v m. m(a := v)) 0x100000 (\<lambda>_. 7) = None"
    using at [of 2] by (intro v [THEN conjunct2, THEN conjunct1, rule_format]) simp
  have "decodes (\<lambda>a. a AND NOT 0x10) (\<lambda>a m. m (a AND NOT 0x10)) (\<lambda>a v m. m(a AND NOT 0x10 := v))"
    by (simp add: decodes_def)
  then show "sdram_memtest (\<lambda>a m. m (a AND NOT 0x10)) (\<lambda>a v m. m(a AND NOT 0x10 := v)) 0x100000 (\<lambda>_. 7) = None"
    using at [of 0] at [of 4]
    by (intro v [THEN conjunct2, THEN conjunct2, rule_format, where dec = "\<lambda>a. a AND NOT 0x10" and a = "0x80000000" and b = "0x80000010"]) simp
qed

end
