(* ===== verification/KV_Umalloc.thy ===== *)
theory KV_Umalloc
  imports KV_Prelude
begin

text \<open>
  The allocator of the user library (user/umalloc.c): a circular list of free blocks in address order, first fit, with merging of
  neighbours.  A heap is the map from addresses to block headers, with the two static variables; a header
  is 8 bytes long on this machine, and so is the unit in which sizes are counted.  The system call behind \<open>sbrk\<close> is an argument,
  over any type of kernel states; that a loop does not end is the value \<open>None\<close>.
\<close>

section \<open>The code\<close>

record header =
  hptr :: u32
  hsize :: u32

record uheap =
  hdr :: "u32 \<Rightarrow> header"
  ubase :: u32
  freep :: u32

abbreviation nxt :: "uheap \<Rightarrow> u32 \<Rightarrow> u32" where "nxt h p \<equiv> hptr (hdr h p)"
abbreviation units :: "uheap \<Rightarrow> u32 \<Rightarrow> u32" where "units h p \<equiv> hsize (hdr h p)"

definition set_ptr :: "u32 \<Rightarrow> u32 \<Rightarrow> uheap \<Rightarrow> uheap" where
  "set_ptr p v h = h\<lparr>hdr := (hdr h)(p := (hdr h p)\<lparr>hptr := v\<rparr>)\<rparr>"

definition set_units :: "u32 \<Rightarrow> u32 \<Rightarrow> uheap \<Rightarrow> uheap" where
  "set_units p v h = h\<lparr>hdr := (hdr h)(p := (hdr h p)\<lparr>hsize := v\<rparr>)\<rparr>"

partial_function (option) free_find :: "uheap \<Rightarrow> u32 \<Rightarrow> u32 \<Rightarrow> u32 option" where
  "free_find h bp p =
     (if bp > p \<and> bp < nxt h p then Some p
      else if p \<ge> nxt h p \<and> (bp > p \<or> bp < nxt h p) then Some p
      else free_find h bp (nxt h p))"

text \<open>Linking \<open>bp\<close> after \<open>p\<close>: first the block above, then the block below.\<close>
definition join_upper :: "u32 \<Rightarrow> u32 \<Rightarrow> uheap \<Rightarrow> uheap" where
  "join_upper p bp h =
     (if bp + 8 * units h bp = nxt h p
      then let h = set_units bp (units h bp + units h (nxt h p)) h in set_ptr bp (nxt h (nxt h p)) h
      else set_ptr bp (nxt h p) h)"

definition join_lower :: "u32 \<Rightarrow> u32 \<Rightarrow> uheap \<Rightarrow> uheap" where
  "join_lower p bp h =
     (if p + 8 * units h p = bp
      then let h = set_units p (units h p + units h bp) h in set_ptr p (nxt h bp) h
      else set_ptr p bp h)"

definition ufree :: "u32 \<Rightarrow> uheap \<Rightarrow> uheap option" where
  "ufree ap h =
     (let bp = ap - 8 in
      case free_find h bp (freep h) of
        None \<Rightarrow> None
      | Some p \<Rightarrow> Some ((join_lower p bp (join_upper p bp h))\<lparr>freep := p\<rparr>))"

abbreviation SBRK_ERROR :: u32 where "SBRK_ERROR \<equiv> - 1"

definition morecore :: "(u32 \<Rightarrow> 'k \<Rightarrow> u32 \<times> 'k) \<Rightarrow> u32 \<Rightarrow> uheap \<Rightarrow> 'k \<Rightarrow> (u32 \<times> uheap \<times> 'k) option" where
  "morecore sbrk nu h k =
     (let nu = (if nu < 4096 then 4096 else nu); (p, k) = sbrk (nu * 8) k in
      if p = SBRK_ERROR then Some (0, h, k)
      else case ufree (p + 8) (set_units p nu h) of
             None \<Rightarrow> None
           | Some h \<Rightarrow> Some (freep h, h, k))"

text \<open>Cutting the tail off the free block \<open>p\<close>, or unlinking it when it fits exactly.\<close>
definition take_block :: "u32 \<Rightarrow> u32 \<Rightarrow> u32 \<Rightarrow> uheap \<Rightarrow> u32 \<times> uheap" where
  "take_block nunits prevp p h =
     (let (p, h) =
        (if units h p = nunits then (p, set_ptr prevp (nxt h p) h)
         else let h = set_units p (units h p - nunits) h; p = p + 8 * units h p
              in (p, set_units p nunits h))
      in (p + 8, h\<lparr>freep := prevp\<rparr>))"

partial_function (option) malloc_loop ::
  "(u32 \<Rightarrow> 'k \<Rightarrow> u32 \<times> 'k) \<Rightarrow> u32 \<Rightarrow> u32 \<Rightarrow> u32 \<Rightarrow> uheap \<Rightarrow> 'k \<Rightarrow> (u32 \<times> uheap \<times> 'k) option" where
  "malloc_loop sbrk nunits prevp p h k =
     (if units h p \<ge> nunits then (case take_block nunits prevp p h of (r, h) \<Rightarrow> Some (r, h, k))
      else if p = freep h
      then (case morecore sbrk nunits h k of
              None \<Rightarrow> None
            | Some (p, h, k) \<Rightarrow> if p = 0 then Some (0, h, k) else malloc_loop sbrk nunits p (nxt h p) h k)
      else malloc_loop sbrk nunits p (nxt h p) h k)"

definition umalloc :: "(u32 \<Rightarrow> 'k \<Rightarrow> u32 \<times> 'k) \<Rightarrow> u32 \<Rightarrow> uheap \<Rightarrow> 'k \<Rightarrow> (u32 \<times> uheap \<times> 'k) option" where
  "umalloc sbrk nbytes h k =
     (let nunits = (nbytes + 8 - 1) div 8 + 1;
          h = (if freep h = 0
               then set_units (ubase h) 0 (set_ptr (ubase h) (ubase h) (h\<lparr>freep := ubase h\<rparr>)) else h)
      in malloc_loop sbrk nunits (freep h) (nxt h (freep h)) h k)"

declare free_find.simps [code] malloc_loop.simps [code]

section \<open>The free list\<close>

lemma hdr_set [simp]:
  "hdr (set_ptr p v h) = (hdr h)(p := (hdr h p)\<lparr>hptr := v\<rparr>)" "hdr (set_units p v h) = (hdr h)(p := (hdr h p)\<lparr>hsize := v\<rparr>)"
  "ubase (set_ptr p v h) = ubase h" "ubase (set_units p v h) = ubase h"
  "freep (set_ptr p v h) = freep h" "freep (set_units p v h) = freep h"
  by (simp_all add: set_ptr_def set_units_def)

text \<open>A chain of pointers from \<open>a\<close> over the given blocks to \<open>b\<close>.\<close>
fun linked :: "uheap \<Rightarrow> u32 \<Rightarrow> u32 list \<Rightarrow> u32 \<Rightarrow> bool" where
  "linked h a [] b \<longleftrightarrow> nxt h a = b"
| "linked h a (x # xs) b \<longleftrightarrow> nxt h a = x \<and> linked h x xs b"

lemma linked_append [simp]: "linked h a (xs @ y # ys) b \<longleftrightarrow> linked h a xs y \<and> linked h y ys b"
  by (induction xs arbitrary: a) auto

lemma linked_head: "linked h a xs b \<Longrightarrow> nxt h' a' = nxt h a \<Longrightarrow> \<forall>x \<in> set xs. nxt h' x = nxt h x \<Longrightarrow> linked h' a' xs b"
  by (induction xs arbitrary: a a') auto

lemma linked_retarget:
  "linked h a xs b \<Longrightarrow> distinct (a # xs) \<Longrightarrow> nxt h' (last (a # xs)) = c \<Longrightarrow>
   \<forall>x \<in> set (a # xs) - {last (a # xs)}. nxt h' x = nxt h x \<Longrightarrow> linked h' a xs c"
  by (induction xs arbitrary: a) (auto split: if_splits)

text \<open>The bytes of a block.\<close>
definition blk :: "uheap \<Rightarrow> u32 \<Rightarrow> nat set" where
  "blk h a = {unat a..<unat a + 8 * unat (units h a)}"

definition free_bytes :: "uheap \<Rightarrow> u32 list \<Rightarrow> nat set" where
  "free_bytes h fs = (\<Union>a \<in> set fs. blk h a)"

text \<open>A block of at least one unit between the static header and the break.\<close>
definition good_block :: "uheap \<Rightarrow> nat \<Rightarrow> u32 \<Rightarrow> bool" where
  "good_block h tp a \<longleftrightarrow> unat (ubase h) + 8 \<le> unat a \<and> 0 < unat (units h a) \<and> unat a + 8 * unat (units h a) \<le> tp"

definition free_list :: "uheap \<Rightarrow> nat \<Rightarrow> u32 list \<Rightarrow> bool" where
  "free_list h tp fs \<longleftrightarrow> tp < 2 ^ 32 \<and> units h (ubase h) = 0 \<and> freep h \<in> set (ubase h # fs)
     \<and> linked h (ubase h) fs (ubase h) \<and> (\<forall>a \<in> set fs. good_block h tp a)
     \<and> sorted_wrt (\<lambda>a b. unat a + 8 * unat (units h a) \<le> unat b) fs"

lemma freep_irrelevant [simp]:
  "linked (h\<lparr>freep := p\<rparr>) a xs b = linked h a xs b" "blk (h\<lparr>freep := p\<rparr>) = blk h"
  "free_bytes (h\<lparr>freep := p\<rparr>) fs = free_bytes h fs" "good_block (h\<lparr>freep := p\<rparr>) = good_block h"
  by (induction xs arbitrary: a) (auto simp: blk_def free_bytes_def good_block_def fun_eq_iff)

lemma unat_block_end: "unat a + 8 * unat n < 2 ^ 32 \<Longrightarrow> unat (a + 8 * n) = unat a + 8 * unat (n :: u32)"
proof -
  assume b: "unat a + 8 * unat n < 2 ^ 32"
  then have "unat (8 * n) = 8 * unat n" by (simp add: unat_word_ariths)
  then show ?thesis using b by (simp add: unat_add_32)
qed

lemma good_block_end:
  assumes "good_block h tp a" "tp < 2 ^ 32"
  shows "unat (a + 8 * units h a) = unat a + 8 * unat (units h a)"
  using assms by (intro unat_block_end) (simp add: good_block_def)

abbreviation apart :: "uheap \<Rightarrow> u32 \<Rightarrow> u32 \<Rightarrow> bool" where
  "apart h a b \<equiv> unat a + 8 * unat (units h a) \<le> unat b"

lemma blk_disjoint:
  assumes "good_block h tp a" "good_block h tp b"
  shows "blk h a \<inter> blk h b = {} \<longleftrightarrow> apart h a b \<or> apart h b a"
  using assms by (auto simp: blk_def good_block_def)

text \<open>A sorted list of blocks splits around a block that lies between them.\<close>
lemma split_at_block:
  assumes "sorted_wrt (apart h) fs" "\<forall>a \<in> set fs. good_block h tp a" "good_block h tp bp" "blk h bp \<inter> free_bytes h fs = {}"
  obtains L R where "fs = L @ R" "\<forall>a \<in> set L. apart h a bp" "\<forall>a \<in> set R. apart h bp a"
proof -
  have "\<exists>L R. fs = L @ R \<and> (\<forall>a \<in> set L. apart h a bp) \<and> (\<forall>a \<in> set R. apart h bp a)"
    using assms(1,2,4)
  proof (induction fs)
    case (Cons x fs)
    have d: "apart h x bp \<or> apart h bp x"
      using blk_disjoint [OF assms(3), of x] Cons.prems by (auto simp: free_bytes_def)
    obtain L R where lr: "fs = L @ R" "\<forall>a \<in> set L. apart h a bp" "\<forall>a \<in> set R. apart h bp a"
      using Cons by (auto simp: free_bytes_def Int_Un_distrib)
    show ?case
    proof (cases "apart h x bp")
      case True
      then show ?thesis using lr by (intro exI [of _ "x # L"] exI [of _ R]) auto
    next
      case False
      then have "\<forall>a \<in> set (x # fs). apart h bp a" using d Cons.prems(1) by auto
      then show ?thesis by (intro exI [of _ "[]"] exI [of _ "x # fs"]) auto
    qed
  qed simp
  then show ?thesis using that by blast
qed

section \<open>Finding the place of a block\<close>

lemma free_find_step:
  assumes "\<not> (p < bp \<and> bp < nxt h p)" "\<not> (nxt h p \<le> p \<and> (p < bp \<or> bp < nxt h p))"
  shows "free_find h bp p = free_find h bp (nxt h p)"
  by (subst free_find.simps) (simp only: assms if_False)

lemma free_find_here:
  assumes "p < bp" "bp < nxt h p \<or> nxt h p \<le> p"
  shows "free_find h bp p = Some p"
  by (subst free_find.simps) (use assms in \<open>simp only: if_True simp_thms split: if_split, blast\<close>)

lemma free_find_up:
  "linked h y zs p \<Longrightarrow> sorted_wrt (<) (y # zs @ [p]) \<Longrightarrow> p < bp \<Longrightarrow> free_find h bp y = free_find h bp p"
proof (induction zs arbitrary: y)
  case Nil
  then show ?case using free_find_step [of y bp h] by fastforce
next
  case (Cons z zs)
  have "y < z" "z < bp" using Cons.prems by auto
  then have "free_find h bp y = free_find h bp z" using free_find_step [of y bp h] Cons.prems(1) by fastforce
  then show ?case using Cons by simp
qed

lemma free_find_wrap:
  "linked h y zs b \<Longrightarrow> sorted_wrt (<) (y # zs) \<Longrightarrow> bp < y \<Longrightarrow> b < bp \<Longrightarrow> free_find h bp y = free_find h bp b"
proof (induction zs arbitrary: y)
  case Nil
  then show ?case using free_find_step [of y bp h] by fastforce
next
  case (Cons z zs)
  have "y < z" "bp < z" using Cons.prems by auto
  then have "free_find h bp y = free_find h bp z" using free_find_step [of y bp h] Cons.prems(1,3) by fastforce
  then show ?case using Cons.IH [of z] Cons.prems \<open>bp < z\<close> by simp
qed

text \<open>From every node of the circle the search arrives at the last node below the block.\<close>
lemma free_find_spec:
  assumes lk: "linked h b (L @ R) b" and s: "sorted_wrt (<) (b # L @ R)" and y: "y \<in> set (b # L @ R)"
    and L: "\<forall>a \<in> set (b # L). a < bp" and R: "\<forall>a \<in> set R. bp < a"
  shows "free_find h bp y = Some (last (b # L))"
proof -
  obtain L0 p where p: "b # L = L0 @ [p]" by (metis append_butlast_last_id list.distinct(1))
  have pb: "p < bp" using L p by (metis in_set_conv_decomp)
  have bp0: "b \<le> p" using s p by (cases L0) auto
  have "linked h p R b" using lk p by (cases L0) auto
  then have "bp < nxt h p \<or> nxt h p \<le> p" using bp0 R by (cases R) auto
  then have here: "free_find h bp p = Some p" using pb by (intro free_find_here)
  have low: "free_find h bp x = Some p" if x: "x \<in> set (b # L)" for x
  proof -
    obtain us vs where u: "b # L = us @ x # vs" using x by (metis in_set_conv_decomp)
    show ?thesis
    proof (cases vs rule: rev_cases)
      case (snoc zs q)
      then have [simp]: "q = p" using u p by (metis append.assoc append_Cons last_snoc)
      have "linked h x zs p" using lk u snoc by (cases us) auto
      moreover have "sorted_wrt (<) (x # zs @ [p])" using s u snoc by (cases us) (auto simp: sorted_wrt_append)
      ultimately show ?thesis using free_find_up pb here by metis
    qed (use u p here in auto)
  qed
  have "free_find h bp y = Some p"
  proof (cases "y \<in> set R")
    case True
    then obtain us vs where u: "R = us @ y # vs" by (metis in_set_conv_decomp)
    have "linked h y vs b" using lk linked_append [of h b "L @ us" y vs b] by (simp add: u)
    moreover have "sorted_wrt (<) (y # vs)" using s by (auto simp: u sorted_wrt_append)
    ultimately show ?thesis using free_find_wrap [of h y vs b bp] low [of b] L R True by simp
  qed (use y low in auto)
  then show ?thesis by (simp only: p last_snoc)
qed

section \<open>Freeing a block\<close>

lemma join_upper_spec:
  assumes tp: "tp < 2 ^ 32" and g: "good_block h tp bp" "\<forall>a \<in> set R. good_block h tp a"
    and lk: "linked h p R (ubase h)" and R: "\<forall>a \<in> set R. apart h bp a" "sorted_wrt (apart h) R" and ne: "p \<noteq> bp"
  obtains R' where "linked (join_upper p bp h) bp R' (ubase h)" "set R' \<subseteq> set R"
    "\<forall>x. x \<noteq> bp \<longrightarrow> hdr (join_upper p bp h) x = hdr h x"
    "good_block (join_upper p bp h) tp bp" "units h bp \<le> units (join_upper p bp h) bp"
    "sorted_wrt (apart (join_upper p bp h)) (bp # R')"
    "blk (join_upper p bp h) bp \<union> free_bytes h R' = blk h bp \<union> free_bytes h R"
proof -
  define h' where "h' = join_upper p bp h"
  have ub: "ubase h' = ubase h" by (simp add: h'_def join_upper_def Let_def)
  have nb: "bp \<notin> set R" using R(1) g(1) by (auto simp: good_block_def)
  show thesis
  proof (cases "bp + 8 * units h bp = nxt h p")
    case False
    then have h': "h' = set_ptr bp (nxt h p) h" by (simp add: h'_def join_upper_def)
    have "linked h' bp R (ubase h)" using nb by (intro linked_head [OF lk]) (auto simp: h')
    moreover have "sorted_wrt (apart h') R" by (rule sorted_wrt_mono_rel [OF _ R(2)]) (use nb in \<open>auto simp: h'\<close>)
    ultimately show thesis
      using that [of R] R nb g(1) unfolding h'_def [symmetric] by (auto simp: h' blk_def good_block_def free_bytes_def)
  next
    case True
    then have q: "unat (nxt h p) = unat bp + 8 * unat (units h bp)" using good_block_end [OF g(1) tp] by simp
    then obtain R2 where R2: "R = nxt h p # R2" using lk g(1) by (cases R) (auto simp: good_block_def)
    have u: "unat (units h bp + units h (nxt h p)) = unat (units h bp) + unat (units h (nxt h p))"
      using g tp q by (simp add: R2 good_block_def unat_add_32)
    have h': "hdr h' = (hdr h)(bp := \<lparr>hptr = nxt h (nxt h p), hsize = units h bp + units h (nxt h p)\<rparr>)"
      using True nb R2 ne by (auto simp: h'_def join_upper_def Let_def)
    have "linked h' bp R2 (ubase h)" by (rule linked_head [of h "nxt h p"]) (use lk nb in \<open>auto simp: h' R2\<close>)
    moreover have "sorted_wrt (apart h') R2" by (rule sorted_wrt_mono_rel [of _ "apart h"]) (use nb R(2) in \<open>auto simp: h' R2\<close>)
    moreover have "\<forall>a \<in> set R2. apart h' bp a" using R(2) u q by (auto simp: h' R2)
    moreover have "good_block h' tp bp" using g u q by (simp add: h' R2 good_block_def ub)
    moreover have "units h bp \<le> units h' bp" using u by (simp add: h' word_le_nat_alt)
    moreover have "blk h' bp \<union> free_bytes h R2 = blk h bp \<union> free_bytes h R"
      using u q by (auto simp: h' R2 blk_def free_bytes_def)
    ultimately show thesis using that [of R2] unfolding h'_def [symmetric] by (simp add: h' R2 subset_insertI)
  qed
qed

lemma join_base [simp]: "ubase (join_lower p bp h) = ubase h" "ubase (join_upper p bp h) = ubase h"
  by (simp_all add: join_lower_def join_upper_def Let_def)

text \<open>
  What freeing the block \<open>bp\<close> leaves: a free list of the same bytes and those of the block, in which some block is at least as
  large, and nothing else changed.
\<close>
definition freed :: "uheap \<Rightarrow> nat \<Rightarrow> u32 list \<Rightarrow> u32 \<Rightarrow> uheap \<Rightarrow> u32 list \<Rightarrow> bool" where
  "freed h tp fs bp h' fs' \<longleftrightarrow> free_list h' tp fs' \<and> ubase h' = ubase h
     \<and> free_bytes h' fs' = free_bytes h fs \<union> blk h bp
     \<and> (\<exists>n \<in> set fs'. units h bp \<le> units h' n)
     \<and> (\<forall>x. x \<noteq> ubase h \<and> unat x \<notin> free_bytes h fs \<union> blk h bp \<longrightarrow> hdr h' x = hdr h x)"

lemma apart_less: "good_block h tp a \<Longrightarrow> apart h a b \<Longrightarrow> a < b"
  by (simp add: good_block_def word_less_nat_alt)

lemma base_less: "good_block h tp a \<Longrightarrow> ubase h < a"
  by (simp add: good_block_def word_less_nat_alt)

lemma sorted_apart_less:
  assumes "sorted_wrt (apart h) fs" "\<forall>a \<in> set fs. good_block h tp a"
  shows "sorted_wrt (<) (ubase h # fs)"
proof -
  have "sorted_wrt (<) fs" by (rule sorted_wrt_mono_rel [OF _ assms(1)]) (use assms(2) in \<open>auto simp: good_block_def word_less_nat_alt\<close>)
  then show ?thesis using assms(2) by (auto simp: good_block_def word_less_nat_alt)
qed

lemma join_lower_spec:
  assumes tp: "tp < 2 ^ 32" and u0: "units h (ubase h) = 0" and lkL: "linked h (ubase h) L x" and lkR: "linked h bp R (ubase h)"
    and s: "sorted_wrt (apart h) (L @ bp # R)" and g: "\<forall>a \<in> set (L @ bp # R). good_block h tp a"
  defines "p \<equiv> last (ubase h # L)" and "h' \<equiv> join_lower (last (ubase h # L)) bp h"
  obtains fs where "linked h' (ubase h) fs (ubase h)" "\<forall>a \<in> set fs. good_block h' tp a" "sorted_wrt (apart h') fs"
    "free_bytes h' fs = free_bytes h (L @ bp # R)" "\<exists>n \<in> set fs. units h bp \<le> units h' n" "\<forall>x. x \<noteq> p \<longrightarrow> hdr h' x = hdr h x"
    "p \<in> set (ubase h # fs)" "units h' (ubase h) = 0"
proof -
  have ub: "ubase h' = ubase h" by (simp add: h'_def)
  have h'_eq: "h' = join_lower p bp h" by (simp add: h'_def p_def)
  have less: "sorted_wrt (<) (ubase h # L @ bp # R)" by (rule sorted_apart_less [OF s g])
  have pL: "p \<in> set (ubase h # L)" unfolding p_def by (rule last_in_set) simp
  have pn: "p \<noteq> bp" "p \<notin> set R" using less pL by (fastforce simp: sorted_wrt_append)+
  have bn: "bp \<noteq> ubase h" "bp \<notin> set R" "bp \<notin> set L" using less by (auto simp: sorted_wrt_append)
  show thesis
  proof (cases "p + 8 * units h p = bp")
    case False
    then have h': "h' = set_ptr p bp h" by (simp add: h'_def p_def join_lower_def)
    have "distinct (ubase h # L)" using less by (auto simp: sorted_wrt_append strict_sorted_iff)
    then have "linked h' (ubase h) L bp" by (rule linked_retarget [OF lkL, folded p_def]) (auto simp: h')
    moreover have "linked h' bp R (ubase h)" by (rule linked_head [OF lkR]) (use pn in \<open>auto simp: h'\<close>)
    moreover have un: "units h' = units h" by (auto simp: h')
    ultimately show thesis
      using that [of "L @ bp # R"] g s pL u0 by (auto simp: h' good_block_def free_bytes_def blk_def fun_eq_iff split: if_splits)
  next
    case True
    then have "p \<noteq> ubase h" using u0 bn by auto
    then obtain L0 where L0: "L = L0 @ [p]" unfolding p_def by (metis append_butlast_last_id last.simps)
    have q: "unat bp = unat p + 8 * unat (units h p)" using good_block_end [of h tp p] g tp L0 True by auto
    have u: "unat (units h p + units h bp) = unat (units h p) + unat (units h bp)"
      using g tp q by (simp add: good_block_def unat_add_32)
    have h': "hdr h' = (hdr h)(p := hdr h p\<lparr>hsize := units h p + units h bp, hptr := nxt h bp\<rparr>)"
      unfolding h'_eq join_lower_def Let_def using True pn by simp
    have L0n: "p \<notin> set L0" "p \<noteq> ubase h" "ubase h \<notin> set (L0 @ R)" using less by (auto simp: L0 sorted_wrt_append)
    have "linked h' (ubase h) L0 p" by (rule linked_head [of h "ubase h"]) (use lkL L0n in \<open>auto simp: h' L0\<close>)
    moreover have lkp: "linked h' p R (ubase h)" by (rule linked_head [OF lkR]) (use pn in \<open>auto simp: h'\<close>)
    have gp: "good_block h' tp p" using g u q by (simp add: h' L0 good_block_def ub)
    have go: "good_block h' tp a" if "a \<in> set (L0 @ R)" for a
      using that L0n pn g by (auto simp: h' L0 good_block_def ub)
    moreover have "\<forall>a \<in> set (L0 @ p # R). good_block h' tp a"
      using gp go by auto
    moreover have "sorted_wrt (apart h') (L0 @ R)"
      by (rule sorted_wrt_mono_rel [of _ "apart h"]) (use s L0n pn in \<open>auto simp: h' L0 sorted_wrt_append\<close>)
    then have "sorted_wrt (apart h') (L0 @ p # R)"
      using s L0n u q by (auto simp: h' L0 sorted_wrt_append)
    moreover have "free_bytes h' (L0 @ p # R) = free_bytes h (L @ bp # R)"
    proof -
      have "blk h' p = blk h p \<union> blk h bp" using u q by (auto simp: h' blk_def)
      moreover have "blk h' a = blk h a" if "a \<in> set (L0 @ R)" for a using that L0n pn by (auto simp: h' blk_def)
      ultimately show ?thesis by (auto simp: free_bytes_def L0)
    qed
    moreover have "units h bp \<le> units h' p" using u by (simp add: h' word_le_nat_alt)
    ultimately show thesis using that [of "L0 @ p # R"] lkp L0n u0 by (simp add: h')
  qed
qed

lemma ufree_spec:
  assumes fl: "free_list h tp fs" and g: "good_block h tp bp" and d: "blk h bp \<inter> free_bytes h fs = {}"
  obtains h' fs' where "ufree (bp + 8) h = Some h'" "freed h tp fs bp h' fs'"
proof -
  have good: "\<forall>a \<in> set fs. good_block h tp a" and s: "sorted_wrt (apart h) fs" and tp: "tp < 2 ^ 32"
    and lk: "linked h (ubase h) fs (ubase h)" and fp: "freep h \<in> set (ubase h # fs)" and u0: "units h (ubase h) = 0"
    using fl by (auto simp: free_list_def)
  obtain L R where LR: "fs = L @ R" "\<forall>a \<in> set L. apart h a bp" "\<forall>a \<in> set R. apart h bp a"
    using split_at_block [OF s good g d] by blast
  define p where "p = last (ubase h # L)"
  have less: "sorted_wrt (<) (ubase h # L @ R)" using sorted_apart_less [OF s good] LR(1) by simp
  have lt: "\<forall>a \<in> set (ubase h # L). a < bp" "\<forall>a \<in> set R. bp < a"
    using LR g good apart_less [of h tp] by (simp_all add: base_less)
  have find: "free_find h bp (freep h) = Some p"
    using free_find_spec [OF _ less _ lt] lk fp LR(1) by (simp add: p_def)
  have lkL: "linked h (ubase h) L (nxt h p)" and lkR: "linked h p R (ubase h)"
    using lk unfolding LR(1) p_def by (cases L rule: rev_cases; simp)+
  have pl: "p \<in> set (ubase h # L)" unfolding p_def by (rule last_in_set) simp
  then have pn: "p \<noteq> bp" using lt(1) by blast
  define h1 where "h1 = join_upper p bp h"
  obtain R' where R': "linked h1 bp R' (ubase h)" "set R' \<subseteq> set R" "\<forall>x. x \<noteq> bp \<longrightarrow> hdr h1 x = hdr h x"
    "good_block h1 tp bp" "units h bp \<le> units h1 bp" "sorted_wrt (apart h1) (bp # R')"
    "blk h1 bp \<union> free_bytes h R' = blk h bp \<union> free_bytes h R"
    using join_upper_spec [OF tp g _ lkR LR(3) _ pn] s good unfolding h1_def [symmetric] LR(1)
    by (auto simp: sorted_wrt_append)
  have eq: "hdr h1 a = hdr h a" if "a \<in> set (ubase h # L @ R')" for a
    using that R'(2,3) lt by (auto simp: less_le)
  have "\<forall>a \<in> set (L @ bp # R'). good_block h1 tp a"
    using eq good R'(2,4) by (auto simp: LR(1) good_block_def h1_def)
  moreover have "sorted_wrt (apart h1) L"
    by (rule sorted_wrt_mono_rel [of _ "apart h"]) (use s eq in \<open>auto simp: LR(1) sorted_wrt_append\<close>)
  then have "sorted_wrt (apart h1) (L @ bp # R')"
    using R'(2,6) LR(2) s eq by (auto simp: LR(1) sorted_wrt_append)
  moreover have "linked h1 (ubase h) L (nxt h p)" by (rule linked_head [OF lkL]) (use eq in auto)
  ultimately obtain fs' where fs': "linked (join_lower p bp h1) (ubase h) fs' (ubase h)" "\<forall>a \<in> set fs'. good_block (join_lower p bp h1) tp a"
     "sorted_wrt (apart (join_lower p bp h1)) fs'" "free_bytes (join_lower p bp h1) fs' = free_bytes h1 (L @ bp # R')"
     "\<exists>n \<in> set fs'. units h1 bp \<le> units (join_lower p bp h1) n" "\<forall>x. x \<noteq> p \<longrightarrow> hdr (join_lower p bp h1) x = hdr h1 x"
     "p \<in> set (ubase h # fs')" "units (join_lower p bp h1) (ubase h) = 0"
    using join_lower_spec [of tp h1 L "nxt h p" bp R'] tp R'(1) u0 eq p_def by (auto simp: h1_def)
  have "blk h1 a = blk h a" if "a \<in> set (L @ R')" for a using eq that by (simp add: blk_def)
  then have "free_bytes h1 (L @ bp # R') = free_bytes h L \<union> (blk h1 bp \<union> free_bytes h R')" by (auto simp: free_bytes_def)
  then have bytes: "free_bytes h1 (L @ bp # R') = free_bytes h fs \<union> blk h bp" unfolding R'(7) by (auto simp: LR(1) free_bytes_def)
  have in_blk: "unat a \<in> free_bytes h fs \<union> blk h bp" if "a \<in> set (bp # L)" for a
    using that good g by (force simp: free_bytes_def blk_def good_block_def LR(1))
  have "hdr (join_lower p bp h1) x = hdr h x" if "x \<noteq> ubase h" "unat x \<notin> free_bytes h fs \<union> blk h bp" for x
  proof -
    have "x \<notin> set (bp # L)" using that(2) in_blk by blast
    then show ?thesis using that(1) pl fs'(6) R'(3) by auto
  qed
  moreover have "\<exists>n \<in> set fs'. units h bp \<le> units (join_lower p bp h1) n" using fs'(5) R'(5) order_trans by blast
  moreover have "ubase (join_lower p bp h1) = ubase h" by (simp add: h1_def)
  ultimately have "freed h tp fs bp (join_lower p bp h1\<lparr>freep := p\<rparr>) fs'"
    using fs' tp bytes by (simp add: freed_def free_list_def)
  then show thesis using that [of "join_lower p bp h1\<lparr>freep := p\<rparr>" fs'] find by (simp add: ufree_def h1_def)
qed

section \<open>Taking a block\<close>

text \<open>
  What taking \<open>n\<close> units leaves: they are a block cut from free bytes, its header says how long it is, and nothing else changed.
\<close>
definition taken :: "uheap \<Rightarrow> nat \<Rightarrow> nat set \<Rightarrow> u32 \<Rightarrow> u32 \<Rightarrow> uheap \<Rightarrow> u32 list \<Rightarrow> bool" where
  "taken h tp B n bp h' fs' \<longleftrightarrow> free_list h' tp fs' \<and> ubase h' = ubase h \<and> good_block h' tp bp \<and> units h' bp = n
     \<and> blk h' bp \<subseteq> B \<and> free_bytes h' fs' = B - blk h' bp
     \<and> (\<forall>x. x \<noteq> ubase h \<and> unat x \<notin> B \<longrightarrow> hdr h' x = hdr h x)"

lemma linked_next:
  assumes "linked h b fs b" "distinct (b # fs)" "prevp \<in> set (b # fs)" "nxt h prevp = p" "p \<noteq> b"
  obtains L R where "fs = L @ p # R" "prevp = last (b # L)"
proof -
  obtain us vs where u: "b # fs = us @ prevp # vs" using assms(3) by (metis in_set_conv_decomp)
  have "linked h prevp vs b" using assms(1) u by (cases us) auto
  then obtain R where v: "vs = p # R" using assms(4,5) by (cases vs) auto
  show thesis
  proof (cases us)
    case Nil
    then show ?thesis using that [of "[]" R] u v by simp
  next
    case (Cons c us')
    then show ?thesis using that [of "us' @ [prevp]" R] u v by simp
  qed
qed

lemma linked_join: "linked h a xs c \<Longrightarrow> linked h (last (a # xs)) ys b \<Longrightarrow> linked h a (xs @ ys) b"
  by (induction xs arbitrary: a) (auto split: if_splits)

lemma free_list_facts:
  assumes fl: "free_list h tp fs"
  shows "sorted_wrt (apart h) fs" "\<forall>a \<in> set fs. good_block h tp a" "tp < 2 ^ 32" "linked h (ubase h) fs (ubase h)"
    "units h (ubase h) = 0" "distinct (ubase h # fs)" "\<forall>a \<in> set fs. unat a \<in> blk h a"
    "fs = L @ p # R \<Longrightarrow> free_bytes h fs = free_bytes h (L @ R) \<union> blk h p \<and> free_bytes h (L @ R) \<inter> blk h p = {}"
proof -
  show s: "sorted_wrt (apart h) fs" "\<forall>a \<in> set fs. good_block h tp a" "tp < 2 ^ 32" "linked h (ubase h) fs (ubase h)"
    "units h (ubase h) = 0" using fl by (auto simp: free_list_def)
  show "distinct (ubase h # fs)" using sorted_apart_less [OF s(1,2)] by (auto simp: strict_sorted_iff)
  show "\<forall>a \<in> set fs. unat a \<in> blk h a" using s(2) by (force simp: blk_def good_block_def)
  assume LR: "fs = L @ p # R"
  have "blk h a \<inter> blk h p = {}" if "a \<in> set (L @ R)" for a
    using that s(1) by (auto simp: LR sorted_wrt_append blk_def)
  then show "free_bytes h fs = free_bytes h (L @ R) \<union> blk h p \<and> free_bytes h (L @ R) \<inter> blk h p = {}"
    by (auto simp: LR free_bytes_def)
qed

lemma take_exact:
  assumes fl: "free_list h tp (L @ p # R)"
  defines "prevp \<equiv> last (ubase h # L)"
  shows "taken h tp (free_bytes h (L @ p # R)) (units h p) p (set_ptr prevp (nxt h p) h\<lparr>freep := prevp\<rparr>) (L @ R)"
proof -
  note ff = free_list_facts [OF fl]
  define h' where "h' = set_ptr prevp (nxt h p) h\<lparr>freep := prevp\<rparr>"
  have pl: "prevp \<in> set (ubase h # L)" unfolding prevp_def by (rule last_in_set) simp
  then have pn: "prevp \<noteq> p" "prevp \<notin> set R" using ff(6) by auto
  have "linked h' (ubase h) L (nxt h p)"
    by (rule linked_retarget [of h _ _ p]) (use ff(4,6) in \<open>auto simp: h'_def prevp_def\<close>)
  moreover have "linked h' prevp R (ubase h)"
    by (rule linked_head [of h p]) (use ff(4) pn in \<open>auto simp: h'_def\<close>)
  ultimately have "linked h' (ubase h) (L @ R) (ubase h)" using linked_join prevp_def by metis
  moreover have ub: "ubase h' = ubase h" "freep h' = prevp" and un: "units h' a = units h a" for a by (simp_all add: h'_def)
  moreover have "blk h' = blk h" "good_block h' = good_block h" using un ub by (auto simp: blk_def good_block_def fun_eq_iff)
  moreover have "hdr h' x = hdr h x" if "x \<noteq> ubase h" "unat x \<notin> free_bytes h (L @ p # R)" for x
    using that ff(7) pl by (auto simp: h'_def free_bytes_def)
  ultimately have "taken h tp (free_bytes h (L @ p # R)) (units h p) p h' (L @ R)"
    using ff(1,2,3,5) ff(8) [OF refl] pl un by (auto simp: taken_def free_list_def free_bytes_def sorted_wrt_append)
  then show ?thesis by (simp add: h'_def)
qed

lemma take_tail:
  assumes fl: "free_list h tp (L @ p # R)" and f: "f \<in> set (ubase h # L @ p # R)" and n: "0 < n" "n < units h p"
  defines "bp \<equiv> p + 8 * (units h p - n)"
  shows "taken h tp (free_bytes h (L @ p # R)) n bp (set_units bp n (set_units p (units h p - n) h)\<lparr>freep := f\<rparr>) (L @ p # R)"
proof -
  note ff = free_list_facts [OF fl]
  let ?fs = "L @ p # R"
  define u h' where "u = unat (units h p)" and "h' = set_units bp n (set_units p (units h p - n) h)\<lparr>freep := f\<rparr>"
  have nu: "unat n < u" "0 < unat n" using n by (auto simp: u_def word_less_nat_alt)
  have gp: "unat (ubase h) + 8 \<le> unat p" "unat p + 8 * u \<le> tp" using ff(2) by (auto simp: good_block_def u_def)
  have un: "unat (units h p - n) = u - unat n" using n(2) by (simp add: u_def unat_sub)
  have bpa: "unat bp = unat p + 8 * (u - unat n)" unfolding bp_def using gp ff(3) un nu by (subst unat_block_end) auto
  have bn: "bp \<noteq> p" "bp \<noteq> ubase h" "p \<noteq> ubase h" using bpa nu gp by auto
  have up: "units h' p = units h p - n" "units h' bp = n" "nxt h' x = nxt h x" for x using bn by (simp_all add: h'_def)
  have h': "hdr h' x = hdr h x" if "x \<noteq> p" "x \<noteq> bp" for x using that by (simp add: h'_def)
  have bin: "unat bp \<in> blk h p" using bpa nu by (auto simp: blk_def u_def)
  have "a \<noteq> bp" if "a \<in> set (L @ R)" for a
  proof -
    have "unat a \<in> free_bytes h (L @ R)" using ff(7) that by (auto simp: free_bytes_def)
    then show ?thesis using ff(8) [OF refl] bin by blast
  qed
  then have other: "hdr h' a = hdr h a" "a \<noteq> p" if "a \<in> set (L @ R)" for a using ff(6) that by (auto intro!: h')
  have ub: "ubase h' = ubase h" "freep h' = f" by (simp_all add: h'_def)
  have "linked h' (ubase h) ?fs (ubase h)" by (rule linked_head [OF ff(4)]) (auto simp: up)
  moreover have "good_block h' tp p" using gp nu un by (simp add: good_block_def ub up)
  moreover have "\<forall>a \<in> set (L @ R). good_block h' tp a" using ff(2) other by (auto simp: good_block_def ub)
  moreover have "good_block h' tp bp" using bpa nu gp by (simp add: good_block_def ub up)
  moreover have "sorted_wrt (apart h') ?fs"
    by (rule sorted_wrt_mono_rel [OF _ ff(1)]) (use other up un in \<open>auto simp: u_def\<close>)
  moreover have b: "blk h' p = blk h p - blk h' bp" "blk h' bp \<subseteq> blk h p" using up bpa un nu by (auto simp: blk_def u_def)
  moreover have "blk h' a = blk h a" if "a \<in> set (L @ R)" for a using other [OF that] by (simp add: blk_def)
  then have "free_bytes h' ?fs = free_bytes h ?fs - blk h' bp" using b ff(8) [OF refl] by (auto simp: free_bytes_def)
  moreover have "hdr h' x = hdr h x" if "x \<noteq> ubase h" "unat x \<notin> free_bytes h ?fs" for x
    using that ff(7) bin by (auto simp: free_bytes_def intro!: h')
  moreover have "units h' (ubase h) = 0" using h' [of "ubase h"] bn ff(5) by auto
  ultimately have "taken h tp (free_bytes h ?fs) n bp h' ?fs"
    using ff(3) f up by (auto simp: taken_def free_list_def ub free_bytes_def)
  then show ?thesis by (simp add: h'_def)
qed

lemma take_block_spec:
  assumes fl: "free_list h tp fs" and pv: "prevp \<in> set (ubase h # fs)" "nxt h prevp = p" and n: "0 < n" "n \<le> units h p"
  obtains bp h' fs' where "take_block n prevp p h = (bp + 8, h')" "taken h tp (free_bytes h fs) n bp h' fs'"
proof -
  note ff = free_list_facts [OF fl]
  have pb: "p \<noteq> ubase h" using n ff(5) by auto
  obtain L R where LR: "fs = L @ p # R" "prevp = last (ubase h # L)" using linked_next [OF ff(4,6) pv pb] .
  show thesis
  proof (cases "units h p = n")
    case True
    then show thesis using that take_exact [OF fl [unfolded LR]] by (simp add: take_block_def LR)
  next
    case False
    then have "n < units h p" using n(2) by simp
    then show thesis
      using False that take_tail [OF fl [unfolded LR(1)] pv(1) [unfolded LR(1)] n(1)]
      by (simp add: take_block_def Let_def LR(1))
  qed
qed

section \<open>The search of malloc\<close>

lemma free_list_cong:
  assumes "free_list h tp fs" "\<forall>x \<in> set (ubase h # fs). hdr h' x = hdr h x" "ubase h' = ubase h" "freep h' = freep h"
    and "tp \<le> tp'" "tp' < 2 ^ 32"
  shows "free_list h' tp' fs" "free_bytes h' fs = free_bytes h fs"
proof -
  note ff = free_list_facts [OF assms(1)]
  have "linked h' (ubase h) fs (ubase h)" by (rule linked_head [OF ff(4)]) (use assms(2) in auto)
  moreover have "sorted_wrt (apart h') fs" by (rule sorted_wrt_mono_rel [OF _ ff(1)]) (use assms(2) in auto)
  moreover have "\<forall>a \<in> set fs. good_block h' tp' a" using ff(2) assms by (fastforce simp: good_block_def)
  ultimately show "free_list h' tp' fs" using assms ff(5) by (auto simp: free_list_def)
  show "free_bytes h' fs = free_bytes h fs" using assms(2) by (auto simp: free_bytes_def blk_def)
qed

text \<open>The circle as seen from \<open>freep\<close>.\<close>
lemma free_list_circle:
  assumes "free_list h tp fs"
  obtains ys where "linked h (freep h) ys (freep h)" "freep h \<notin> set ys" "set (freep h # ys) = set (ubase h # fs)"
proof -
  note ff = free_list_facts [OF assms]
  have "freep h \<in> set (ubase h # fs)" using assms by (simp add: free_list_def)
  then obtain L R where LR: "ubase h # fs = L @ freep h # R" by (metis in_set_conv_decomp)
  show thesis
  proof (cases L)
    case Nil
    then show ?thesis using that [of fs] ff(4,6) LR by auto
  next
    case (Cons b L')
    then show ?thesis using that [of "R @ ubase h # L'"] ff(4,6) LR by (auto simp: Un_commute insert_commute)
  qed
qed

lemma malloc_loop_fit:
  "n \<le> units h p \<Longrightarrow> malloc_loop sbrk n prevp p h k = (case take_block n prevp p h of (r, h) \<Rightarrow> Some (r, h, k))"
  by (subst malloc_loop.simps) simp

lemma malloc_loop_next:
  "units h p < n \<Longrightarrow> p \<noteq> freep h \<Longrightarrow> malloc_loop sbrk n prevp p h k = malloc_loop sbrk n p (nxt h p) h k"
  by (subst malloc_loop.simps) (simp add: linorder_not_le [symmetric])

lemma malloc_loop_more:
  "units h (freep h) < n \<Longrightarrow> malloc_loop sbrk n prevp (freep h) h k =
     (case morecore sbrk n h k of
        None \<Rightarrow> None
      | Some (p, h, k) \<Rightarrow> if p = 0 then Some (0, h, k) else malloc_loop sbrk n p (nxt h p) h k)"
  by (subst malloc_loop.simps) (simp add: linorder_not_le [symmetric])

text \<open>The walk finds a block that is large enough, or it has seen that none is and asks for memory.\<close>
lemma malloc_walk:
  assumes "linked h x zs (freep h)" "freep h \<notin> set zs"
  shows "(\<exists>prevp p. prevp \<in> set (x # zs) \<and> nxt h prevp = p \<and> p \<in> set (freep h # zs) \<and> n \<le> units h p
        \<and> malloc_loop sbrk n x (nxt h x) h k = (case take_block n prevp p h of (r, h) \<Rightarrow> Some (r, h, k)))
    \<or> (\<forall>a \<in> set (freep h # zs). units h a < n)
        \<and> malloc_loop sbrk n x (nxt h x) h k = malloc_loop sbrk n (last (x # zs)) (freep h) h k"
  using assms
proof (induction zs arbitrary: x)
  case Nil
  then show ?case using malloc_loop_fit [of n h "freep h"] by (cases "n \<le> units h (freep h)") auto
next
  case (Cons z zs)
  show ?case
  proof (cases "n \<le> units h z")
    case True
    then show ?thesis using Cons.prems malloc_loop_fit [of n h z] by (intro disjI1 exI [of _ x] exI [of _ z]) auto
  next
    case False
    then have "malloc_loop sbrk n x (nxt h x) h k = malloc_loop sbrk n z (nxt h z) h k"
      using malloc_loop_next [of h z n] Cons.prems by (auto simp: not_le)
    then show ?thesis using Cons.IH [of z] Cons.prems False by auto
  qed
qed

text \<open>
  What the allocator relies on: \<open>sbrk\<close> gives the old break and moves it up, or reports an error and leaves it.
\<close>
definition sbrk_grows :: "(u32 \<Rightarrow> 'k \<Rightarrow> u32 \<times> 'k) \<Rightarrow> ('k \<Rightarrow> nat) \<Rightarrow> bool" where
  "sbrk_grows sbrk brk \<longleftrightarrow> (\<forall>n k r k'. 0 < n \<and> n < 0x80000000 \<and> sbrk n k = (r, k') \<longrightarrow>
     (if r = SBRK_ERROR then brk k' = brk k else unat r = brk k \<and> brk k' = brk k + unat n \<and> brk k' < 2 ^ 32))"

lemma morecore_spec:
  assumes fl: "free_list h (brk k) fs" and sb: "sbrk_grows sbrk brk" and n: "0 < n" "8 * unat n < 2 ^ 31"
    and b: "ubase h \<noteq> 0" "unat (ubase h) + 8 \<le> brk k"
  obtains k' where "morecore sbrk n h k = Some (0, h, k')" "brk k' = brk k"
  | h' k' fs' where "morecore sbrk n h k = Some (freep h', h', k')" "freep h' \<noteq> 0" "brk k \<le> brk k'" "free_list h' (brk k') fs'"
      "ubase h' = ubase h" "free_bytes h' fs' = free_bytes h fs \<union> {brk k..<brk k'}" "\<exists>a \<in> set fs'. n \<le> units h' a"
      "\<forall>x. x \<noteq> ubase h \<and> unat x \<notin> free_bytes h fs \<union> {brk k..<brk k'} \<longrightarrow> hdr h' x = hdr h x"
proof -
  define nu where "nu = (if n < 4096 then 4096 else n)"
  obtain r k' where r: "sbrk (nu * 8) k = (r, k')" by fastforce
  have le: "n \<le> nu" by (auto simp: nu_def)
  have nu: "8 * unat nu < 2 ^ 31" "0 < unat nu" using n by (auto simp: nu_def word_less_nat_alt)
  have u8: "unat (nu * 8) = 8 * unat nu" using nu(1) by (simp add: unat_word_ariths)
  have "0 < nu * 8 \<and> nu * 8 < 0x80000000" using u8 nu by (simp add: word_less_nat_alt)
  then have g: "if r = SBRK_ERROR then brk k' = brk k else unat r = brk k \<and> brk k' = brk k + unat (nu * 8) \<and> brk k' < 2 ^ 32"
    using sb r unfolding sbrk_grows_def by blast
  show thesis
  proof (cases "r = SBRK_ERROR")
    case True
    then show thesis using that(1) [of k'] r g by (simp add: morecore_def Let_def flip: nu_def)
  next
    case False
    then have rk: "unat r = brk k" "brk k' = brk k + 8 * unat nu" "brk k' < 2 ^ 32" using g u8 by auto
    define h1 where "h1 = set_units r nu h"
    have rn: "r \<notin> set (ubase h # fs)"
      using free_list_facts(2) [OF fl] b(2) rk(1) by (force simp: good_block_def)
    have fl1: "free_list h1 (brk k') fs" "free_bytes h1 fs = free_bytes h fs"
      using free_list_cong [OF fl, of h1 "brk k'"] rn rk by (auto simp: h1_def)
    have blk1: "blk h1 r = {brk k..<brk k'}" by (simp add: blk_def h1_def rk)
    have gb: "good_block h1 (brk k') r" using b(2) rk nu by (simp add: good_block_def h1_def)
    have "free_bytes h fs \<subseteq> {..<brk k}" using free_list_facts(2) [OF fl] by (fastforce simp: free_bytes_def blk_def good_block_def)
    then have "blk h1 r \<inter> free_bytes h1 fs = {}" by (auto simp: blk1 fl1(2))
    then obtain h' fs' where f: "ufree (r + 8) h1 = Some h'" "freed h1 (brk k') fs r h' fs'" using ufree_spec [OF fl1(1) gb] by blast
    have ub: "ubase h' = ubase h" using f(2) by (simp add: freed_def h1_def)
    have "freep h' \<noteq> 0" using f(2) b(1) ub base_less by (fastforce simp: freed_def free_list_def)
    moreover have "hdr h' x = hdr h x" if "x \<noteq> ubase h" "unat x \<notin> free_bytes h fs \<union> {brk k..<brk k'}" for x
    proof -
      have "x \<noteq> r" using that(2) rk nu by auto
      moreover have "ubase h1 = ubase h" by (simp add: h1_def)
      then have "hdr h' x = hdr h1 x" using that f(2) unfolding freed_def blk1 fl1(2) by metis
      ultimately show ?thesis by (simp add: h1_def)
    qed
    moreover have "\<exists>a \<in> set fs'. n \<le> units h' a" using f(2) le order_trans by (fastforce simp: freed_def h1_def)
    ultimately show thesis
      using that(2) [of h' k' fs'] f r False ub rk by (auto simp: morecore_def Let_def freed_def fl1(2) blk1 simp flip: nu_def h1_def)
  qed
qed

text \<open>The outcome of a request for \<open>n\<close> units: nothing, or a block out of the free bytes and those new from the kernel.\<close>
definition malloc_result :: "uheap \<Rightarrow> nat set \<Rightarrow> nat \<Rightarrow> nat \<Rightarrow> u32 \<Rightarrow> u32 \<Rightarrow> uheap \<Rightarrow> bool" where
  "malloc_result h F b b' n r h' \<longleftrightarrow>
     r = 0 \<and> h' = h \<and> b' = b
     \<or> r \<noteq> 0 \<and> b \<le> b' \<and> (\<exists>fs'. taken h b' (F \<union> {b..<b'}) n (r - 8) h' fs')"

lemma taken_nonzero:
  assumes "taken h tp B n bp h' fs'"
  shows "bp + 8 \<noteq> 0"
proof -
  have "unat bp + 8 < 2 ^ 32" using assms by (auto simp: taken_def good_block_def free_list_def)
  then have "unat (bp + 8) = unat bp + 8" by (simp add: unat_add_32)
  then show ?thesis by auto
qed

lemma malloc_fit:
  assumes fl: "free_list h tp fs" and n: "0 < n" "\<exists>a \<in> set fs. n \<le> units h a"
  obtains bp h' fs' where "malloc_loop sbrk n (freep h) (nxt h (freep h)) h k = Some (bp + 8, h', k)" "taken h tp (free_bytes h fs) n bp h' fs'"
proof -
  obtain ys where ys: "linked h (freep h) ys (freep h)" "freep h \<notin> set ys" "set (freep h # ys) = set (ubase h # fs)"
    using free_list_circle [OF fl] .
  have "\<not> (\<forall>a \<in> set (freep h # ys). units h a < n)" using n(2) ys(3) by (auto simp: not_less)
  then obtain prevp p where p: "prevp \<in> set (ubase h # fs)" "nxt h prevp = p" "n \<le> units h p"
    "malloc_loop sbrk n (freep h) (nxt h (freep h)) h k = (case take_block n prevp p h of (r, h) \<Rightarrow> Some (r, h, k))"
    using malloc_walk [OF ys(1,2), of n sbrk k] ys(3) by blast
  show thesis by (rule take_block_spec [OF fl p(1,2) n(1) p(3)]) (use that p(4) in simp)
qed

lemma malloc_loop_spec:
  assumes fl: "free_list h (brk k) fs" and sb: "sbrk_grows sbrk brk" and n: "0 < n" "8 * unat n < 2 ^ 31"
    and b: "ubase h \<noteq> 0" "unat (ubase h) + 8 \<le> brk k"
  obtains r h' k' where "malloc_loop sbrk n (freep h) (nxt h (freep h)) h k = Some (r, h', k')"
    "malloc_result h (free_bytes h fs) (brk k) (brk k') n r h'"
proof (cases "\<exists>a \<in> set fs. n \<le> units h a")
  case True
  obtain bp h' fs' where m: "malloc_loop sbrk n (freep h) (nxt h (freep h)) h k = Some (bp + 8, h', k)"
    "taken h (brk k) (free_bytes h fs) n bp h' fs'" using malloc_fit [OF fl n(1) True] .
  then show thesis using that taken_nonzero [OF m(2)] by (auto simp: malloc_result_def)
next
  case False
  obtain ys where ys: "linked h (freep h) ys (freep h)" "freep h \<notin> set ys" "set (freep h # ys) = set (ubase h # fs)"
    using free_list_circle [OF fl] .
  have small: "units h a < n" if "a \<in> set (ubase h # fs)" for a using False that free_list_facts(5) [OF fl] n(1) by (auto simp: not_le)
  then have "malloc_loop sbrk n (freep h) (nxt h (freep h)) h k = malloc_loop sbrk n (last (freep h # ys)) (freep h) h k"
    using malloc_walk [OF ys(1,2), of n sbrk k] ys(3) by (metis leD)
  moreover have "units h (freep h) < n" using small fl by (auto simp: free_list_def)
  ultimately have ask: "malloc_loop sbrk n (freep h) (nxt h (freep h)) h k = (case morecore sbrk n h k of
      None \<Rightarrow> None | Some (p, h, k) \<Rightarrow> if p = 0 then Some (0, h, k) else malloc_loop sbrk n p (nxt h p) h k)"
    by (simp only: malloc_loop_more)
  show thesis
  proof (rule morecore_spec [OF fl sb n b])
    fix k' assume "morecore sbrk n h k = Some (0, h, k')" "brk k' = brk k"
    then show thesis using that [of 0 h k'] ask by (simp add: malloc_result_def)
  next
    fix h1 k1 fs1
    assume m: "morecore sbrk n h k = Some (freep h1, h1, k1)" "freep h1 \<noteq> 0" "brk k \<le> brk k1" "free_list h1 (brk k1) fs1"
      "ubase h1 = ubase h" "free_bytes h1 fs1 = free_bytes h fs \<union> {brk k..<brk k1}" "\<exists>a \<in> set fs1. n \<le> units h1 a"
      "\<forall>x. x \<noteq> ubase h \<and> unat x \<notin> free_bytes h fs \<union> {brk k..<brk k1} \<longrightarrow> hdr h1 x = hdr h x"
    obtain bp h' fs' where t: "malloc_loop sbrk n (freep h1) (nxt h1 (freep h1)) h1 k1 = Some (bp + 8, h', k1)"
      "taken h1 (brk k1) (free_bytes h1 fs1) n bp h' fs'" using malloc_fit [OF m(4) n(1) m(7)] .
    have "taken h (brk k1) (free_bytes h fs \<union> {brk k..<brk k1}) n bp h' fs'"
      using t(2) m(5,8) unfolding taken_def m(6) by metis
    then have "malloc_result h (free_bytes h fs) (brk k) (brk k1) n (bp + 8) h'"
      using taken_nonzero [OF t(2)] m(3) by (auto simp: malloc_result_def)
    then show thesis using that [of "bp + 8" h' k1] ask m(1,2) t(1) by simp
  qed
qed

section \<open>The allocator\<close>

text \<open>A heap whose free bytes are \<open>F\<close>, before the first request or after it.\<close>
definition heap_ok :: "uheap \<Rightarrow> nat \<Rightarrow> nat set \<Rightarrow> bool" where
  "heap_ok h b F \<longleftrightarrow> ubase h \<noteq> 0 \<and> unat (ubase h) + 8 \<le> b \<and> b < 2 ^ 32
     \<and> (freep h = 0 \<and> F = {} \<or> (\<exists>fs. free_list h b fs \<and> F = free_bytes h fs))"

definition nunits_of :: "u32 \<Rightarrow> u32" where
  "nunits_of nbytes = (nbytes + 8 - 1) div 8 + 1"

lemma nunits_of_bounds:
  assumes "nbytes \<le> 0x7FFFFFF0"
  shows "unat (nunits_of nbytes) = (unat nbytes + 7) div 8 + 1"
proof -
  have le: "unat nbytes \<le> 0x7FFFFFF0" using assms by (simp add: word_le_nat_alt)
  have "unat (7 + nbytes) = unat nbytes + 7" using le by (simp add: unat_add_32)
  then have "unat ((7 + nbytes) div 8) = (unat nbytes + 7) div 8" by (simp add: unat_div)
  then show ?thesis using le by (simp add: nunits_of_def unat_add_32)
qed

lemma free_list_freep: "free_list h tp fs \<Longrightarrow> ubase h \<noteq> 0 \<Longrightarrow> freep h \<noteq> 0"
  using base_less by (fastforce simp: free_list_def)

lemma umalloc_spec:
  assumes ok: "heap_ok h (brk k) F" and sb: "sbrk_grows sbrk brk" and nb: "nbytes \<le> 0x7FFFFFF0"
  obtains r h' k' where "umalloc sbrk nbytes h k = Some (r, h', k')" "brk k \<le> brk k'" "ubase h' = ubase h" "freep h' \<noteq> 0"
    "\<forall>x. x \<noteq> ubase h \<and> unat x \<notin> F \<union> {brk k..<brk k'} \<longrightarrow> hdr h' x = hdr h x"
    "if r = 0 then brk k' = brk k \<and> heap_ok h' (brk k') F
     else good_block h' (brk k') (r - 8) \<and> units h' (r - 8) = nunits_of nbytes \<and> blk h' (r - 8) \<subseteq> F \<union> {brk k..<brk k'}
          \<and> heap_ok h' (brk k') (F \<union> {brk k..<brk k'} - blk h' (r - 8))"
proof -
  have b: "ubase h \<noteq> 0" "unat (ubase h) + 8 \<le> brk k" "brk k < 2 ^ 32" using ok by (auto simp: heap_ok_def)
  define h1 where "h1 = (if freep h = 0 then set_units (ubase h) 0 (set_ptr (ubase h) (ubase h) (h\<lparr>freep := ubase h\<rparr>)) else h)"
  have ub: "ubase h1 = ubase h" by (simp add: h1_def)
  have same: "hdr h1 x = hdr h x" if "x \<noteq> ubase h" for x using that by (simp add: h1_def)
  obtain fs where fs: "free_list h1 (brk k) fs" "F = free_bytes h1 fs"
  proof (cases "freep h = 0")
    case True
    then have "F = {}" using ok free_list_freep by (auto simp: heap_ok_def)
    then show ?thesis using that [of "[]"] True b(3) by (auto simp: free_list_def h1_def free_bytes_def)
  qed (use ok that in \<open>auto simp: heap_ok_def h1_def\<close>)
  have un: "unat (nunits_of nbytes) = (unat nbytes + 7) div 8 + 1" by (rule nunits_of_bounds [OF nb])
  have nn: "0 < nunits_of nbytes" "8 * unat (nunits_of nbytes) < 2 ^ 31"
    using nb un by (simp_all add: word_less_nat_alt word_le_nat_alt)
  obtain r h' k' where m: "malloc_loop sbrk (nunits_of nbytes) (freep h1) (nxt h1 (freep h1)) h1 k = Some (r, h', k')"
    "malloc_result h1 (free_bytes h1 fs) (brk k) (brk k') (nunits_of nbytes) r h'"
    using malloc_loop_spec [OF fs(1) sb nn, unfolded ub, OF b(1,2)] .
  have "umalloc sbrk nbytes h k = Some (r, h', k')" using m(1) by (simp add: umalloc_def Let_def nunits_of_def h1_def)
  moreover have "heap_ok h1 (brk k) F" using fs b ub by (auto simp: heap_ok_def)
  moreover have "hdr h' x = hdr h x" if "x \<noteq> ubase h" "unat x \<notin> F \<union> {brk k..<brk k'}" for x
    using m(2) same [OF that(1)] that ub unfolding malloc_result_def taken_def fs(2) by metis
  moreover have "heap_ok h' (brk k') (F \<union> {brk k..<brk k'} - blk h' (r - 8))" if "r \<noteq> 0"
    using m(2) that b ub unfolding malloc_result_def taken_def heap_ok_def fs(2) by (auto simp: free_list_def)
  moreover have "freep h' \<noteq> 0"
    using m(2) free_list_freep fs(1) b(1) ub unfolding malloc_result_def taken_def by metis
  ultimately show thesis
    using that [of r h' k'] m(2) ub unfolding malloc_result_def taken_def fs(2) by auto
qed

text \<open>
  The allocator in use: the heap, the kernel, the pointers handed out and not yet freed, and the bytes obtained from the kernel.
\<close>
inductive ustep :: "(u32 \<Rightarrow> 'k \<Rightarrow> u32 \<times> 'k) \<Rightarrow> ('k \<Rightarrow> nat) \<Rightarrow>
    uheap \<times> 'k \<times> u32 set \<times> nat set \<Rightarrow> uheap \<times> 'k \<times> u32 set \<times> nat set \<Rightarrow> bool"
  for sbrk brk where
  step_malloc: "nbytes \<le> 0x7FFFFFF0 \<Longrightarrow> umalloc sbrk nbytes h k = Some (r, h', k') \<Longrightarrow>
    ustep sbrk brk (h, k, live, got) (h', k', if r = 0 then live else insert r live, got \<union> {brk k..<brk k'})"
| step_free: "r \<in> live \<Longrightarrow> ufree r h = Some h' \<Longrightarrow> ustep sbrk brk (h, k, live, got) (h', k, live - {r}, got)"
| step_kernel: "brk k \<le> brk k' \<Longrightarrow> brk k' < 2 ^ 32 \<Longrightarrow> ustep sbrk brk (h, k, live, got) (h, k', live, got)"

definition ustart :: "('k \<Rightarrow> nat) \<Rightarrow> uheap \<times> 'k \<times> u32 set \<times> nat set \<Rightarrow> bool" where
  "ustart brk = (\<lambda>(h, k, live, got). ubase h \<noteq> 0 \<and> unat (ubase h) + 8 \<le> brk k \<and> brk k < 2 ^ 32 \<and> freep h = 0 \<and> live = {} \<and> got = {})"

abbreviation ublk :: "uheap \<Rightarrow> u32 \<Rightarrow> nat set" where "ublk h r \<equiv> blk h (r - 8)"

definition live_ok :: "uheap \<Rightarrow> nat \<Rightarrow> u32 set \<Rightarrow> bool" where
  "live_ok h b live \<longleftrightarrow> (\<forall>r \<in> live. good_block h b (r - 8)) \<and> (\<forall>r \<in> live. \<forall>q \<in> live. r \<noteq> q \<longrightarrow> ublk h r \<inter> ublk h q = {})"

definition uinv :: "('k \<Rightarrow> nat) \<Rightarrow> uheap \<times> 'k \<times> u32 set \<times> nat set \<Rightarrow> bool" where
  "uinv brk = (\<lambda>(h, k, live, got). (freep h = 0 \<longrightarrow> live = {}) \<and> live_ok h (brk k) live \<and> got \<subseteq> {..<brk k}
     \<and> (\<Union>r \<in> live. ublk h r) \<subseteq> got \<and> heap_ok h (brk k) (got - (\<Union>r \<in> live. ublk h r)))"

lemma live_ok_cong:
  assumes "live_ok h b live" "\<forall>r \<in> live. hdr h' (r - 8) = hdr h (r - 8)" "b \<le> b'" "ubase h' = ubase h"
  shows "live_ok h' b' live" "(\<Union>r \<in> live. ublk h' r) = (\<Union>r \<in> live. ublk h r)"
proof -
  have "ublk h' r = ublk h r" if "r \<in> live" for r using assms(2) that by (simp add: blk_def)
  moreover have "good_block h' b' (r - 8)" if "r \<in> live" for r using assms that by (fastforce simp: live_ok_def good_block_def)
  ultimately show "live_ok h' b' live" "(\<Union>r \<in> live. ublk h' r) = (\<Union>r \<in> live. ublk h r)" using assms(1) by (auto simp: live_ok_def)
qed

text \<open>The header of a block in use is outside the free bytes and the bytes above the break.\<close>
lemma live_header:
  assumes "uinv brk (h, k, live, got)" "r \<in> live"
  shows "r - 8 \<noteq> ubase h" "unat (r - 8) \<in> ublk h r"
    "unat (r - 8) \<notin> (got - (\<Union>r \<in> live. ublk h r)) \<union> {brk k..<b}"
proof -
  have g: "good_block h (brk k) (r - 8)" using assms by (auto simp: uinv_def live_ok_def)
  then show "r - 8 \<noteq> ubase h" by (auto simp: good_block_def)
  show u: "unat (r - 8) \<in> ublk h r" using g by (simp add: blk_def good_block_def)
  then have "unat (r - 8) \<in> (\<Union>r \<in> live. ublk h r)" "unat (r - 8) < brk k"
    using assms by (auto simp: uinv_def dest!: subsetD)
  then show "unat (r - 8) \<notin> (got - (\<Union>r \<in> live. ublk h r)) \<union> {brk k..<b}" by auto
qed

lemma uinv_malloc:
  assumes inv: "uinv brk (h, k, live, got)" and sb: "sbrk_grows sbrk brk" and nb: "nbytes \<le> 0x7FFFFFF0"
  obtains r h' k' where "umalloc sbrk nbytes h k = Some (r, h', k')"
    "uinv brk (h', k', if r = 0 then live else insert r live, got \<union> {brk k..<brk k'})"
    "\<forall>q \<in> live. hdr h' (q - 8) = hdr h (q - 8)"
    "r \<noteq> 0 \<longrightarrow> good_block h' (brk k') (r - 8) \<and> units h' (r - 8) = nunits_of nbytes
       \<and> ublk h' r \<subseteq> got \<union> {brk k..<brk k'} - (\<Union>q \<in> live. ublk h q)"
proof -
  let ?U = "\<Union>q \<in> live. ublk h q"
  have i: "heap_ok h (brk k) (got - ?U)" "live_ok h (brk k) live" "got \<subseteq> {..<brk k}" "?U \<subseteq> got" using inv by (auto simp: uinv_def)
  obtain r h' k' where m: "umalloc sbrk nbytes h k = Some (r, h', k')" "brk k \<le> brk k'" "ubase h' = ubase h" "freep h' \<noteq> 0"
    "\<forall>x. x \<noteq> ubase h \<and> unat x \<notin> (got - ?U) \<union> {brk k..<brk k'} \<longrightarrow> hdr h' x = hdr h x"
    "if r = 0 then brk k' = brk k \<and> heap_ok h' (brk k') (got - ?U)
     else good_block h' (brk k') (r - 8) \<and> units h' (r - 8) = nunits_of nbytes \<and> ublk h' r \<subseteq> (got - ?U) \<union> {brk k..<brk k'}
          \<and> heap_ok h' (brk k') ((got - ?U) \<union> {brk k..<brk k'} - ublk h' r)"
    using umalloc_spec [OF i(1) sb nb] .
  have same: "\<forall>q \<in> live. hdr h' (q - 8) = hdr h (q - 8)" using m(5) live_header(1) [OF inv] live_header(3) [OF inv, of _ "brk k'"] by (metis (no_types, lifting))
  note lc = live_ok_cong [OF i(2) same m(2,3)]
  have new: "(got - ?U) \<union> {brk k..<brk k'} = got \<union> {brk k..<brk k'} - ?U" using i(3,4) by fastforce
  have gk: "got \<union> {brk k..<brk k'} \<subseteq> {..<brk k'}" using i(3) m(2) by auto
  show thesis
  proof (cases "r = 0")
    case True
    then have "brk k' = brk k" "heap_ok h' (brk k) (got - ?U)" using m(6) by auto
    then show thesis using that [OF m(1)] True m(4) same lc i(3,4) by (simp add: uinv_def)
  next
    case False
    have two: "got \<union> {brk k..<brk k'} - (ublk h' r \<union> ?U) = got \<union> {brk k..<brk k'} - ?U - ublk h' r" by blast
    from False have t: "ublk h' r \<subseteq> got \<union> {brk k..<brk k'} - ?U" "heap_ok h' (brk k') (got \<union> {brk k..<brk k'} - (ublk h' r \<union> ?U))"
      "good_block h' (brk k') (r - 8)" "units h' (r - 8) = nunits_of nbytes"
      using m(6) unfolding new two by simp_all
    have "ublk h' r \<inter> ublk h' q = {}" if "q \<in> live" for q using t(1) that lc(2) by blast
    then have "live_ok h' (brk k') (insert r live)" using lc(1) t(3) by (auto simp: live_ok_def)
    then have "uinv brk (h', k', insert r live, got \<union> {brk k..<brk k'})"
      using m(4) gk t(1,2) lc(2) i(4) by (auto simp: uinv_def)
    then show thesis using that [OF m(1)] False same t by simp
  qed
qed

lemma uinv_free:
  assumes inv: "uinv brk (h, k, live, got)" and r: "r \<in> live"
  obtains h' where "ufree r h = Some h'" "uinv brk (h', k, live - {r}, got)"
proof -
  let ?U = "\<Union>q \<in> live. ublk h q" and ?V = "\<Union>q \<in> live - {r}. ublk h q"
  have i: "heap_ok h (brk k) (got - ?U)" "live_ok h (brk k) live" "got \<subseteq> {..<brk k}" "?U \<subseteq> got" "freep h \<noteq> 0"
    using inv r by (auto simp: uinv_def)
  then obtain fs where fs: "free_list h (brk k) fs" "free_bytes h fs = got - ?U" by (auto simp: heap_ok_def)
  have g: "good_block h (brk k) (r - 8)" using i(2) r by (simp add: live_ok_def)
  have dj: "ublk h r \<inter> free_bytes h fs = {}" unfolding fs(2) using r by blast
  obtain h' fs' where f: "ufree r h = Some h'" "freed h (brk k) fs (r - 8) h' fs'"
    using ufree_spec [OF fs(1) g dj, unfolded diff_add_cancel] .
  have rest: "ublk h q \<inter> ublk h r = {}" if "q \<in> live - {r}" for q using i(2) r that by (auto simp: live_ok_def)
  then have F: "free_bytes h' fs' = got - ?V" using f(2) i(4) r unfolding freed_def fs(2) by blast
  have ub: "ubase h' = ubase h" using f(2) by (simp add: freed_def)
  have "unat (q - 8) \<notin> free_bytes h fs \<union> ublk h r" if "q \<in> live - {r}" for q
    using live_header(2) [OF inv, of q] rest [OF that] that unfolding fs(2) by blast
  then have same: "\<forall>q \<in> live - {r}. hdr h' (q - 8) = hdr h (q - 8)"
    using f(2) live_header(1) [OF inv] unfolding freed_def by blast
  have "live_ok h (brk k) (live - {r})" using i(2) by (auto simp: live_ok_def)
  note lc = live_ok_cong [OF this same order_refl ub]
  have fl: "free_list h' (brk k) fs'" using f(2) by (simp add: freed_def)
  moreover have "freep h' \<noteq> 0" using free_list_freep [OF fl] i(1) ub by (simp add: heap_ok_def)
  moreover have "heap_ok h' (brk k) (got - ?V)" unfolding heap_ok_def F [symmetric] using i(1) [unfolded heap_ok_def] fl ub by auto
  ultimately have "uinv brk (h', k, live - {r}, got)" using lc i(3,4) by (auto simp: uinv_def)
  then show thesis using that f(1) by blast
qed

lemma uinv_kernel:
  assumes "uinv brk (h, k, live, got)" "brk k \<le> brk k'" "brk k' < 2 ^ 32"
  shows "uinv brk (h, k', live, got)"
proof -
  have "free_list h (brk k') fs" if "free_list h (brk k) fs" for fs using free_list_cong(1) [OF that _ refl refl assms(2,3)] by simp
  then have "heap_ok h (brk k') F" if "heap_ok h (brk k) F" for F using that assms(2,3) by (auto simp: heap_ok_def)
  then show ?thesis using assms live_ok_cong(1) [of h "brk k" live h "brk k'"] by (auto simp: uinv_def)
qed

lemma uinv_step: "ustep sbrk brk s t \<Longrightarrow> sbrk_grows sbrk brk \<Longrightarrow> uinv brk s \<Longrightarrow> uinv brk t"
proof (induction rule: ustep.induct)
  case (step_malloc nbytes h k r h' k' live got)
  show ?case by (rule uinv_malloc [OF step_malloc(4,3,1)]) (use step_malloc(2) in simp)
next
  case (step_free r live h h' k got)
  show ?case by (rule uinv_free [OF step_free(4,1)]) (use step_free(2) in simp)
next
  case (step_kernel k k' h live got)
  show ?case by (rule uinv_kernel [OF step_kernel(4,1,2)])
qed

lemma uinv_start: "ustart brk s \<Longrightarrow> uinv brk s"
  by (auto simp: ustart_def uinv_def heap_ok_def live_ok_def)

interpretation ua: invariant_system "ustart brk" "\<lambda>s t. sbrk_grows sbrk brk \<and> ustep sbrk brk s t" "uinv brk" for sbrk brk
  by unfold_locales (blast intro: uinv_start uinv_step)+

lemma reach_uinv:
  assumes "sbrk_grows sbrk brk" "ustart brk s" "(ustep sbrk brk)\<^sup>*\<^sup>* s t"
  shows "uinv brk t"
  using ua.reach_inv [of brk s sbrk t] assms by simp

lemma block_payload:
  assumes "good_block h b (r - 8)" "b < 2 ^ 32" "units h (r - 8) = nunits_of nbytes" "nbytes \<le> 0x7FFFFFF0"
  shows "{unat r - 8..<unat r + unat nbytes} \<subseteq> ublk h r"
proof -
  have "unat (r - 8) + 8 < 2 ^ 32" using assms(1,2) by (simp add: good_block_def)
  then have "unat (r - 8 + 8) = unat (r - 8) + 8" by (simp only: unat_add_32) simp
  then have "unat r = unat (r - 8) + 8" by simp
  then show ?thesis using assms(3) nunits_of_bounds [OF assms(4)] by (auto simp: blk_def)
qed

text \<open>(C30) The allocator of the user library.  After any sequence of requests of less than 2 GiB, of frees of
  pointers that are in use, and of other growth of the process: the blocks in use, with their headers, are disjoint; the
  free list holds exactly the bytes that were obtained from the kernel and are not in use, so nothing is lost; freeing a pointer in use
  returns; a request returns, and a pointer that it returns starts a block of at least the size asked for, behind a header, that
  overlaps no block in use and leaves the headers of those blocks as they are.\<close>
theorem umalloc_safe:
  assumes "sbrk_grows sbrk brk" "ustart brk (h0, k0, {}, {})" "(ustep sbrk brk)\<^sup>*\<^sup>* (h0, k0, {}, {}) (h, k, live, got)"
    and "nbytes \<le> 0x7FFFFFF0"
  shows "(\<forall>r \<in> live. \<forall>q \<in> live. r \<noteq> q \<longrightarrow> ublk h r \<inter> ublk h q = {})
    \<and> heap_ok h (brk k) (got - (\<Union>r \<in> live. ublk h r))
    \<and> (\<forall>r \<in> live. \<exists>h'. ufree r h = Some h')
    \<and> (\<exists>r h' k'. umalloc sbrk nbytes h k = Some (r, h', k') \<and> (r \<noteq> 0 \<longrightarrow>
         {unat r - 8..<unat r + unat nbytes} \<subseteq> got \<union> {brk k..<brk k'} - (\<Union>q \<in> live. ublk h q)
         \<and> (\<forall>q \<in> live. hdr h' (q - 8) = hdr h (q - 8))))"
proof -
  have inv: "uinv brk (h, k, live, got)" by (rule reach_uinv [OF assms(1-3)])
  obtain r h' k' where m: "umalloc sbrk nbytes h k = Some (r, h', k')" "\<forall>q \<in> live. hdr h' (q - 8) = hdr h (q - 8)"
    "r \<noteq> 0 \<longrightarrow> good_block h' (brk k') (r - 8) \<and> units h' (r - 8) = nunits_of nbytes
       \<and> ublk h' r \<subseteq> got \<union> {brk k..<brk k'} - (\<Union>q \<in> live. ublk h q)"
    "uinv brk (h', k', if r = 0 then live else insert r live, got \<union> {brk k..<brk k'})"
    using uinv_malloc [OF inv assms(1,4)] by metis
  have lim: "brk k' < 2 ^ 32" using m(4) by (auto simp: uinv_def heap_ok_def)
  have "{unat r - 8..<unat r + unat nbytes} \<subseteq> got \<union> {brk k..<brk k'} - (\<Union>q \<in> live. ublk h q)" if "r \<noteq> 0"
    by (rule subset_trans [of _ "ublk h' r"]) (use lim that m(3) block_payload [of h' "brk k'" r nbytes] assms(4) in simp_all)
  then have "\<exists>r h' k'. umalloc sbrk nbytes h k = Some (r, h', k') \<and> (r \<noteq> 0 \<longrightarrow>
         {unat r - 8..<unat r + unat nbytes} \<subseteq> got \<union> {brk k..<brk k'} - (\<Union>q \<in> live. ublk h q)
         \<and> (\<forall>q \<in> live. hdr h' (q - 8) = hdr h (q - 8)))"
    using m(1,2) by (intro exI [of _ r] exI [of _ h'] exI [of _ k']) simp
  moreover have "\<exists>h'. ufree q h = Some h'" if "q \<in> live" for q using uinv_free [OF inv that] by metis
  moreover have "live_ok h (brk k) live" "heap_ok h (brk k) (got - (\<Union>r \<in> live. ublk h r))" using inv by (simp_all add: uinv_def)
  ultimately show ?thesis by (simp add: live_ok_def)
qed

definition w_sbrk :: "u32 \<Rightarrow> nat \<Rightarrow> u32 \<times> nat" where
  "w_sbrk n k = (if k + unat n < 0x80000000 then (of_nat k, k + unat n) else (SBRK_ERROR, k))"

definition w_heap :: uheap where
  "w_heap = \<lparr>hdr = (\<lambda>_. \<lparr>hptr = 0, hsize = 0\<rparr>), ubase = 0x3000, freep = 0\<rparr>"

lemma w_first:
  "\<exists>h. umalloc w_sbrk 100 w_heap 0x4000 = Some (0xBF98, h, 0xC000) \<and> units h 0xBF90 = 14"
  by (simp add: umalloc_def w_heap_def w_sbrk_def morecore_def ufree_def join_upper_def join_lower_def take_block_def Let_def
      set_ptr_def set_units_def malloc_loop.simps [of w_sbrk 14 "0x3000" "0x3000"] malloc_loop.simps [of w_sbrk 14 "0x3000" "0x4000"]
      free_find.simps [of _ "0x4000" "0x3000"])

text \<open>Two requests in a row: the first is cut from the end of the memory that the kernel gives, the second keeps away from it.\<close>
theorem umalloc_safe_witness:
  "\<exists>h. umalloc w_sbrk 100 w_heap 0x4000 = Some (0xBF98, h, 0xC000) \<and> (\<exists>h'. ufree 0xBF98 h = Some h')
     \<and> (\<exists>r h' k'. umalloc w_sbrk 50 h 0xC000 = Some (r, h', k')
          \<and> (r \<noteq> 0 \<longrightarrow> {unat r - 8..<unat r + 50} \<inter> {0xBF90..<0xBF98 + 100} = {}))"
proof -
  obtain h where h: "umalloc w_sbrk 100 w_heap 0x4000 = Some (0xBF98, h, 0xC000)" "units h 0xBF90 = 14" using w_first by blast
  have k: "unat (of_nat k :: u32) = k" if "k < 0x80000000" for k using that by (simp add: unsigned_of_nat take_bit_nat_eq_self)
  have "of_nat k \<noteq> SBRK_ERROR" if "k < 0x80000000" for k using k [OF that] that
    by (auto simp: unsigned_minus_1_eq_mask mask_eq_exp_minus_1)
  then have sb: "sbrk_grows w_sbrk id" by (auto simp: sbrk_grows_def w_sbrk_def k split: if_splits)
  have st: "ustart id (w_heap, 0x4000, {}, {})" by (simp add: ustart_def w_heap_def)
  have "ustep w_sbrk id (w_heap, 0x4000, {}, {}) (h, 0xC000, if (0xBF98 :: u32) = 0 then {} else insert 0xBF98 {}, {} \<union> {id 0x4000..<id 0xC000})"
    by (rule ustep.step_malloc [of 100]) (simp_all add: h)
  then have step: "(ustep w_sbrk id)\<^sup>*\<^sup>* (w_heap, 0x4000, {}, {}) (h, 0xC000, {0xBF98}, {0x4000..<0xC000})" by simp
  have n: "(50 :: u32) \<le> 0x7FFFFFF0" by simp
  note two = umalloc_safe [OF sb st step n, THEN conjunct2, THEN conjunct2]
  obtain r h' k' where r: "umalloc w_sbrk 50 h 0xC000 = Some (r, h', k')"
    "r \<noteq> 0 \<longrightarrow> {unat r - 8..<unat r + 50} \<inter> ublk h 0xBF98 = {}" using two [THEN conjunct2] by (simp add: subset_Diff_insert) blast
  have "{0xBF90..<0xBF98 + 100} \<subseteq> ublk h 0xBF98" using h(2) by (auto simp: blk_def)
  then have "r \<noteq> 0 \<longrightarrow> {unat r - 8..<unat r + 50} \<inter> {0xBF90..<0xBF98 + 100} = {}" using r(2) by blast
  moreover have "\<exists>h'. ufree 0xBF98 h = Some h'" using two [THEN conjunct1] by simp
  ultimately show ?thesis using h(1) r(1) by blast
qed

text \<open>A request whose size wraps around: the block has one unit or the kernel is asked for no memory at all.\<close>
lemma request_wraps: "nunits_of 0xFFFFFFFF = 1" "nunits_of 0xFFFFFFF8 * 8 = 0"
  by (simp_all add: nunits_of_def)

end
