(* ===== verification/KV_Sdcard.thy ===== *)
theory KV_Sdcard
  imports KV_Bio
begin

text \<open>
  The SD card driver of the kernel (kernel/sdcard.c).  The SPI controller with the card behind it is hardware, of any type of states: the
  argument \<open>xfer\<close> is the exchange of one byte (\<open>spi_rw\<close>), \<open>ctl\<close> a write to the control register and
  \<open>wait_us\<close> the passing of time.  The driver's own state is the lock.  A panic is \<open>Inl\<close> with its message.
\<close>

section \<open>Transfers\<close>

text \<open>Bytes whose answer is thrown away.\<close>
primrec spi_send :: "(u8 \<Rightarrow> 'd \<Rightarrow> u8 \<times> 'd) \<Rightarrow> u8 list \<Rightarrow> 'd \<Rightarrow> 'd" where
  "spi_send xfer [] d = d"
| "spi_send xfer (c # cs) d = spi_send xfer cs (snd (xfer c d))"

text \<open>\<open>n\<close> bytes read by sending 0xFF.\<close>
primrec spi_recv :: "(u8 \<Rightarrow> 'd \<Rightarrow> u8 \<times> 'd) \<Rightarrow> nat \<Rightarrow> 'd \<Rightarrow> u8 list \<times> 'd" where
  "spi_recv xfer 0 d = ([], d)"
| "spi_recv xfer (Suc n) d =
     (case xfer 0xFF d of (r, d) \<Rightarrow> case spi_recv xfer n d of (rs, d) \<Rightarrow> (r # rs, d))"

definition spi_r :: "(u8 \<Rightarrow> 'd \<Rightarrow> u8 \<times> 'd) \<Rightarrow> 'd \<Rightarrow> u32 \<times> 'd" where
  "spi_r xfer d = (case spi_recv xfer 4 d of (rs, d) \<Rightarrow> (foldl (\<lambda>r c. push_bit 8 r OR ucast c) 0 rs, d))"

text \<open>\<open>do { r = spi_rw(0xFF); i++; } while (r == 0xFF && i < n)\<close>.\<close>
fun spi_poll :: "(u8 \<Rightarrow> 'd \<Rightarrow> u8 \<times> 'd) \<Rightarrow> nat \<Rightarrow> 'd \<Rightarrow> u8 \<times> 'd" where
  "spi_poll xfer n d =
     (case xfer 0xFF d of (r, d) \<Rightarrow> if r = 0xFF \<and> 1 < n then spi_poll xfer (n - 1) d else (r, d))"

text \<open>\<open>while (spi_rw(0xFF) != 0xFF) if (i++ > n - 1) fail\<close>.\<close>
primrec spi_ready :: "(u8 \<Rightarrow> 'd \<Rightarrow> u8 \<times> 'd) \<Rightarrow> nat \<Rightarrow> 'd \<Rightarrow> bool \<times> 'd" where
  "spi_ready xfer 0 d = (case xfer 0xFF d of (r, d) \<Rightarrow> (r = 0xFF, d))"
| "spi_ready xfer (Suc n) d = (case xfer 0xFF d of (r, d) \<Rightarrow> if r = 0xFF then (True, d) else spi_ready xfer n d)"

definition spi_cmd :: "(u8 \<Rightarrow> 'd \<Rightarrow> u8 \<times> 'd) \<Rightarrow> u8 \<Rightarrow> u8 \<Rightarrow> u8 \<Rightarrow> u8 \<Rightarrow> u8 \<Rightarrow> u8 \<Rightarrow> 'd \<Rightarrow> u8 \<times> 'd" where
  "spi_cmd xfer cmd a0 a1 a2 a3 crc d = spi_poll xfer 10 (spi_send xfer [0xFF, 0x40 OR cmd, a0, a1, a2, a3, crc] d)"

abbreviation SD_BLOCK_OFFSET_K :: u32 where "SD_BLOCK_OFFSET_K \<equiv> 4096"

section \<open>Start-up\<close>

text \<open>Ten attempts at most, left as soon as the card is ready.\<close>
primrec sd_wake :: "(u8 \<Rightarrow> 'd \<Rightarrow> u8 \<times> 'd) \<Rightarrow> (u32 \<Rightarrow> 'd \<Rightarrow> 'd) \<Rightarrow> nat \<Rightarrow> 'd \<Rightarrow> 'd" where
  "sd_wake xfer wait_us 0 d = d"
| "sd_wake xfer wait_us (Suc n) d =
     (let d = wait_us 100000 d; d = snd (spi_cmd xfer 55 0 0 0 0 0 d); d = snd (spi_cmd xfer 41 0x40 0 0 0 0 d)
      in case xfer 0xFF d of (r, d) \<Rightarrow> if r = 0 then d else sd_wake xfer wait_us n d)"

definition sd_clock :: "(u32 \<Rightarrow> 'd \<Rightarrow> 'd) \<Rightarrow> (u32 \<Rightarrow> 'd \<Rightarrow> 'd) \<Rightarrow> 'd \<Rightarrow> 'd" where
  "sd_clock ctl wait_us d = ctl 1 (wait_us 1 (ctl 0 (wait_us 1 d)))"

definition spi_init :: "(u8 \<Rightarrow> 'd \<Rightarrow> u8 \<times> 'd) \<Rightarrow> (u32 \<Rightarrow> 'd \<Rightarrow> 'd) \<Rightarrow> (u32 \<Rightarrow> 'd \<Rightarrow> 'd) \<Rightarrow> 'd \<Rightarrow> 'd" where
  "spi_init xfer ctl wait_us d =
     (let d = ctl 1 (wait_us 1000 d);
          d = wait_us 1 ((sd_clock ctl wait_us ^^ 100) d);
          d = snd (spi_cmd xfer 0 0 0 0 0 0x95 d);
          d = snd (spi_cmd xfer 8 0 0 1 0xAA 0x87 d);
          d = snd (spi_r xfer d);
          d = sd_wake xfer wait_us 10 d;
          d = snd (spi_cmd xfer 58 0 0 0 0 0 d)
      in case spi_r xfer d of (ocr, d) \<Rightarrow>
           if NOT (ocr AND push_bit 30 1) \<noteq> 0 then snd (spi_cmd xfer 16 0 0 2 0 0 d) else d)"

section \<open>Blocks\<close>

record 'd sdst =
  sd_held :: bool
  sd_dev :: 'd

definition sd_addr :: "u32 \<Rightarrow> u8 list" where
  "sd_addr block = map (\<lambda>k. ucast (drop_bit k block AND 0xFF)) [24, 16, 8, 0]"

definition sd_block_cmd :: "(u8 \<Rightarrow> 'd \<Rightarrow> u8 \<times> 'd) \<Rightarrow> u8 \<Rightarrow> u32 \<Rightarrow> 'd \<Rightarrow> u8 \<times> 'd" where
  "sd_block_cmd xfer cmd block d =
     (case sd_addr block of [a0, a1, a2, a3] \<Rightarrow> spi_cmd xfer cmd a0 a1 a2 a3 0 d | _ \<Rightarrow> (0xFF, d))"

text \<open>\<open>acquire(&sdlock)\<close> and the rest of the call.  On one hart a lock that is held is held by the caller.\<close>
definition with_sdlock :: "('d \<Rightarrow> (string + 'a) \<times> 'd) \<Rightarrow> 'd sdst \<Rightarrow> (string + 'a) \<times> 'd sdst" where
  "with_sdlock f s =
     (if sd_held s then (Inl ''acquire'', s)
      else case f (sd_dev s) of (r, d) \<Rightarrow> (r, \<lparr>sd_held = False, sd_dev = d\<rparr>))"

definition spi_rb :: "(u8 \<Rightarrow> 'd \<Rightarrow> u8 \<times> 'd) \<Rightarrow> u32 \<Rightarrow> u8 list \<Rightarrow> 'd sdst \<Rightarrow> (string + u8 list) \<times> 'd sdst" where
  "spi_rb xfer block buf = with_sdlock (\<lambda>d.
     case sd_block_cmd xfer 17 (block + SD_BLOCK_OFFSET_K) d of (r, d) \<Rightarrow>
       if r = 0
       then case spi_poll xfer 100000 d of (tok, d) \<Rightarrow>
              if tok \<noteq> 0xFE then (Inl ''sd: no start token'', d)
              else case spi_recv xfer 512 d of (bs, d) \<Rightarrow> (Inr bs, spi_send xfer [0xFF, 0xFF] d)
       else (Inr buf, d))"

definition spi_wb :: "(u8 \<Rightarrow> 'd \<Rightarrow> u8 \<times> 'd) \<Rightarrow> u32 \<Rightarrow> u8 list \<Rightarrow> 'd sdst \<Rightarrow> (string + unit) \<times> 'd sdst" where
  "spi_wb xfer block buf = with_sdlock (\<lambda>d.
     case sd_block_cmd xfer 24 (block + SD_BLOCK_OFFSET_K) d of (r, d) \<Rightarrow>
       if r \<noteq> 0 then (Inl ''sd: CMD24'', d)
       else case spi_ready xfer 100001 d of (ok, d) \<Rightarrow>
         if \<not> ok then (Inl ''sd: not ready before write'', d)
         else case xfer 0xFF (spi_send xfer (0xFE # buf @ [0xFF, 0xFF]) d) of (resp, d) \<Rightarrow>
           if resp AND 0x1F \<noteq> 5 then (Inl ''sd: data reject'', d)
           else case spi_ready xfer 1000001 d of (ok, d) \<Rightarrow>
             if \<not> ok then (Inl ''sd: write busy timeout'', d) else (Inr (), d))"

section \<open>The card\<close>

text \<open>Clocking the card with 0xFF gives the bytes \<open>rs\<close>.\<close>
definition clocks :: "(u8 \<Rightarrow> 'd \<Rightarrow> u8 \<times> 'd) \<Rightarrow> u8 list \<Rightarrow> 'd \<Rightarrow> 'd \<Rightarrow> bool" where
  "clocks xfer rs d d' \<longleftrightarrow> spi_recv xfer (length rs) d = (rs, d')"

text \<open>The bytes of a block number as the protocol sends them, the most significant first.\<close>
definition be_bytes :: "u32 \<Rightarrow> u8 list" where
  "be_bytes b = [of_nat (unat b div 2 ^ 24), of_nat (unat b div 2 ^ 16), of_nat (unat b div 2 ^ 8), of_nat (unat b)]"

text \<open>
  The SPI mode of a card that answers, as far as the driver uses it.  \<open>idle\<close> says that the card waits for a command, \<open>await\<close>
  for which block it expects data, \<open>blocks\<close> what it stores.  A command frame is answered within ten
  bytes; a block read starts with the token 0xFE, after at least one byte and fewer than \<open>nac\<close>, and ends with two check bytes; a block write is answered by a data response and by busy
  bytes until the block is stored.
\<close>
definition sd_spi_card ::
  "nat \<Rightarrow> (u8 \<Rightarrow> 'd \<Rightarrow> u8 \<times> 'd) \<Rightarrow> ('d \<Rightarrow> bool) \<Rightarrow> ('d \<Rightarrow> u32 option) \<Rightarrow> ('d \<Rightarrow> u32 \<Rightarrow> u8 list) \<Rightarrow> bool" where
  "sd_spi_card nac xfer idle await blocks \<longleftrightarrow>
     (\<forall>d. idle d \<longrightarrow> idle (snd (xfer 0xFF d)) \<and> blocks (snd (xfer 0xFF d)) = blocks d)
   \<and> (\<forall>d b crc. idle d \<longrightarrow> (\<exists>n t c0 c1 d'. n < 10 \<and> 0 < t \<and> t < nac \<and> length (blocks d b) = 512
        \<and> clocks xfer (replicate n 0xFF @ [0] @ replicate t 0xFF @ [0xFE] @ blocks d b @ [c0, c1])
            (spi_send xfer (0x51 # be_bytes b @ [crc]) d) d' \<and> idle d' \<and> blocks d' = blocks d))
   \<and> (\<forall>d b crc. idle d \<longrightarrow> (\<exists>n d'. n < 10 \<and> clocks xfer (replicate n 0xFF @ [0]) (spi_send xfer (0x58 # be_bytes b @ [crc]) d) d'
        \<and> await d' = Some b \<and> blocks d' = blocks d))
   \<and> (\<forall>d b. await d = Some b \<longrightarrow> (\<exists>ws d'. length ws \<le> 100001 \<and> 0xFF \<notin> set ws \<and> clocks xfer (ws @ [0xFF]) d d'
        \<and> await d' = Some b \<and> blocks d' = blocks d))
   \<and> (\<forall>d b bs c0 c1. await d = Some b \<and> length bs = 512 \<longrightarrow> (\<exists>r ws d'. r AND 0x1F = 5 \<and> length ws \<le> 1000001 \<and> 0xFF \<notin> set ws
        \<and> clocks xfer (r # ws @ [0xFF]) (spi_send xfer (0xFE # bs @ [c0, c1]) d) d' \<and> idle d' \<and> blocks d' = (blocks d)(b := bs)))"

lemma ucast_low_byte: "(ucast (x AND 0xFF) :: u8) = ucast (x :: u32)"
proof -
  have m: "(0xFF :: u32) = mask 8" by (simp add: mask_eq_exp_minus_1)
  show ?thesis unfolding m by (rule bit_word_eqI) (auto simp: bit_ucast_iff bit_and_iff bit_mask_iff)
qed

lemma be_bytes_sd_addr: "be_bytes b = sd_addr b"
proof -
  have "(ucast (drop_bit k b) :: u8) = of_nat (unat b div 2 ^ k)" for k by (metis of_nat_unat unat_drop_bit_div)
  from this [of 24] this [of 16] this [of 8] this [of 0] show ?thesis by (simp add: be_bytes_def sd_addr_def ucast_low_byte)
qed

lemmas sd_spi_card_frames = sd_spi_card_def [unfolded be_bytes_sd_addr]

declare spi_poll.simps [simp del]

lemma clocks_simps [simp]:
  "clocks xfer [] d d' \<longleftrightarrow> d' = d"
  "clocks xfer (r # rs) d d' \<longleftrightarrow> (\<exists>e. xfer 0xFF d = (r, e) \<and> clocks xfer rs e d')"
  by (auto simp: clocks_def split: prod.splits)

lemma clocks_append [simp]: "clocks xfer (xs @ ys) d d' \<longleftrightarrow> (\<exists>e. clocks xfer xs d e \<and> clocks xfer ys e d')"
  by (induction xs arbitrary: d) auto

lemma spi_poll_clocks: "clocks xfer (replicate n 0xFF) d e \<Longrightarrow> xfer 0xFF e = (r, d') \<Longrightarrow> r \<noteq> 0xFF \<Longrightarrow> n < m \<Longrightarrow> spi_poll xfer m d = (r, d')"
  by (induction n arbitrary: d m) (auto simp: spi_poll.simps [of xfer m for m])

lemma spi_ready_clocks: "clocks xfer ws d e \<Longrightarrow> xfer 0xFF e = (0xFF, d') \<Longrightarrow> 0xFF \<notin> set ws \<Longrightarrow> length ws \<le> m \<Longrightarrow> spi_ready xfer m d = (True, d')"
proof (induction ws arbitrary: d m)
  case Nil
  then show ?case by (cases m) auto
next
  case (Cons w ws)
  then show ?case by (cases m) auto
qed

lemma spi_send_append [simp]: "spi_send xfer (xs @ ys) d = spi_send xfer ys (spi_send xfer xs d)"
  by (induction xs arbitrary: d) auto

lemma sd_block_cmd_eq: "sd_block_cmd xfer cmd b d = spi_poll xfer 10 (spi_send xfer ((0x40 OR cmd) # sd_addr b @ [0]) (snd (xfer 0xFF d)))"
  by (simp add: sd_block_cmd_def sd_addr_def spi_cmd_def)

lemma spi_rb_card:
  assumes c: "sd_spi_card 100000 xfer idle await blocks" and i: "idle d"
  obtains d' where "spi_rb xfer b buf \<lparr>sd_held = False, sd_dev = d\<rparr> = (Inr (blocks d (b + SD_BLOCK_OFFSET_K)), \<lparr>sd_held = False, sd_dev = d'\<rparr>)"
    "idle d'" "blocks d' = blocks d"
proof -
  let ?d = "snd (xfer 0xFF d)"
  have i': "idle ?d" "blocks ?d = blocks d" using c i by (auto simp: sd_spi_card_frames)
  obtain n t c0 c1 d' where r: "n < 10" "t < 100000" "length (blocks d (b + SD_BLOCK_OFFSET_K)) = 512"
    "clocks xfer (replicate n 0xFF @ [0] @ replicate t 0xFF @ [0xFE] @ blocks d (b + SD_BLOCK_OFFSET_K) @ [c0, c1])
       (spi_send xfer (0x51 # sd_addr (b + SD_BLOCK_OFFSET_K) @ [0]) ?d) d'" "idle d'" "blocks d' = blocks d"
    using c [unfolded sd_spi_card_frames, THEN conjunct2, THEN conjunct1, rule_format, OF i'(1), of "b + SD_BLOCK_OFFSET_K" 0]
    unfolding i'(2) by blast
  obtain e0 e1 e2 e3 e4 e5 where e: "clocks xfer (replicate n 0xFF) (spi_send xfer (0x51 # sd_addr (b + SD_BLOCK_OFFSET_K) @ [0]) ?d) e0"
    "xfer 0xFF e0 = (0, e1)" "clocks xfer (replicate t 0xFF) e1 e2" "xfer 0xFF e2 = (0xFE, e3)"
    "clocks xfer (blocks d (b + SD_BLOCK_OFFSET_K)) e3 e4" "xfer 0xFF e4 = (c0, e5)" "xfer 0xFF e5 = (c1, d')"
    using r(4) by auto
  have "sd_block_cmd xfer 17 (b + SD_BLOCK_OFFSET_K) d = (0, e1)"
    unfolding sd_block_cmd_eq using spi_poll_clocks [OF e(1,2)] r(1) by simp
  moreover have "spi_poll xfer 100000 e1 = (0xFE, e3)" using spi_poll_clocks [OF e(3,4)] r(2) by simp
  moreover have "spi_recv xfer 512 e3 = (blocks d (b + SD_BLOCK_OFFSET_K), e4)" using e(5) r(3) by (simp add: clocks_def)
  ultimately show thesis using that [of d'] r(5,6) e(6,7) by (simp add: spi_rb_def with_sdlock_def)
qed

lemma spi_wb_card:
  assumes c: "sd_spi_card 100000 xfer idle await blocks" and i: "idle d" and l: "length bs = 512"
  obtains d' where "spi_wb xfer b bs \<lparr>sd_held = False, sd_dev = d\<rparr> = (Inr (), \<lparr>sd_held = False, sd_dev = d'\<rparr>)"
    "idle d'" "blocks d' = (blocks d)(b + SD_BLOCK_OFFSET_K := bs)"
proof -
  let ?d = "snd (xfer 0xFF d)" and ?b = "b + SD_BLOCK_OFFSET_K"
  have i': "idle ?d" "blocks ?d = blocks d" using c i by (auto simp: sd_spi_card_frames)
  obtain n e0 e1 where s: "n < 10" "clocks xfer (replicate n 0xFF) (spi_send xfer (0x58 # sd_addr ?b @ [0]) ?d) e0" "xfer 0xFF e0 = (0, e1)"
    "await e1 = Some ?b" "blocks e1 = blocks d"
    using c [unfolded sd_spi_card_frames, THEN conjunct2, THEN conjunct2, THEN conjunct1, rule_format, OF i'(1), of ?b 0]
    unfolding i'(2) clocks_append clocks_simps by blast
  obtain ws e2 e3 where w: "length ws \<le> 100001" "0xFF \<notin> set ws" "clocks xfer ws e1 e2" "xfer 0xFF e2 = (0xFF, e3)"
    "await e3 = Some ?b" "blocks e3 = blocks d"
    using c [unfolded sd_spi_card_frames, THEN conjunct2, THEN conjunct2, THEN conjunct2, THEN conjunct1, rule_format, OF s(4)]
    unfolding s(5) clocks_append clocks_simps by blast
  obtain r vs e4 e5 d' where v: "r AND 0x1F = 5" "length vs \<le> 1000001" "0xFF \<notin> set vs" "xfer 0xFF (spi_send xfer (0xFE # bs @ [0xFF, 0xFF]) e3) = (r, e4)"
    "clocks xfer vs e4 e5" "xfer 0xFF e5 = (0xFF, d')" "idle d'" "blocks d' = (blocks d)(?b := bs)"
    using c [unfolded sd_spi_card_frames, THEN conjunct2, THEN conjunct2, THEN conjunct2, THEN conjunct2, rule_format, OF conjI [OF w(5) l], of "0xFF" "0xFF"]
    unfolding w(6) clocks_append clocks_simps by blast
  have "sd_block_cmd xfer 24 ?b d = (0, e1)" unfolding sd_block_cmd_eq using spi_poll_clocks [OF s(2,3)] s(1) by simp
  moreover have "spi_ready xfer 100001 e1 = (True, e3)" by (rule spi_ready_clocks [OF w(3,4,2,1)])
  moreover have "spi_ready xfer 1000001 e4 = (True, d')" by (rule spi_ready_clocks [OF v(5,6,3,2)])
  ultimately show thesis using that [of d'] v by (simp add: spi_wb_def with_sdlock_def)
qed

section \<open>The driver implements the disk of the buffer cache\<close>

definition card_disk :: "('d \<Rightarrow> u32 \<Rightarrow> u8 list) \<Rightarrow> 'd \<Rightarrow> u32 \<Rightarrow> u8 list" where
  "card_disk blocks d = (\<lambda>b. blocks d (b + SD_BLOCK_OFFSET_K))"

text \<open>(C13) The driver refines the disk that the buffer cache works on.  Over every SPI controller and card that follow the protocol,
  and while the card waits for commands: \<open>spi_rb\<close> returns the block that \<open>disk_read\<close> returns and \<open>spi_wb\<close> succeeds and does to the
  stored blocks, 2 MiB further up on the card, what \<open>disk_write\<close> does to the disk; both leave the lock free and the card waiting for the
  next command.\<close>
theorem sd_driver_refines_disk:
  assumes "sd_spi_card 100000 xfer idle await blocks" "idle d" "disk s = card_disk blocks d" "length bs = BSIZE"
  shows "(\<exists>d' v. spi_rb xfer b buf \<lparr>sd_held = False, sd_dev = d\<rparr> = (Inr v, \<lparr>sd_held = False, sd_dev = d'\<rparr>)
       \<and> disk_read b s = Ok v s \<and> idle d' \<and> disk s = card_disk blocks d')
    \<and> (\<exists>d' t. spi_wb xfer b bs \<lparr>sd_held = False, sd_dev = d\<rparr> = (Inr (), \<lparr>sd_held = False, sd_dev = d'\<rparr>)
       \<and> disk_write b bs s = Ok () t \<and> idle d' \<and> disk t = card_disk blocks d')"
proof
  show "\<exists>d' v. spi_rb xfer b buf \<lparr>sd_held = False, sd_dev = d\<rparr> = (Inr v, \<lparr>sd_held = False, sd_dev = d'\<rparr>)
       \<and> disk_read b s = Ok v s \<and> idle d' \<and> disk s = card_disk blocks d'"
    by (rule spi_rb_card [OF assms(1,2), of b buf]) (use assms(3) in \<open>auto simp: disk_read_def kget_def card_disk_def\<close>)
  show "\<exists>d' t. spi_wb xfer b bs \<lparr>sd_held = False, sd_dev = d\<rparr> = (Inr (), \<lparr>sd_held = False, sd_dev = d'\<rparr>)
       \<and> disk_write b bs s = Ok () t \<and> idle d' \<and> disk t = card_disk blocks d'"
    by (rule spi_wb_card [OF assms(1,2,4), of b]) (use assms(3) in \<open>auto simp: disk_write_def kmod_def card_disk_def fun_eq_iff\<close>)
qed

text \<open>A card, to see that the protocol can be followed: it answers a read with one byte of delay before the response and the token.\<close>
record w_card =
  w_in :: "u8 list"
  w_out :: "u8 list"
  w_wait :: "u32 option"
  w_store :: "u32 \<Rightarrow> u8 list"

definition w_block :: "u8 list \<Rightarrow> u32" where
  "w_block as = foldl (\<lambda>r c. push_bit 8 r OR ucast c) 0 as"

definition w_step :: "u8 list \<Rightarrow> w_card \<Rightarrow> w_card" where
  "w_step i d =
     (case w_wait d of
        Some b \<Rightarrow> if length i < 515 then d\<lparr>w_in := i\<rparr>
                  else d\<lparr>w_in := [], w_out := [5, 0], w_wait := None, w_store := (w_store d)(b := take 512 (tl i))\<rparr>
      | None \<Rightarrow> if length i < 6 then d\<lparr>w_in := i\<rparr>
                else let b = w_block (take 4 (tl i)) in
                  if hd i = 0x51 then d\<lparr>w_in := [], w_out := [0xFF, 0, 0xFF, 0xFE] @ w_store d b @ [0, 0]\<rparr>
                  else if hd i = 0x58 then d\<lparr>w_in := [], w_out := [0], w_wait := Some b\<rparr>
                  else d\<lparr>w_in := [], w_out := [4]\<rparr>)"

definition w_xfer :: "u8 \<Rightarrow> w_card \<Rightarrow> u8 \<times> w_card" where
  "w_xfer c d =
     (if w_out d \<noteq> [] then (hd (w_out d), d\<lparr>w_out := tl (w_out d)\<rparr>)
      else if w_in d = [] \<and> c = 0xFF then (0xFF, d)
      else (0xFF, w_step (w_in d @ [c]) d))"

definition w_quiet :: "w_card \<Rightarrow> bool" where
  "w_quiet d \<longleftrightarrow> w_in d = [] \<and> w_out d = [] \<and> (\<forall>b. length (w_store d b) = 512)"

definition w_idle :: "w_card \<Rightarrow> bool" where "w_idle d \<longleftrightarrow> w_quiet d \<and> w_wait d = None"
definition w_await :: "w_card \<Rightarrow> u32 option" where "w_await d = (if w_quiet d then w_wait d else None)"

lemma byte_bit: "bit (ucast (ucast (x AND 0xFF :: u32) :: u8) :: u32) n \<longleftrightarrow> n < 8 \<and> bit x n"
proof -
  have "(0xFF :: u32) = mask 8" by (simp add: mask_eq_exp_minus_1)
  then show ?thesis by (simp only: bit_ucast_iff bit_and_iff bit_mask_iff) auto
qed

lemma w_block_addr: "w_block (sd_addr b) = b"
proof (rule bit_word_eqI)
  fix n assume "n < LENGTH(32)"
  then have n: "n < 32" by simp
  have "n < 8 \<or> 8 \<le> n \<and> n < 16 \<or> 16 \<le> n \<and> n < 24 \<or> 24 \<le> n" by linarith
  then show "bit (w_block (sd_addr b)) n \<longleftrightarrow> bit b n"
    using n by (elim disjE) (auto simp: w_block_def sd_addr_def bit_or_iff bit_push_bit_iff byte_bit bit_drop_bit_eq)
qed

lemma w_talk: "w_out d = rs @ os \<Longrightarrow> clocks w_xfer rs d (d\<lparr>w_out := os\<rparr>)"
proof (induction rs arbitrary: d)
  case (Cons r rs)
  then show ?case using Cons.IH [of "d\<lparr>w_out := rs @ os\<rparr>"] by (auto simp: w_xfer_def)
qed auto

lemma w_data:
  "w_out d = [] \<Longrightarrow> w_wait d = Some b \<Longrightarrow> w_in d \<noteq> [] \<Longrightarrow> length (w_in d @ cs) < 515 \<Longrightarrow> spi_send w_xfer cs d = d\<lparr>w_in := w_in d @ cs\<rparr>"
  by (induction cs arbitrary: d) (auto simp: w_xfer_def w_step_def)

lemma w_frame:
  assumes "w_idle d" "cmd \<noteq> 0xFF"
  shows "spi_send w_xfer (cmd # sd_addr b @ [crc]) d = w_step (cmd # sd_addr b @ [crc]) d"
  using assms by (simp add: sd_addr_def w_idle_def w_quiet_def w_xfer_def w_step_def Let_def)

lemma w_send_data:
  assumes "w_await d = Some b" "length bs = 512"
  shows "spi_send w_xfer (0xFE # bs @ [c0, c1]) d = d\<lparr>w_in := [], w_out := [5, 0], w_wait := None, w_store := (w_store d)(b := bs)\<rparr>"
proof -
  have d: "w_out d = []" "w_in d = []" "w_wait d = Some b" using assms(1) by (auto simp: w_await_def w_quiet_def split: if_splits)
  have "spi_send w_xfer [0xFE] d = d\<lparr>w_in := [0xFE]\<rparr>" using d by (simp add: w_xfer_def w_step_def)
  moreover have "spi_send w_xfer (bs @ [c0]) (d\<lparr>w_in := [0xFE]\<rparr>) = d\<lparr>w_in := 0xFE # bs @ [c0]\<rparr>"
    using w_data [of "d\<lparr>w_in := [0xFE]\<rparr>" b "bs @ [c0]"] d assms(2) by simp
  ultimately show ?thesis using d assms(2) by (simp add: w_xfer_def w_step_def)
qed

lemma w_read:
  assumes i: "w_idle d"
  shows "clocks w_xfer (replicate 1 0xFF @ [0] @ replicate 1 0xFF @ [0xFE] @ w_store d b @ [0, 0]) (spi_send w_xfer (0x51 # sd_addr b @ [crc]) d) d"
proof -
  let ?d = "d\<lparr>w_in := [], w_out := [0xFF, 0, 0xFF, 0xFE] @ w_store d b @ [0, 0]\<rparr>"
  have "spi_send w_xfer (0x51 # sd_addr b @ [crc]) d = ?d"
    using i w_frame [OF i, of "0x51" b crc] w_block_addr [of b] by (simp add: w_step_def sd_addr_def w_idle_def Let_def)
  moreover have "?d\<lparr>w_out := []\<rparr> = d" using i by (simp add: w_idle_def w_quiet_def)
  ultimately show ?thesis using w_talk [of ?d "[0xFF, 0, 0xFF, 0xFE] @ w_store d b @ [0, 0]" "[]"] by simp
qed

lemma w_write_cmd:
  assumes i: "w_idle d"
  shows "clocks w_xfer (replicate 0 0xFF @ [0]) (spi_send w_xfer (0x58 # sd_addr b @ [crc]) d) (d\<lparr>w_wait := Some b\<rparr>)"
proof -
  let ?d = "d\<lparr>w_in := [], w_out := [0], w_wait := Some b\<rparr>"
  have "spi_send w_xfer (0x58 # sd_addr b @ [crc]) d = ?d"
    using i w_frame [OF i, of "0x58" b crc] w_block_addr [of b] by (simp add: w_step_def sd_addr_def w_idle_def Let_def)
  moreover have "?d\<lparr>w_out := []\<rparr> = d\<lparr>w_wait := Some b\<rparr>" using i by (simp add: w_idle_def w_quiet_def)
  ultimately show ?thesis using w_talk [of ?d "[0]" "[]"] by simp
qed

lemma w_write:
  assumes "w_await d = Some b" "length bs = 512"
  shows "clocks w_xfer (5 # [0] @ [0xFF]) (spi_send w_xfer (0xFE # bs @ [c0, c1]) d) (d\<lparr>w_wait := None, w_store := (w_store d)(b := bs)\<rparr>)"
proof -
  have "w_out d = []" "w_in d = []" using assms(1) by (auto simp: w_await_def w_quiet_def split: if_splits)
  then show ?thesis unfolding w_send_data [OF assms] by (simp add: w_xfer_def)
qed

lemma w_card_ok:
  assumes "1 < nac"
  shows "sd_spi_card nac w_xfer w_idle w_await w_store"
proof -
  have ff: "w_xfer 0xFF d = (0xFF, d)" if "w_quiet d" for d using that by (simp add: w_quiet_def w_xfer_def)
  have aw: "w_quiet d" if "w_await d = Some b" for d b using that by (simp add: w_await_def split: if_splits)
  have r: "\<exists>n t c0 c1 d'. n < 10 \<and> 0 < t \<and> t < nac \<and> length (w_store d b) = 512
        \<and> clocks w_xfer (replicate n 0xFF @ [0] @ replicate t 0xFF @ [0xFE] @ w_store d b @ [c0, c1])
            (spi_send w_xfer (0x51 # sd_addr b @ [crc]) d) d' \<and> w_idle d' \<and> w_store d' = w_store d" if "w_idle d" for d b crc
    using w_read [OF that, of b crc] that assms
    by (intro exI [of _ "1 :: nat"] exI [of _ "0 :: u8"] exI [of _ d]) (simp add: w_idle_def w_quiet_def)
  have w: "\<exists>n d'. n < 10 \<and> clocks w_xfer (replicate n 0xFF @ [0]) (spi_send w_xfer (0x58 # sd_addr b @ [crc]) d) d'
        \<and> w_await d' = Some b \<and> w_store d' = w_store d" if "w_idle d" for d b crc
    using w_write_cmd [OF that, of b crc] that
    by (intro exI [of _ 0] exI [of _ "d\<lparr>w_wait := Some b\<rparr>"]) (simp add: w_idle_def w_await_def w_quiet_def)
  have y: "\<exists>ws d'. length ws \<le> 100001 \<and> 0xFF \<notin> set ws \<and> clocks w_xfer (ws @ [0xFF]) d d' \<and> w_await d' = Some b \<and> w_store d' = w_store d"
    if "w_await d = Some b" for d b
    using that ff [OF aw [OF that]] by (intro exI [of _ "[]"] exI [of _ d]) simp
  have s: "\<exists>r ws d'. r AND 0x1F = 5 \<and> length ws \<le> 1000001 \<and> 0xFF \<notin> set ws
        \<and> clocks w_xfer (r # ws @ [0xFF]) (spi_send w_xfer (0xFE # bs @ [c0, c1]) d) d' \<and> w_idle d' \<and> w_store d' = (w_store d)(b := bs)"
    if "w_await d = Some b" "length bs = 512" for d b bs c0 c1
    using w_write [OF that, of c0 c1] aw [OF that(1)] that(2)
    by (intro exI [of _ 5] exI [of _ "[0]"] exI [of _ "d\<lparr>w_wait := None, w_store := (w_store d)(b := bs)\<rparr>"])
       (simp add: w_idle_def w_quiet_def)
  show ?thesis
    unfolding sd_spi_card_frames using r w y s ff by (auto simp: w_idle_def)
qed

definition w_fresh :: w_card where
  "w_fresh = \<lparr>w_in = [], w_out = [], w_wait = None, w_store = (\<lambda>b. replicate 512 (ucast b))\<rparr>"

theorem sd_driver_refines_disk_witness:
  "(\<exists>d'. spi_rb w_xfer 3 (replicate 512 0) \<lparr>sd_held = False, sd_dev = w_fresh\<rparr> = (Inr (replicate 512 3), \<lparr>sd_held = False, sd_dev = d'\<rparr>))
   \<and> (\<exists>d'. spi_wb w_xfer 3 (replicate 512 9) \<lparr>sd_held = False, sd_dev = w_fresh\<rparr> = (Inr (), \<lparr>sd_held = False, sd_dev = d'\<rparr>)
        \<and> card_disk w_store d' 3 = replicate 512 9)"
proof -
  let ?s = "blank_kstate\<lparr>disk := card_disk w_store w_fresh\<rparr>"
  have c: "card_disk w_store w_fresh 3 = replicate 512 3" by (simp add: card_disk_def w_fresh_def)
  have i: "w_idle w_fresh" by (simp add: w_idle_def w_quiet_def w_fresh_def)
  have k: "sd_spi_card 100000 w_xfer w_idle w_await w_store" by (rule w_card_ok) simp
  note r = sd_driver_refines_disk [OF k i, of ?s "replicate 512 9" 3 "replicate 512 0"]
  show ?thesis using r c by (auto simp: disk_read_def kget_def disk_write_def kmod_def dest: fun_cong [of _ _ 3])
qed

section \<open>Errors\<close>

text \<open>A read command that the card refuses is not reported: the buffer keeps its old contents.  A refused write panics.\<close>
lemma refused_commands:
  assumes "\<not> sd_held s" "fst (sd_block_cmd xfer cmd (b + SD_BLOCK_OFFSET_K) (sd_dev s)) \<noteq> 0"
  shows "cmd = 17 \<Longrightarrow> fst (spi_rb xfer b buf s) = Inr buf" "cmd = 24 \<Longrightarrow> fst (spi_wb xfer b buf s) = Inl ''sd: CMD24''"
  using assms by (auto simp: spi_rb_def spi_wb_def with_sdlock_def split: prod.splits)

text \<open>The test of the capacity bit in \<open>spi_init\<close> negates bitwise, so it never fails: every card gets the command that sets the block length.\<close>
lemma ocr_test_always: "NOT (ocr AND push_bit 30 1) \<noteq> (0 :: u32)"
proof
  assume "NOT (ocr AND push_bit 30 1) = (0 :: u32)"
  then have "bit (NOT (ocr AND push_bit 30 1) :: u32) 0 = bit (0 :: u32) 0" by simp
  then show False by (simp only: bit_not_iff bit_and_iff bit_push_bit_iff bit_0_eq) simp
qed

end
