(* ===== verification/KV_SdBoot.thy ===== *)
theory KV_SdBoot
  imports KV_Sdcard KV_Boot
begin

text \<open>
  The SD card driver of the boot loader of LinuxSoC_v2 (engineering/bootloader/sd.c with timer.c, spi.c and the clock of kianv_io_utils.c; the
  driver of kianv_mc_rv32ima_sv32 differs in layout only, its clock divides with the compiler's library).  Unlike the kernel's driver, it waits by the
  clock.  The hardware is a record of its operations: the exchange of a byte, the chip select, the two halves of the cycle counter and the frequency
  register.  A loop that does not end is \<open>None\<close>.  The state is the flag \<open>_sdhc_card\<close> and the device.
\<close>

section \<open>The clock\<close>

record 'd spi_bus =
  bus_xfer :: "u8 \<Rightarrow> 'd \<Rightarrow> u8 \<times> 'd"
  bus_ctl :: "u32 \<Rightarrow> 'd \<Rightarrow> 'd"
  bus_cycleh :: "'d \<Rightarrow> u32 \<times> 'd"
  bus_cycle :: "'d \<Rightarrow> u32 \<times> 'd"
  bus_freq :: u32

definition read_cpu_cycles :: "'d spi_bus \<Rightarrow> 'd \<Rightarrow> u64 \<times> 'd" where
  "read_cpu_cycles B d =
     (case bus_cycleh B d of (hi, d) \<Rightarrow> case bus_cycle B d of (lo, d) \<Rightarrow> (push_bit 32 (ucast hi) OR ucast lo, d))"

text \<open>The frequency in Hz; the register holds megahertz with eight fractional bits.\<close>
definition read_cpu_frequency :: "u32 \<Rightarrow> u32" where
  "read_cpu_frequency reg =
     (let q = reg AND 0xFFFF; q = (if q = 0 then push_bit 8 20 else q)
      in ucast (drop_bit 8 ((ucast q :: u64) * 1000000 + 128)))"

text \<open>\<open>read_cpu_cycles() / (freq / 1000ULL)\<close>, with the division of kianv_io_utils.c.\<close>
definition elapsed_milliseconds :: "'d spi_bus \<Rightarrow> 'd \<Rightarrow> u64 \<times> 'd" where
  "elapsed_milliseconds B d =
     (let freq = read_cpu_frequency (bus_freq B) in
      if freq = 0 then (0, d)
      else case read_cpu_cycles B d of (c, d) \<Rightarrow> (udivdi3 c (udivdi3 (ucast freq) 1000), d))"

text \<open>\<open>t_time\<close> has 32 bits.\<close>
definition timer_now :: "'d spi_bus \<Rightarrow> 'd \<Rightarrow> u32 \<times> 'd" where
  "timer_now B d = (case elapsed_milliseconds B d of (t, d) \<Rightarrow> (ucast t, d))"

section \<open>Waiting\<close>

abbreviation timer_diff :: "u32 \<Rightarrow> u32 \<Rightarrow> int" where "timer_diff a b \<equiv> sint (a - b)"

text \<open>
  The loops \<open>while (!stop(spi_sendrecv(0xFF))) if (timer_diff(timer_now(), tStart) >= lim) ...\<close>: whether the byte waited for came,
  the last byte, and the device.
\<close>
partial_function (option) timed_poll ::
  "(u8 \<Rightarrow> 'd \<Rightarrow> u8 \<times> 'd) \<Rightarrow> ('d \<Rightarrow> u32 \<times> 'd) \<Rightarrow> (u8 \<Rightarrow> bool) \<Rightarrow> int \<Rightarrow> u32 \<Rightarrow> 'd \<Rightarrow> (bool \<times> u8 \<times> 'd) option" where
  "timed_poll xfer now stop lim tStart d =
     (case xfer 0xFF d of (r, d) \<Rightarrow>
        if stop r then Some (True, r, d)
        else case now d of (t, d) \<Rightarrow>
          if timer_diff t tStart \<ge> lim then Some (False, r, d)
          else timed_poll xfer now stop lim tStart d)"

definition wait_byte ::
  "(u8 \<Rightarrow> 'd \<Rightarrow> u8 \<times> 'd) \<Rightarrow> ('d \<Rightarrow> u32 \<times> 'd) \<Rightarrow> (u8 \<Rightarrow> bool) \<Rightarrow> int \<Rightarrow> 'd \<Rightarrow> (bool \<times> u8 \<times> 'd) option" where
  "wait_byte xfer now stop lim d = (case now d of (tStart, d) \<Rightarrow> timed_poll xfer now stop lim tStart d)"



section \<open>Commands\<close>


definition card_arg :: "bool \<Rightarrow> u8 \<Rightarrow> u32 \<Rightarrow> u32" where
  "card_arg sdhc cmd arg = (if \<not> sdhc \<and> cmd \<in> {17, 24, 32, 33} then arg * 512 else arg)"

definition sd_frame :: "u8 \<Rightarrow> u32 \<Rightarrow> u8 list" where
  "sd_frame cmd arg =
     [cmd OR 0x40, ucast (drop_bit 24 arg), ucast (drop_bit 16 arg), ucast (drop_bit 8 arg), ucast arg,
      if cmd = 8 then 0x87 else 0x95]"

definition sd_send_command :: "'d spi_bus \<Rightarrow> u8 \<Rightarrow> u32 \<Rightarrow> bool \<times> 'd \<Rightarrow> (u8 \<times> bool \<times> 'd) option" where
  "sd_send_command B cmd arg = (\<lambda>(sdhc, d).
     let d = spi_send (bus_xfer B) (sd_frame cmd (card_arg sdhc cmd arg)) d in
     case wait_byte (bus_xfer B) (timer_now B) (\<lambda>r. r \<noteq> 0xFF) 500 d of
       None \<Rightarrow> None
     | Some (_, response, d) \<Rightarrow>
         let (sdhc, d) =
           (if cmd = 58 \<and> response = 0
            then case bus_xfer B 0xFF d of (status, d) \<Rightarrow> (status AND 0x40 \<noteq> 0, spi_send (bus_xfer B) [0xFF, 0xFF, 0xFF] d)
            else (sdhc, d))
         in Some (response, sdhc, spi_send (bus_xfer B) [0xFF] d))"

section \<open>Start-up\<close>







section \<open>Sectors\<close>

text \<open>The result: what the function returns, the bytes put into the buffer, and the state.\<close>
primrec sd_read_loop :: "nat \<Rightarrow> 'd spi_bus \<Rightarrow> u32 \<Rightarrow> u8 list \<Rightarrow> bool \<times> 'd \<Rightarrow> (int \<times> u8 list \<times> bool \<times> 'd) option" where
  "sd_read_loop 0 B start_block buf s = Some (1, buf, s)"
| "sd_read_loop (Suc n) B start_block buf s =
     (case sd_send_command B 17 start_block s of
        None \<Rightarrow> None
      | Some (response, sdhc, d) \<Rightarrow>
          if response \<noteq> 0 then Some (0, buf, sdhc, d)
          else case wait_byte (bus_xfer B) (timer_now B) (\<lambda>r. r = 0xFE) 1000 d of
            None \<Rightarrow> None
          | Some (found, _, d) \<Rightarrow>
              if \<not> found then Some (0, buf, sdhc, d)
              else case spi_recv (bus_xfer B) 512 d of (bs, d) \<Rightarrow>
                sd_read_loop n B (start_block + 1) (buf @ bs) (sdhc, spi_send (bus_xfer B) [0xFF, 0xFF, 0xFF] d))"

definition sd_readsector :: "'d spi_bus \<Rightarrow> u32 \<Rightarrow> u32 \<Rightarrow> bool \<times> 'd \<Rightarrow> (int \<times> u8 list \<times> bool \<times> 'd) option" where
  "sd_readsector B start_block sector_count s =
     (if sector_count = 0 then Some (0, [], s) else sd_read_loop (unat sector_count) B start_block [] s)"



section \<open>Loading the image\<close>

text \<open>The loop of \<open>main\<close> in the boot loader of LinuxSoC_v2, with the driver in place of the sectors that it delivers.\<close>
primrec load_sectors_sd :: "nat \<Rightarrow> 'd spi_bus \<Rightarrow> u32 \<Rightarrow> u32 \<Rightarrow> memory \<Rightarrow> u32 \<Rightarrow> bool \<times> 'd \<Rightarrow> (memory \<times> u32 \<times> bool \<times> 'd) option" where
  "load_sectors_sd 0 B sdram_size block_index m off s = Some (m, off, s)"
| "load_sectors_sd (Suc n) B sdram_size block_index m off s =
     (case sd_readsector B (SD_BLOCK_OFFSET + block_index) 1 s of
        None \<Rightarrow> None
      | Some (r, buffer, s) \<Rightarrow>
          if r = 0 then Some (m, off, s)
          else case decode_chunk buffer sdram_size m off of (go, m, off) \<Rightarrow>
            if go then load_sectors_sd n B sdram_size (block_index + 1) m off s else Some (m, off, s))"

definition load_image_sd :: "'d spi_bus \<Rightarrow> u32 \<Rightarrow> memory \<Rightarrow> bool \<times> 'd \<Rightarrow> (memory \<times> u32 \<times> bool \<times> 'd) option" where
  "load_image_sd B sdram_size m s = load_sectors_sd (IMAGE_BYTES div CHUNK_SIZE) B sdram_size 0 m 0 s"

section \<open>Reading the clock\<close>

abbreviation cycles_per_ms :: "'d spi_bus \<Rightarrow> nat" where
  "cycles_per_ms B \<equiv> unat (read_cpu_frequency (bus_freq B)) div 1000"

text \<open>The largest value of the clock: where the division stops (see \<open>udivdi3_exact\<close>).\<close>
definition clock_limit :: "'d spi_bus \<Rightarrow> nat" where
  "clock_limit B = 2 * 2 ^ unat (clz32 (of_nat (cycles_per_ms B))) - 1"

lemma unat_ucast_64 [simp]: "unat (ucast (x :: u32) :: u64) = unat x"
  using unat_less_32 [of x] by (simp add: unsigned_ucast_eq take_bit_nat_eq_self)

text \<open>The frequency is between 3906 Hz and 256 MHz.\<close>
lemma cpu_frequency_range: "3000 \<le> unat (read_cpu_frequency reg) \<and> unat (read_cpu_frequency reg) < 256000000"
proof -
  define q :: u32 where "q = (if reg AND 0xFFFF = 0 then 5120 else reg AND 0xFFFF)"
  have m: "(0xFFFF :: u32) = mask 16" by (simp add: mask_eq_exp_minus_1)
  have "unat (reg AND 0xFFFF) < 65536" unfolding m using unat_and_mask [of reg 16] mod_less_divisor [of "2 ^ 16" "unat reg"] by simp
  then have q: "1 \<le> unat q" "unat q < 65536" by (auto simp: q_def unat_gt_0 Suc_le_eq)
  have u: "unat ((ucast q :: u64) * 1000000 + 128) = unat q * 1000000 + 128" using q(2) by (simp add: unat_word_ariths)
  have "unat (drop_bit 8 ((ucast q :: u64) * 1000000 + 128)) = (unat q * 1000000 + 128) div 256"
    using u unat_drop_bit_eq [of 8 "(ucast q :: u64) * 1000000 + 128"] by (simp add: drop_bit_eq_div)
  moreover have "3000 \<le> (unat q * 1000000 + 128) div 256" "(unat q * 1000000 + 128) div 256 < 256000000" using q by linarith+
  ultimately have "unat (ucast (drop_bit 8 ((ucast q :: u64) * 1000000 + 128)) :: u32) = (unat q * 1000000 + 128) div 256"
    by (simp add: unsigned_ucast_eq take_bit_eq_mod)
  moreover have "read_cpu_frequency reg = ucast (drop_bit 8 ((ucast q :: u64) * 1000000 + 128))"
    by (simp add: read_cpu_frequency_def Let_def q_def)
  ultimately show ?thesis using \<open>3000 \<le> _\<close> \<open>_ < 256000000\<close> by simp
qed

lemma cycles_per_ms_range: "3 \<le> cycles_per_ms B" "cycles_per_ms B < 256000"
  using cpu_frequency_range [of "bus_freq B"] by linarith+

lemma clock_limit_range: "clock_limit B < 2 ^ 31" "2 ^ 32 \<le> (clock_limit B + 1) * cycles_per_ms B"
proof -
  let ?C = "cycles_per_ms B" and ?k = "unat (clz32 (of_nat (cycles_per_ms B)))"
  have C: "unat (of_nat ?C :: u32) = ?C" using cycles_per_ms_range [of B] by (intro unat_of_nat_32) simp
  then have "(of_nat ?C :: u32) \<noteq> 0" using cycles_per_ms_range(1) [of B] by (metis not_numeral_le_zero unat_0)
  from clz32_spec [OF this] have k: "2 ^ 31 \<le> ?C * 2 ^ ?k" "?C * 2 ^ ?k < 2 ^ 32" unfolding C by simp_all
  have "3 * 2 ^ ?k < (2 :: nat) ^ 32" using k(2) mult_le_mono1 [OF cycles_per_ms_range(1) [of B], of "2 ^ ?k"] by linarith
  then have "(2 :: nat) ^ ?k < 2 ^ 31" by simp
  from power_less_imp_less_exp [OF _ this] have "?k < 31" by simp
  then have "(2 :: nat) ^ ?k \<le> 2 ^ 30" by (intro power_increasing) simp_all
  then show "clock_limit B < 2 ^ 31" unfolding clock_limit_def by simp
  have "0 < 2 * (2 :: nat) ^ ?k" by simp
  then have "clock_limit B + 1 = 2 * 2 ^ ?k" unfolding clock_limit_def by linarith
  then show "2 ^ 32 \<le> (clock_limit B + 1) * ?C" using k(1) by (simp add: mult.commute mult.left_commute)
qed

text \<open>The value of the clock in terms of the cycles read.\<close>
lemma timer_now_cycles:
  assumes "read_cpu_cycles B d = (c, d')"
  shows "timer_now B d = (of_nat (min (unat c div cycles_per_ms B) (clock_limit B)), d')"
proof -
  let ?f = "read_cpu_frequency (bus_freq B)" and ?C = "cycles_per_ms B"
  have f: "?f \<noteq> 0" "unat (ucast ?f :: u64) = unat ?f" using cpu_frequency_range [of "bus_freq B"] by auto
  have den: "unat (udivdi3 (ucast ?f) 1000) = ?C"
    using udivdi3_quotient [of 1000 "ucast ?f"] f(2) unat_less_32 [of ?f] by simp
  then have d0: "udivdi3 (ucast ?f) 1000 \<noteq> 0" using cycles_per_ms_range(1) [of B] by auto
  have "(ucast (udivdi3 (ucast ?f) 1000) :: u32) = of_nat ?C" unfolding den [symmetric] by simp
  then have "unat (udivdi3 c (udivdi3 (ucast ?f) 1000)) = min (unat c div ?C) (clock_limit B)"
    using udivdi3_exact [OF d0, of c] den cycles_per_ms_range(2) [of B] by (simp add: clock_limit_def)
  then have "(ucast (udivdi3 c (udivdi3 (ucast ?f) 1000)) :: u32) = of_nat (min (unat c div ?C) (clock_limit B))"
    by (metis of_nat_unat)
  then show ?thesis using f(1) assms by (simp add: timer_now_def elapsed_milliseconds_def Let_def)
qed



section \<open>The clock that has stopped\<close>



section \<open>The clock that runs\<close>

text \<open>
  The hardware: \<open>cyc\<close> is the number of cycles since the reset.  The instructions read the halves of this number, and the exchange of a byte,
  the chip select and the reading of each half take at most \<open>P\<close> cycles each, with the code around them, which is at most half a millisecond.
\<close>
definition clock_ok :: "'d spi_bus \<Rightarrow> ('d \<Rightarrow> nat) \<Rightarrow> nat \<Rightarrow> bool" where
  "clock_ok B cyc P \<longleftrightarrow> 2 * P \<le> cycles_per_ms B
     \<and> (\<forall>c d. cyc d \<le> cyc (snd (bus_xfer B c d)) \<and> cyc (snd (bus_xfer B c d)) \<le> cyc d + P)
     \<and> (\<forall>v d. cyc d \<le> cyc (bus_ctl B v d) \<and> cyc (bus_ctl B v d) \<le> cyc d + P)
     \<and> (\<forall>d. fst (bus_cycleh B d) = of_nat (cyc (snd (bus_cycleh B d)) div 2 ^ 32)
          \<and> cyc d < cyc (snd (bus_cycleh B d)) \<and> cyc (snd (bus_cycleh B d)) \<le> cyc d + P)
     \<and> (\<forall>d. fst (bus_cycle B d) = of_nat (cyc (snd (bus_cycle B d)))
          \<and> cyc d < cyc (snd (bus_cycle B d)) \<and> cyc (snd (bus_cycle B d)) \<le> cyc d + P)"

text \<open>In the first \<open>2 ^ 32\<close> cycles the clock shows the milliseconds since the reset.\<close>
lemma timer_now_runs:
  assumes k: "clock_ok B cyc P" and n: "timer_now B d = (t, d')" and b: "cyc d + 2 * P < 2 ^ 32"
  shows "t = of_nat (cyc d' div cycles_per_ms B)" "cyc d < cyc d'" "cyc d' \<le> cyc d + 2 * P"
proof -
  obtain hi d1 where h: "bus_cycleh B d = (hi, d1)" by fastforce
  obtain lo d2 where l: "bus_cycle B d1 = (lo, d2)" by fastforce
  have kh: "hi = of_nat (cyc d1 div 2 ^ 32)" "cyc d < cyc d1" "cyc d1 \<le> cyc d + P"
    using k h unfolding clock_ok_def by (metis fst_conv snd_conv)+
  have kl: "lo = of_nat (cyc d2)" "cyc d1 < cyc d2" "cyc d2 \<le> cyc d1 + P"
    using k l unfolding clock_ok_def by (metis fst_conv snd_conv)+
  have lt: "cyc d1 < 2 ^ 32" "cyc d2 < 2 ^ 32" using kh kl b by linarith+
  then have "hi = 0" using kh(1) by simp
  then have c: "read_cpu_cycles B d = (ucast lo, d2)" by (simp add: read_cpu_cycles_def h l)
  have u: "unat (ucast lo :: u64) = cyc d2" using lt(2) kl(1) by (simp add: unat_of_nat_32)
  note tn = timer_now_cycles [OF c, unfolded u n]
  have d': "d' = d2" using tn by simp
  have "cyc d2 < (clock_limit B + 1) * cycles_per_ms B" using lt(2) clock_limit_range(2) [of B] by linarith
  then have "cyc d2 div cycles_per_ms B \<le> clock_limit B" by (simp add: less_mult_imp_div_less flip: less_Suc_eq_le)
  then show "t = of_nat (cyc d' div cycles_per_ms B)" using tn by simp
  show "cyc d < cyc d'" "cyc d' \<le> cyc d + 2 * P" using d' kh(2,3) kl(2,3) by simp_all
qed

lemma timer_diff_of_nat:
  assumes "a \<le> b" "b - a < 2 ^ 31"
  shows "timer_diff (of_nat b) (of_nat a) = int (b - a)"
proof -
  have "(of_nat b - of_nat a :: u32) = of_nat (b - a)" using assms(1) by (simp add: of_nat_diff)
  moreover have "sint (of_nat (b - a) :: u32) = int (b - a)"
    using assms(2) by (simp add: signed_of_nat signed_take_bit_int_eq_self)
  ultimately show ?thesis by simp
qed

lemma clock_steps:
  assumes "clock_ok B cyc P"
  shows "cyc d \<le> cyc (snd (bus_xfer B c d))" "cyc (snd (bus_xfer B c d)) \<le> cyc d + P" "cyc d \<le> cyc (bus_ctl B v d)" "cyc (bus_ctl B v d) \<le> cyc d + P"
    "2 * P \<le> cycles_per_ms B"
  using assms by (simp_all add: clock_ok_def)

text \<open>One reading of the clock after the state \<open>d\<close>, which is less than \<open>lim\<close> milliseconds after the start \<open>T\<close>.\<close>
lemma clock_reading:
  assumes k: "clock_ok B cyc P" and d: "cyc d \<le> cyc e" "cyc e \<le> cyc d + P" and n: "timer_now B e = (t, d')" and b: "cyc d + 3 * P < 2 ^ 32"
    and T: "T \<le> cyc d" "cyc d < (T div cycles_per_ms B + lim) * cycles_per_ms B" "lim \<le> 1000"
  shows "cyc d < cyc d'" "cyc d' \<le> cyc d + 3 * P"
    "timer_diff t (of_nat (T div cycles_per_ms B)) = int (cyc d' div cycles_per_ms B - T div cycles_per_ms B)"
proof -
  let ?C = "cycles_per_ms B"
  have e: "t = of_nat (cyc d' div ?C)" "cyc e < cyc d'" "cyc d' \<le> cyc e + 2 * P" using timer_now_runs [OF k n] d(2) b by simp_all
  then show r: "cyc d < cyc d'" "cyc d' \<le> cyc d + 3 * P" using d by auto
  have C: "0 < ?C" using cycles_per_ms_range(1) [of B] by linarith
  have "cyc d' < (T div ?C + lim) * ?C + 2 * ?C" using r(2) T(2) clock_steps(5) [OF k] by linarith
  then have "cyc d' < (T div ?C + lim + 2) * ?C" by (simp add: algebra_simps)
  then have "cyc d' div ?C < T div ?C + lim + 2" using C by (simp only: div_less_iff_less_mult)
  moreover have "T div ?C \<le> cyc d' div ?C" using T(1) r(1) by (intro div_le_mono) simp
  ultimately show "timer_diff t (of_nat (T div ?C)) = int (cyc d' div ?C - T div ?C)"
    unfolding e(1) using T(3) by (intro timer_diff_of_nat) auto
qed




lemma below_window: "0 < C \<Longrightarrow> 0 < lim \<Longrightarrow> T < (T div C + lim) * (C :: nat)"
  by (simp flip: div_less_iff_less_mult)




section \<open>The driver returns\<close>



lemma spi_send_time:
  assumes k: "clock_ok B cyc P"
  shows "cyc (spi_send (bus_xfer B) cs d) \<le> cyc d + length cs * P"
proof (induction cs arbitrary: d)
  case (Cons c cs)
  show ?case using Cons [of "snd (bus_xfer B c d)"] clock_steps(2) [OF k, of c d] by simp
qed simp

lemma spi_recv_time:
  assumes k: "clock_ok B cyc P"
  shows "cyc (snd (spi_recv (bus_xfer B) n d)) \<le> cyc d + n * P"
proof (induction n arbitrary: d)
  case (Suc n)
  show ?case using Suc [of "snd (bus_xfer B 0xFF d)"] clock_steps(2) [OF k, of "0xFF" d] by (auto split: prod.splits)
qed simp













section \<open>Reading\<close>

text \<open>The card on the bus: byte transfers reach it, reading the counter does not.\<close>
definition bus_card :: "'d spi_bus \<Rightarrow> ('d \<Rightarrow> 'c) \<Rightarrow> (u8 \<Rightarrow> 'c \<Rightarrow> u8 \<times> 'c) \<Rightarrow> bool" where
  "bus_card B crd cx \<longleftrightarrow>
     (\<forall>c d. fst (bus_xfer B c d) = fst (cx c (crd d)) \<and> crd (snd (bus_xfer B c d)) = snd (cx c (crd d)))
   \<and> (\<forall>d. crd (snd (bus_cycleh B d)) = crd d) \<and> (\<forall>d. crd (snd (bus_cycle B d)) = crd d)"

lemma bus_xfer_card: "bus_card B crd cx \<Longrightarrow> bus_xfer B c d = (r, d') \<Longrightarrow> cx c (crd d) = (r, crd d')"
  unfolding bus_card_def by (metis fst_conv snd_conv prod.collapse)

lemma bus_now_card:
  assumes "bus_card B crd cx" "timer_now B d = (t, d')"
  shows "crd d' = crd d"
proof -
  have h: "crd (snd (bus_cycleh B e)) = crd e" "crd (snd (bus_cycle B e)) = crd e" for e using assms(1) by (simp_all add: bus_card_def)
  have "crd (snd (read_cpu_cycles B d)) = crd d"
    using h(1) [of d] h(2) [of "snd (bus_cycleh B d)"] by (auto simp: read_cpu_cycles_def split: prod.splits)
  then show ?thesis using assms(2) by (auto simp: timer_now_def elapsed_milliseconds_def Let_def split: prod.splits if_splits)
qed

lemma bus_send: "bus_card B crd cx \<Longrightarrow> crd (spi_send (bus_xfer B) cs d) = spi_send cx cs (crd d)"
  by (induction cs arbitrary: d) (auto simp: bus_card_def)

lemma bus_recv:
  assumes b: "bus_card B crd cx"
  shows "clocks cx rs (crd d) e \<Longrightarrow> \<exists>d'. spi_recv (bus_xfer B) (length rs) d = (rs, d') \<and> crd d' = e"
proof (induction rs arbitrary: d)
  case (Cons r rs)
  obtain r1 d1 where x: "bus_xfer B 0xFF d = (r1, d1)" by fastforce
  then show ?case using Cons.IH [of d1] Cons.prems bus_xfer_card [OF b x] by auto
qed simp

text \<open>The byte waited for comes after the bytes \<open>rs\<close>, before the limit.\<close>
lemma timed_poll_finds:
  assumes b: "bus_card B crd cx" and k: "clock_ok B cyc P" and lim: "lim \<le> 1000"
    and s: "cx 0xFF e = (r, e')" "stop r"
  shows "clocks cx rs (crd d) e \<Longrightarrow> \<forall>x \<in> set rs. \<not> stop x \<Longrightarrow> T \<le> cyc d \<Longrightarrow>
    cyc d + 3 * P * length rs < (T div cycles_per_ms B + lim) * cycles_per_ms B \<Longrightarrow> cyc d + 3 * P * length rs + P < 2 ^ 32 \<Longrightarrow>
    \<exists>d'. timed_poll (bus_xfer B) (timer_now B) stop (int lim) (of_nat (T div cycles_per_ms B)) d = Some (True, r, d') \<and> crd d' = e'
      \<and> cyc d' \<le> cyc d + 3 * P * length rs + P"
proof (induction rs arbitrary: d)
  case Nil
  obtain r1 d1 where x: "bus_xfer B 0xFF d = (r1, d1)" by fastforce
  then show ?case using Nil s bus_xfer_card [OF b x] clock_steps(2) [OF k, of "0xFF" d] by (subst timed_poll.simps) auto
next
  case (Cons q rs)
  let ?C = "cycles_per_ms B"
  obtain r1 d1 where x: "bus_xfer B 0xFF d = (r1, d1)" by fastforce
  obtain t d2 where n: "timer_now B d1 = (t, d2)" by fastforce
  have c1: "cx 0xFF (crd d) = (r1, crd d1)" "crd d2 = crd d1" using bus_xfer_card [OF b x] bus_now_card [OF b n] by simp_all
  have te: "cyc d \<le> cyc d1" "cyc d1 \<le> cyc d + P" using clock_steps(1) [OF k, of d "0xFF"] clock_steps(2) [OF k, of "0xFF" d] x by simp_all
  have p4: "cyc d + 3 * P + 3 * P * length rs < (T div ?C + lim) * ?C" using Cons.prems(4) by simp
  have p5: "cyc d + 3 * P + 3 * P * length rs + P < 2 ^ 32" using Cons.prems(5) by simp
  have lt: "cyc d < (T div ?C + lim) * ?C" "cyc d + 3 * P < 2 ^ 32" using p4 p5 by linarith+
  note c = clock_reading [OF k te n lt(2) Cons.prems(3) lt(1) lim]
  have "\<exists>d'. timed_poll (bus_xfer B) (timer_now B) stop (int lim) (of_nat (T div ?C)) d2 = Some (True, r, d') \<and> crd d' = e'
      \<and> cyc d' \<le> cyc d2 + 3 * P * length rs + P"
  proof (rule Cons.IH)
    show "clocks cx rs (crd d2) e" "\<forall>x \<in> set rs. \<not> stop x" using Cons.prems(1,2) c1 by auto
    show "T \<le> cyc d2" "cyc d2 + 3 * P * length rs < (T div ?C + lim) * ?C" "cyc d2 + 3 * P * length rs + P < 2 ^ 32"
      using Cons.prems(3) c(1,2) p4 p5 by linarith+
  qed
  moreover have "cyc d2 div ?C - T div ?C < lim"
  proof -
    have "cyc d2 < (T div ?C + lim) * ?C" using c(2) p4 by linarith
    then have "cyc d2 div ?C < T div ?C + lim" by (simp add: less_mult_imp_div_less)
    then show ?thesis using div_le_mono [of T "cyc d2" ?C] Cons.prems(3) c(1) by linarith
  qed
  moreover have "cyc d2 + 3 * P * length rs + P \<le> cyc d + 3 * P * length (q # rs) + P" using c(2) by simp
  ultimately show ?case using Cons.prems(1,2) c1 by (subst timed_poll.simps) (auto simp: x n c(3))
qed

lemma wait_byte_finds:
  assumes b: "bus_card B crd cx" and k: "clock_ok B cyc P" and lim: "0 < lim" "lim \<le> 1000" "3 * P * length rs \<le> (lim - 1) * cycles_per_ms B"
    and s: "clocks cx rs (crd d) e" "\<forall>x \<in> set rs. \<not> stop x" "cx 0xFF e = (r, e')" "stop r"
    and t: "cyc d + 3 * P * (length rs + 1) < 2 ^ 32"
  shows "\<exists>d'. wait_byte (bus_xfer B) (timer_now B) stop (int lim) d = Some (True, r, d') \<and> crd d' = e' \<and> cyc d' \<le> cyc d + 3 * P * (length rs + 1)"
proof -
  let ?C = "cycles_per_ms B"
  obtain u d' where n: "timer_now B d = (u, d')" by fastforce
  have t': "cyc d + 3 * P * length rs + 3 * P < 2 ^ 32" using t by (simp add: algebra_simps)
  have "cyc d + 2 * P < 2 ^ 32" using t' by linarith
  note u = timer_now_runs [OF k n this]
  have C: "0 < ?C" using cycles_per_ms_range(1) [of B] by linarith
  have "(cyc d' div ?C + lim) * ?C = (cyc d' div ?C + 1) * ?C + (lim - 1) * ?C" using lim(1) by (cases lim) (simp_all add: algebra_simps)
  then have w: "cyc d' + 3 * P * length rs < (cyc d' div ?C + lim) * ?C" using below_window [OF C, of 1 "cyc d'"] lim(3) by linarith
  have b2: "cyc d' + 3 * P * length rs + P < 2 ^ 32" using u(3) t' by linarith
  have cr: "clocks cx rs (crd d') e" using s(1) bus_now_card [OF b n] by simp
  from timed_poll_finds [where stop = stop, OF b k lim(2) s(3,4) cr s(2) order_refl w b2] obtain d2 where
    d2: "timed_poll (bus_xfer B) (timer_now B) stop (int lim) u d' = Some (True, r, d2)" "crd d2 = e'" "cyc d2 \<le> cyc d' + 3 * P * length rs + P"
    unfolding u(1) by blast
  then have "cyc d2 \<le> cyc d + 3 * P * (length rs + 1)" using u(3) by (simp add: algebra_simps)
  then show ?thesis using d2(1,2) by (simp add: wait_byte_def n)
qed

lemma sd_frame_addr: "sd_frame cmd b = (cmd OR 0x40) # sd_addr b @ [if cmd = 8 then 0x87 else 0x95]"
  by (simp add: sd_frame_def sd_addr_def ucast_low_byte)

text \<open>One sector of a card that answers, and the time it takes.\<close>
lemma sd_read_one:
  assumes c: "sd_spi_card nac cx idle await blocks" and b: "bus_card B crd cx" and k: "clock_ok B cyc P"
    and i: "idle (crd d)" and ac: "3 * P * nac \<le> 999 * cycles_per_ms B" and tm: "cyc d + (600 + 3 * nac) * P < 2 ^ 32"
  shows "\<exists>d1 d2 d3 d4. sd_send_command B 17 start_block (sdhc, d) = Some (0, sdhc, d1)
    \<and> wait_byte (bus_xfer B) (timer_now B) (\<lambda>r. r = 0xFE) 1000 d1 = Some (True, 0xFE, d2)
    \<and> spi_recv (bus_xfer B) 512 d2 = (blocks (crd d) (card_arg sdhc 17 start_block), d3)
    \<and> spi_send (bus_xfer B) [0xFF, 0xFF, 0xFF] d3 = d4
    \<and> idle (crd d4) \<and> blocks (crd d4) = blocks (crd d) \<and> cyc d4 \<le> cyc d + (600 + 3 * nac) * P"
proof -
  define a where "a = card_arg sdhc 17 start_block"
  let ?C = "cycles_per_ms B"
  have P: "2 * P \<le> ?C" by (rule clock_steps(5) [OF k])
  obtain n t c0 c1 e' where r: "n < 10" "0 < t" "t < nac" "length (blocks (crd d) a) = 512"
    "clocks cx (replicate n 0xFF @ [0] @ replicate t 0xFF @ [0xFE] @ blocks (crd d) a @ [c0, c1]) (spi_send cx (0x51 # sd_addr a @ [0x95]) (crd d)) e'"
    "idle e'" "blocks e' = blocks (crd d)"
    using c(1) [unfolded sd_spi_card_frames, THEN conjunct2, THEN conjunct1, rule_format, OF i, of a "0x95"] by blast
  obtain t' where t': "t = Suc t'" using r(2) by (cases t) auto
  define d0 where "d0 = spi_send (bus_xfer B) (sd_frame 17 a) d"
  have d0: "crd d0 = spi_send cx (0x51 # sd_addr a @ [0x95]) (crd d)" by (simp only: d0_def bus_send [OF b] sd_frame_addr) simp
  have k0: "cyc d0 \<le> cyc d + 6 * P" using spi_send_time [OF k, of "sd_frame 17 a" d] by (simp add: d0_def sd_frame_def)
  obtain e0 e1 e2 e3 e4 e5 e6 where e: "clocks cx (replicate n 0xFF) (crd d0) e0" "cx 0xFF e0 = (0, e1)" "cx 0xFF e1 = (0xFF, e2)"
    "clocks cx (replicate t' 0xFF) e2 e3" "cx 0xFF e3 = (0xFE, e4)" "clocks cx (blocks (crd d) a) e4 e5" "cx 0xFF e5 = (c0, e6)" "cx 0xFF e6 = (c1, e')"
    using r(5) unfolding d0 t' by auto
  have m: "3 * P * n \<le> 27 * P" "3 * P * t' + 6 * P \<le> 3 * nac * P"
  proof -
    have "3 * P * n \<le> 3 * P * 9" using r(1) by (intro mult_le_mono2) simp
    then show "3 * P * n \<le> 27 * P" by simp
    have "P * (3 * t' + 6) \<le> P * (3 * nac)" using r(3) t' by (intro mult_le_mono2) simp
    then show "3 * P * t' + 6 * P \<le> 3 * nac * P" by (simp add: algebra_simps)
  qed
  have tm': "cyc d + 600 * P + 3 * nac * P < 2 ^ 32" using tm by (simp add: algebra_simps)
  have "3 * P * n \<le> 499 * ?C" "cyc d0 + 3 * P * n + 3 * P < 2 ^ 32" using m(1) P k0 tm' by linarith+
  then have g: "3 * P * length (replicate n 0xFF) \<le> (500 - 1) * ?C" "cyc d0 + 3 * P * (length (replicate n 0xFF) + 1) < 2 ^ 32" by (simp_all add: algebra_simps)
  obtain w where w: "wait_byte (bus_xfer B) (timer_now B) (\<lambda>r. r \<noteq> 0xFF) 500 d0 = Some (True, 0, w)" "crd w = e1" "cyc w \<le> cyc d0 + 3 * P * n + 3 * P"
    using wait_byte_finds [OF b k, of 500 "replicate n 0xFF" d0 e0 "\<lambda>r. r \<noteq> 0xFF" 0 e1] e(1,2) g by auto
  define d1 where "d1 = spi_send (bus_xfer B) [0xFF] w"
  have d1: "crd d1 = e2" using e(3) w(2) by (simp only: d1_def bus_send [OF b]) simp
  have k1: "cyc d1 \<le> cyc d + 37 * P" using spi_send_time [OF k, of "[0xFF]" w, folded d1_def, simplified] k0 w(3) m(1) by linarith
  have "3 * P * nac = 3 * nac * P" by simp
  then have "3 * P * t' \<le> 999 * ?C" "cyc d1 + 3 * P * t' + 3 * P < 2 ^ 32" using m(2) ac k1 tm' by linarith+
  then have h: "3 * P * length (replicate t' 0xFF) \<le> (1000 - 1) * ?C" "cyc d1 + 3 * P * (length (replicate t' 0xFF) + 1) < 2 ^ 32"
    by (simp_all add: algebra_simps)
  obtain d2 where d2: "wait_byte (bus_xfer B) (timer_now B) (\<lambda>r. r = 0xFE) 1000 d1 = Some (True, 0xFE, d2)" "crd d2 = e4" "cyc d2 \<le> cyc d1 + 3 * P * t' + 3 * P"
    using wait_byte_finds [OF b k, of 1000 "replicate t' 0xFF" d1 e3 "\<lambda>r. r = 0xFE" "0xFE" e4] e(4,5) h d1 by auto
  obtain d3 where d3: "spi_recv (bus_xfer B) 512 d2 = (blocks (crd d) a, d3)" "crd d3 = e5"
    using bus_recv [OF b, of "blocks (crd d) a" d2 e5] e(6) d2(2) r(4) by auto
  define d4 where "d4 = spi_send (bus_xfer B) [0xFF, 0xFF, 0xFF] d3"
  have "crd d4 = snd (cx 0xFF e')" using e(7,8) d3(2) by (simp only: d4_def bus_send [OF b]) simp
  moreover have "idle (snd (cx 0xFF e'))" "blocks (snd (cx 0xFF e')) = blocks e'" using c(1) r(6) unfolding sd_spi_card_frames by blast+
  moreover have "sd_send_command B 17 start_block (sdhc, d) = Some (0, sdhc, d1)"
    using w(1) by (simp add: sd_send_command_def Let_def d0_def a_def d1_def)
  moreover have "cyc d4 \<le> cyc d + (600 + 3 * nac) * P"
    using spi_send_time [OF k, of "[0xFF, 0xFF, 0xFF]" d3] spi_recv_time [OF k, of 512 d2] d3(1) d2(3) k1 m(2)
    by (simp add: d4_def algebra_simps del: spi_send.simps)
  ultimately show ?thesis using d2(1) d3(1) r(7) unfolding a_def d4_def by metis
qed

lemma sd_read_loop_card:
  assumes c: "sd_spi_card nac cx idle await blocks" and b: "bus_card B crd cx" and k: "clock_ok B cyc P" and ac: "3 * P * nac \<le> 999 * cycles_per_ms B"
  shows "idle (crd d) \<Longrightarrow> cyc d + n * ((600 + 3 * nac) * P) < 2 ^ 32 \<Longrightarrow> \<exists>d'. sd_read_loop n B start_block buf (sdhc, d)
      = Some (1, buf @ concat (map (\<lambda>i. blocks (crd d) (card_arg sdhc 17 (start_block + of_nat i))) [0..<n]), sdhc, d')
    \<and> idle (crd d') \<and> blocks (crd d') = blocks (crd d) \<and> cyc d' \<le> cyc d + n * ((600 + 3 * nac) * P)"
proof (induction n arbitrary: start_block buf d)
  case (Suc n)
  let ?E = "(600 + 3 * nac) * P"
  have tm: "cyc d + ?E + n * ?E < 2 ^ 32" using Suc.prems(2) by simp
  then have "cyc d + ?E < 2 ^ 32" by linarith
  from sd_read_one [OF c b k Suc.prems(1) ac this, of start_block sdhc] obtain d1 d2 d3 d4 where
    d: "sd_send_command B 17 start_block (sdhc, d) = Some (0, sdhc, d1)"
    "wait_byte (bus_xfer B) (timer_now B) (\<lambda>r. r = 0xFE) 1000 d1 = Some (True, 0xFE, d2)"
    "spi_recv (bus_xfer B) 512 d2 = (blocks (crd d) (card_arg sdhc 17 start_block), d3)"
    "spi_send (bus_xfer B) [0xFF, 0xFF, 0xFF] d3 = d4" "idle (crd d4)" "blocks (crd d4) = blocks (crd d)" "cyc d4 \<le> cyc d + ?E" by blast
  have up: "concat (map f [0..<Suc n]) = f 0 @ concat (map (\<lambda>i. f (Suc i)) [0..<n])" for f :: "nat \<Rightarrow> u8 list"
    by (simp only: upt_conv_Cons [of 0 "Suc n"] map_Suc_upt [symmetric] list.map concat.simps zero_less_Suc map_map o_def)
  have "cyc d4 + n * ?E < 2 ^ 32" using tm d(7) by linarith
  from Suc.IH [OF d(5) this, of "start_block + 1" "buf @ blocks (crd d) (card_arg sdhc 17 start_block)"] obtain d' where
    d': "sd_read_loop n B (start_block + 1) (buf @ blocks (crd d) (card_arg sdhc 17 start_block)) (sdhc, d4)
        = Some (1, (buf @ blocks (crd d) (card_arg sdhc 17 start_block)) @ concat (map (\<lambda>i. blocks (crd d4) (card_arg sdhc 17 (start_block + 1 + of_nat i))) [0..<n]), sdhc, d')"
    "idle (crd d')" "blocks (crd d') = blocks (crd d4)" "cyc d' \<le> cyc d4 + n * ?E" by blast
  have "cyc d' \<le> cyc d + Suc n * ?E" using d'(4) d(7) by simp
  then show ?case using d'(1-3) d unfolding up by (simp add: add.assoc)
qed simp

lemma sd_readsector_card:
  assumes "sd_spi_card nac cx idle await blocks" "bus_card B crd cx" "clock_ok B cyc P" "3 * P * nac \<le> 999 * cycles_per_ms B"
    "idle (crd d)" "cyc d + unat n * ((600 + 3 * nac) * P) < 2 ^ 32" "0 < n"
  shows "\<exists>d'. sd_readsector B start_block n (sdhc, d)
      = Some (1, concat (map (\<lambda>i. blocks (crd d) (card_arg sdhc 17 (start_block + of_nat i))) [0..<unat n]), sdhc, d')
    \<and> idle (crd d') \<and> blocks (crd d') = blocks (crd d) \<and> cyc d' \<le> cyc d + unat n * ((600 + 3 * nac) * P)"
  using sd_read_loop_card [OF assms(1-6), of start_block "[]" sdhc] assms(7) by (auto simp: sd_readsector_def)

text \<open>The loader stops by itself within \<open>k\<close> sectors.\<close>
primrec load_stops :: "nat \<Rightarrow> (u32 \<Rightarrow> u8 list) \<Rightarrow> u32 \<Rightarrow> u32 \<Rightarrow> memory \<Rightarrow> u32 \<Rightarrow> bool" where
  "load_stops 0 rd sz idx m off = False"
| "load_stops (Suc k) rd sz idx m off =
     (case decode_chunk (rd (SD_BLOCK_OFFSET + idx)) sz m off of (go, m, off) \<Rightarrow> go \<longrightarrow> load_stops k rd sz (idx + 1) m off)"

lemma decode_chunk_stops: "rle_stops ch \<Longrightarrow> \<not> fst (decode_chunk ch sz m off)"
  by (induction ch arbitrary: m off rule: rle_expand.induct) (auto split: prod.splits)

lemma load_stops_stream:
  assumes "\<forall>j < length chs. rd (SD_BLOCK_OFFSET + i + of_nat j) = chs ! j" "\<forall>ch \<in> set chs. even (length ch)" "rle_stops (concat chs)"
  shows "load_stops (length chs) rd sz i m off"
  using assms
proof (induction chs arbitrary: i m off)
  case (Cons ch chs i m off)
  have rd: "rd (SD_BLOCK_OFFSET + i) = ch" using Cons.prems(1) by force
  have st: "rle_stops ch \<or> rle_stops (concat chs)" using Cons.prems(2,3) rle_stops_append [of ch "concat chs"] by simp
  have next': "\<forall>j < length chs. rd (SD_BLOCK_OFFSET + (i + 1) + of_nat j) = chs ! j" using Cons.prems(1) by (auto simp: add.assoc)
  obtain go m' off' where dc: "decode_chunk ch sz m off = (go, m', off')" by (metis prod_cases3)
  have "load_stops (length chs) rd sz (i + 1) m' off'" if "go"
    using Cons.IH [OF next'] Cons.prems(2) st decode_chunk_stops [of ch sz m off] that dc by auto
  then show ?case using rd dc by simp
qed simp

lemma load_stops_card:
  assumes "on_card (\<lambda>b. Some (rd b)) bs" "length bs mod CHUNK_SIZE = 0" "rle_stops bs"
  shows "load_stops (length bs div CHUNK_SIZE) rd sz 0 m 0"
proof -
  let ?n = "length bs div CHUNK_SIZE"
  define chs where "chs = map (\<lambda>i. take CHUNK_SIZE (drop (CHUNK_SIZE * i) bs)) [0..<?n]"
  have "CHUNK_SIZE * ?n = length bs" using mult_div_mod_eq [of CHUNK_SIZE "length bs"] assms(2) by simp
  then have c: "concat chs = bs" unfolding chs_def concat_sectors by simp
  have "load_stops (length chs) rd sz 0 m 0"
  proof (rule load_stops_stream)
    show "rle_stops (concat chs)" using assms(3) by (simp only: c)
  qed (use assms(1) even_sector [of _ bs] in \<open>auto simp: chs_def on_card_def\<close>)
  then show ?thesis by (simp add: chs_def)
qed

lemma load_sectors_sd_card:
  assumes c: "sd_spi_card nac cx idle await blocks" "bus_card B crd cx" "clock_ok B cyc P" "3 * P * nac \<le> 999 * cycles_per_ms B"
  shows "idle (crd d) \<Longrightarrow> cyc d + k * ((600 + 3 * nac) * P) < 2 ^ 32 \<Longrightarrow> load_stops k (\<lambda>b. blocks (crd d) (card_arg sdhc 17 b)) sz idx m off \<Longrightarrow>
    \<exists>d'. load_sectors_sd n B sz idx m off (sdhc, d)
    = (case load_sectors n (\<lambda>b. Some (blocks (crd d) (card_arg sdhc 17 b))) sz idx m off of (m', off') \<Rightarrow> Some (m', off', sdhc, d'))"
proof (induction n arbitrary: k idx m off d)
  case (Suc n)
  let ?E = "(600 + 3 * nac) * P"
  obtain j where k: "k = Suc j" using Suc.prems(3) by (cases k) auto
  have tm: "cyc d + ?E + j * ?E < 2 ^ 32" using Suc.prems(2) by (simp add: k)
  then have "cyc d + unat (1 :: u32) * ?E < 2 ^ 32" by simp
  from sd_readsector_card [OF c Suc.prems(1) this, of "SD_BLOCK_OFFSET + idx" sdhc] obtain d' where
    d: "sd_readsector B (SD_BLOCK_OFFSET + idx) 1 (sdhc, d) = Some (1, blocks (crd d) (card_arg sdhc 17 (SD_BLOCK_OFFSET + idx)), sdhc, d')"
    "idle (crd d')" "blocks (crd d') = blocks (crd d)" "cyc d' \<le> cyc d + ?E" by auto
  have "cyc d' + j * ?E < 2 ^ 32" using tm d(4) by linarith
  note IH = Suc.IH [OF d(2) this, unfolded d(3)]
  obtain go m' off' where dc: "decode_chunk (blocks (crd d) (card_arg sdhc 17 (SD_BLOCK_OFFSET + idx))) sz m off = (go, m', off')" by (metis prod_cases3)
  show ?case
  proof (cases go)
    case True
    then have "load_stops j (\<lambda>b. blocks (crd d) (card_arg sdhc 17 b)) sz (idx + 1) m' off'" using Suc.prems(3) dc by (simp add: k)
    from IH [OF this] show ?thesis using d(1) dc True by simp
  next
    case False
    then show ?thesis using d(1) dc by simp
  qed
qed auto

text \<open>(C33) Booting from a card.  Let the card follow the SPI protocol and be reached by the byte transfers, let it start a block within a second as the driver
  allows (\<open>nac\<close> polls of three steps of at most \<open>P\<close> cycles), and let the reading, with \<open>600 + 3 * nac\<close> steps per sector, end within
  \<open>2 ^ 32\<close> cycles of the reset.  Then \<open>sd_readsector\<close> reads any number of sectors, with block or byte addresses as the kind of
  card needs, and leaves the card as it was; and when the sectors hold a compressed image, the boot loader puts exactly the image at the start of the
  memory and touches nothing else.\<close>
theorem sd_boot_loads_image:
  assumes "sd_spi_card nac cx idle await blocks" "bus_card B crd cx" "clock_ok B cyc P" "3 * P * nac \<le> 999 * cycles_per_ms B" "idle (crd d)" "0 < n"
    and "on_card (\<lambda>b. Some (blocks (crd d) (card_arg sdhc 17 b))) (rle_encode img @ v # 0 # pad)"
    "length (rle_encode img @ v # 0 # pad) mod CHUNK_SIZE = 0" "length (rle_encode img @ v # 0 # pad) \<le> IMAGE_BYTES" "length img \<le> unat sdram_size"
  shows "(cyc d + unat n * ((600 + 3 * nac) * P) < 2 ^ 32 \<longrightarrow> (\<exists>d'. sd_readsector B start_block n (sdhc, d)
        = Some (1, concat (map (\<lambda>i. blocks (crd d) (card_arg sdhc 17 (start_block + of_nat i))) [0..<unat n]), sdhc, d')
      \<and> idle (crd d') \<and> blocks (crd d') = blocks (crd d)))
    \<and> (cyc d + length (rle_encode img @ v # 0 # pad) div CHUNK_SIZE * ((600 + 3 * nac) * P) < 2 ^ 32 \<longrightarrow>
      (\<exists>m' d'. load_image_sd B sdram_size m (sdhc, d) = Some (m', of_nat (length img), sdhc, d')
      \<and> read_bytes m' SDRAM_START (length img) = img \<and> (\<forall>a. length img \<le> unat (a - SDRAM_START) \<longrightarrow> m' a = m a)))"
proof (intro conjI impI)
  show "\<exists>d'. sd_readsector B start_block n (sdhc, d)
        = Some (1, concat (map (\<lambda>i. blocks (crd d) (card_arg sdhc 17 (start_block + of_nat i))) [0..<unat n]), sdhc, d')
      \<and> idle (crd d') \<and> blocks (crd d') = blocks (crd d)" if "cyc d + unat n * ((600 + 3 * nac) * P) < 2 ^ 32"
    using sd_readsector_card [OF assms(1-5) that assms(6), of start_block sdhc] by blast
  let ?bs = "rle_encode img @ v # 0 # pad" and ?rd = "\<lambda>b. blocks (crd d) (card_arg sdhc 17 b)"
  assume tm: "cyc d + length ?bs div CHUNK_SIZE * ((600 + 3 * nac) * P) < 2 ^ 32"
  have e: "rle_expand ?bs = img" "rle_stops ?bs" by (simp_all add: rle_encode_expand)
  have "load_image (\<lambda>b. Some (?rd b)) sdram_size m = (write_bytes SDRAM_START img m, of_nat (length img))"
    using ldr.load_card [OF assms(7-9) e(2), of sdram_size m] e(1) assms(10) unfolding load_image_def by metis
  moreover have "length img < 2 ^ 32" using assms(10) unsigned_less [of sdram_size, where ?'a = nat] by simp
  ultimately show "\<exists>m' d'. load_image_sd B sdram_size m (sdhc, d) = Some (m', of_nat (length img), sdhc, d')
      \<and> read_bytes m' SDRAM_START (length img) = img \<and> (\<forall>a. length img \<le> unat (a - SDRAM_START) \<longrightarrow> m' a = m a)"
    using load_sectors_sd_card [OF assms(1-5) tm load_stops_card [OF assms(7,8) e(2)], of "IMAGE_BYTES div CHUNK_SIZE" sdram_size m]
      read_write_bytes [of img] write_bytes_outside [of img] by (auto simp: load_image_sd_def load_image_def)
qed

section \<open>A bus\<close>

text \<open>A bus with the card of \<open>KV_Sdcard\<close> at 20 MHz, on which a byte and a reading of each half of the counter take 100 cycles.\<close>
definition w_bus :: "(w_card \<times> nat) spi_bus" where
  "w_bus = \<lparr>bus_xfer = (\<lambda>c (d, t). (fst (w_xfer c d), (snd (w_xfer c d), t + 100))), bus_ctl = (\<lambda>_ d. d),
     bus_cycleh = (\<lambda>(d, t). (of_nat ((t + 100) div 2 ^ 32), (d, t + 100))), bus_cycle = (\<lambda>(d, t). (of_nat (t + 100), (d, t + 100))), bus_freq = 0\<rparr>"

lemma w_bus_ms: "cycles_per_ms w_bus = 20000"
  by (simp add: w_bus_def read_cpu_frequency_def)


lemma w_bus_clock: "clock_ok w_bus snd 100"
  unfolding clock_ok_def w_bus_ms by (auto simp: w_bus_def)

lemma w_bus_card: "bus_card w_bus fst w_xfer"
  by (auto simp: bus_card_def w_bus_def)


theorem sd_boot_loads_image_witness:
  "\<exists>d. w_idle (fst d) \<and> (\<exists>m' d'. load_image_sd w_bus 0x800000 (\<lambda>_. 0) (True, d) = Some (m', 4, True, d')
     \<and> read_bytes m' SDRAM_START 4 = [1, 1, 1, 2])"
proof -
  let ?bs = "rle_encode [1, 1, 1, 2] @ 9 # 0 # replicate 506 0"
  let ?d = "(w_fresh\<lparr>w_store := (\<lambda>_. ?bs)\<rparr>, 0 :: nat)"
  have l: "length ?bs = CHUNK_SIZE" by simp
  have i: "w_idle (fst ?d)" using l by (simp add: w_idle_def w_quiet_def w_fresh_def)
  have ac: "3 * 100 * 60000 \<le> 999 * cycles_per_ms w_bus" unfolding w_bus_ms by simp
  have "on_card (\<lambda>b. Some (w_store (fst ?d) (card_arg True 17 b))) ?bs" unfolding on_card_def l by simp
  note t = sd_boot_loads_image [OF w_card_ok [of 60000] w_bus_card w_bus_clock ac i _ this, of 1 "0x800000" 0 "\<lambda>_. 0"]
  have four: "length [1, 1, 1, 2 :: u8] = 4" by simp
  show ?thesis using t [unfolded l four] i by (intro exI [of _ ?d]) auto
qed

end
