(* ===== verification/KV_Mkfs.thy ===== *)
theory KV_Mkfs
  imports KV_FileData
begin

text \<open>
  The builder of the file system image (mkfs/mkfs.c).  The image is a map from sectors to blocks of bytes, in the byte order of the target
  as \<open>xint\<close> and \<open>xshort\<close> make it; a source file is its name with the pieces that \<open>read\<close> returns.  \<open>None\<close> is the exit of
  the program by a failed assertion or by \<open>die\<close>; that the host's files can be opened, read and written is assumed.
\<close>

section \<open>Layout\<close>

abbreviation FSSIZE :: nat where "FSSIZE \<equiv> 2000"
abbreviation NINODES :: nat where "NINODES \<equiv> 200"

definition nbitmap :: nat where "nbitmap = FSSIZE div BPB + 1"
definition ninodeblocks :: nat where "ninodeblocks = NINODES div IPB + 1"
definition nlog :: nat where "nlog = LOGBLOCKS + 1"
definition nmeta :: nat where "nmeta = 2 + nlog + ninodeblocks + nbitmap"

definition mk_sb :: superblock where
  "mk_sb = \<lparr>sb_magic = FSMAGIC, sb_size = of_nat FSSIZE, sb_nblocks = of_nat (FSSIZE - nmeta), sb_ninodes = of_nat NINODES,
     sb_nlog = of_nat nlog, sb_logstart = 2, sb_inodestart = of_nat (2 + nlog), sb_bmapstart = of_nat (2 + nlog + ninodeblocks)\<rparr>"

text \<open>\<open>memmove(buf, &sb, sizeof(sb))\<close>.\<close>
definition put_sb :: "superblock \<Rightarrow> u8 list \<Rightarrow> u8 list" where
  "put_sb b d = foldl (\<lambda>d (i, w). put32 d (4 * i) w) d
     (enumerate 0 [sb_magic b, sb_size b, sb_nblocks b, sb_ninodes b, sb_nlog b, sb_logstart b, sb_inodestart b, sb_bmapstart b])"

section \<open>Sectors and inodes\<close>

record mkst =
  m_img :: "u32 \<Rightarrow> u8 list"
  m_freeinode :: u32
  m_freeblock :: u32

definition wsect :: "u32 \<Rightarrow> u8 list \<Rightarrow> mkst \<Rightarrow> mkst" where
  "wsect sec buf st = st\<lparr>m_img := (m_img st)(sec := buf)\<rparr>"

text \<open>Reading behind the end of the image fails.\<close>
definition rsect :: "u32 \<Rightarrow> mkst \<Rightarrow> u8 list option" where
  "rsect sec st = (if unat sec < FSSIZE then Some (m_img st sec) else None)"

definition winode :: "u32 \<Rightarrow> dinode \<Rightarrow> mkst \<Rightarrow> mkst option" where
  "winode inum di st =
     (let bn = IBLOCK inum mk_sb in
      case rsect bn st of None \<Rightarrow> None | Some buf \<Rightarrow> Some (wsect bn (put_dinode buf (unat inum mod IPB) di) st))"

definition rinode :: "u32 \<Rightarrow> mkst \<Rightarrow> dinode option" where
  "rinode inum st =
     (case rsect (IBLOCK inum mk_sb) st of None \<Rightarrow> None | Some buf \<Rightarrow> Some (get_dinode buf (unat inum mod IPB)))"

definition mk_ialloc :: "u16 \<Rightarrow> mkst \<Rightarrow> (u32 \<times> mkst) option" where
  "mk_ialloc ty st =
     (let inum = m_freeinode st; st = st\<lparr>m_freeinode := m_freeinode st + 1\<rparr> in
      case winode inum (blank_dinode\<lparr>d_type := ty, d_nlink := 1, d_size := 0\<rparr>) st of
        None \<Rightarrow> None | Some st \<Rightarrow> Some (inum, st))"

section \<open>Appending to a file\<close>

definition mk_addr :: "nat \<Rightarrow> dinode \<Rightarrow> mkst \<Rightarrow> dinode \<times> mkst" where
  "mk_addr k din st =
     (if d_addrs din ! k = 0
      then (din\<lparr>d_addrs := (d_addrs din)[k := m_freeblock st]\<rparr>, st\<lparr>m_freeblock := m_freeblock st + 1\<rparr>)
      else (din, st))"

definition mk_slot :: "nat \<Rightarrow> dinode \<Rightarrow> mkst \<Rightarrow> (u32 \<times> dinode \<times> mkst) option" where
  "mk_slot fbn din st =
     (if fbn < NDIRECT then case mk_addr fbn din st of (din, st) \<Rightarrow> Some (d_addrs din ! fbn, din, st)
      else case mk_addr NDIRECT din st of (din, st) \<Rightarrow>
        case rsect (d_addrs din ! NDIRECT) st of
          None \<Rightarrow> None
        | Some ind \<Rightarrow>
            if get32 ind (4 * (fbn - NDIRECT)) = 0
            then let ind = put32 ind (4 * (fbn - NDIRECT)) (m_freeblock st);
                     st = wsect (d_addrs din ! NDIRECT) ind (st\<lparr>m_freeblock := m_freeblock st + 1\<rparr>)
                 in Some (get32 ind (4 * (fbn - NDIRECT)), din, st)
            else Some (get32 ind (4 * (fbn - NDIRECT)), din, st))"

function iappend_loop :: "dinode \<Rightarrow> nat \<Rightarrow> u8 list \<Rightarrow> mkst \<Rightarrow> (dinode \<times> nat \<times> mkst) option" where
  "iappend_loop din off p st =
     (if p = [] then Some (din, off, st)
      else let fbn = off div BSIZE in
        if \<not> fbn < MAXFILE then None
        else case mk_slot fbn din st of
          None \<Rightarrow> None
        | Some (x, din, st) \<Rightarrow>
            let n1 = min (length p) ((fbn + 1) * BSIZE - off) in
            case rsect x st of
              None \<Rightarrow> None
            | Some buf \<Rightarrow> iappend_loop din (off + n1) (drop n1 p) (wsect x (patch (off - fbn * BSIZE) (take n1 p) buf) st))"
  by pat_completeness auto
termination
proof (relation "measure (\<lambda>(din, off, p, st). length p)", goal_cases)
  case (2 din off p st fbn)
  have "off < (off div BSIZE + 1) * BSIZE" using mod_less_divisor [of BSIZE off] div_mult_mod_eq [of off BSIZE] by simp
  then show ?case using 2 by (cases p) auto
qed simp

declare iappend_loop.simps [simp del]

definition iappend :: "u32 \<Rightarrow> u8 list \<Rightarrow> mkst \<Rightarrow> mkst option" where
  "iappend inum p st =
     (case rinode inum st of
        None \<Rightarrow> None
      | Some din \<Rightarrow> (case iappend_loop din (unat (d_size din)) p st of
          None \<Rightarrow> None
        | Some (din, off, st) \<Rightarrow> winode inum (din\<lparr>d_size := of_nat off\<rparr>) st))"

section \<open>The image\<close>

definition mk_balloc :: "nat \<Rightarrow> mkst \<Rightarrow> mkst option" where
  "mk_balloc n_used st =
     (if \<not> n_used < BPB then None
      else Some (wsect (sb_bmapstart mk_sb) (foldl (\<lambda>d i. set_used i d) (replicate BSIZE 0) [0..<n_used]) st))"

definition mk_start :: mkst where
  "mk_start = \<lparr>m_img = (\<lambda>_. replicate BSIZE 0)(1 := put_sb mk_sb (replicate BSIZE 0)), m_freeinode = 1, m_freeblock = of_nat nmeta\<rparr>"

definition mk_dirent :: "u32 \<Rightarrow> u8 list \<Rightarrow> u8 list" where
  "mk_dirent inum name = put_dirent \<lparr>de_inum = ucast inum, de_name = strncpy_obj DIRSIZ name\<rparr>"

text \<open>The root directory with \<open>.\<close> and \<open>..\<close>.\<close>
definition mk_root :: "mkst \<Rightarrow> mkst option" where
  "mk_root st =
     (case mk_ialloc T_DIR st of
        None \<Rightarrow> None
      | Some (rootino, st) \<Rightarrow>
          if rootino \<noteq> ROOTINO then None
          else case iappend rootino (mk_dirent rootino [46]) st of
            None \<Rightarrow> None
          | Some st \<Rightarrow> iappend rootino (mk_dirent rootino [46, 46]) st)"

text \<open>The name in the image: without the directory \<open>user/\<close> and a leading underscore.\<close>
definition mk_shortname :: "u8 list \<Rightarrow> u8 list option" where
  "mk_shortname arg =
     (let n = (if take 5 arg = [117, 115, 101, 114, 47] then drop 5 arg else arg) in
      if SLASH \<in> set n then None
      else let n = (case n of [] \<Rightarrow> [] | c # cs \<Rightarrow> if c = 95 then cs else c # cs)
           in if length n \<le> DIRSIZ then Some n else None)"

primrec iappend_all :: "u32 \<Rightarrow> u8 list list \<Rightarrow> mkst \<Rightarrow> mkst option" where
  "iappend_all inum [] st = Some st"
| "iappend_all inum (p # ps) st = (case iappend inum p st of None \<Rightarrow> None | Some st \<Rightarrow> iappend_all inum ps st)"

definition mk_file :: "u8 list \<times> u8 list list \<Rightarrow> mkst \<Rightarrow> mkst option" where
  "mk_file f st =
     (case mk_shortname (fst f) of
        None \<Rightarrow> None
      | Some name \<Rightarrow> (case mk_ialloc T_FILE st of
          None \<Rightarrow> None
        | Some (inum, st) \<Rightarrow> (case iappend ROOTINO (mk_dirent inum name) st of
            None \<Rightarrow> None
          | Some st \<Rightarrow> iappend_all inum (snd f) st)))"

primrec mk_files :: "(u8 list \<times> u8 list list) list \<Rightarrow> mkst \<Rightarrow> mkst option" where
  "mk_files [] st = Some st"
| "mk_files (f # fs) st = (case mk_file f st of None \<Rightarrow> None | Some st \<Rightarrow> mk_files fs st)"

text \<open>The size of the root directory becomes a whole number of blocks.\<close>
definition mk_fix_root :: "mkst \<Rightarrow> mkst option" where
  "mk_fix_root st =
     (case rinode ROOTINO st of
        None \<Rightarrow> None
      | Some din \<Rightarrow> winode ROOTINO (din\<lparr>d_size := (d_size din div of_nat BSIZE + 1) * of_nat BSIZE\<rparr>) st)"

definition mkfs :: "(u8 list \<times> u8 list list) list \<Rightarrow> mkst option" where
  "mkfs fs =
     (case mk_root mk_start of
        None \<Rightarrow> None
      | Some st \<Rightarrow> (case mk_files fs st of
          None \<Rightarrow> None
        | Some st \<Rightarrow> (case mk_fix_root st of
            None \<Rightarrow> None
          | Some st \<Rightarrow> mk_balloc (unat (m_freeblock st)) st)))"

section \<open>The blocks of a file\<close>

definition baddr :: "(u32 \<Rightarrow> u8 list) \<Rightarrow> u32 list \<Rightarrow> nat \<Rightarrow> u32" where
  "baddr v as k = (if k < NDIRECT then as ! k else get32 (v (as ! NDIRECT)) (4 * (k - NDIRECT)))"

lemma faddr_load [simp]: "faddr v (load_dinode din x) = baddr v (d_addrs din)"
  by (auto simp: faddr_def baddr_def load_dinode_def fun_eq_iff)

text \<open>A block in the data area that has been given out.\<close>
abbreviation in_data :: "nat \<Rightarrow> u32 \<Rightarrow> bool" where
  "in_data fb b \<equiv> nmeta \<le> unat b \<and> unat b < fb"

text \<open>
  The layout of a file with \<open>nb\<close> blocks: they are different, whole, and in the data area below \<open>fb\<close>, and so is the block of indirect
  addresses as soon as there are more than twelve; the other addresses are 0.
\<close>
definition lay :: "(u32 \<Rightarrow> u8 list) \<Rightarrow> nat \<Rightarrow> u32 list \<Rightarrow> nat \<Rightarrow> bool" where
  "lay v fb as nb \<longleftrightarrow> length as = NDIRECT + 1 \<and> nb \<le> MAXFILE
     \<and> (\<forall>k < nb. in_data fb (baddr v as k) \<and> length (v (baddr v as k)) = BSIZE) \<and> inj_on (baddr v as) {..<nb}
     \<and> (\<forall>k. nb \<le> k \<and> k < NDIRECT \<longrightarrow> as ! k = 0)
     \<and> (if nb \<le> NDIRECT then as ! NDIRECT = 0
        else in_data fb (as ! NDIRECT) \<and> length (v (as ! NDIRECT)) = BSIZE \<and> as ! NDIRECT \<notin> baddr v as ` {..<nb}
          \<and> (\<forall>k. nb \<le> k \<and> k < MAXFILE \<longrightarrow> baddr v as k = 0))"

definition blocks_in :: "(u32 \<Rightarrow> u8 list) \<Rightarrow> u32 list \<Rightarrow> nat \<Rightarrow> u32 set" where
  "blocks_in v as nb = baddr v as ` {..<nb} \<union> (if nb \<le> NDIRECT then {} else {as ! NDIRECT})"

text \<open>The blocks not given out are zero.\<close>
definition unwritten :: "(u32 \<Rightarrow> u8 list) \<Rightarrow> nat \<Rightarrow> bool" where
  "unwritten v fb \<longleftrightarrow> nmeta \<le> fb \<and> (\<forall>b. fb \<le> unat b \<and> unat b < FSSIZE \<longrightarrow> v b = replicate BSIZE 0)"

lemma nmeta_pos: "0 < nmeta"
  by (simp add: nmeta_def)

lemma lay_cong:
  assumes "lay v fb as nb" "\<forall>b \<in> blocks_in v as nb. v' b = v b" "fb \<le> fb'"
  shows "lay v' fb' as nb" "baddr v' as k = baddr v as k \<or> nb \<le> NDIRECT \<and> NDIRECT \<le> k" "blocks_in v' as nb = blocks_in v as nb"
proof -
  have e: "baddr v' as k = baddr v as k" if "k < NDIRECT \<or> NDIRECT < nb" for k
    using that assms(2) by (auto simp: baddr_def blocks_in_def)
  have e2: "baddr v' as k = baddr v as k" if "k < nb" for k using e [of k] that by linarith
  then have im: "baddr v' as ` {..<nb} = baddr v as ` {..<nb}" by (intro image_cong) auto
  show "baddr v' as k = baddr v as k \<or> nb \<le> NDIRECT \<and> NDIRECT \<le> k" using e [of k] by linarith
  show "blocks_in v' as nb = blocks_in v as nb" by (simp add: blocks_in_def im)
  have "inj_on (baddr v' as) {..<nb}" using assms(1) e2 by (auto simp: lay_def inj_on_def)
  moreover have "in_data fb' (baddr v' as k) \<and> length (v' (baddr v' as k)) = BSIZE" if "k < nb" for k
    using e2 [OF that] assms that by (auto simp: lay_def blocks_in_def)
  moreover have "v' (as ! NDIRECT) = v (as ! NDIRECT)" if "\<not> nb \<le> NDIRECT" using assms(2) that by (simp add: blocks_in_def)
  ultimately show "lay v' fb' as nb" using assms(1,3) e im unfolding lay_def by (auto simp: not_le)
qed

text \<open>One more block \<open>x\<close> at the end of the file, as the addresses \<open>as'\<close> and the contents \<open>v'\<close> name it.\<close>
definition grown :: "(u32 \<Rightarrow> u8 list) \<Rightarrow> nat \<Rightarrow> u32 list \<Rightarrow> nat \<Rightarrow> (u32 \<Rightarrow> u8 list) \<Rightarrow> nat \<Rightarrow> u32 list \<Rightarrow> nat \<Rightarrow> bool" where
  "grown v fb as nb v' fb' as' nb' \<longleftrightarrow> lay v' fb' as' nb' \<and> unwritten v' fb' \<and> fb \<le> fb' \<and> nb \<le> nb'
     \<and> (\<forall>j < nb. baddr v' as' j = baddr v as j \<and> v' (baddr v as j) = v (baddr v as j))
     \<and> blocks_in v' as' nb' \<subseteq> blocks_in v as nb \<union> {b. fb \<le> unat b \<and> unat b < fb'}
     \<and> (\<forall>b. b \<notin> blocks_in v' as' nb' \<longrightarrow> v' b = v b)"

lemma lay_below: "lay v fb as nb \<Longrightarrow> b \<in> blocks_in v as nb \<Longrightarrow> in_data fb b"
  by (auto simp: lay_def blocks_in_def split: if_splits)

lemma grow_direct:
  assumes l: "lay v fb as nb" and f: "unwritten v fb" and nb: "nb < NDIRECT" and x: "unat x = fb" "fb < FSSIZE"
  shows "grown v fb as nb v (fb + 1) (as[nb := x]) (nb + 1) \<and> baddr v (as[nb := x]) nb = x"
proof -
  have len: "length as = 13" using l by (simp add: lay_def)
  have b: "baddr v (as[nb := x]) j = baddr v as j" if "j < nb" for j using that nb by (simp add: baddr_def)
  have bx: "baddr v (as[nb := x]) nb = x" using nb len by (simp add: baddr_def)
  have zx: "v x = replicate BSIZE 0" "nmeta \<le> fb" using f x by (auto simp: unwritten_def)
  have old: "in_data fb (baddr v as j) \<and> length (v (baddr v as j)) = BSIZE" if "j < nb" for j using l that by (simp add: lay_def)
  have im: "baddr v (as[nb := x]) ` {..<nb + 1} = insert x (baddr v as ` {..<nb})"
    using b bx by (auto simp: lessThan_Suc)
  have xn: "x \<notin> baddr v as ` {..<nb}" using old x(1) by auto
  have "in_data (fb + 1) (baddr v (as[nb := x]) k) \<and> length (v (baddr v (as[nb := x]) k)) = BSIZE" if "k < nb + 1" for k
    using that old [of k] b [of k] bx zx x by (cases "k = nb") auto
  moreover have "inj_on (baddr v (as[nb := x])) {..<nb + 1}"
  proof -
    have "inj_on (baddr v as) {..<nb}" using l by (simp add: lay_def)
    then have "inj_on (baddr v (as[nb := x])) {..<nb}" using b by (auto simp: inj_on_def)
    then show ?thesis using xn b bx by (auto simp: lessThan_Suc)
  qed
  ultimately have "lay v (fb + 1) (as[nb := x]) (nb + 1)" using l nb by (auto simp: lay_def)
  moreover have "blocks_in v (as[nb := x]) (nb + 1) = insert x (blocks_in v as nb)" using nb im by (simp add: blocks_in_def)
  moreover have "unwritten v (fb + 1)" using f by (auto simp: unwritten_def)
  ultimately show ?thesis using b bx x by (auto simp: grown_def)
qed

lemma get32_zero: "o' + 4 \<le> n \<Longrightarrow> get32 (replicate n 0) o' = 0"
  by (simp add: get32_def)

text \<open>The addresses after one more entry in the block of indirect addresses \<open>q\<close>.\<close>
lemma grow_entry:
  assumes len: "length as = NDIRECT + 1" and q: "as ! NDIRECT = q" "length d = BSIZE" and nb: "NDIRECT \<le> nb" "nb < MAXFILE"
    and w: "v' = v(q := put32 d (4 * (nb - NDIRECT)) x)"
  shows "j < NDIRECT \<Longrightarrow> baddr v' as j = as ! j" "baddr v' as nb = x"
    "NDIRECT \<le> j \<Longrightarrow> j \<noteq> nb \<Longrightarrow> baddr v' as j = get32 d (4 * (j - NDIRECT))"
proof -
  show "j < NDIRECT \<Longrightarrow> baddr v' as j = as ! j" by (simp add: baddr_def)
  have "4 * (nb - NDIRECT) + 4 \<le> length d" using nb q(2) by simp
  then show "baddr v' as nb = x" using nb q by (simp add: baddr_def w)
  show "baddr v' as j = get32 d (4 * (j - NDIRECT))" if "NDIRECT \<le> j" "j \<noteq> nb"
    using that nb q by (auto simp: baddr_def w intro!: get32_put32_other)
qed

lemma grow_indirect:
  assumes l: "lay v fb as nb" and f: "unwritten v fb" and nb: "NDIRECT < nb" "nb < MAXFILE" and x: "unat x = fb" "fb < FSSIZE"
  defines "v' \<equiv> v(as ! NDIRECT := put32 (v (as ! NDIRECT)) (4 * (nb - NDIRECT)) x)"
  shows "grown v fb as nb v' (fb + 1) as (nb + 1) \<and> baddr v' as nb = x"
proof -
  let ?q = "as ! NDIRECT"
  have q: "length as = NDIRECT + 1" "in_data fb ?q" "length (v ?q) = BSIZE" "?q \<notin> baddr v as ` {..<nb}"
    "\<And>k. nb \<le> k \<Longrightarrow> k < MAXFILE \<Longrightarrow> baddr v as k = 0" using l nb by (auto simp: lay_def)
  have nb': "NDIRECT \<le> nb" using nb by simp
  note g = grow_entry [OF q(1) refl q(3) nb'(1) nb(2), of v' v x, OF meta_eq_to_obj_eq [OF v'_def]]
  have b: "baddr v' as j = baddr v as j" if "j \<noteq> nb" for j using g(1,3) [of j] that by (cases "j < NDIRECT") (auto simp: baddr_def)
  have old: "in_data fb (baddr v as j) \<and> length (v (baddr v as j)) = BSIZE \<and> baddr v as j \<noteq> ?q" if "j < nb" for j
  proof -
    have "?q \<noteq> baddr v as j" using q(4) that by blast
    then show ?thesis using l that by (simp add: lay_def)
  qed
  have xq: "x \<noteq> ?q" "x \<notin> baddr v as ` {..<nb}" using q(2) x old by auto
  have zx: "v x = replicate BSIZE 0" "nmeta \<le> fb" using f x by (auto simp: unwritten_def)
  have im: "baddr v' as ` {..<nb + 1} = insert x (baddr v as ` {..<nb})" using b g(2) by (auto simp: lessThan_Suc)
  have "in_data (fb + 1) (baddr v' as k) \<and> length (v' (baddr v' as k)) = BSIZE" if "k < nb + 1" for k
  proof (cases "k = nb")
    case True
    then show ?thesis using g(2) x zx xq by (simp add: v'_def)
  next
    case False
    then have "k < nb" using that by simp
    from old [OF this] b [OF False] show ?thesis by (simp add: v'_def)
  qed
  moreover have "inj_on (baddr v' as) {..<nb + 1}"
  proof -
    have "inj_on (baddr v as) {..<nb}" using l by (simp add: lay_def)
    then have "inj_on (baddr v' as) {..<nb}" using b by (auto simp: inj_on_def)
    then show ?thesis using xq b g(2) by (auto simp: lessThan_Suc)
  qed
  moreover have "in_data (fb + 1) ?q" "length (v' ?q) = BSIZE" "?q \<notin> baddr v' as ` {..<nb + 1}"
    using q xq unfolding im by (auto simp: v'_def)
  ultimately have "lay v' (fb + 1) as (nb + 1)" using q(1,5) nb b unfolding lay_def by auto
  moreover have "blocks_in v' as (nb + 1) = insert x (blocks_in v as nb)" using nb im by (auto simp: blocks_in_def)
  moreover have "unwritten v' (fb + 1)" using f q(2) by (auto simp: unwritten_def v'_def)
  moreover have "v' (baddr v as j) = v (baddr v as j)" if "j < nb" for j using old [OF that] by (simp add: v'_def)
  moreover have "?q \<in> blocks_in v as nb" using nb by (simp add: blocks_in_def)
  ultimately show ?thesis using b g(2) x by (auto simp: grown_def v'_def)
qed

lemma grow_first_indirect:
  assumes l: "lay v fb as NDIRECT" and f: "unwritten v fb" and q: "unat q = fb" and x: "unat x = fb + 1" "fb + 1 < FSSIZE"
  defines "v' \<equiv> v(q := put32 (v q) 0 x)" and "as' \<equiv> as[NDIRECT := q]"
  shows "grown v fb as NDIRECT v' (fb + 2) as' (NDIRECT + 1) \<and> baddr v' as' NDIRECT = x"
proof -
  have len: "length as = 13" using l by (simp add: lay_def)
  have z: "v x = replicate BSIZE 0" "v q = replicate BSIZE 0" "nmeta \<le> fb" using f x q by (auto simp: unwritten_def)
  have lq: "length as' = NDIRECT + 1" "as' ! NDIRECT = q" "length (v q) = BSIZE" using len z by (auto simp: as'_def)
  have w: "v' = v(q := put32 (v q) (4 * (NDIRECT - NDIRECT)) x)" by (simp add: v'_def)
  note g = grow_entry [OF lq order_refl _ w, simplified]
  have b: "baddr v' as' j = baddr v as j" if "j < NDIRECT" for j using g(1) [OF that] that by (simp add: baddr_def as'_def)
  have zero: "baddr v' as' k = 0" if "NDIRECT + 1 \<le> k" "k < MAXFILE" for k
    using g(3) [of k] that get32_zero [of "4 * (k - NDIRECT)" BSIZE] by (simp add: z)
  have old: "in_data fb (baddr v as j) \<and> length (v (baddr v as j)) = BSIZE" if "j < NDIRECT" for j using l that by (auto simp: lay_def)
  have xq: "x \<noteq> q" "x \<notin> baddr v as ` {..<NDIRECT}" "q \<notin> baddr v as ` {..<NDIRECT}" using q x by (auto dest!: old)
  have im: "baddr v' as' ` {..<NDIRECT + 1} = insert x (baddr v as ` {..<NDIRECT})"
  proof -
    have s: "{..<NDIRECT + 1} = insert NDIRECT {..<NDIRECT}" by auto
    have "baddr v' as' ` {..<NDIRECT} = baddr v as ` {..<NDIRECT}" using b by (intro image_cong) auto
    then show ?thesis unfolding s image_insert g(2) by simp
  qed
  have "in_data (fb + 2) (baddr v' as' k) \<and> length (v' (baddr v' as' k)) = BSIZE" if "k < NDIRECT + 1" for k
  proof (cases "k = NDIRECT")
    case True
    then show ?thesis using g(2) x z xq by (simp add: v'_def)
  next
    case False
    then have k: "k < NDIRECT" using that by simp
    then have "baddr v as k \<noteq> q" using xq(3) by auto
    with old [OF k] b [OF k] show ?thesis by (simp add: v'_def)
  qed
  moreover have "inj_on (baddr v' as') {..<NDIRECT + 1}"
  proof -
    have "inj_on (baddr v as) {..<NDIRECT}" using l by (simp add: lay_def)
    then have "inj_on (baddr v' as') {..<NDIRECT}" using b by (auto simp: inj_on_def)
    moreover have "baddr v' as' NDIRECT \<notin> baddr v' as' ` {..<NDIRECT}" using xq(2) g(2) b by auto
    moreover have "{..<NDIRECT + 1} = insert NDIRECT {..<NDIRECT}" "{..<NDIRECT} - {NDIRECT} = {..<NDIRECT}" by auto
    ultimately show ?thesis by (simp only: inj_on_insert) simp
  qed
  moreover have "in_data (fb + 2) q" "length (v' q) = BSIZE" "q \<notin> baddr v' as' ` {..<NDIRECT + 1}"
    using q z xq unfolding im by (auto simp: v'_def)
  ultimately have "lay v' (fb + 2) as' (NDIRECT + 1)" using lq zero unfolding lay_def by auto
  moreover have "blocks_in v' as' (NDIRECT + 1) = insert q (insert x (blocks_in v as NDIRECT))" using im lq by (auto simp: blocks_in_def)
  moreover have "unwritten v' (fb + 2)" using f q by (auto simp: unwritten_def v'_def)
  moreover have "v' (baddr v as j) = v (baddr v as j)" if "j < NDIRECT" for j using xq(3) that by (auto simp: v'_def)
  ultimately show ?thesis using b g(2) x q by (auto simp: grown_def v'_def)
qed

text \<open>The steps of \<open>iappend\<close> that find or make the block for position \<open>k\<close>.\<close>
lemma mk_slot_spec:
  assumes l: "lay (m_img st) (unat (m_freeblock st)) (d_addrs din) nb" and f: "unwritten (m_img st) (unat (m_freeblock st))"
    and k: "k \<le> nb" "k < MAXFILE" and m: "mk_slot k din st = Some (x, din', st')" and x: "unat x < FSSIZE"
  shows "\<exists>as'. din' = din\<lparr>d_addrs := as'\<rparr> \<and> m_freeinode st' = m_freeinode st \<and> baddr (m_img st') as' k = x
    \<and> (unat (m_freeblock st') \<le> FSSIZE \<or> m_freeblock st' = m_freeblock st)
    \<and> grown (m_img st) (unat (m_freeblock st)) (d_addrs din) nb (m_img st') (unat (m_freeblock st')) as' (max nb (k + 1))"
proof (cases "k < nb")
  case True
  have ne: "baddr (m_img st) (d_addrs din) k \<noteq> 0" using l True nmeta_pos by (auto simp: lay_def)
  have ind: "d_addrs din ! NDIRECT \<noteq> 0" if "\<not> k < NDIRECT" using l True that nmeta_pos by (auto simp: lay_def)
  have "x = baddr (m_img st) (d_addrs din) k \<and> din' = din \<and> st' = st"
    using m ne ind by (auto simp: mk_slot_def mk_addr_def baddr_def rsect_def split: if_splits)
  moreover have "max nb (k + 1) = nb" using True by simp
  ultimately show ?thesis using l f by (intro exI [of _ "d_addrs din"]) (simp add: grown_def)
next
  case False
  then have kn: "k = nb" "max nb (k + 1) = nb + 1" using k by auto
  have inc: "unat (m_freeblock st + 1) = unat (m_freeblock st) + 1" if "unat (m_freeblock st) < FSSIZE" using that by (simp add: unat_add_32)
  consider "nb < NDIRECT" | "nb = NDIRECT" | "NDIRECT < nb" by linarith
  then show ?thesis
  proof cases
    case 1
    have z: "d_addrs din ! nb = 0" "length (d_addrs din) = 13" using l 1 by (auto simp: lay_def)
    have e: "x = m_freeblock st" "din' = din\<lparr>d_addrs := (d_addrs din)[nb := m_freeblock st]\<rparr>" "st' = st\<lparr>m_freeblock := m_freeblock st + 1\<rparr>"
      using m 1 z by (auto simp: kn(1) mk_slot_def mk_addr_def)
    show ?thesis using grow_direct [OF l f 1 refl] x e inc kn by (intro exI [of _ "(d_addrs din)[nb := m_freeblock st]"]) auto
  next
    case 2
    define q where "q = m_freeblock st"
    have z: "d_addrs din ! NDIRECT = 0" "length (d_addrs din) = 13" using l 2 by (auto simp: lay_def)
    have q: "unat q < FSSIZE" using m 2 z by (auto simp: kn(1) mk_slot_def mk_addr_def rsect_def q_def split: if_splits)
    have vq: "m_img st q = replicate BSIZE 0" using f q by (simp add: unwritten_def q_def)
    have e: "x = q + 1" "din' = din\<lparr>d_addrs := (d_addrs din)[NDIRECT := q]\<rparr>"
      "m_img st' = (m_img st)(q := put32 (m_img st q) 0 x)" "m_freeblock st' = q + 1 + 1" "m_freeinode st' = m_freeinode st"
      using m 2 z q vq get32_zero [of 0 BSIZE] by (auto simp: kn(1) mk_slot_def mk_addr_def rsect_def wsect_def Let_def q_def)
    have u: "unat (q + 1) = unat q + 1" "unat (q + 1 + 1) = unat q + 2" using q by (auto simp: unat_add_32)
    show ?thesis
      using grow_first_indirect [OF l [unfolded 2] f, of q x] x e u kn 2
      by (intro exI [of _ "(d_addrs din)[NDIRECT := q]"]) (auto simp: q_def)
  next
    case 3
    have z: "d_addrs din ! NDIRECT \<noteq> 0" "unat (d_addrs din ! NDIRECT) < unat (m_freeblock st)" "baddr (m_img st) (d_addrs din) nb = 0"
      "length (m_img st (d_addrs din ! NDIRECT)) = BSIZE"
      using l 3 k kn(1) nmeta_pos by (auto simp: lay_def)
    have g0: "get32 (m_img st (d_addrs din ! NDIRECT)) (4 * (nb - NDIRECT)) = 0" using z(3) 3 by (simp add: baddr_def)
    have o4: "4 * (nb - NDIRECT) + 4 \<le> BSIZE" using k(2) kn(1) 3 by simp
    have e: "x = m_freeblock st" "din' = din" "m_freeblock st' = m_freeblock st + 1" "m_freeinode st' = m_freeinode st"
      "m_img st' = (m_img st)(d_addrs din ! NDIRECT := put32 (m_img st (d_addrs din ! NDIRECT)) (4 * (nb - NDIRECT)) (m_freeblock st))"
      using m 3 z g0 o4 by (auto simp: kn(1) mk_slot_def mk_addr_def rsect_def wsect_def Let_def split: if_splits)
    have "nb < MAXFILE" using k kn by simp
    then show ?thesis using grow_indirect [OF l f 3 _ refl] x e inc kn by (intro exI [of _ "d_addrs din"]) auto
  qed
qed

section \<open>The contents of a file\<close>

definition contains :: "(u32 \<Rightarrow> u8 list) \<Rightarrow> u32 list \<Rightarrow> u8 list \<Rightarrow> bool" where
  "contains v as c \<longleftrightarrow> (\<forall>i < length c. v (baddr v as (i div BSIZE)) ! (i mod BSIZE) = c ! i)"

definition nblk :: "nat \<Rightarrow> nat" where
  "nblk n = (n + (BSIZE - 1)) div BSIZE"

lemma lay_write:
  assumes l: "lay v fb as nb" and k: "k < nb" and d: "length d = BSIZE"
  defines "v' \<equiv> v(baddr v as k := d)"
  shows "lay v' fb as nb" "j < nb \<Longrightarrow> baddr v' as j = baddr v as j" "blocks_in v' as nb = blocks_in v as nb"
proof -
  have q: "as ! NDIRECT \<noteq> baddr v as k" if "\<not> nb \<le> NDIRECT" using l k that by (auto simp: lay_def)
  have e: "baddr v' as j = baddr v as j" if "j < NDIRECT \<or> \<not> nb \<le> NDIRECT" for j using that q by (auto simp: baddr_def v'_def)
  show e2: "baddr v' as j = baddr v as j" if "j < nb" for j using e [of j] that by linarith
  then have im: "baddr v' as ` {..<nb} = baddr v as ` {..<nb}" by (intro image_cong) auto
  show "blocks_in v' as nb = blocks_in v as nb" by (simp add: blocks_in_def im)
  have "inj_on (baddr v' as) {..<nb}" using l e2 by (auto simp: lay_def inj_on_def)
  moreover have "in_data fb (baddr v' as j) \<and> length (v' (baddr v' as j)) = BSIZE" if "j < nb" for j
    using e2 [OF that] l d that by (auto simp: lay_def v'_def)
  moreover have "v' (as ! NDIRECT) = v (as ! NDIRECT)" if "\<not> nb \<le> NDIRECT" using q [OF that] by (simp add: v'_def)
  ultimately show "lay v' fb as nb" using l e im unfolding lay_def by auto
qed

lemma block_room: "n \<le> (off div BSIZE + 1) * BSIZE - off \<longleftrightarrow> off mod BSIZE + n \<le> BSIZE"
proof -
  have o: "off div BSIZE * BSIZE + off mod BSIZE = off" "off mod BSIZE < BSIZE" by auto
  then have "(off div BSIZE + 1) * BSIZE - off = BSIZE - off mod BSIZE" unfolding add_mult_distrib by linarith
  then show ?thesis using o(2) by linarith
qed

lemma nblk_step:
  assumes "0 < n" "n \<le> (off div BSIZE + 1) * BSIZE - off"
  shows "nblk (off + n) = off div BSIZE + 1" "off div BSIZE \<le> nblk off" "nblk off \<le> off div BSIZE + 1"
proof -
  have o: "off = off div BSIZE * BSIZE + off mod BSIZE" "off mod BSIZE < BSIZE" by auto
  have "off + n + (BSIZE - 1) = off div BSIZE * BSIZE + (off mod BSIZE + n + (BSIZE - 1))" using o by simp
  moreover have "(off mod BSIZE + n + (BSIZE - 1)) div BSIZE = 1"
  proof -
    have "off mod BSIZE + n \<le> BSIZE" using assms(2) block_room [of n off] by blast
    then show ?thesis using assms(1) by (intro div_nat_eqI) auto
  qed
  ultimately show "nblk (off + n) = off div BSIZE + 1" unfolding nblk_def by (metis div_mult_self3 zero_neq_numeral add.commute)
  show "off div BSIZE \<le> nblk off" unfolding nblk_def by (rule div_le_mono) simp
  have "nblk off \<le> (off + BSIZE) div BSIZE" unfolding nblk_def by (rule div_le_mono) simp
  then show "nblk off \<le> off div BSIZE + 1" by simp
qed

text \<open>One round of the loop: the piece \<open>p\<close> goes into the block of position \<open>off div BSIZE\<close>.\<close>
lemma append_piece:
  assumes g: "grown v fb as (nblk (length c)) v1 fb1 as1 (k + 1)" and h: "contains v as c" and k: "k = length c div BSIZE"
    and p: "0 < length p" "length p \<le> (k + 1) * BSIZE - length c"
  defines "v2 \<equiv> v1(baddr v1 as1 k := patch (length c - k * BSIZE) p (v1 (baddr v1 as1 k)))"
  shows "lay v2 fb1 as1 (nblk (length (c @ p)))" "contains v2 as1 (c @ p)" "blocks_in v2 as1 (nblk (length (c @ p))) = blocks_in v1 as1 (k + 1)"
proof -
  let ?x = "baddr v1 as1 k" and ?o = "length c - k * BSIZE"
  have nb: "nblk (length (c @ p)) = k + 1" "nblk (length c) \<le> k + 1" using nblk_step [of "length p" "length c"] p k by simp_all
  have l: "lay v1 fb1 as1 (k + 1)" using g by (simp add: grown_def)
  have lx: "length (v1 ?x) = BSIZE" using l by (simp add: lay_def)
  have o: "?o + length p \<le> length (v1 ?x)" "?o = length c mod BSIZE" using p(2) block_room [of "length p" "length c"] k lx by (simp_all add: minus_div_mult_eq_mod)
  have ld: "length (patch ?o p (v1 ?x)) = BSIZE" using length_patch [OF o(1)] lx by simp
  have kk: "k < k + 1" by simp
  note w = lay_write [OF l kk ld, folded v2_def]
  show "lay v2 fb1 as1 (nblk (length (c @ p)))" "blocks_in v2 as1 (nblk (length (c @ p))) = blocks_in v1 as1 (k + 1)" using w(1,3) nb by simp_all
  have inj: "inj_on (baddr v1 as1) {..<k + 1}" using l by (simp add: lay_def)
  have "v2 (baddr v2 as1 (i div BSIZE)) ! (i mod BSIZE) = (c @ p) ! i" if i: "i < length (c @ p)" for i
  proof -
    have ik: "i div BSIZE < k + 1" using i p nb(1) k by (auto simp: less_mult_imp_div_less)
    note b = w(2) [OF ik]
    show ?thesis
    proof (cases "i < length c")
      case True
      then have j: "i div BSIZE < nblk (length c)" by (auto simp: nblk_def)
      then have old: "baddr v1 as1 (i div BSIZE) = baddr v as (i div BSIZE)" "v1 (baddr v1 as1 (i div BSIZE)) ! (i mod BSIZE) = c ! i"
        using g h True by (auto simp: grown_def contains_def)
      show ?thesis
      proof (cases "i div BSIZE = k")
        case ik: True
        have "i mod BSIZE < ?o"
          using True ik k o(2) div_mult_mod_eq [of i BSIZE] div_mult_mod_eq [of "length c" BSIZE] by linarith
        moreover have "i mod BSIZE < length (v1 ?x)" using lx by simp
        ultimately show ?thesis using b old(2) ik True nth_patch [OF o(1), of "i mod BSIZE"] by (simp add: v2_def nth_append)
      next
        case False
        then have "baddr v1 as1 (i div BSIZE) \<noteq> ?x" using inj ik by (auto simp: inj_on_def)
        then show ?thesis using b old(2) True by (simp add: v2_def nth_append)
      qed
    next
      case False
      have "i < length c + length p" using i by simp
      then have lt: "?o + (i - length c) < BSIZE" using False o(1) lx by linarith
      have "i = ?o + (i - length c) + k * BSIZE" using False k div_mult_mod_eq [of "length c" BSIZE] by linarith
      then have ik': "i div BSIZE = k" "i mod BSIZE = ?o + (i - length c)"
        using lt by (metis div_mult_self1 div_less zero_neq_numeral add_0_right, metis mod_mult_self1 mod_less)
      obtain t where t: "i = length c + t" "t < length p" using False i le_Suc_ex [of "length c" i] by auto
      then have "patch ?o p (v1 ?x) ! (?o + t) = p ! t" using nth_patch [OF o(1), of "?o + t"] lt lx by simp
      moreover have "i mod BSIZE = ?o + t" using ik'(2) t(1) by simp
      ultimately show ?thesis using b ik'(1) t by (simp add: v2_def nth_append)
    qed
  qed
  then show "contains v2 as1 (c @ p)" by (simp add: contains_def)
qed

section \<open>Appending\<close>

definition filed :: "(u32 \<Rightarrow> u8 list) \<Rightarrow> nat \<Rightarrow> u32 list \<Rightarrow> u8 list \<Rightarrow> bool" where
  "filed v fb as c \<longleftrightarrow> lay v fb as (nblk (length c)) \<and> contains v as c"

text \<open>The contents go from \<open>c\<close> to \<open>c'\<close>; blocks given out before that are not the file's own stay as they are.\<close>
definition appended ::
  "(u32 \<Rightarrow> u8 list) \<Rightarrow> nat \<Rightarrow> u32 list \<Rightarrow> u8 list \<Rightarrow> (u32 \<Rightarrow> u8 list) \<Rightarrow> nat \<Rightarrow> u32 list \<Rightarrow> u8 list \<Rightarrow> bool" where
  "appended v fb as c v' fb' as' c' \<longleftrightarrow> filed v' fb' as' c' \<and> unwritten v' fb' \<and> fb \<le> fb' \<and> fb' \<le> FSSIZE
     \<and> blocks_in v' as' (nblk (length c')) \<subseteq> blocks_in v as (nblk (length c)) \<union> {b. fb \<le> unat b \<and> unat b < fb'}
     \<and> (\<forall>b. b \<notin> blocks_in v as (nblk (length c)) \<and> unat b < fb \<longrightarrow> v' b = v b)"

lemma appended_trans:
  assumes "appended v fb as c v1 fb1 as1 c1" "appended v1 fb1 as1 c1 v2 fb2 as2 c2"
  shows "appended v fb as c v2 fb2 as2 c2"
proof -
  let ?o = "blocks_in v as (nblk (length c))" and ?o1 = "blocks_in v1 as1 (nblk (length c1))" and ?o2 = "blocks_in v2 as2 (nblk (length c2))"
  have s: "?o1 \<subseteq> ?o \<union> {b. fb \<le> unat b \<and> unat b < fb1}" "?o2 \<subseteq> ?o1 \<union> {b. fb1 \<le> unat b \<and> unat b < fb2}" "fb \<le> fb1" "fb1 \<le> fb2"
    using assms by (simp_all add: appended_def)
  then have "?o2 \<subseteq> ?o \<union> {b. fb \<le> unat b \<and> unat b < fb2}" by fastforce
  moreover have "v2 b = v b" if "b \<notin> ?o" "unat b < fb" for b
  proof -
    have "b \<notin> ?o1" "unat b < fb1" using s that by auto
    then show ?thesis using assms that by (simp add: appended_def)
  qed
  moreover have "fb \<le> fb2" using s(3,4) by simp
  ultimately show ?thesis using assms(2) by (simp add: appended_def)
qed

abbreviation fbk :: "mkst \<Rightarrow> nat" where "fbk st \<equiv> unat (m_freeblock st)"

lemma append_step:
  assumes l: "filed (m_img st) (fbk st) (d_addrs din) c" and f: "unwritten (m_img st) (fbk st)" "fbk st \<le> FSSIZE"
    and k: "k = length c div BSIZE" "k < MAXFILE" and m: "mk_slot k din st = Some (x, din1, st1)" and r: "rsect x st1 = Some buf"
    and p: "0 < length p" "length p \<le> (k + 1) * BSIZE - length c"
  defines "st2 \<equiv> wsect x (patch (length c - k * BSIZE) p buf) st1"
  shows "\<exists>as1. din1 = din\<lparr>d_addrs := as1\<rparr> \<and> m_freeinode st2 = m_freeinode st
     \<and> appended (m_img st) (fbk st) (d_addrs din) c (m_img st2) (fbk st2) as1 (c @ p)"
proof -
  let ?v = "m_img st" and ?v1 = "m_img st1" and ?nb = "nblk (length c)"
  have x: "unat x < FSSIZE" "buf = ?v1 x" using r by (auto simp: rsect_def split: if_splits)
  have nb: "k \<le> ?nb" "max ?nb (k + 1) = k + 1" "nblk (length (c @ p)) = k + 1"
    using nblk_step [of "length p" "length c"] p k by auto
  have lc: "lay ?v (fbk st) (d_addrs din) ?nb" "contains ?v (d_addrs din) c" using l by (auto simp: filed_def)
  from mk_slot_spec [OF lc(1) f(1) nb(1) k(2) m x(1)] obtain as1 where
    a: "din1 = din\<lparr>d_addrs := as1\<rparr>" "m_freeinode st1 = m_freeinode st" "baddr ?v1 as1 k = x"
      "fbk st1 \<le> FSSIZE \<or> m_freeblock st1 = m_freeblock st"
      "grown ?v (fbk st) (d_addrs din) ?nb ?v1 (fbk st1) as1 (k + 1)" unfolding nb(2) by blast
  have i2: "m_img st2 = ?v1(baddr ?v1 as1 k := patch (length c - k * BSIZE) p (?v1 (baddr ?v1 as1 k)))" "m_freeblock st2 = m_freeblock st1"
    "m_freeinode st2 = m_freeinode st" using a x by (simp_all add: st2_def wsect_def)
  note q = append_piece [OF a(5) lc(2) k(1) p, folded i2(1)]
  have g: "unwritten ?v1 (fbk st1)" "fbk st \<le> fbk st1" "blocks_in ?v1 as1 (k + 1) \<subseteq> blocks_in ?v (d_addrs din) ?nb \<union> {b. fbk st \<le> unat b \<and> unat b < fbk st1}"
    "\<And>b. b \<notin> blocks_in ?v1 as1 (k + 1) \<Longrightarrow> ?v1 b = ?v b" "lay ?v1 (fbk st1) as1 (k + 1)" using a(5) by (auto simp: grown_def)
  have xo: "x \<in> blocks_in ?v1 as1 (k + 1)" using a(3) by (auto simp: blocks_in_def)
  have xl: "unat x < fbk st1" using g(5) a(3) by (auto simp: lay_def)
  have "unwritten (m_img st2) (fbk st2)" using g(1) xl a(3) by (auto simp: unwritten_def i2)
  moreover have "m_img st2 b = ?v b" if "b \<notin> blocks_in ?v (d_addrs din) ?nb" "unat b < fbk st" for b
  proof -
    have "b \<notin> blocks_in ?v1 as1 (k + 1)" using g(3) that by auto
    then show ?thesis using g(4) xo a(3) by (auto simp: i2)
  qed
  moreover have "fbk st2 \<le> FSSIZE" using a(4) f(2) by (auto simp: i2)
  ultimately have "appended ?v (fbk st) (d_addrs din) c (m_img st2) (fbk st2) as1 (c @ p)"
    using q g(2,3) unfolding appended_def filed_def i2(2) by auto
  then show ?thesis using a(1) i2(3) by blast
qed

lemma iappend_loop_spec:
  assumes "iappend_loop din off p st = Some (din', off', st')" "off = length c"
    "filed (m_img st) (fbk st) (d_addrs din) c" "unwritten (m_img st) (fbk st)" "fbk st \<le> FSSIZE"
  shows "\<exists>as'. din' = din\<lparr>d_addrs := as'\<rparr> \<and> off' = length (c @ p) \<and> m_freeinode st' = m_freeinode st
     \<and> appended (m_img st) (fbk st) (d_addrs din) c (m_img st') (fbk st') as' (c @ p)"
  using assms
proof (induction din off p st arbitrary: c rule: iappend_loop.induct)
  case (1 din off p st)
  show ?case
  proof (cases "p = []")
    case True
    then have "din' = din" "off' = off" "st' = st" using 1(2) iappend_loop.simps [of din off "[]" st] by simp_all
    then show ?thesis using True 1(3-6) by (intro exI [of _ "d_addrs din"]) (simp add: appended_def)
  next
    case p: False
    define k where "k = off div BSIZE"
    define n1 where "n1 = min (length p) ((k + 1) * BSIZE - off)"
    obtain x din1 st1 buf where m: "k < MAXFILE" "mk_slot k din st = Some (x, din1, st1)" "rsect x st1 = Some buf"
      and run: "iappend_loop din1 (off + n1) (drop n1 p) (wsect x (patch (off - k * BSIZE) (take n1 p) buf) st1) = Some (din', off', st')"
      using 1(2) p by (subst (asm) iappend_loop.simps) (auto simp: Let_def k_def n1_def split: if_splits option.splits)
    let ?st2 = "wsect x (patch (off - k * BSIZE) (take n1 p) buf) st1"
    have "off < (k + 1) * BSIZE" using mod_less_divisor [of BSIZE off] div_mult_mod_eq [of off BSIZE] unfolding k_def by simp
    then have n1: "0 < length (take n1 p)" "length (take n1 p) \<le> (k + 1) * BSIZE - length c" "off + n1 = length (c @ take n1 p)"
      using p 1(3) by (auto simp: n1_def)
    from append_step [OF 1(4-6) k_def [unfolded 1(3)] m n1(1,2)] obtain as1 where
      a: "din1 = din\<lparr>d_addrs := as1\<rparr>" "m_freeinode ?st2 = m_freeinode st"
        "appended (m_img st) (fbk st) (d_addrs din) c (m_img ?st2) (fbk ?st2) as1 (c @ take n1 p)" unfolding 1(3) by blast
    have f2: "filed (m_img ?st2) (fbk ?st2) (d_addrs din1) (c @ take n1 p)" "unwritten (m_img ?st2) (fbk ?st2)" "fbk ?st2 \<le> FSSIZE"
      using a(1,3) by (simp_all add: appended_def)
    have nk: "\<not> \<not> k < MAXFILE" using m(1) by simp
    from 1(1) [OF p k_def nk m(2) refl refl n1_def m(3) run n1(3) f2] obtain as2 where
      b: "din' = din1\<lparr>d_addrs := as2\<rparr>" "off' = length ((c @ take n1 p) @ drop n1 p)" "m_freeinode st' = m_freeinode ?st2"
        "appended (m_img ?st2) (fbk ?st2) (d_addrs din1) (c @ take n1 p) (m_img st') (fbk st') as2 ((c @ take n1 p) @ drop n1 p)" by blast
    have "appended (m_img st) (fbk st) (d_addrs din) c (m_img st') (fbk st') as2 (c @ p)"
      using appended_trans [OF a(3)] b(4) a(1) by simp
    then show ?thesis using a b by (intro exI [of _ as2]) simp
  qed
qed

lemma appended_meta:
  assumes "appended v fb as c v1 fb1 as1 c1" "filed v fb as c" "unwritten v fb" "unat b < nmeta"
  shows "v1 b = v b"
proof -
  have "lay v fb as (nblk (length c))" using assms(2) by (simp add: filed_def)
  then have "b \<notin> blocks_in v as (nblk (length c))" using lay_below assms(4) by fastforce
  moreover have "unat b < fb" using assms(3,4) by (simp add: unwritten_def)
  ultimately show ?thesis using assms(1) by (simp add: appended_def)
qed

section \<open>Room on the image\<close>

text \<open>The blocks of a file of \<open>n\<close> bytes, with the block of indirect addresses.\<close>
definition blocks_for :: "nat \<Rightarrow> nat" where
  "blocks_for n = nblk n + (if nblk n \<le> NDIRECT then 0 else 1)"

lemma blocks_for_mono: "n \<le> m \<Longrightarrow> blocks_for n \<le> blocks_for m"
proof -
  assume "n \<le> m"
  then have "nblk n \<le> nblk m" unfolding nblk_def by (intro div_le_mono) simp
  then show ?thesis by (simp add: blocks_for_def)
qed

abbreviation grow_for :: "nat \<Rightarrow> nat" where
  "grow_for nb \<equiv> (if nb = NDIRECT then 2 else 1)"

lemma mk_slot_succeeds:
  assumes l: "lay (m_img st) (fbk st) (d_addrs din) nb" and f: "unwritten (m_img st) (fbk st)" "fbk st \<le> FSSIZE" and k: "k \<le> nb" "k < MAXFILE"
    and room: "k = nb \<Longrightarrow> fbk st + grow_for nb \<le> FSSIZE"
  shows "\<exists>x din' st'. mk_slot k din st = Some (x, din', st') \<and> unat x < FSSIZE \<and> fbk st' = fbk st + (if k = nb then grow_for nb else 0)"
proof (cases "k < nb")
  case True
  let ?x = "baddr (m_img st) (d_addrs din) k"
  have x: "in_data (fbk st) ?x" using l True by (simp add: lay_def)
  have ind: "in_data (fbk st) (d_addrs din ! NDIRECT)" if "\<not> k < NDIRECT" using l True that by (auto simp: lay_def)
  have "mk_slot k din st = Some (?x, din, st)"
  proof (cases "k < NDIRECT")
    case True
    then have "?x = d_addrs din ! k" by (simp add: baddr_def)
    then show ?thesis using True x nmeta_pos by (auto simp: mk_slot_def mk_addr_def)
  next
    case False
    then have "?x = get32 (m_img st (d_addrs din ! NDIRECT)) (4 * (k - NDIRECT))" by (simp add: baddr_def)
    then show ?thesis using False x ind [OF False] nmeta_pos f(2) by (auto simp: mk_slot_def mk_addr_def rsect_def)
  qed
  then show ?thesis using True x f(2) by simp
next
  case False
  then have kn: "k = nb" using k by simp
  have room: "fbk st + grow_for nb \<le> FSSIZE" using room kn by simp
  consider "nb < NDIRECT" | "nb = NDIRECT" | "NDIRECT < nb" by linarith
  then show ?thesis
  proof cases
    case 1
    have "d_addrs din ! nb = 0" "length (d_addrs din) = 13" using l 1 by (auto simp: lay_def)
    then show ?thesis using 1 room by (simp add: kn mk_slot_def mk_addr_def unat_add_32)
  next
    case 2
    have z: "d_addrs din ! NDIRECT = 0" "length (d_addrs din) = 13" using l 2 by (auto simp: lay_def)
    have vq: "m_img st (m_freeblock st) = replicate BSIZE 0" using f room 2 by (simp add: unwritten_def)
    have "mk_slot k din st = Some (m_freeblock st + 1, din\<lparr>d_addrs := (d_addrs din)[NDIRECT := m_freeblock st]\<rparr>,
        wsect (m_freeblock st) (put32 (replicate BSIZE 0) 0 (m_freeblock st + 1)) (st\<lparr>m_freeblock := m_freeblock st + 1 + 1\<rparr>))"
      using room 2 vq z get32_zero [of 0 BSIZE] by (simp add: kn mk_slot_def mk_addr_def rsect_def wsect_def)
    then show ?thesis using room 2 kn by (simp add: wsect_def unat_add_32)
  next
    case 3
    have z: "d_addrs din ! NDIRECT \<noteq> 0" "unat (d_addrs din ! NDIRECT) < fbk st" "baddr (m_img st) (d_addrs din) nb = 0"
      "length (m_img st (d_addrs din ! NDIRECT)) = BSIZE"
      using l 3 k kn nmeta_pos by (auto simp: lay_def)
    have g0: "get32 (m_img st (d_addrs din ! NDIRECT)) (4 * (nb - NDIRECT)) = 0" using z(3) 3 by (simp add: baddr_def)
    have o4: "4 * (nb - NDIRECT) + 4 \<le> BSIZE" using k(2) kn 3 by simp
    show ?thesis using 3 z g0 o4 room by (simp add: kn mk_slot_def mk_addr_def rsect_def wsect_def Let_def unat_add_32)
  qed
qed

lemma iappend_loop_succeeds:
  assumes "off = length c" "filed (m_img st) (fbk st) (d_addrs din) c" "unwritten (m_img st) (fbk st)"
    "length (c @ p) \<le> MAXFILE * BSIZE" "fbk st + (blocks_for (length (c @ p)) - blocks_for (length c)) \<le> FSSIZE"
  shows "\<exists>din' off' st'. iappend_loop din off p st = Some (din', off', st')
     \<and> fbk st' = fbk st + (blocks_for (length (c @ p)) - blocks_for (length c))"
  using assms
proof (induction din off p st arbitrary: c rule: iappend_loop.induct)
  case (1 din off p st)
  show ?case
  proof (cases "p = []")
    case True
    then show ?thesis by (simp add: iappend_loop.simps)
  next
    case p: False
    define k where "k = off div BSIZE"
    define n1 where "n1 = min (length p) ((k + 1) * BSIZE - off)"
    have "off < (k + 1) * BSIZE" using mod_less_divisor [of BSIZE off] div_mult_mod_eq [of off BSIZE] unfolding k_def by simp
    then have n1: "0 < length (take n1 p)" "length (take n1 p) \<le> (k + 1) * BSIZE - length c" "off + n1 = length (c @ take n1 p)"
      using p 1(2) by (auto simp: n1_def)
    have km: "k < MAXFILE" using 1(2,5) p unfolding k_def by (intro less_mult_imp_div_less) (auto simp: length_greater_0_conv [symmetric] simp del: length_greater_0_conv)
    have fs: "fbk st \<le> FSSIZE" using 1(6) by simp
    let ?nb = "nblk (length c)"
    have nb: "k \<le> ?nb" "?nb \<le> k + 1" "nblk (length (c @ take n1 p)) = k + 1"
      using nblk_step [of "length (take n1 p)" "length c"] n1 1(2) unfolding k_def by auto
    have piece: "blocks_for (length (c @ take n1 p)) - blocks_for (length c) = (if k = ?nb then grow_for ?nb else 0)"
      using nb by (auto simp: blocks_for_def)
    have mono: "blocks_for (length c) \<le> blocks_for (length (c @ take n1 p))" "blocks_for (length (c @ take n1 p)) \<le> blocks_for (length (c @ p))"
      by (intro blocks_for_mono; simp)+
    have lc: "lay (m_img st) (fbk st) (d_addrs din) ?nb" using 1(3) by (simp add: filed_def)
    have "k = ?nb \<Longrightarrow> fbk st + grow_for ?nb \<le> FSSIZE" using 1(6) piece mono by (simp split: if_splits)
    from mk_slot_succeeds [OF lc 1(4) fs nb(1) km this] obtain x din1 st1 where
      m: "mk_slot k din st = Some (x, din1, st1)" "unat x < FSSIZE" "fbk st1 = fbk st + (blocks_for (length (c @ take n1 p)) - blocks_for (length c))"
      unfolding piece by blast
    let ?buf = "m_img st1 x"
    let ?st2 = "wsect x (patch (off - k * BSIZE) (take n1 p) ?buf) st1"
    have r: "rsect x st1 = Some ?buf" using m(2) by (simp add: rsect_def)
    from append_step [OF 1(3,4) fs k_def [unfolded 1(2)] km m(1) r n1(1,2)] obtain as1 where
      a: "din1 = din\<lparr>d_addrs := as1\<rparr>" "appended (m_img st) (fbk st) (d_addrs din) c (m_img ?st2) (fbk ?st2) as1 (c @ take n1 p)"
      unfolding 1(2) by blast
    have f2: "filed (m_img ?st2) (fbk ?st2) (d_addrs din1) (c @ take n1 p)" "unwritten (m_img ?st2) (fbk ?st2)"
      using a by (simp_all add: appended_def)
    have fb2: "fbk ?st2 = fbk st1" by (simp add: wsect_def)
    have e: "(c @ take n1 p) @ drop n1 p = c @ p" by simp
    have room: "fbk ?st2 + (blocks_for (length ((c @ take n1 p) @ drop n1 p)) - blocks_for (length (c @ take n1 p))) \<le> FSSIZE"
      using 1(6) m(3) mono unfolding e fb2 by linarith
    have nk: "\<not> \<not> k < MAXFILE" using km by simp
    from 1(1) [OF p k_def nk m(1) refl refl n1_def r n1(3) f2 1(5) [folded e] room] obtain din' off' st' where
      i: "iappend_loop din1 (off + n1) (drop n1 p) ?st2 = Some (din', off', st')"
        "fbk st' = fbk ?st2 + (blocks_for (length (c @ p)) - blocks_for (length (c @ take n1 p)))" unfolding e by blast
    have n1': "min (length p) (BSIZE + k * BSIZE - off) = n1" by (simp add: n1_def)
    have "iappend_loop din off p st = Some (din', off', st')"
      using p km m(1) r i(1) by (subst iappend_loop.simps) (simp add: Let_def k_def [symmetric] n1')
    then show ?thesis using i(2) fb2 m(3) mono by simp
  qed
qed

section \<open>The inodes of the image\<close>

definition minode :: "(u32 \<Rightarrow> u8 list) \<Rightarrow> u32 \<Rightarrow> dinode" where
  "minode v n = get_dinode (v (IBLOCK n mk_sb)) (unat n mod IPB)"

abbreviation inode_block :: "u32 \<Rightarrow> bool" where
  "inode_block b \<equiv> 2 + nlog \<le> unat b \<and> unat b < 2 + nlog + ninodeblocks"

text \<open>The sectors before the data blocks are whole, and only those of the inodes differ from the start.\<close>
definition meta_ok :: "(u32 \<Rightarrow> u8 list) \<Rightarrow> bool" where
  "meta_ok v \<longleftrightarrow> (\<forall>b. unat b < nmeta \<longrightarrow> length (v b) = BSIZE \<and> (\<not> inode_block b \<longrightarrow> v b = m_img mk_start b))"

lemma IBLOCK_area:
  assumes "unat n < 208"
  shows "inode_block (IBLOCK n mk_sb)" "unat (IBLOCK n mk_sb) < nmeta"
proof -
  have "unat (IBLOCK n mk_sb) = 33 + unat n div 8"
    using assms by (simp add: IBLOCK_def mk_sb_def nlog_def unat_add_32 unat_div)
  then show "inode_block (IBLOCK n mk_sb)" "unat (IBLOCK n mk_sb) < nmeta"
    using assms by (simp_all add: nlog_def ninodeblocks_def nmeta_def nbitmap_def)
qed

lemma winode_spec:
  assumes m: "meta_ok (m_img st)" and n: "unat n < 208" and d: "length (d_addrs di) = 13"
  shows "\<exists>v'. winode n di st = Some (st\<lparr>m_img := v'\<rparr>) \<and> meta_ok v' \<and> minode v' = (minode (m_img st))(n := di)
    \<and> (\<forall>b. nmeta \<le> unat b \<longrightarrow> v' b = m_img st b)"
proof -
  let ?v = "m_img st" and ?b = "IBLOCK n mk_sb"
  define v' where "v' = ?v(?b := put_dinode (?v ?b) (unat n mod IPB) di)"
  note a = IBLOCK_area [OF n]
  have l: "length (?v ?b) = BSIZE" using m a(2) by (simp add: meta_ok_def)
  have "nmeta < FSSIZE" by (simp add: nmeta_def nlog_def ninodeblocks_def nbitmap_def)
  then have "winode n di st = Some (st\<lparr>m_img := v'\<rparr>)" using a(2) by (simp add: winode_def rsect_def wsect_def v'_def Let_def)
  moreover have "meta_ok v'" using m a l by (auto simp: meta_ok_def v'_def)
  moreover have "minode v' = (minode ?v)(n := di)"
    using dinode_at_put [of ?v n mk_sb di, OF l d] by (auto simp: minode_def v'_def fun_eq_iff)
  moreover have "\<forall>b. nmeta \<le> unat b \<longrightarrow> v' b = ?v b" using a(2) by (auto simp: v'_def)
  ultimately show ?thesis by blast
qed

lemma rinode_spec: "unat n < 208 \<Longrightarrow> rinode n st = Some (minode (m_img st) n)"
  using IBLOCK_area [of n] by (simp add: rinode_def rsect_def minode_def nmeta_def nlog_def ninodeblocks_def nbitmap_def)

lemma filed_cong:
  assumes "filed v fb as c" "\<forall>b \<in> blocks_in v as (nblk (length c)). v' b = v b" "fb \<le> fb'"
  shows "filed v' fb' as c" "blocks_in v' as (nblk (length c)) = blocks_in v as (nblk (length c))"
proof -
  let ?n = "nblk (length c)"
  have l: "lay v fb as ?n" using assms(1) by (simp add: filed_def)
  note q = lay_cong [OF l assms(2,3)]
  show "blocks_in v' as ?n = blocks_in v as ?n" by (rule q(3))
  have "v' (baddr v' as (i div BSIZE)) = v (baddr v as (i div BSIZE))" if "i < length c" for i
  proof -
    have n: "i div BSIZE < ?n" using that by (auto simp: nblk_def)
    then have "baddr v' as (i div BSIZE) = baddr v as (i div BSIZE)" using q(2) [of "i div BSIZE"] by auto
    then show ?thesis using assms(2) n by (simp add: blocks_in_def)
  qed
  then have "contains v' as c" using assms(1) by (auto simp: filed_def contains_def)
  then show "filed v' fb' as c" using q(1) by (simp add: filed_def)
qed

definition ino :: "nat \<Rightarrow> u32" where
  "ino i = of_nat (i + 1)"

section \<open>The files of the image\<close>

definition file_at :: "(u32 \<Rightarrow> u8 list) \<Rightarrow> nat \<Rightarrow> u32 \<Rightarrow> u16 \<times> u8 list \<Rightarrow> bool" where
  "file_at v fb n f \<longleftrightarrow> d_type (minode v n) = fst f \<and> d_nlink (minode v n) = 1 \<and> unat (d_size (minode v n)) = length (snd f)
     \<and> filed v fb (d_addrs (minode v n)) (snd f)"

definition blocks_of :: "(u32 \<Rightarrow> u8 list) \<Rightarrow> u32 \<Rightarrow> u16 \<times> u8 list \<Rightarrow> u32 set" where
  "blocks_of v n f = blocks_in v (d_addrs (minode v n)) (nblk (length (snd f)))"

text \<open>The inodes 1, 2, ... hold the files \<open>fs\<close> in blocks of their own.\<close>
definition mk_inv :: "(u16 \<times> u8 list) list \<Rightarrow> mkst \<Rightarrow> bool" where
  "mk_inv fs st \<longleftrightarrow> m_freeinode st = ino (length fs) \<and> length fs < 208
     \<and> unwritten (m_img st) (fbk st) \<and> fbk st \<le> FSSIZE \<and> meta_ok (m_img st)
     \<and> (\<forall>i < length fs. file_at (m_img st) (fbk st) (ino i) (fs ! i))
     \<and> (\<forall>i < length fs. \<forall>j < length fs. i \<noteq> j \<longrightarrow>
          blocks_of (m_img st) (ino i) (fs ! i) \<inter> blocks_of (m_img st) (ino j) (fs ! j) = {})"

lemma file_at_cong:
  assumes f: "file_at v fb n f" and m: "minode v' n = minode v n" and b: "\<forall>b \<in> blocks_of v n f. v' b = v b" and fb: "fb \<le> fb'"
  shows "file_at v' fb' n f" "blocks_of v' n f = blocks_of v n f"
proof -
  have "filed v fb (d_addrs (minode v n)) (snd f)" using f by (simp add: file_at_def)
  note q = filed_cong [OF this b [unfolded blocks_of_def] fb]
  show "file_at v' fb' n f" "blocks_of v' n f = blocks_of v n f"
    using f q unfolding file_at_def blocks_of_def m by simp_all
qed

lemma blocks_below:
  assumes "file_at v fb n f" "b \<in> blocks_of v n f"
  shows "nmeta \<le> unat b" "unat b < fb"
  using assms lay_below [of v fb] by (auto simp: file_at_def filed_def blocks_of_def)

lemma filed_length: "filed v fb as c \<Longrightarrow> length c \<le> MAXFILE * BSIZE"
proof -
  assume "filed v fb as c"
  then have "nblk (length c) < MAXFILE + 1" by (simp add: filed_def lay_def)
  then have "length c + (BSIZE - 1) < (MAXFILE + 1) * BSIZE" unfolding nblk_def by (subst (asm) div_less_iff_less_mult) simp_all
  then show ?thesis by simp
qed

lemma unwritten_cong: "unwritten v fb \<Longrightarrow> \<forall>b. nmeta \<le> unat b \<longrightarrow> v' b = v b \<Longrightarrow> unwritten v' fb"
  by (auto simp: unwritten_def)

lemma unat_ino: "i < 207 \<Longrightarrow> unat (ino i) = i + 1"
  unfolding ino_def by (rule unat_of_nat_32) simp

lemma ino_eq: "i < 207 \<Longrightarrow> j < 207 \<Longrightarrow> ino i = ino j \<longleftrightarrow> i = j"
  by (metis unat_ino add_right_cancel)

text \<open>Changing the blocks and the inode of file \<open>i\<close> alone keeps the invariant.\<close>
lemma mk_inv_change:
  assumes inv: "mk_inv fs st" and i: "i < length fs" and v: "meta_ok v'" "unwritten v' fb'" "fbk st \<le> fb'" "fb' \<le> FSSIZE"
    and m: "\<And>j. j < length fs \<Longrightarrow> j \<noteq> i \<Longrightarrow> minode v' (ino j) = minode (m_img st) (ino j)"
    and fi: "file_at v' fb' (ino i) f'"
    and own: "blocks_of v' (ino i) f' \<subseteq> blocks_of (m_img st) (ino i) (fs ! i) \<union> {b. fbk st \<le> unat b}"
    and rest: "\<And>b. b \<notin> blocks_of (m_img st) (ino i) (fs ! i) \<Longrightarrow> nmeta \<le> unat b \<Longrightarrow> unat b < fbk st \<Longrightarrow> v' b = m_img st b"
    and st': "m_img st' = v'" "fbk st' = fb'" "m_freeinode st' = m_freeinode st"
  shows "mk_inv (fs[i := f']) st'"
proof -
  let ?v = "m_img st" and ?n = ino
  have old: "file_at ?v (fbk st) (?n j) (fs ! j)" if "j < length fs" for j using inv that by (simp add: mk_inv_def)
  have dis: "blocks_of ?v (?n j) (fs ! j) \<inter> blocks_of ?v (?n k) (fs ! k) = {}" if "j < length fs" "k < length fs" "j \<noteq> k" for j k
    using inv that by (simp add: mk_inv_def)
  have other: "file_at v' fb' (?n j) (fs ! j)" "blocks_of v' (?n j) (fs ! j) = blocks_of ?v (?n j) (fs ! j)" if j: "j < length fs" "j \<noteq> i" for j
  proof -
    have "\<forall>b \<in> blocks_of ?v (?n j) (fs ! j). v' b = ?v b"
      using rest blocks_below [OF old [OF j(1)]] dis [OF j(1) i j(2)] by blast
    from file_at_cong [OF old [OF j(1)] m [OF j] this v(3)]
    show "file_at v' fb' (?n j) (fs ! j)" "blocks_of v' (?n j) (fs ! j) = blocks_of ?v (?n j) (fs ! j)" .
  qed
  have sep: "blocks_of v' (?n i) f' \<inter> blocks_of ?v (?n j) (fs ! j) = {}" if j: "j < length fs" "j \<noteq> i" for j
    using own dis [OF i j(1)] j(2) blocks_below(2) [OF old [OF j(1)]] by fastforce
  have "\<forall>j < length fs. file_at v' fb' (?n j) (fs[i := f'] ! j)" using fi other(1) i by (simp add: nth_list_update)
  moreover have "blocks_of v' (?n j) (fs[i := f'] ! j) \<inter> blocks_of v' (?n k) (fs[i := f'] ! k) = {}"
    if "j < length fs" "k < length fs" "j \<noteq> k" for j k
    using that other(2) dis sep i by (cases "j = i"; cases "k = i") (auto simp: Int_commute)
  ultimately show ?thesis using inv v st' unfolding mk_inv_def length_list_update by auto
qed

lemma iappend_spec:
  assumes inv: "mk_inv fs st" and i: "i < length fs" and run: "iappend (ino i) p st = Some st'"
  shows "mk_inv (fs[i := (fst (fs ! i), snd (fs ! i) @ p)]) st'"
proof -
  let ?n = "ino i" and ?v = "m_img st" and ?c = "snd (fs ! i)"
  define din where "din = minode ?v ?n"
  have n: "unat ?n < 208" "length fs < 208" using unat_ino [of i] i inv by (simp_all add: mk_inv_def)
  have at: "file_at ?v (fbk st) ?n (fs ! i)" and fr: "unwritten ?v (fbk st)" "fbk st \<le> FSSIZE" and mo: "meta_ok ?v" using inv i by (simp_all add: mk_inv_def)
  have at': "filed ?v (fbk st) (d_addrs din) ?c" "unat (d_size din) = length ?c" "d_type din = fst (fs ! i)" "d_nlink din = 1"
    using at by (simp_all add: file_at_def din_def)
  obtain din1 off st1 where l: "iappend_loop din (length ?c) p st = Some (din1, off, st1)"
    and w: "winode ?n (din1\<lparr>d_size := of_nat off\<rparr>) st1 = Some st'"
    using run rinode_spec [OF n(1), of st] at'(2) by (auto simp: iappend_def din_def split: option.splits)
  from iappend_loop_spec [OF l refl at'(1) fr] obtain as1 where
    a: "din1 = din\<lparr>d_addrs := as1\<rparr>" "off = length (?c @ p)" "m_freeinode st1 = m_freeinode st"
      "appended ?v (fbk st) (d_addrs din) ?c (m_img st1) (fbk st1) as1 (?c @ p)" by blast
  have b: "filed (m_img st1) (fbk st1) as1 (?c @ p)" "unwritten (m_img st1) (fbk st1)" "fbk st \<le> fbk st1" "fbk st1 \<le> FSSIZE"
      "blocks_in (m_img st1) as1 (nblk (length (?c @ p))) \<subseteq> blocks_of ?v ?n (fs ! i) \<union> {b. fbk st \<le> unat b \<and> unat b < fbk st1}"
      "\<And>b. b \<notin> blocks_of ?v ?n (fs ! i) \<Longrightarrow> unat b < fbk st \<Longrightarrow> m_img st1 b = ?v b"
    using a(4) by (simp_all add: appended_def blocks_of_def din_def)
  note meta = appended_meta [OF a(4) at'(1) fr(1)]
  have mo1: "meta_ok (m_img st1)" using mo meta by (simp add: meta_ok_def)
  have mi1: "minode (m_img st1) (ino j) = minode ?v (ino j)" if "j < length fs" for j
    using IBLOCK_area(2) [of "ino j"] unat_ino [of j] that n(2) meta by (simp add: minode_def)
  have la: "length as1 = 13" using b(1) by (simp add: filed_def lay_def)
  from winode_spec [OF mo1 n(1), of "din1\<lparr>d_size := of_nat off\<rparr>"] w la obtain v' where
    v': "st' = st1\<lparr>m_img := v'\<rparr>" "meta_ok v'" "minode v' = (minode (m_img st1))(?n := din1\<lparr>d_size := of_nat off\<rparr>)"
      "\<forall>b. nmeta \<le> unat b \<longrightarrow> v' b = m_img st1 b" by (auto simp: a(1))
  have da: "d_addrs (minode v' ?n) = as1" using v'(3) a(1) by simp
  have "\<forall>b \<in> blocks_in (m_img st1) as1 (nblk (length (?c @ p))). v' b = m_img st1 b"
    using lay_below b(1) v'(4) unfolding filed_def by blast
  note fc = filed_cong [OF b(1) this order_refl]
  have off: "unat (of_nat off :: u32) = length (?c @ p)" using filed_length [OF b(1)] a(2) by (intro unat_of_nat_32 [THEN trans]) simp_all
  have "file_at v' (fbk st1) ?n (fst (fs ! i), ?c @ p)"
    using v'(3) a(1) at' fc(1) off by (simp add: file_at_def)
  moreover have "blocks_of v' ?n (fst (fs ! i), ?c @ p) \<subseteq> blocks_of ?v ?n (fs ! i) \<union> {b. fbk st \<le> unat b}"
    using b(5) fc(2) unfolding blocks_of_def da by auto
  moreover have "minode v' (ino j) = minode ?v (ino j)" if "j < length fs" "j \<noteq> i" for j
    using v'(3) mi1 [OF that(1)] ino_eq [of j i] that i n(2) by simp
  moreover have "v' b = ?v b" if "b \<notin> blocks_of ?v ?n (fs ! i)" "nmeta \<le> unat b" "unat b < fbk st" for b
    using b(6) [OF that(1,3)] v'(4) that(2) by simp
  ultimately show ?thesis using mk_inv_change [OF inv i v'(2) unwritten_cong [OF b(2) v'(4)] b(3,4)] v'(1) a(3) by simp
qed

lemma filed_empty: "filed v fb (replicate 13 0) []" "blocks_in v as (nblk 0) = {}"
  by (auto simp: filed_def lay_def contains_def nblk_def blocks_in_def)

lemma mk_ialloc_spec:
  assumes inv: "mk_inv fs st" and n: "length fs < 207" and run: "mk_ialloc ty st = Some (n, st')"
  shows "n = ino (length fs)" "mk_inv (fs @ [(ty, [])]) st'"
proof -
  let ?n = "ino (length fs)" and ?v = "m_img st" and ?di = "blank_dinode\<lparr>d_type := ty, d_nlink := 1, d_size := 0\<rparr>"
  let ?st1 = "st\<lparr>m_freeinode := m_freeinode st + 1\<rparr>"
  have fi: "m_freeinode st = ?n" and mo: "meta_ok (m_img ?st1)" and fr: "unwritten ?v (fbk st)" using inv by (simp_all add: mk_inv_def)
  have un: "unat ?n < 208" using unat_ino [OF n] n by simp
  have ln: "length (d_addrs ?di) = 13" by (simp add: blank_dinode_def)
  from winode_spec [OF mo un ln] obtain v' where
    v': "winode ?n ?di ?st1 = Some (?st1\<lparr>m_img := v'\<rparr>)" "meta_ok v'" "minode v' = (minode ?v)(?n := ?di)" "\<forall>b. nmeta \<le> unat b \<longrightarrow> v' b = ?v b" by auto
  then have e: "n = ?n" "st' = ?st1\<lparr>m_img := v'\<rparr>" using run by (auto simp: mk_ialloc_def Let_def fi)
  show "n = ?n" by (rule e)
  have old: "file_at ?v (fbk st) (ino j) (fs ! j)" if "j < length fs" for j using inv that by (simp add: mk_inv_def)
  have keep: "file_at v' (fbk st) (ino j) (fs ! j)" "blocks_of v' (ino j) (fs ! j) = blocks_of ?v (ino j) (fs ! j)" if j: "j < length fs" for j
  proof -
    have "minode v' (ino j) = minode ?v (ino j)" using v'(3) ino_eq [of j "length fs"] n j by simp
    moreover have "\<forall>b \<in> blocks_of ?v (ino j) (fs ! j). v' b = ?v b" using blocks_below(1) [OF old [OF j]] v'(4) by blast
    ultimately show "file_at v' (fbk st) (ino j) (fs ! j)" "blocks_of v' (ino j) (fs ! j) = blocks_of ?v (ino j) (fs ! j)"
      using file_at_cong [OF old [OF j]] by blast+
  qed
  have new: "file_at v' (fbk st) ?n (ty, [])" "blocks_of v' ?n (ty, []) = {}"
    using filed_empty v'(3) by (simp_all add: file_at_def blocks_of_def blank_dinode_def)
  have sep: "blocks_of v' (ino i) ((fs @ [(ty, [])]) ! i) \<inter> blocks_of v' (ino j) ((fs @ [(ty, [])]) ! j) = {}"
    if "i < length fs + 1" "j < length fs + 1" "i \<noteq> j" for i j
  proof (cases "i = length fs \<or> j = length fs")
    case True
    then show ?thesis using new(2) by (auto simp: nth_append)
  next
    case False
    then have "i < length fs" "j < length fs" using that by auto
    then show ?thesis using inv that(3) keep(2) by (simp add: mk_inv_def nth_append)
  qed
  have at: "\<forall>i < length fs + 1. file_at v' (fbk st) (ino i) ((fs @ [(ty, [])]) ! i)" using keep(1) new(1) by (auto simp: nth_append less_Suc_eq)
  have st: "m_img st' = v'" "fbk st' = fbk st" "m_freeinode st' = ino (length fs + 1)" by (simp_all add: e(2) fi ino_def)
  show "mk_inv (fs @ [(ty, [])]) st'"
    using inv n sep at unwritten_cong [OF fr v'(4)] v'(2) unfolding mk_inv_def st by auto
qed

lemma iappend_all_spec:
  assumes "mk_inv fs st" "i < length fs" "iappend_all (ino i) ps st = Some st'"
  shows "mk_inv (fs[i := (fst (fs ! i), snd (fs ! i) @ concat ps)]) st'"
  using assms
proof (induction ps arbitrary: fs st)
  case (Cons p ps)
  from Cons.prems(3) obtain st1 where s: "iappend (ino i) p st = Some st1" "iappend_all (ino i) ps st1 = Some st'"
    by (auto split: option.splits)
  from Cons.IH [OF iappend_spec [OF Cons.prems(1,2) s(1)] _ s(2)] Cons.prems(2) show ?case by simp
qed simp

section \<open>The whole image\<close>

text \<open>The entries of the root directory for the files with the inode numbers \<open>ino i\<close>, \<open>ino (i + 1)\<close>, ...\<close>
primrec entries :: "nat \<Rightarrow> (u8 list \<times> u8 list list) list \<Rightarrow> u8 list" where
  "entries i [] = []"
| "entries i (f # fs) = mk_dirent (ino i) (the (mk_shortname (fst f))) @ entries (i + 1) fs"

abbreviation image_of :: "u8 list \<times> u8 list list \<Rightarrow> u16 \<times> u8 list" where
  "image_of f \<equiv> (T_FILE, concat (snd f))"

lemma ROOTINO_ino: "ROOTINO = ino 0"
  by (simp add: ino_def)

lemma mk_file_spec:
  assumes inv: "mk_inv ((T_DIR, d) # cs) st" and n: "length cs < 206" and run: "mk_file f st = Some st'"
  shows "mk_inv ((T_DIR, d @ mk_dirent (ino (length cs + 1)) (the (mk_shortname (fst f)))) # cs @ [image_of f]) st'"
proof -
  from run obtain name inum st1 st2 where s: "mk_shortname (fst f) = Some name" "mk_ialloc T_FILE st = Some (inum, st1)"
    "iappend (ino 0) (mk_dirent inum name) st1 = Some st2" "iappend_all inum (snd f) st2 = Some st'"
    by (auto simp: mk_file_def ROOTINO_ino split: option.splits)
  from mk_ialloc_spec [OF inv _ s(2)] n have a: "inum = ino (length cs + 1)" "mk_inv (((T_DIR, d) # cs) @ [(T_FILE, [])]) st1" by simp_all
  from iappend_spec [OF a(2) _ s(3)] have "mk_inv ((T_DIR, d @ mk_dirent inum name) # cs @ [(T_FILE, [])]) st2" by simp
  from iappend_all_spec [OF this, of "length cs + 1" "snd f" st'] s(4) a(1) show ?thesis by (simp add: s(1) nth_append list_update_append)
qed

lemma mk_files_spec:
  assumes "mk_inv ((T_DIR, d) # cs) st" "length cs + length fs \<le> 206" "mk_files fs st = Some st'"
  shows "mk_inv ((T_DIR, d @ entries (length cs + 1) fs) # cs @ map image_of fs) st'"
  using assms
proof (induction fs arbitrary: d cs st)
  case (Cons f fs)
  from Cons.prems(3) obtain st1 where s: "mk_file f st = Some st1" "mk_files fs st1 = Some st'" by (auto split: option.splits)
  have n: "length cs < 206" using Cons.prems(2) by simp
  from Cons.IH [OF mk_file_spec [OF Cons.prems(1) n s(1)] _ s(2)] Cons.prems(2) show ?case by simp
qed simp

definition dots :: "u8 list" where
  "dots = mk_dirent ROOTINO [46] @ mk_dirent ROOTINO [46, 46]"

lemma mk_start_inv: "mk_inv [] mk_start"
proof -
  have l: "length (put_sb mk_sb (replicate BSIZE 0)) = BSIZE" by (simp add: put_sb_def enumerate_eq_zip)
  have nm: "nmeta = 60" by (simp add: nmeta_def nlog_def ninodeblocks_def nbitmap_def)
  have "meta_ok (m_img mk_start)" using l by (simp add: meta_ok_def mk_start_def)
  moreover have "unwritten (m_img mk_start) (fbk mk_start)" by (auto simp: unwritten_def mk_start_def nm)
  ultimately show ?thesis by (simp add: mk_inv_def mk_start_def nm ino_def)
qed

lemma mk_root_spec:
  assumes "mk_root mk_start = Some st"
  shows "mk_inv [(T_DIR, dots)] st"
proof -
  from assms obtain st1 st2 where s: "mk_ialloc T_DIR mk_start = Some (ROOTINO, st1)"
    "iappend (ino 0) (mk_dirent ROOTINO [46]) st1 = Some st2" "iappend (ino 0) (mk_dirent ROOTINO [46, 46]) st2 = Some st"
    by (auto simp: mk_root_def ROOTINO_ino split: option.splits if_splits)
  from mk_ialloc_spec(2) [OF mk_start_inv _ s(1)] have "mk_inv [(T_DIR, [])] st1" by simp
  from iappend_spec [OF this _ s(2)] have "mk_inv [(T_DIR, mk_dirent ROOTINO [46])] st2" by simp
  from iappend_spec [OF this _ s(3)] show ?thesis by (simp add: dots_def)
qed

lemma meta_gap: "nmeta = 60" "unat (sb_bmapstart mk_sb) = 59" "nlog = 31" "ninodeblocks = 26"
  by (simp_all add: nmeta_def nlog_def ninodeblocks_def nbitmap_def mk_sb_def)

text \<open>The bitmap: the first \<open>n\<close> bits.\<close>
lemma bitmap_bits:
  assumes "n \<le> BPB" "b < BPB"
  shows "bit_used (foldl (\<lambda>d i. set_used i d) (replicate BSIZE 0) [0..<n]) b \<longleftrightarrow> b < n"
    "length (foldl (\<lambda>d i. set_used i d) (replicate BSIZE 0) [0..<n]) = BSIZE"
  using assms(1)
proof (induction n)
  case 0
  { case 1 show ?case using assms(2) by (simp add: bit_used_iff) }
  { case 2 show ?case by simp }
next
  case (Suc n)
  { case 1 then show ?case using Suc.IH set_used_bit [of n "foldl (\<lambda>d i. set_used i d) (replicate BSIZE 0) [0..<n]" b] by auto }
  { case 2 then show ?case using Suc.IH by simp }
qed

text \<open>Inode \<open>n\<close> of the image, as the kernel loads it into the slot \<open>x\<close> of its table, is a file with the contents \<open>c\<close>.\<close>
definition image_file :: "(u32 \<Rightarrow> u8 list) \<Rightarrow> u32 \<Rightarrow> u16 \<Rightarrow> u8 list \<Rightarrow> bool" where
  "image_file v n ty c \<longleftrightarrow> d_type (minode v n) = ty \<and> d_nlink (minode v n) = 1 \<and> length c \<le> unat (d_size (minode v n))
     \<and> (\<forall>x. file_ok v (load_dinode (minode v n) x) (nblk (length c))
          \<and> map (fbyte v (load_dinode (minode v n) x)) [0..<length c] = c)"

lemma image_fileI:
  assumes "filed v fb (d_addrs (minode v n)) c" "d_type (minode v n) = ty" "d_nlink (minode v n) = 1" "length c \<le> unat (d_size (minode v n))"
  shows "image_file v n ty c"
proof -
  let ?as = "d_addrs (minode v n)"
  have l: "lay v fb ?as (nblk (length c))" and h: "contains v ?as c" using assms(1) by (simp_all add: filed_def)
  have nz: "baddr v ?as k \<noteq> 0" "length (v (baddr v ?as k)) = BSIZE" if "k < nblk (length c)" for k using l that nmeta_pos by (auto simp: lay_def)
  have q: "?as ! NDIRECT \<noteq> 0 \<and> ?as ! NDIRECT \<notin> baddr v ?as ` {..<nblk (length c)}" if "NDIRECT < nblk (length c)"
    using l that nmeta_pos unfolding lay_def by fastforce
  have "i_addrs (load_dinode (minode v n) x) = ?as" for x by (simp add: load_dinode_def)
  then have "file_ok v (load_dinode (minode v n) x) (nblk (length c))" for x
    using l nz q by (simp add: file_ok_def lay_def)
  moreover have "map (fbyte v (load_dinode (minode v n) x)) [0..<length c] = c" for x
    using h by (intro nth_equalityI) (simp_all add: contains_def fbyte_def)
  ultimately have "file_ok v (load_dinode (minode v n) x) (nblk (length c)) \<and> map (fbyte v (load_dinode (minode v n) x)) [0..<length c] = c" for x by blast
  then show ?thesis using assms(2-4) by (simp add: image_file_def)
qed

lemma length_strncpy_obj [simp]: "length (strncpy_obj n t) = n"
  by (induction n arbitrary: t) (auto split: list.split)

lemma length_mk_dirent [simp]: "length (mk_dirent n name) = 16"
  by (simp add: mk_dirent_def put_dirent_def)

lemma length_entries [simp]: "length (entries i fs) = 16 * length fs"
  by (induction fs arbitrary: i) simp_all

lemma length_dots [simp]: "length dots = 32"
  by (simp add: dots_def)

lemma size_rounded:
  assumes "unat s \<le> MAXFILE * BSIZE"
  shows "unat ((s div of_nat BSIZE + 1) * of_nat BSIZE :: u32) = (unat s div BSIZE + 1) * BSIZE"
proof -
  have d: "unat (s div of_nat BSIZE) = unat s div BSIZE" by (simp add: unat_div)
  moreover have "unat s div BSIZE \<le> MAXFILE" using assms by (intro div_le_mono [of "unat s" "MAXFILE * BSIZE" BSIZE, THEN order_trans]) simp_all
  ultimately have a: "unat (s div of_nat BSIZE + 1) = unat s div BSIZE + 1" "unat s div BSIZE + 1 \<le> 141" by (simp_all add: unat_add_32)
  then show ?thesis by (simp add: unat_word_ariths)
qed

text \<open>The last steps: the size of the root directory and the bitmap.\<close>
lemma mk_finish:
  assumes inv: "mk_inv ((T_DIR, d) # cs) st1" and fx: "mk_fix_root st1 = Some st2" and bal: "mk_balloc (fbk st2) st2 = Some st"
  shows "fbk st = fbk st1" "\<forall>b. nmeta \<le> unat b \<longrightarrow> m_img st b = m_img st1 b"
    "unat n < 208 \<Longrightarrow> minode (m_img st) n = (if n = ROOTINO
       then (minode (m_img st1) ROOTINO)\<lparr>d_size := (d_size (minode (m_img st1) ROOTINO) div of_nat BSIZE + 1) * of_nat BSIZE\<rparr>
       else minode (m_img st1) n)"
    "m_img st (sb_bmapstart mk_sb) = foldl (\<lambda>d i. set_used i d) (replicate BSIZE 0) [0..<fbk st]" "fbk st < BPB"
    "\<And>b. unat b < nmeta \<Longrightarrow> \<not> inode_block b \<Longrightarrow> b \<noteq> sb_bmapstart mk_sb \<Longrightarrow> m_img st b = m_img mk_start b"
proof -
  let ?din = "minode (m_img st1) ROOTINO" and ?b = "sb_bmapstart mk_sb"
  let ?din' = "?din\<lparr>d_size := (d_size ?din div of_nat BSIZE + 1) * of_nat BSIZE\<rparr>"
  have "file_at (m_img st1) (fbk st1) (ino 0) (T_DIR, d)" using inv by (auto simp: mk_inv_def)
  then have l: "length (d_addrs ?din') = 13" by (simp add: file_at_def filed_def lay_def ROOTINO_ino)
  have mo: "meta_ok (m_img st1)" using inv by (simp add: mk_inv_def)
  have r: "unat ROOTINO < 208" by simp
  from winode_spec [OF mo r l] fx obtain v' where
    v': "st2 = st1\<lparr>m_img := v'\<rparr>" "meta_ok v'" "minode v' = (minode (m_img st1))(ROOTINO := ?din')" "\<forall>b. nmeta \<le> unat b \<longrightarrow> v' b = m_img st1 b"
    by (auto simp: mk_fix_root_def rinode_spec)
  have s: "m_img st = v'(?b := foldl (\<lambda>d i. set_used i d) (replicate BSIZE 0) [0..<fbk st])" "fbk st = fbk st1" "fbk st < BPB"
    using bal v'(1) by (auto simp: mk_balloc_def wsect_def split: if_splits)
  show "fbk st = fbk st1" "fbk st < BPB" "m_img st ?b = foldl (\<lambda>d i. set_used i d) (replicate BSIZE 0) [0..<fbk st]" using s by simp_all
  show "\<forall>b. nmeta \<le> unat b \<longrightarrow> m_img st b = m_img st1 b" using v'(4) s(1) meta_gap by auto
  show "m_img st b = m_img mk_start b" if "unat b < nmeta" "\<not> inode_block b" "b \<noteq> ?b" for b using that v'(2) s(1) by (auto simp: meta_ok_def)
  show "minode (m_img st) n = (if n = ROOTINO then ?din' else minode (m_img st1) n)" if "unat n < 208"
  proof -
    have "IBLOCK n mk_sb \<noteq> ?b" using IBLOCK_area [OF that] meta_gap by auto
    then have "minode (m_img st) n = minode v' n" by (simp add: minode_def s(1))
    then show ?thesis using v'(3) by simp
  qed
qed

section \<open>The builder succeeds\<close>

text \<open>The blocks that the files take, and that nothing else has been given out.\<close>
definition need :: "(u16 \<times> u8 list) list \<Rightarrow> nat" where
  "need fs = nmeta + (\<Sum>f \<leftarrow> fs. blocks_for (length (snd f)))"

abbreviation mk_exact :: "(u16 \<times> u8 list) list \<Rightarrow> mkst \<Rightarrow> bool" where
  "mk_exact fs st \<equiv> mk_inv fs st \<and> fbk st = need fs"

lemma blocks_for_0 [simp]: "blocks_for 0 = 0"
  by (simp add: blocks_for_def nblk_def)

lemma need_simps: "need (f # fs) = blocks_for (length (snd f)) + need fs" "need (fs @ [f]) = need fs + blocks_for (length (snd f))" "need [] = nmeta"
  by (simp_all add: need_def)

lemma need_update:
  assumes "i < length fs"
  shows "need (fs[i := f]) + blocks_for (length (snd (fs ! i))) = need fs + blocks_for (length (snd f))"
proof -
  have "blocks_for (length (snd (fs ! i))) \<le> (\<Sum>f \<leftarrow> fs. blocks_for (length (snd f)))" using assms by (intro member_le_sum_list) auto
  then show ?thesis using assms by (simp add: need_def map_update sum_list_update)
qed

lemma mk_ialloc_succeeds:
  assumes ex: "mk_exact fs st" and n: "length fs < 207"
  shows "\<exists>st'. mk_ialloc ty st = Some (ino (length fs), st') \<and> mk_exact (fs @ [(ty, [])]) st'"
proof -
  let ?di = "blank_dinode\<lparr>d_type := ty, d_nlink := 1, d_size := 0\<rparr>" and ?st1 = "st\<lparr>m_freeinode := m_freeinode st + 1\<rparr>"
  have mo: "meta_ok (m_img ?st1)" and fi: "m_freeinode st = ino (length fs)" using ex by (simp_all add: mk_inv_def)
  have "unat (ino (length fs)) < 208" "length (d_addrs ?di) = 13" using unat_ino [OF n] n by (simp_all add: blank_dinode_def)
  from winode_spec [OF mo this] obtain st' where r: "mk_ialloc ty st = Some (ino (length fs), st')" "m_freeblock st' = m_freeblock st"
    by (auto simp: mk_ialloc_def fi Let_def)
  then show ?thesis using mk_ialloc_spec(2) [OF _ n r(1)] ex by (simp add: need_simps)
qed

lemma iappend_succeeds:
  assumes ex: "mk_exact fs st" and i: "i < length fs" and l: "length (snd (fs ! i) @ p) \<le> MAXFILE * BSIZE"
    and room: "need (fs[i := (fst (fs ! i), snd (fs ! i) @ p)]) \<le> FSSIZE"
  shows "\<exists>st'. iappend (ino i) p st = Some st' \<and> mk_exact (fs[i := (fst (fs ! i), snd (fs ! i) @ p)]) st'"
proof -
  let ?c = "snd (fs ! i)" and ?din = "minode (m_img st) (ino i)"
  have inv: "mk_inv fs st" and fb: "fbk st = need fs" and at: "file_at (m_img st) (fbk st) (ino i) (fs ! i)"
    and fr: "unwritten (m_img st) (fbk st)" "fbk st \<le> FSSIZE" using ex i by (auto simp: mk_inv_def)
  have n: "unat (ino i) < 208" using unat_ino [of i] i inv by (simp add: mk_inv_def)
  have f: "filed (m_img st) (fbk st) (d_addrs ?din) ?c" "unat (d_size ?din) = length ?c" using at by (simp_all add: file_at_def)
  have bm: "blocks_for (length ?c) \<le> blocks_for (length (?c @ p))" by (rule blocks_for_mono) simp
  have nu: "need (fs[i := (fst (fs ! i), ?c @ p)]) = fbk st + (blocks_for (length (?c @ p)) - blocks_for (length ?c))"
    using need_update [OF i, of "(fst (fs ! i), ?c @ p)"] bm fb by simp
  from iappend_loop_succeeds [OF refl f(1) fr(1) l] room nu obtain din1 off st1 where
    r: "iappend_loop ?din (length ?c) p st = Some (din1, off, st1)" "fbk st1 = need (fs[i := (fst (fs ! i), ?c @ p)])" by auto
  from iappend_loop_spec [OF r(1) refl f(1) fr] obtain as1 where
    a: "din1 = ?din\<lparr>d_addrs := as1\<rparr>" "appended (m_img st) (fbk st) (d_addrs ?din) ?c (m_img st1) (fbk st1) as1 (?c @ p)" by blast
  have mo: "meta_ok (m_img st1)" using inv appended_meta [OF a(2) f(1) fr(1)] by (simp add: mk_inv_def meta_ok_def)
  have "length (d_addrs (din1\<lparr>d_size := of_nat off\<rparr>)) = 13" using a by (simp add: appended_def filed_def lay_def)
  from winode_spec [OF mo n this] obtain v' where "winode (ino i) (din1\<lparr>d_size := of_nat off\<rparr>) st1 = Some (st1\<lparr>m_img := v'\<rparr>)" by blast
  then have run: "iappend (ino i) p st = Some (st1\<lparr>m_img := v'\<rparr>)" using rinode_spec [OF n, of st] f(2) r(1) by (simp add: iappend_def)
  show ?thesis using run iappend_spec [OF inv i run] r(2) by simp
qed

lemma need_mono:
  assumes "i < length fs" "length (snd f) \<le> length (snd g)"
  shows "need (fs[i := f]) \<le> need (fs[i := g])"
  using need_update [OF assms(1), of f] need_update [OF assms(1), of g] blocks_for_mono [OF assms(2)] by linarith

lemma iappend_all_succeeds:
  assumes "mk_exact fs st" "i < length fs" "length (snd (fs ! i) @ concat ps) \<le> MAXFILE * BSIZE"
    "need (fs[i := (fst (fs ! i), snd (fs ! i) @ concat ps)]) \<le> FSSIZE"
  shows "\<exists>st'. iappend_all (ino i) ps st = Some st' \<and> mk_exact (fs[i := (fst (fs ! i), snd (fs ! i) @ concat ps)]) st'"
  using assms
proof (induction ps arbitrary: fs st)
  case (Cons p ps)
  let ?f = "(fst (fs ! i), snd (fs ! i) @ p)"
  have "length (snd (fs ! i) @ p) \<le> MAXFILE * BSIZE" using Cons.prems(3) by simp
  moreover have "need (fs[i := ?f]) \<le> FSSIZE"
    using need_mono [OF Cons.prems(2), of ?f "(fst (fs ! i), snd (fs ! i) @ concat (p # ps))"] Cons.prems(4) by simp
  ultimately obtain st1 where s: "iappend (ino i) p st = Some st1" "mk_exact (fs[i := ?f]) st1"
    using iappend_succeeds [OF Cons.prems(1,2)] by blast
  from Cons.IH [OF s(2)] Cons.prems(2-4) s(1) show ?case by simp
qed simp

abbreviation proper_file :: "u8 list \<times> u8 list list \<Rightarrow> bool" where
  "proper_file f \<equiv> mk_shortname (fst f) \<noteq> None \<and> length (concat (snd f)) \<le> MAXFILE * BSIZE"

lemma mk_file_succeeds:
  assumes ex: "mk_exact ((T_DIR, d) # cs) st" and n: "length cs < 206" and f: "proper_file f"
    and d: "length d + 16 \<le> MAXFILE * BSIZE"
    and room: "need ((T_DIR, d @ mk_dirent (ino (length cs + 1)) (the (mk_shortname (fst f)))) # cs @ [image_of f]) \<le> FSSIZE"
  shows "\<exists>st'. mk_file f st = Some st'
    \<and> mk_exact ((T_DIR, d @ mk_dirent (ino (length cs + 1)) (the (mk_shortname (fst f)))) # cs @ [image_of f]) st'"
proof -
  from f obtain name where nm: "mk_shortname (fst f) = Some name" by auto
  let ?e = "mk_dirent (ino (length cs + 1)) name"
  from mk_ialloc_succeeds [OF ex, of T_FILE] n obtain st1 where
    s1: "mk_ialloc T_FILE st = Some (ino (length cs + 1), st1)" "mk_exact ((T_DIR, d) # cs @ [(T_FILE, [])]) st1" by auto
  from iappend_succeeds [OF s1(2), of 0 ?e] d room nm obtain st2 where
    s2: "iappend (ino 0) ?e st1 = Some st2" "mk_exact ((T_DIR, d @ ?e) # cs @ [(T_FILE, [])]) st2" by (auto simp: need_simps)
  from iappend_all_succeeds [OF s2(2), of "length cs + 1" "snd f"] f room nm obtain st3 where
    s3: "iappend_all (ino (length cs + 1)) (snd f) st2 = Some st3" "mk_exact ((T_DIR, d @ ?e) # cs @ [image_of f]) st3"
    by (auto simp: nth_append list_update_append)
  have "mk_file f st = Some st3" using s1(1) s2(1) s3(1) nm by (simp add: mk_file_def ROOTINO_ino)
  then show ?thesis using s3(2) nm by simp
qed

lemma need_le: "need ((T_DIR, d) # cs) \<le> need ((T_DIR, d @ e) # cs @ cs')"
  using blocks_for_mono [of "length d" "length (d @ e)"] by (simp add: need_def)

lemma mk_files_succeeds:
  assumes "mk_exact ((T_DIR, d) # cs) st" "length cs + length fs \<le> 206" "\<forall>f \<in> set fs. proper_file f"
    "length d + 16 * length fs \<le> MAXFILE * BSIZE"
    "need ((T_DIR, d @ entries (length cs + 1) fs) # cs @ map image_of fs) \<le> FSSIZE"
  shows "\<exists>st'. mk_files fs st = Some st' \<and> mk_exact ((T_DIR, d @ entries (length cs + 1) fs) # cs @ map image_of fs) st'"
  using assms
proof (induction fs arbitrary: d cs st)
  case (Cons f fs)
  let ?e = "mk_dirent (ino (length cs + 1)) (the (mk_shortname (fst f)))"
  have "need ((T_DIR, d @ ?e) # cs @ [image_of f]) \<le> FSSIZE"
    using need_le [of "d @ ?e" "cs @ [image_of f]" "entries (length cs + 2) fs" "map image_of fs"] Cons.prems(5) by simp
  then obtain st1 where s: "mk_file f st = Some st1" "mk_exact ((T_DIR, d @ ?e) # cs @ [image_of f]) st1"
    using mk_file_succeeds [OF Cons.prems(1), of f] Cons.prems(2-4) by auto
  from Cons.IH [OF s(2)] Cons.prems(2-5) s(1) show ?case by simp
qed simp

lemma mk_root_succeeds: "\<exists>st. mk_root mk_start = Some st \<and> mk_exact [(T_DIR, dots)] st"
proof -
  have nm: "nmeta = 60" by (simp add: nmeta_def nlog_def ninodeblocks_def nbitmap_def)
  have b: "blocks_for 16 = 1" "blocks_for 32 = 1" by (simp_all add: blocks_for_def nblk_def)
  have "mk_exact [] mk_start" using mk_start_inv by (simp add: need_simps mk_start_def nm)
  from mk_ialloc_succeeds [OF this, of T_DIR] obtain st1 where s1: "mk_ialloc T_DIR mk_start = Some (ino 0, st1)" "mk_exact [(T_DIR, [])] st1" by auto
  from iappend_succeeds [OF s1(2), of 0 "mk_dirent ROOTINO [46]"] obtain st2 where
    s2: "iappend (ino 0) (mk_dirent ROOTINO [46]) st1 = Some st2" "mk_exact [(T_DIR, mk_dirent ROOTINO [46])] st2" by (auto simp: need_simps b nm)
  from iappend_succeeds [OF s2(2), of 0 "mk_dirent ROOTINO [46, 46]"] obtain st3 where
    s3: "iappend (ino 0) (mk_dirent ROOTINO [46, 46]) st2 = Some st3" "mk_exact [(T_DIR, dots)] st3" by (auto simp: need_simps b nm dots_def)
  have "mk_root mk_start = Some st3" using s1(1) s2(1) s3(1) by (simp add: mk_root_def ROOTINO_ino)
  then show ?thesis using s3(2) by blast
qed

lemma mkfs_succeeds:
  assumes "length fs \<le> 206" "\<forall>f \<in> set fs. proper_file f" "need ((T_DIR, dots @ entries 1 fs) # map image_of fs) \<le> FSSIZE"
  shows "\<exists>st. mkfs fs = Some st \<and> fbk st = need ((T_DIR, dots @ entries 1 fs) # map image_of fs)"
proof -
  let ?F = "(T_DIR, dots @ entries 1 fs) # map image_of fs"
  obtain st0 where s0: "mk_root mk_start = Some st0" "mk_exact [(T_DIR, dots)] st0" using mk_root_succeeds by blast
  from mk_files_succeeds [OF s0(2), of fs] assms obtain st1 where
    s1: "mk_files fs st0 = Some st1" "mk_exact ?F st1" by auto
  let ?din = "minode (m_img st1) ROOTINO"
  have "file_at (m_img st1) (fbk st1) (ino 0) (T_DIR, dots @ entries 1 fs)" using s1(2) by (auto simp: mk_inv_def)
  then have l: "length (d_addrs (?din\<lparr>d_size := n\<rparr>)) = 13" for n by (simp add: file_at_def filed_def lay_def ROOTINO_ino)
  have mo: "meta_ok (m_img st1)" using s1(2) by (simp add: mk_inv_def)
  from winode_spec [OF mo _ l, of ROOTINO "(d_size ?din div of_nat BSIZE + 1) * of_nat BSIZE"] obtain st2 where
    s2: "mk_fix_root st1 = Some st2" "m_freeblock st2 = m_freeblock st1" by (auto simp: mk_fix_root_def rinode_spec)
  have "fbk st2 < BPB" using s1(2) s2(2) by (simp add: mk_inv_def)
  then obtain st where "mk_balloc (fbk st2) st2 = Some st" "m_freeblock st = m_freeblock st2" by (auto simp: mk_balloc_def wsect_def)
  then show ?thesis using s0(1) s1 s2 by (auto simp: mkfs_def)
qed

lemma mkfs_stages:
  assumes "mkfs fs = Some st" "length fs \<le> 206"
  shows "\<exists>st1 st2. mk_inv ((T_DIR, dots @ entries 1 fs) # map image_of fs) st1 \<and> mk_fix_root st1 = Some st2 \<and> mk_balloc (fbk st2) st2 = Some st"
proof -
  from assms(1) obtain st0 st1 st2 where s: "mk_root mk_start = Some st0" "mk_files fs st0 = Some st1"
    "mk_fix_root st1 = Some st2" "mk_balloc (fbk st2) st2 = Some st"
    by (auto simp: mkfs_def split: option.splits)
  from mk_files_spec [OF mk_root_spec [OF s(1)] _ s(2)] assms(2) have "mk_inv ((T_DIR, dots @ entries 1 fs) # map image_of fs) st1" by simp
  then show ?thesis using s(3,4) by blast
qed

text \<open>The blocks of inode \<open>ino i\<close>: the root directory is number 0, the files follow.\<close>
definition owner :: "(u8 list \<times> u8 list list) list \<Rightarrow> mkst \<Rightarrow> nat \<Rightarrow> u32 set" where
  "owner fs st i = blocks_of (m_img st) (ino i) (((T_DIR, dots @ entries 1 fs) # map image_of fs) ! i)"

text \<open>The last steps keep the contents of every file; the root directory has its new size.\<close>
lemma finish_files:
  assumes inv: "mk_inv ((T_DIR, dots @ entries 1 fs) # map image_of fs) st1" and fx: "mk_fix_root st1 = Some st2"
    and bal: "mk_balloc (fbk st2) st2 = Some st" and n: "length fs \<le> 206" and i: "i \<le> length fs"
  defines "F \<equiv> (T_DIR, dots @ entries 1 fs) # map image_of fs"
  shows "file_at (m_img st1) (fbk st1) (ino i) (F ! i)"
    "minode (m_img st) (ino i) = (if i = 0
       then (minode (m_img st1) (ino 0))\<lparr>d_size := (d_size (minode (m_img st1) (ino 0)) div of_nat BSIZE + 1) * of_nat BSIZE\<rparr>
       else minode (m_img st1) (ino i))"
    "filed (m_img st) (fbk st1) (d_addrs (minode (m_img st) (ino i))) (snd (F ! i))"
    "owner fs st i = blocks_of (m_img st1) (ino i) (F ! i)"
proof -
  note fin = mk_finish [OF inv fx bal]
  let ?w = "m_img st1" and ?v = "m_img st"
  show at: "file_at ?w (fbk st1) (ino i) (F ! i)" using inv i by (simp add: mk_inv_def F_def)
  show mi: "minode ?v (ino i) = (if i = 0 then (minode ?w (ino 0))\<lparr>d_size := (d_size (minode ?w (ino 0)) div of_nat BSIZE + 1) * of_nat BSIZE\<rparr>
      else minode ?w (ino i))"
    using fin(3) [of "ino i"] unat_ino [of i] ino_eq [of i 0] i n by (simp add: ROOTINO_ino)
  have a: "d_addrs (minode ?v (ino i)) = d_addrs (minode ?w (ino i))" using mi by simp
  have f: "filed ?w (fbk st1) (d_addrs (minode ?w (ino i))) (snd (F ! i))" using at by (simp add: file_at_def)
  have "\<forall>b \<in> blocks_in ?w (d_addrs (minode ?w (ino i))) (nblk (length (snd (F ! i)))). ?v b = ?w b"
    using blocks_below(1) [OF at] fin(2) unfolding blocks_of_def by blast
  note q = filed_cong [OF f this order_refl]
  show "filed ?v (fbk st1) (d_addrs (minode ?v (ino i))) (snd (F ! i))" using q(1) unfolding a .
  show "owner fs st i = blocks_of ?w (ino i) (F ! i)" using q(2) unfolding owner_def blocks_of_def a F_def .
qed

lemma mkfs_parts:
  assumes "mkfs fs = Some st" "length fs \<le> 206"
  defines "v \<equiv> m_img st" and "own \<equiv> owner fs st"
  shows "image_file v ROOTINO T_DIR (dots @ entries 1 fs)"
    "unat (d_size (minode v ROOTINO)) = (16 * (length fs + 2) div BSIZE + 1) * BSIZE"
    "\<forall>i < length fs. image_file v (ino (i + 1)) T_FILE (concat (snd (fs ! i))) \<and> unat (d_size (minode v (ino (i + 1)))) = length (concat (snd (fs ! i)))"
    "\<forall>b < BPB. bit_used (v (sb_bmapstart mk_sb)) b \<longleftrightarrow> b < unat (m_freeblock st)"
    "\<forall>i \<le> length fs. \<forall>b \<in> own i. nmeta \<le> unat b \<and> unat b < unat (m_freeblock st) \<and> (\<forall>j \<le> length fs. j \<noteq> i \<longrightarrow> b \<notin> own j)"
    "\<forall>b. unat b < nmeta \<and> \<not> inode_block b \<and> b \<noteq> sb_bmapstart mk_sb \<longrightarrow> v b = (if b = 1 then put_sb mk_sb (replicate BSIZE 0) else replicate BSIZE 0)"
proof -
  let ?F = "(T_DIR, dots @ entries 1 fs) # map image_of fs"
  from mkfs_stages [OF assms(1,2)] obtain st1 st2 where inv: "mk_inv ?F st1" and fx: "mk_fix_root st1 = Some st2" and bal: "mk_balloc (fbk st2) st2 = Some st"
    by blast
  note fin = mk_finish [OF inv fx bal, folded v_def]
  let ?w = "m_img st1"
  have dis: "blocks_of ?w (ino i) (?F ! i) \<inter> blocks_of ?w (ino j) (?F ! j) = {}" if "i \<le> length fs" "j \<le> length fs" "i \<noteq> j" for i j
    using inv that unfolding mk_inv_def by simp
  note ff = finish_files [OF inv fx bal assms(2), folded v_def own_def]
  note at = ff(1) and mi = ff(2) and fl = ff(3,4)
  have r: "unat (d_size (minode ?w (ino 0))) = 16 * (length fs + 2)" "d_type (minode ?w (ino 0)) = T_DIR" "d_nlink (minode ?w (ino 0)) = 1"
    using at [of 0] by (simp_all add: file_at_def)
  have "unat (d_size (minode ?w (ino 0))) \<le> MAXFILE * BSIZE" using r(1) assms(2) by simp
  then show sz: "unat (d_size (minode v ROOTINO)) = (16 * (length fs + 2) div BSIZE + 1) * BSIZE"
    using mi [of 0] size_rounded r(1) by (simp add: ROOTINO_ino)
  have "16 * (length fs + 2) \<le> (16 * (length fs + 2) div BSIZE + 1) * BSIZE" using div_mult_mod_eq [of "16 * (length fs + 2)" BSIZE] by simp
  then show "image_file v ROOTINO T_DIR (dots @ entries 1 fs)"
    using fl(1) [of 0] r mi [of 0] sz by (intro image_fileI) (simp_all add: ROOTINO_ino)
  show "\<forall>i < length fs. image_file v (ino (i + 1)) T_FILE (concat (snd (fs ! i))) \<and> unat (d_size (minode v (ino (i + 1)))) = length (concat (snd (fs ! i)))"
  proof (intro allI impI)
    fix i assume i: "i < length fs"
    then show "image_file v (ino (i + 1)) T_FILE (concat (snd (fs ! i))) \<and> unat (d_size (minode v (ino (i + 1)))) = length (concat (snd (fs ! i)))"
      using fl(1) [of "i + 1"] at [of "i + 1"] mi [of "i + 1"] by (auto simp: file_at_def intro!: image_fileI)
  qed
  show "\<forall>b < BPB. bit_used (v (sb_bmapstart mk_sb)) b \<longleftrightarrow> b < fbk st" using bitmap_bits(1) [of "fbk st"] fin(4,5) by simp
  show "\<forall>i \<le> length fs. \<forall>b \<in> own i. nmeta \<le> unat b \<and> unat b < fbk st \<and> (\<forall>j \<le> length fs. j \<noteq> i \<longrightarrow> b \<notin> own j)"
    using blocks_below [OF at] dis fl(2) fin(1) by (auto; blast)
  show "\<forall>b. unat b < nmeta \<and> \<not> inode_block b \<and> b \<noteq> sb_bmapstart mk_sb \<longrightarrow> v b = (if b = 1 then put_sb mk_sb (replicate BSIZE 0) else replicate BSIZE 0)"
    using fin(6) by (simp add: mk_start_def)
qed

section \<open>The image as the kernel reads it\<close>

text \<open>The inode \<open>n\<close> of an image, found through the superblock in block 1, as \<open>readsb\<close> and \<open>ilock\<close> read them.\<close>
definition image_inode :: "(u32 \<Rightarrow> u8 list) \<Rightarrow> u32 \<Rightarrow> dinode" where
  "image_inode v n = get_dinode (v (IBLOCK n (get_sb (v 1)))) (unat n mod IPB)"

text \<open>It is a file of the type \<open>ty\<close> and size \<open>sz\<close> that holds the bytes \<open>c\<close> in allocated, different blocks.\<close>
definition holds_file :: "(u32 \<Rightarrow> u8 list) \<Rightarrow> u32 \<Rightarrow> u16 \<Rightarrow> nat \<Rightarrow> u8 list \<Rightarrow> bool" where
  "holds_file v n ty sz c \<longleftrightarrow> d_type (image_inode v n) = ty \<and> d_nlink (image_inode v n) = 1 \<and> unat (d_size (image_inode v n)) = sz \<and> length c \<le> sz
     \<and> (\<forall>x. file_ok v (load_dinode (image_inode v n) x) (nblk (length c))
          \<and> map (fbyte v (load_dinode (image_inode v n) x)) [0..<length c] = c)"

text \<open>Entry \<open>k\<close> of a directory with the bytes \<open>c\<close>, as \<open>dirlookup\<close> reads it, has the number \<open>n\<close> and the name \<open>name\<close>.\<close>
definition dir_entry :: "u8 list \<Rightarrow> nat \<Rightarrow> nat \<Rightarrow> u8 list \<Rightarrow> bool" where
  "dir_entry c k n name \<longleftrightarrow> (case get_dirent (take 16 (drop (16 * k) c)) of
     de \<Rightarrow> unat (de_inum de) = n \<and> length (de_name de) = 14 \<and> takeWhile (\<lambda>b. b \<noteq> 0) (de_name de) = name)"

text \<open>The blocks of a file of \<open>sz\<close> bytes, the block of indirect addresses included.\<close>
definition image_blocks :: "(u32 \<Rightarrow> u8 list) \<Rightarrow> u32 \<Rightarrow> nat \<Rightarrow> u32 set" where
  "image_blocks v n sz = blocks_in v (d_addrs (image_inode v n)) (nblk sz)"

lemma get_sb_put_sb: "length d = BSIZE \<Longrightarrow> get_sb (put_sb b d) = b"
  by (simp add: get_sb_def put_sb_def enumerate_eq_zip upt_rec get32_put32_other)

lemma mk_sb_values:
  "mk_sb = \<lparr>sb_magic = 0x10203040, sb_size = 2000, sb_nblocks = 1940, sb_ninodes = 200, sb_nlog = 31, sb_logstart = 2, sb_inodestart = 33, sb_bmapstart = 59\<rparr>"
  by (simp add: mk_sb_def meta_gap)

lemma image_inode_minode: "v 1 = put_sb mk_sb (replicate BSIZE 0) \<Longrightarrow> image_inode v n = minode v n"
  by (simp add: image_inode_def minode_def get_sb_put_sb)

text \<open>The padded name.\<close>
lemma strncpy_obj_name: "length name \<le> n \<Longrightarrow> 0 \<notin> set name \<Longrightarrow> takeWhile (\<lambda>b. b \<noteq> 0) (strncpy_obj n name) = name"
proof (induction n arbitrary: name)
  case (Suc n)
  then show ?case by (cases name) auto
qed simp

lemma get16_bytes: "get16 (ucast n # ucast (drop_bit 8 n) # bs) 0 = n"
proof -
  have "get16 (put16 (0 # 0 # bs) 0 n) 0 = n" by (rule get16_put16) simp
  then show ?thesis by (simp add: put16_def)
qed

lemma mk_dirent_entry:
  assumes "length name \<le> DIRSIZ" "0 \<notin> set name" "unat n < 2 ^ 16" "take 16 (drop (16 * k) c) = mk_dirent n name"
  shows "dir_entry c k (unat n) name"
proof -
  have "unat (ucast n :: u16) = unat n" using assms(3) by (simp add: unsigned_ucast_eq take_bit_nat_eq_self)
  then show ?thesis using strncpy_obj_name [OF assms(1,2)]
    by (simp add: dir_entry_def assms(4) mk_dirent_def put_dirent_def get_dirent_def get16_bytes)
qed

lemma entries_nth:
  "j < length fs \<Longrightarrow> take 16 (drop (16 * j) (entries i fs)) = mk_dirent (ino (i + j)) (the (mk_shortname (fst (fs ! j))))"
proof (induction fs arbitrary: i j)
  case (Cons f fs)
  then show ?case by (cases j) simp_all
qed simp

text \<open>The name is the argument without \<open>user/\<close> and one underscore.\<close>
lemma mk_shortname_spec:
  assumes "mk_shortname arg = Some name"
  shows "arg \<in> {name, 95 # name, [117, 115, 101, 114, 47] @ name, [117, 115, 101, 114, 47, 95] @ name}" "length name \<le> DIRSIZ" "SLASH \<notin> set name"
proof -
  define n where "n = (if take 5 arg = [117, 115, 101, 114, 47] then drop 5 arg else arg)"
  have a: "arg = n \<or> arg = [117, 115, 101, 114, 47] @ n" unfolding n_def by (metis append_take_drop_id)
  have "SLASH \<notin> set n" "name = (case n of [] \<Rightarrow> [] | c # cs \<Rightarrow> if c = 95 then cs else c # cs)" "length name \<le> DIRSIZ"
    using assms by (auto simp: mk_shortname_def Let_def n_def [symmetric] split: if_splits)
  then show "arg \<in> {name, 95 # name, [117, 115, 101, 114, 47] @ name, [117, 115, 101, 114, 47, 95] @ name}" "length name \<le> DIRSIZ" "SLASH \<notin> set name"
    using a by (auto split: list.splits if_splits)
qed

text \<open>The directory: \<open>.\<close>, \<open>..\<close> and the files.\<close>
lemma root_entries:
  assumes "length fs \<le> 206" "\<forall>f \<in> set fs. mk_shortname (fst f) \<noteq> None \<and> 0 \<notin> set (fst f)"
  defines "c \<equiv> dots @ entries 1 fs"
  shows "dir_entry c 0 1 [46]" "dir_entry c 1 1 [46, 46]"
    "\<And>i. i < length fs \<Longrightarrow> dir_entry c (i + 2) (i + 2) (the (mk_shortname (fst (fs ! i))))"
proof -
  have d: "take 16 (drop (16 * 0) c) = mk_dirent ROOTINO [46]" "take 16 (drop (16 * 1) c) = mk_dirent ROOTINO [46, 46]"
    by (simp_all add: c_def dots_def)
  show "dir_entry c 0 1 [46]" using mk_dirent_entry [OF _ _ _ d(1)] by simp
  show "dir_entry c 1 1 [46, 46]" using mk_dirent_entry [OF _ _ _ d(2)] by simp
  fix i assume i: "i < length fs"
  then obtain name where n: "mk_shortname (fst (fs ! i)) = Some name" "0 \<notin> set (fst (fs ! i))" using assms(2) by fastforce
  have z: "0 \<notin> set name" using mk_shortname_spec(1) [OF n(1)] n(2) by auto
  have "16 * (i + 2) = 32 + 16 * i" by simp
  then have "take 16 (drop (16 * (i + 2)) c) = mk_dirent (ino (1 + i)) name"
    using entries_nth [OF i, of 1] n(1) by (simp only: c_def drop_append length_dots) simp
  moreover have "unat (ino (1 + i)) = i + 2" using unat_ino [of "1 + i"] i assms(1) by simp
  ultimately show "dir_entry c (i + 2) (i + 2) (the (mk_shortname (fst (fs ! i))))"
    using mk_dirent_entry [OF mk_shortname_spec(2) [OF n(1)] z, of "ino (1 + i)" "i + 2" c] i assms(1) n(1) by simp
qed

text \<open>(C18) When the files have proper names, fit the size of a file each and the image together, and are at most 206 (the inode blocks have no room for
  more), mkfs succeeds, and the kernel reads from the image what was put in.  The superblock in block 1 decodes to the layout: 2000 blocks, 31 of log from
  block 2, inodes from 33, the bitmap in 59.  Through it, inode 1 is a directory with \<open>.\<close> and \<open>..\<close> as inode 1 and each file under its
  name (the argument without \<open>user/\<close> and an underscore) as inode \<open>i + 2\<close>; inode \<open>i + 2\<close> is a regular file with the bytes of the
  \<open>i\<close>-th source file and that size, in direct and indirect blocks.  The bitmap marks exactly the blocks given out, no block belongs to two
  files, and the boot block and the log are zero, so that the log is empty.\<close>
theorem mkfs_image:
  assumes "length fs \<le> 206" "\<forall>f \<in> set fs. mk_shortname (fst f) \<noteq> None \<and> 0 \<notin> set (fst f) \<and> length (concat (snd f)) \<le> MAXFILE * BSIZE"
    "60 + blocks_for (16 * (length fs + 2)) + (\<Sum>f \<leftarrow> fs. blocks_for (length (concat (snd f)))) \<le> 2000"
  shows "\<exists>st c. mkfs fs = Some st
    \<and> unat (m_freeblock st) = 60 + blocks_for (16 * (length fs + 2)) + (\<Sum>f \<leftarrow> fs. blocks_for (length (concat (snd f))))
    \<and> get_sb (m_img st 1) = \<lparr>sb_magic = 0x10203040, sb_size = 2000, sb_nblocks = 1940, sb_ninodes = 200, sb_nlog = 31, sb_logstart = 2,
         sb_inodestart = 33, sb_bmapstart = 59\<rparr>
    \<and> length c = 16 * (length fs + 2) \<and> holds_file (m_img st) 1 T_DIR ((16 * (length fs + 2) div BSIZE + 1) * BSIZE) c
    \<and> dir_entry c 0 1 [46] \<and> dir_entry c 1 1 [46, 46]
    \<and> (\<forall>i < length fs. \<exists>name. fst (fs ! i) \<in> {name, 95 # name, [117, 115, 101, 114, 47] @ name, [117, 115, 101, 114, 47, 95] @ name}
          \<and> dir_entry c (i + 2) (i + 2) name
          \<and> holds_file (m_img st) (of_nat (i + 2)) T_FILE (length (concat (snd (fs ! i)))) (concat (snd (fs ! i))))
    \<and> (\<forall>b < BPB. bit_used (m_img st 59) b \<longleftrightarrow> b < unat (m_freeblock st))
    \<and> (\<forall>i \<le> length fs. let sz = (\<lambda>i. if i = 0 then 16 * (length fs + 2) else length (concat (snd (fs ! (i - 1)))));
            own = (\<lambda>i. image_blocks (m_img st) (of_nat (i + 1)) (sz i))
          in \<forall>b \<in> own i. 60 \<le> unat b \<and> unat b < unat (m_freeblock st) \<and> (\<forall>j \<le> length fs. j \<noteq> i \<longrightarrow> b \<notin> own j))
    \<and> (\<forall>b. unat b = 0 \<or> 2 \<le> unat b \<and> unat b < 33 \<longrightarrow> m_img st b = replicate BSIZE 0)"
proof -
  let ?c = "dots @ entries 1 fs"
  have nd: "need ((T_DIR, ?c) # map image_of fs) = 60 + blocks_for (16 * (length fs + 2)) + (\<Sum>f \<leftarrow> fs. blocks_for (length (concat (snd f))))"
    by (simp add: need_def meta_gap(1) o_def)
  have pf: "\<forall>f \<in> set fs. proper_file f" "\<forall>f \<in> set fs. mk_shortname (fst f) \<noteq> None \<and> 0 \<notin> set (fst f)" using assms(2) by blast+
  obtain st where st: "mkfs fs = Some st" "fbk st = need ((T_DIR, ?c) # map image_of fs)"
    using mkfs_succeeds [OF assms(1) pf(1)] assms(3) unfolding nd by blast
  note parts = mkfs_parts [OF st(1) assms(1)] and re = root_entries [OF assms(1) pf(2)]
  let ?v = "m_img st"
  have bm: "sb_bmapstart mk_sb = 59" by (simp add: mk_sb_values)
  have v1: "?v 1 = put_sb mk_sb (replicate BSIZE 0)" using parts(6) [rule_format, of 1] by (simp add: meta_gap bm)
  note im = image_inode_minode [of ?v, OF v1]
  have in1: "ino i = of_nat (i + 1)" for i by (simp add: ino_def)
  show ?thesis
  proof (intro exI [of _ st] exI [of _ ?c] conjI)
    show "get_sb (?v 1) = \<lparr>sb_magic = 0x10203040, sb_size = 2000, sb_nblocks = 1940, sb_ninodes = 200, sb_nlog = 31, sb_logstart = 2,
        sb_inodestart = 33, sb_bmapstart = 59\<rparr>" by (simp add: v1 get_sb_put_sb mk_sb_values)
    show "holds_file ?v 1 T_DIR ((16 * (length fs + 2) div BSIZE + 1) * BSIZE) ?c"
      using parts(1,2) unfolding image_file_def holds_file_def im by simp
    show "\<forall>i < length fs. \<exists>name. fst (fs ! i) \<in> {name, 95 # name, [117, 115, 101, 114, 47] @ name, [117, 115, 101, 114, 47, 95] @ name}
        \<and> dir_entry ?c (i + 2) (i + 2) name \<and> holds_file ?v (of_nat (i + 2)) T_FILE (length (concat (snd (fs ! i)))) (concat (snd (fs ! i)))"
    proof (intro allI impI)
      fix i assume i: "i < length fs"
      then obtain name where n: "mk_shortname (fst (fs ! i)) = Some name" using assms(2) by fastforce
      have "holds_file ?v (ino (i + 1)) T_FILE (length (concat (snd (fs ! i)))) (concat (snd (fs ! i)))"
        using parts(3) [rule_format, OF i] unfolding image_file_def holds_file_def im by simp
      then show "\<exists>name. fst (fs ! i) \<in> {name, 95 # name, [117, 115, 101, 114, 47] @ name, [117, 115, 101, 114, 47, 95] @ name}
        \<and> dir_entry ?c (i + 2) (i + 2) name \<and> holds_file ?v (of_nat (i + 2)) T_FILE (length (concat (snd (fs ! i)))) (concat (snd (fs ! i)))"
        using re(3) [OF i] mk_shortname_spec(1) [OF n] n unfolding in1 by (intro exI [of _ name]) (simp add: numeral_2_eq_2)
    qed
    show "\<forall>b < BPB. bit_used (?v 59) b \<longleftrightarrow> b < fbk st" using parts(4) by (simp add: mk_sb_values)
    show "\<forall>b. unat b = 0 \<or> 2 \<le> unat b \<and> unat b < 33 \<longrightarrow> ?v b = replicate BSIZE 0"
    proof (intro allI impI)
      fix b :: u32 assume b: "unat b = 0 \<or> 2 \<le> unat b \<and> unat b < 33"
      then have "b \<noteq> 1" "b \<noteq> 59" by auto
      moreover have "unat b < 60 \<and> \<not> (33 \<le> unat b \<and> unat b < 59)" using b by linarith
      ultimately show "?v b = replicate BSIZE 0" using parts(6) [rule_format, of b] by (simp add: meta_gap bm)
    qed
    show "\<forall>i \<le> length fs. let sz = (\<lambda>i. if i = 0 then 16 * (length fs + 2) else length (concat (snd (fs ! (i - 1)))));
            own = (\<lambda>i. image_blocks ?v (of_nat (i + 1)) (sz i))
          in \<forall>b \<in> own i. 60 \<le> unat b \<and> unat b < fbk st \<and> (\<forall>j \<le> length fs. j \<noteq> i \<longrightarrow> b \<notin> own j)"
    proof -
      have "owner fs st i = image_blocks ?v (of_nat (i + 1)) (if i = 0 then 16 * (length fs + 2) else length (concat (snd (fs ! (i - 1)))))" if "i \<le> length fs" for i
        using that by (cases i) (simp_all add: owner_def blocks_of_def image_blocks_def im in1)
      then show ?thesis using parts(5) meta_gap(1) by (simp add: Let_def)
    qed
  qed (use st nd re in simp_all)
qed

text \<open>The files \<open>user/_ls\<close> with four bytes in two pieces and \<open>log\<close> with 7000 bytes, which needs the block of indirect addresses.\<close>
theorem mkfs_image_witness:
  "\<exists>st c. mkfs [([117, 115, 101, 114, 47, 95, 108, 115], [[1, 2, 3], [4]]), ([108, 111, 103], [replicate 7000 9])] = Some st
    \<and> unat (m_freeblock st) = 77 \<and> sb_inodestart (get_sb (m_img st 1)) = 33 \<and> holds_file (m_img st) 1 T_DIR 512 c \<and> dir_entry c 0 1 [46]
    \<and> holds_file (m_img st) 2 T_FILE 4 [1, 2, 3, 4] \<and> holds_file (m_img st) 3 T_FILE 7000 (replicate 7000 9)"
proof -
  let ?fs = "[([117, 115, 101, 114, 47, 95, 108, 115], [[1, 2, 3], [4]]), ([108, 111, 103], [replicate 7000 9])] :: (u8 list \<times> u8 list list) list"
  have n: "60 + blocks_for (16 * (length ?fs + 2)) + (\<Sum>f \<leftarrow> ?fs. blocks_for (length (concat (snd f)))) = 77" by (simp add: blocks_for_def nblk_def)
  have p: "\<forall>f \<in> set ?fs. mk_shortname (fst f) \<noteq> None \<and> 0 \<notin> set (fst f) \<and> length (concat (snd f)) \<le> MAXFILE * BSIZE"
    by (simp add: mk_shortname_def SLASH_def Let_def)
  have l: "length ?fs \<le> 206" by simp
  have m: "60 + blocks_for (16 * (length ?fs + 2)) + (\<Sum>f \<leftarrow> ?fs. blocks_for (length (concat (snd f)))) \<le> 2000" unfolding n by simp
  from mkfs_image [OF l p m, unfolded n] obtain st c where st: "mkfs ?fs = Some st" "unat (m_freeblock st) = 77" "sb_inodestart (get_sb (m_img st 1)) = 33"
    "holds_file (m_img st) 1 T_DIR ((16 * (length ?fs + 2) div BSIZE + 1) * BSIZE) c" "dir_entry c 0 1 [46]"
    "\<forall>i < length ?fs. holds_file (m_img st) (of_nat (i + 2)) T_FILE (length (concat (snd (?fs ! i)))) (concat (snd (?fs ! i)))"
    by (elim exE conjE) (rule that, assumption+, simp, assumption+, blast)
  have "holds_file (m_img st) (of_nat (0 + 2)) T_FILE (length (concat (snd (?fs ! 0)))) (concat (snd (?fs ! 0)))"
    "holds_file (m_img st) (of_nat (1 + 2)) T_FILE (length (concat (snd (?fs ! 1)))) (concat (snd (?fs ! 1)))"
    by (rule st(6) [rule_format], simp)+
  moreover have "Suc (Suc (Suc (Suc 0))) = 4" by simp
  ultimately show ?thesis using st(1-5) by (intro exI [of _ st] exI [of _ c]) simp
qed

end
