(* ===== verification/Spec2Isabelle.thy ===== *)
theory Spec2Isabelle
  imports KV_String KV_State KV_Spinlock KV_Kalloc KV_PageTable KV_Log KV_FileData KV_Trap KV_Boot KV_Shell KV_Grep KV_Memtest KV_Umalloc
    KV_SdBoot KV_Mkfs
begin

text \<open>
  A verification library for the C sources of KianV, a family of RISC-V systems on chip.  It
  models the operating system kernel of the repository, the 32-bit port of xv6 in
  src/linux_socs/kianv_mc_rv32ima_sv32/os/xv6/kernel (paths below are relative to os/xv6), its shell and grep, the
  builder of its file system image, and the boot loaders that test the memory and bring the image from the card into it.

  \<^bold>\<open>The program.\<close>  The kernel runs on one hart with Sv32 paging and a block device behind an
  SPI interface.  Its layers, bottom up: byte and string routines; spin locks; the page allocator; page
  tables and copies between user and kernel memory; pipes; sleep locks; the buffer cache over the
  card; the write-ahead log over the cache; the file system over the log; console and UART; open
  files; processes and the scheduler; exec; system calls; traps.

  \<^bold>\<open>State and control.\<close>  \<open>KV_State\<close> has one record \<open>kstate\<close> for the global variables of all
  files, with the structures of kernel/*.h as records and the enumerations as datatypes.  A C
  function is a value of the state monad \<open>'a K\<close>; its outcome is a result, a panic with
  the source's message, a switch to the scheduler (the caller sleeps), or divergence.  Code after a
  \<open>sleep\<close> is a separate definition (\<open>..._resume\<close>) that starts where the sleeper wakes up, so that an
  interleaving of processes is a sequence of runs.  Integers keep their width: 32-bit words
  wrap as on the machine, C \<open>int\<close> values that do not wrap are \<open>int\<close>, table indices are
  \<open>nat\<close>.  Memory is a function from 32-bit addresses to bytes.

  \<^bold>\<open>Theories.\<close>

  \<^item> \<open>KV_Prelude\<close>: integer types, loads and stores, page rounding, search in lists, the locale
    \<open>invariant_system\<close> (an invariant that every step keeps holds in every reachable state).

  \<^item> \<open>KV_String\<close> (kernel/string.c, user/ulib.c): the memory and string loops.  \<open>memmove\<close> copies overlapping
    ranges correctly, its two implementations agree, \<open>safestrcpy\<close> always terminates the
    copy, \<open>strncmp\<close> decides equality of the first \<open>n\<close> bytes.

  \<^item> \<open>KV_State\<close>: state, monad, and \<open>preserves\<close>, the calculus of what a function leaves unchanged.

  \<^item> \<open>KV_Spinlock\<close> (kernel/spinlock.c): the lock words and interrupt counters of several
    harts, as functions and, at the grain of single memory accesses, as the relation \<open>lock_step\<close>.  Mutual
    exclusion and the meaning of \<open>noff\<close> (interrupts are off while it is positive, also while a hart spins) hold in every reachable state; the set of held locks
    that the other theories use is refined by this code.

  \<^item> \<open>KV_Kalloc\<close> (kernel/kalloc.c): the free list lies in the free pages.  The locale
    \<open>page_allocator\<close> states the contract (a page handed out was free and no longer is),
    interpreted by \<open>kalloc\<close> and \<open>kfree\<close>; \<open>kinit\<close> establishes it for all of memory.

  \<^item> \<open>KV_Vm\<close> (kernel/vm.c) has the functions, \<open>KV_PageTable\<close> what they do to an address space
    seen as a map from virtual pages to entries: \<open>mappages\<close> with its panics, \<open>uvmunmap\<close>, and that \<open>uvmfree\<close> returns every page to
    the allocator.

  \<^item> \<open>KV_Pipe\<close> (kernel/pipe.c): the locale \<open>byte_queue\<close> is a bounded queue, which the ring
    buffer implements also when its counters wrap; \<open>pipewrite\<close> and \<open>piperead\<close> on top of it, with blocking and
    with the bytes at the user's addresses.

  \<^item> \<open>KV_Sleeplock\<close> (kernel/sleeplock.c), \<open>KV_Bio\<close> (kernel/bio.c): the doubly linked list of buffers.
    The locale \<open>block_cache\<close> says that reading a block gives the newest contents and that other
    blocks are not disturbed, interpreted by \<open>bread\<close>, \<open>bwrite\<close>, \<open>brelse\<close>.

  \<^item> \<open>KV_Log\<close> (kernel/log.c): the crash model is a prefix of the sequence of block writes, each of
    them atomic, followed by \<open>recover_from_log\<close> on an empty cache.  A transaction is either fully on the card or
    not at all; the space reservation of \<open>begin_op\<close> keeps the log from overflowing over any
    interleaving of operations (\<open>log_step\<close>); the header encoding is a round trip; and a transaction
    that uses the whole log makes \<open>commit\<close> panic, because cache and log have the same size.

  \<^item> \<open>KV_Fs\<close> (kernel/fs.c) has the functions; \<open>KV_FsBlocks\<close> what \<open>balloc\<close> and \<open>bfree\<close> do to the
    free map, \<open>KV_Inode\<close> the on-disk inode round trip, uniqueness of in-memory inodes and the
    components of path names.  \<open>KV_FileData\<close> is the refinement of a file's blocks by its bytes: what \<open>writei\<close> writes,
    \<open>readi\<close> returns, across block boundaries and through cache and log, with every other byte and the block map as before.

  \<^item> \<open>KV_Printf\<close> (kernel/printf.c), \<open>KV_Console\<close> (kernel/console.c, kernel/uart.c): number formatting reads
    back; line editing never touches a completed line, and the kill-line loop ends.

  \<^item> \<open>KV_File\<close> (kernel/file.c, \<open>pipealloc\<close>), \<open>KV_Proc\<close> (kernel/proc.c): a scheduler pass runs every
    runnable process once and in table order.

  \<^item> \<open>KV_Exec\<close> (kernel/exec.c): the argument strings lie inside the stack page, aligned and disjoint.

  \<^item> \<open>KV_Syscall\<close> (kernel/syscall.c, sysproc.c, sysfile.c): all system calls; \<open>dup\<close> returns the
    lowest free descriptor, and the lazy \<open>sbrk\<close> lets a process grow so far that freeing its address space panics.

  \<^item> \<open>KV_Trap\<close> (kernel/trap.c, part of kernel/plic.c): traps and interrupts.

  \<^item> \<open>KV_Boot\<close> (os/xv6/rle_encoder.c, the bootloader.c of kianv_mc_rv32ima_sv32 and LinuxSoC_v2, kianv_io_utils.c):
    the locale \<open>rle_loader\<close> is what both loaders do with an image that fits, interpreted by each; a compressed
    image is restored exactly, the newer loader stays inside the memory, and the 64-bit division is
    characterised, including where it is wrong.

  \<^item> \<open>KV_Sdcard\<close> (kernel/sdcard.c): the driver as a sequence of byte exchanges over SPI, with any card.  A card that keeps the
    contract \<open>sd_spi_card\<close> makes \<open>spi_rb\<close> and \<open>spi_wb\<close> the read and the write of the block device that \<open>KV_Bio\<close> builds on.

  \<^item> \<open>KV_SdBoot\<close> (sd.c, spi.c, timer.c and the clock of kianv_io_utils.c beside the bootloader.c of LinuxSoC_v2): the card protocol of the
    loader with its time limits.  While the clock runs, every call returns, whatever the card answers, and with a card that keeps the contract the loader
    puts the image into memory; where the clock saturates, starting the card up does not return.

  \<^item> \<open>KV_Mkfs\<close> (mkfs/mkfs.c): the builder of the file system image.  It succeeds when the files fit, and the decoders of \<open>KV_Fs\<close> read
    from the image the superblock, the directory entries, the inodes, the contents and the free map; the log is empty.

  \<^item> \<open>KV_Memtest\<close> (LinuxSoC_v2/engineering/bootloader/bootloader.c): the SDRAM tests over an arbitrary memory.  A good memory
    passes; one with a stuck bit, or with two tested addresses that select the same word, is rejected.

  \<^item> \<open>KV_Shell\<close> (user/sh.c): tokens, the recursive-descent parser, the termination of the words in place, and the
    system calls of \<open>runcmd\<close> on a table of descriptors.  The parser ends on every line; the words are those
    typed; the executions of the script (\<open>runs\<close>), with any calls failing, start programs with exactly the descriptors 0, 1 and 2,
    connected by the pipes of the line (\<open>plumbed\<close>).

  \<^item> \<open>KV_Grep\<close> (user/grep.c): the matcher decides the language of its pattern, and the loop over a
    refilled buffer prints the matching lines, however \<open>read\<close> cuts the input, up to the first NUL byte or overlong line.

  \<^item> \<open>KV_Umalloc\<close> (user/umalloc.c): the circular list of free blocks, over any \<open>sbrk\<close> that moves the break up or fails.  In every state
    that requests and frees can reach, blocks in use are disjoint and the free list holds the rest of the memory obtained; both
    operations end.  Their loops are partial functions, so that ending is part of the statement.

  \<^bold>\<open>Bounds.\<close>  The list walks of the buffer cache take \<open>NBUF + 1\<close> steps at most (the list and its
    head), \<open>freewalk\<close> has depth 2 (the levels of Sv32), \<open>mappages\<close>, \<open>uvmalloc\<close> and \<open>uvmcopy\<close> one step
  per page of their range, kill-line one step per byte of the input buffer.  The shell's parser gets four nested calls per byte of the line and four
  more: each round of its four functions consumes a byte.  The loops of the kernel's card driver that wait for an answer have the limits of the source
  (10, 100000 and 1000000 bytes); those of the loader, limited by a clock, are partial functions.  Running out is
  \<open>Diverge\<close>, or for kill-line the end of the loop, and the functional theorems show that it does not
  happen.

  \<^bold>\<open>Environment.\<close>  Above \<open>KV_Bio\<close> the card is a function from block numbers to blocks; below it a state with one step per byte exchanged, of which
  \<open>sd_spi_card\<close> states what the theorems need.  The hardware below the clock of the loader is the cycle counter, read
  in two halves, and the frequency register; \<open>clock_ok\<close> says how they count.  The symbols of the linker script
  are the record \<open>link\<close>.  Device registers read by handlers are arguments (\<open>hwinput\<close>), and so is what
  \<open>sd_readsector\<close> delivers to the loaders of \<open>KV_Boot\<close>.

  \<^bold>\<open>Not modelled.\<close>  The machine-mode start-up code and the order of the initialisers in main.c (register writes with no result to compute),
  the baud rate set-up of the UART, the assembly files, and the text of diagnostic messages.  Outside the kernel: the other user programs and
  the test programs, the prompt and the allocation of the shell, the clock dividers and the output of the boot loaders, the Zephyr driver,
  the demonstration programs, and the hardware description in Verilog.  Of the modelled functions without a functional theorem the largest
  are the directory operations of fs.c and sysfile.c, \<open>exec\<close> as a whole, and the allocating paths of \<open>bmap\<close>.
\<close>

end
